(* ===== verification/Prelude.thy ===== *)
theory Prelude
  imports Main "HOL-Library.Word"
begin

unbundle bit_operations_syntax

text \<open>
  Shared vocabulary of the development: the machine types of the C sources (bytes, 32 and 64 bit
  unsigned integers), the fact collections \<open>u64_arith\<close> (moving 64 bit arithmetic that does not
  overflow to natural numbers), \<open>codec_simps\<close> (byte-level encodings) and \<open>run_simps\<close> (unfolding the
  return-code plumbing), and the generic lemmas on lists and words the components share.
\<close>

section \<open>Machine types\<close>

type_synonym byte = "8 word"
type_synonym u32 = "32 word"
type_synonym u64 = "64 word"
type_synonym bytes = "byte list"

named_theorems u64_arith "64 bit arithmetic without overflow, as arithmetic on natural numbers"
named_theorems codec_simps "sizes and round trips of byte encodings"
named_theorems run_simps "unfolding rules for return codes and state passing"

section \<open>Lists\<close>

lemma take_append_exact [simp]: "length xs = n \<Longrightarrow> take n (xs @ ys) = xs"
  by simp

lemma drop_append_exact [simp]: "length xs = n \<Longrightarrow> drop n (xs @ ys) = ys"
  by simp

lemma take_drop_append_mid:
  "take (length ys) (drop (length xs) (xs @ ys @ zs)) = ys"
  by simp

text \<open>Overwriting a run of list elements, the effect of \<open>memcpy\<close> and \<open>write\<close> on an array.\<close>

definition splice_at :: "'a list \<Rightarrow> nat \<Rightarrow> 'a list \<Rightarrow> 'a list" where
  "splice_at xs pos ys = take pos xs @ ys @ drop (pos + length ys) xs"

lemma length_splice_at:
  "pos + length ys \<le> length xs \<Longrightarrow> length (splice_at xs pos ys) = length xs"
  by (simp add: splice_at_def)

lemma splice_at_end [simp]: "splice_at xs (length xs) ys = xs @ ys"
  by (simp add: splice_at_def)

lemma splice_at_append:
  assumes "pos \<le> length xs"
  shows "splice_at (splice_at xs pos ys) (pos + length ys) zs = splice_at xs pos (ys @ zs)"
  using assms by (simp add: splice_at_def min_def ac_simps)

lemma take_splice_at_before:
  assumes "pos \<le> length xs" "n \<le> pos"
  shows "take n (splice_at xs pos ys) = take n xs"
  using assms by (simp add: splice_at_def min_def)

lemma nth_splice_at:
  assumes "pos + length ys \<le> length xs" "i < length xs"
  shows "splice_at xs pos ys ! i = (if pos \<le> i \<and> i < pos + length ys then ys ! (i - pos) else xs ! i)"
  using assms by (auto simp: splice_at_def nth_append)

lemma take_drop_splice_at_same:
  assumes "pos + length ys \<le> length xs"
  shows "take (length ys) (drop pos (splice_at xs pos ys)) = ys"
  using assms by (simp add: splice_at_def)

lemma take_drop_splice_at_other:
  assumes "pos + length ys \<le> length xs" "q + n \<le> length xs"
    and "q + n \<le> pos \<or> pos + length ys \<le> q"
  shows "take n (drop q (splice_at xs pos ys)) = take n (drop q xs)"
proof (rule nth_equalityI)
  show "length (take n (drop q (splice_at xs pos ys))) = length (take n (drop q xs))"
    using assms by (simp add: length_splice_at)
next
  fix i
  assume "i < length (take n (drop q (splice_at xs pos ys)))"
  then have "i < n" by simp
  then show "take n (drop q (splice_at xs pos ys)) ! i = take n (drop q xs) ! i"
    using assms by (auto simp: length_splice_at nth_splice_at)
qed

section \<open>Words\<close>

lemma unat_add_u64 [u64_arith]:
  fixes a b :: u64
  assumes "unat a + unat b < 2 ^ 64"
  shows "unat (a + b) = unat a + unat b"
  using assms by (simp add: unat_word_ariths)

lemma unat_add_mod_u64:
  fixes a b :: u64
  shows "unat (a + b) = (unat a + unat b) mod 2 ^ 64"
  by (simp add: unat_word_ariths)

lemma unat_of_nat_u64 [u64_arith]:
  "n < 2 ^ 64 \<Longrightarrow> unat (of_nat n :: u64) = n"
  by (simp add: unat_of_nat)

lemma unat_sub_u64 [u64_arith]:
  fixes a b :: u64
  assumes "unat b \<le> unat a"
  shows "unat (a - b) = unat a - unat b"
  using assms by (simp add: unat_sub word_le_nat_alt)

lemma unat_mult_u64 [u64_arith]:
  fixes a b :: u64
  assumes "unat a * unat b < 2 ^ 64"
  shows "unat (a * b) = unat a * unat b"
  using assms by (simp add: unat_word_ariths)

lemma unat_lt_u64 [simp]: "unat (x :: u64) < 18446744073709551616"
  using unsigned_less [where ?'a = nat and w = x] by simp

lemma unat_lt_u32 [simp]: "unat (x :: u32) < 4294967296"
  using unsigned_less [where ?'a = nat and w = x] by simp

lemma unat_lt_byte [simp]: "unat (x :: byte) < 256"
  using unsigned_less [where ?'a = nat and w = x] by simp

lemma unat_ucast_up:
  fixes x :: "'a :: len word"
  assumes "LENGTH('a) \<le> LENGTH('b :: len)"
  shows "unat (ucast x :: 'b word) = unat x"
proof -
  have "unat x < 2 ^ LENGTH('b)"
    using unsigned_less [where ?'a = nat and w = x] assms
    by (meson one_le_numeral order_less_le_trans power_increasing)
  then show ?thesis
    by (simp add: unsigned_ucast_eq take_bit_nat_eq_self)
qed

lemma unat_ucast_u32_u64 [simp]: "unat (ucast (x :: u32) :: u64) = unat x"
  by (rule unat_ucast_up) simp

lemma unat_ucast_byte_u64 [simp]: "unat (ucast (x :: byte) :: u64) = unat x"
  by (rule unat_ucast_up) simp

lemma unat_ucast_byte_u32 [simp]: "unat (ucast (x :: byte) :: u32) = unat x"
  by (rule unat_ucast_up) simp

lemma of_nat_unat_u64 [simp]: "of_nat (unat (x :: u64)) = x"
  by simp

lemma u64_eq_iff_unat: "(a :: u64) = b \<longleftrightarrow> unat a = unat b"
  by (simp add: word_unat_eq_iff)

lemma unat_of_nat_length_u64 [u64_arith]:
  "length xs < 2 ^ 64 \<Longrightarrow> unat (of_nat (length xs) :: u64) = length xs"
  by (rule unat_of_nat_u64)

text \<open>Signed comparison of values in the lower half of the range.\<close>

lemma sint_unat_u32:
  assumes "unat (x :: u32) < 2 ^ 31"
  shows "sint x = int (unat x)"
proof -
  have u: "uint x < 2 ^ 31" using assms by (metis of_nat_less_iff of_nat_numeral of_nat_power uint_nat)
  have "sint (word_of_int (uint x) :: u32) = (uint x + 2 ^ 31) mod 2 ^ 32 - 2 ^ 31"
    by (simp only: int_word_sint) simp
  moreover have "(uint x + 2 ^ 31) mod 2 ^ 32 = uint x + 2 ^ 31"
    using u by (intro mod_pos_pos_trivial) simp_all
  ultimately show ?thesis by (simp add: uint_nat [symmetric])
qed

lemma sint_less_u32:
  assumes "unat (x :: u32) < 2 ^ 31" "unat (y :: u32) < 2 ^ 31"
  shows "sint x < sint y \<longleftrightarrow> unat x < unat y"
  using assms by (simp only: sint_unat_u32 of_nat_less_iff)

end
