(* ===== verification/Returncodes.thy ===== *)
theory Returncodes
  imports Prelude
begin

text \<open>
  Return codes and small utilities: the enum of \<open>src/src/sparkey.h\<close>, \<open>src/src/returncodes.c\<close>, the
  errno translations and file-name helpers of \<open>src/src/util.c\<close>, and the \<open>RETHROW\<close>/\<open>TRY\<close> macros of
  \<open>src/src/util.h\<close> as combinators on return-code carrying results.
\<close>

section \<open>Return codes\<close>

datatype sparkey_returncode =
    SPARKEY_SUCCESS
  | SPARKEY_INTERNAL_ERROR
  | SPARKEY_FILE_NOT_FOUND
  | SPARKEY_PERMISSION_DENIED
  | SPARKEY_TOO_MANY_OPEN_FILES
  | SPARKEY_FILE_TOO_LARGE
  | SPARKEY_FILE_ALREADY_EXISTS
  | SPARKEY_FILE_BUSY
  | SPARKEY_FILE_IS_DIRECTORY
  | SPARKEY_FILE_SIZE_EXCEEDED
  | SPARKEY_FILE_CLOSED
  | SPARKEY_OUT_OF_DISK
  | SPARKEY_UNEXPECTED_EOF
  | SPARKEY_MMAP_FAILED
  | SPARKEY_WRONG_LOG_MAGIC_NUMBER
  | SPARKEY_WRONG_LOG_MAJOR_VERSION
  | SPARKEY_UNSUPPORTED_LOG_MINOR_VERSION
  | SPARKEY_LOG_TOO_SMALL
  | SPARKEY_LOG_CLOSED
  | SPARKEY_LOG_ITERATOR_INACTIVE
  | SPARKEY_LOG_ITERATOR_MISMATCH
  | SPARKEY_LOG_ITERATOR_CLOSED
  | SPARKEY_LOG_HEADER_CORRUPT
  | SPARKEY_INVALID_COMPRESSION_BLOCK_SIZE
  | SPARKEY_INVALID_COMPRESSION_TYPE
  | SPARKEY_WRONG_HASH_MAGIC_NUMBER
  | SPARKEY_WRONG_HASH_MAJOR_VERSION
  | SPARKEY_UNSUPPORTED_HASH_MINOR_VERSION
  | SPARKEY_HASH_TOO_SMALL
  | SPARKEY_HASH_CLOSED
  | SPARKEY_FILE_IDENTIFIER_MISMATCH
  | SPARKEY_HASH_HEADER_CORRUPT
  | SPARKEY_HASH_SIZE_INVALID

text \<open>The numeric values the enum gives its constants.\<close>

fun returncode_value :: "sparkey_returncode \<Rightarrow> int" where
  "returncode_value SPARKEY_SUCCESS = 0"
| "returncode_value SPARKEY_INTERNAL_ERROR = - 1"
| "returncode_value SPARKEY_FILE_NOT_FOUND = - 100"
| "returncode_value SPARKEY_PERMISSION_DENIED = - 101"
| "returncode_value SPARKEY_TOO_MANY_OPEN_FILES = - 102"
| "returncode_value SPARKEY_FILE_TOO_LARGE = - 103"
| "returncode_value SPARKEY_FILE_ALREADY_EXISTS = - 104"
| "returncode_value SPARKEY_FILE_BUSY = - 105"
| "returncode_value SPARKEY_FILE_IS_DIRECTORY = - 106"
| "returncode_value SPARKEY_FILE_SIZE_EXCEEDED = - 107"
| "returncode_value SPARKEY_FILE_CLOSED = - 108"
| "returncode_value SPARKEY_OUT_OF_DISK = - 109"
| "returncode_value SPARKEY_UNEXPECTED_EOF = - 110"
| "returncode_value SPARKEY_MMAP_FAILED = - 111"
| "returncode_value SPARKEY_WRONG_LOG_MAGIC_NUMBER = - 200"
| "returncode_value SPARKEY_WRONG_LOG_MAJOR_VERSION = - 201"
| "returncode_value SPARKEY_UNSUPPORTED_LOG_MINOR_VERSION = - 202"
| "returncode_value SPARKEY_LOG_TOO_SMALL = - 203"
| "returncode_value SPARKEY_LOG_CLOSED = - 204"
| "returncode_value SPARKEY_LOG_ITERATOR_INACTIVE = - 205"
| "returncode_value SPARKEY_LOG_ITERATOR_MISMATCH = - 206"
| "returncode_value SPARKEY_LOG_ITERATOR_CLOSED = - 207"
| "returncode_value SPARKEY_LOG_HEADER_CORRUPT = - 208"
| "returncode_value SPARKEY_INVALID_COMPRESSION_BLOCK_SIZE = - 209"
| "returncode_value SPARKEY_INVALID_COMPRESSION_TYPE = - 210"
| "returncode_value SPARKEY_WRONG_HASH_MAGIC_NUMBER = - 300"
| "returncode_value SPARKEY_WRONG_HASH_MAJOR_VERSION = - 301"
| "returncode_value SPARKEY_UNSUPPORTED_HASH_MINOR_VERSION = - 302"
| "returncode_value SPARKEY_HASH_TOO_SMALL = - 303"
| "returncode_value SPARKEY_HASH_CLOSED = - 304"
| "returncode_value SPARKEY_FILE_IDENTIFIER_MISMATCH = - 305"
| "returncode_value SPARKEY_HASH_HEADER_CORRUPT = - 306"
| "returncode_value SPARKEY_HASH_SIZE_INVALID = - 307"

definition sparkey_errstring :: "int \<Rightarrow> string" where
  "sparkey_errstring code =
     (if code = returncode_value SPARKEY_SUCCESS then ''Success''
      else if code = returncode_value SPARKEY_INTERNAL_ERROR then ''Internal error''
      else if code = returncode_value SPARKEY_FILE_NOT_FOUND then ''File not found''
      else if code = returncode_value SPARKEY_PERMISSION_DENIED then ''Permission denied''
      else if code = returncode_value SPARKEY_TOO_MANY_OPEN_FILES then ''Too many open files''
      else if code = returncode_value SPARKEY_FILE_TOO_LARGE then ''File is too large''
      else if code = returncode_value SPARKEY_FILE_ALREADY_EXISTS then ''File already exists''
      else if code = returncode_value SPARKEY_FILE_BUSY then ''File is busy''
      else if code = returncode_value SPARKEY_FILE_IS_DIRECTORY then ''File is a directory''
      else if code = returncode_value SPARKEY_FILE_SIZE_EXCEEDED then ''Maximum file size exceeded''
      else if code = returncode_value SPARKEY_FILE_CLOSED then ''File is closed''
      else if code = returncode_value SPARKEY_OUT_OF_DISK then ''Out of free disk space''
      else if code = returncode_value SPARKEY_UNEXPECTED_EOF then ''Encountered unexpected end of file''
      else if code = returncode_value SPARKEY_MMAP_FAILED then ''mmap failed - running on 32 bit system?''
      else if code = returncode_value SPARKEY_WRONG_LOG_MAGIC_NUMBER then ''Wrong magic number of log file''
      else if code = returncode_value SPARKEY_WRONG_LOG_MAJOR_VERSION then ''Wrong major version of log file''
      else if code = returncode_value SPARKEY_UNSUPPORTED_LOG_MINOR_VERSION then ''Unsupported minor version of log file''
      else if code = returncode_value SPARKEY_LOG_TOO_SMALL then ''Corrupt log file - smaller than the header indicates''
      else if code = returncode_value SPARKEY_LOG_CLOSED then ''Log file is closed''
      else if code = returncode_value SPARKEY_LOG_ITERATOR_INACTIVE then ''Log iterator is inactive''
      else if code = returncode_value SPARKEY_LOG_ITERATOR_MISMATCH then ''The iterator is not associated with the log''
      else if code = returncode_value SPARKEY_LOG_ITERATOR_CLOSED then ''Log iterator is closed''
      else if code = returncode_value SPARKEY_LOG_HEADER_CORRUPT then ''Log header is corrupt''
      else if code = returncode_value SPARKEY_INVALID_COMPRESSION_BLOCK_SIZE then ''Invalid compression block size''
      else if code = returncode_value SPARKEY_INVALID_COMPRESSION_TYPE then ''Invalid compression type''
      else if code = returncode_value SPARKEY_WRONG_HASH_MAGIC_NUMBER then ''Wrong magic number of hash file''
      else if code = returncode_value SPARKEY_WRONG_HASH_MAJOR_VERSION then ''Wrong major version of hash file''
      else if code = returncode_value SPARKEY_UNSUPPORTED_HASH_MINOR_VERSION then ''Unsupported minor version of hash file''
      else if code = returncode_value SPARKEY_HASH_TOO_SMALL then ''Corrupt hash file - smaller than the header indicates''
      else if code = returncode_value SPARKEY_HASH_CLOSED then ''Hash file is closed''
      else if code = returncode_value SPARKEY_FILE_IDENTIFIER_MISMATCH then ''File identifier differs between hash file and log file''
      else if code = returncode_value SPARKEY_HASH_HEADER_CORRUPT then ''Hash header is corrupt''
      else if code = returncode_value SPARKEY_HASH_SIZE_INVALID then ''Hash size is invalid''
      else ''Unknown error'')"

lemma returncode_value_inject: "returncode_value a = returncode_value b \<longleftrightarrow> a = b"
  by (cases a; cases b) simp_all

section \<open>Results: RETHROW and TRY\<close>

text \<open>
  A C function that returns a \<open>sparkey_returncode\<close> and mutates its arguments is modelled by a function
  into \<open>'s result\<close>: the return code together with the state it leaves behind, also on errors. \<open>None\<close>
  is "no defined outcome": a loop that never ends, or a read outside the memory the code owns.
\<close>

type_synonym 's result = "(sparkey_returncode \<times> 's) option"

text \<open>
  \<open>RETHROW(f)\<close>: run \<open>f\<close>; on any code but success the surrounding function returns that code. The
  second argument says what state the surrounding function leaves when it returns early.
\<close>

definition rethrow :: "'a result \<Rightarrow> ('a \<Rightarrow> 'b) \<Rightarrow> ('a \<Rightarrow> 'b result) \<Rightarrow> 'b result" where
  "rethrow m err k =
     Option.bind m (\<lambda>(rc, a). if rc = SPARKEY_SUCCESS then k a else Some (rc, err a))"

text \<open>The same macro for functions whose result is discarded on errors (\<open>TRY\<close> into a cleanup label).\<close>

definition rethrow_sum :: "sparkey_returncode + 'a \<Rightarrow> ('a \<Rightarrow> sparkey_returncode + 'b) \<Rightarrow> sparkey_returncode + 'b" where
  "rethrow_sum m k = (case m of Inl rc \<Rightarrow> Inl rc | Inr a \<Rightarrow> k a)"

lemma rethrow_None [run_simps, simp]: "rethrow None err k = None"
  by (simp add: rethrow_def)

lemma rethrow_Success [run_simps, simp]: "rethrow (Some (SPARKEY_SUCCESS, a)) err k = k a"
  by (simp add: rethrow_def)

lemma rethrow_Error [run_simps]:
  "rc \<noteq> SPARKEY_SUCCESS \<Longrightarrow> rethrow (Some (rc, a)) err k = Some (rc, err a)"
  by (simp add: rethrow_def)

lemma rethrow_SuccessE:
  assumes "rethrow m err k = Some (SPARKEY_SUCCESS, b)"
  obtains a where "m = Some (SPARKEY_SUCCESS, a)" "k a = Some (SPARKEY_SUCCESS, b)"
  using assms by (auto simp: rethrow_def bind_eq_Some_conv split: if_splits)

lemma rethrow_sum_simps [run_simps, simp]:
  "rethrow_sum (Inl rc) k = Inl rc" "rethrow_sum (Inr a) k = k a"
  by (simp_all add: rethrow_sum_def)

lemma rethrow_mono [partial_function_mono]:
  assumes B: "mono_option B" and C: "\<And>y. mono_option (\<lambda>f. C y f)"
  shows "mono_option (\<lambda>f. rethrow (B f) err (\<lambda>y. C y f))"
  unfolding rethrow_def
proof (rule bind_mono [OF B])
  fix y
  show "mono_option (\<lambda>f. (\<lambda>(rc, a). if rc = SPARKEY_SUCCESS then C a f else Some (rc, err a)) y)"
  proof (cases y)
    case (Pair rc a)
    show ?thesis
      unfolding Pair prod.case
      by (cases "rc = SPARKEY_SUCCESS") (simp_all add: C option.const_mono)
  qed
qed

section \<open>Translating errno\<close>

datatype errno =
    EPERM | EACCES | ENFILE | EMFILE | ENOENT | EOVERFLOW | EROFS | EEXIST | EISDIR | EBUSY
  | EINTR | EAGAIN | ENOSPC | EFBIG | EBADF | E_OTHER int

fun sparkey_open_returncode :: "errno \<Rightarrow> sparkey_returncode" where
  "sparkey_open_returncode EPERM = SPARKEY_PERMISSION_DENIED"
| "sparkey_open_returncode EACCES = SPARKEY_PERMISSION_DENIED"
| "sparkey_open_returncode ENFILE = SPARKEY_TOO_MANY_OPEN_FILES"
| "sparkey_open_returncode ENOENT = SPARKEY_FILE_NOT_FOUND"
| "sparkey_open_returncode EOVERFLOW = SPARKEY_FILE_TOO_LARGE"
| "sparkey_open_returncode _ = SPARKEY_INTERNAL_ERROR"

fun sparkey_create_returncode :: "errno \<Rightarrow> sparkey_returncode" where
  "sparkey_create_returncode EPERM = SPARKEY_PERMISSION_DENIED"
| "sparkey_create_returncode EROFS = SPARKEY_PERMISSION_DENIED"
| "sparkey_create_returncode EACCES = SPARKEY_PERMISSION_DENIED"
| "sparkey_create_returncode EEXIST = SPARKEY_FILE_ALREADY_EXISTS"
| "sparkey_create_returncode EISDIR = SPARKEY_FILE_IS_DIRECTORY"
| "sparkey_create_returncode ENFILE = SPARKEY_TOO_MANY_OPEN_FILES"
| "sparkey_create_returncode EMFILE = SPARKEY_TOO_MANY_OPEN_FILES"
| "sparkey_create_returncode _ = SPARKEY_INTERNAL_ERROR"

fun sparkey_remove_returncode :: "errno \<Rightarrow> sparkey_returncode" where
  "sparkey_remove_returncode EPERM = SPARKEY_PERMISSION_DENIED"
| "sparkey_remove_returncode EROFS = SPARKEY_PERMISSION_DENIED"
| "sparkey_remove_returncode EACCES = SPARKEY_PERMISSION_DENIED"
| "sparkey_remove_returncode EBUSY = SPARKEY_FILE_BUSY"
| "sparkey_remove_returncode EISDIR = SPARKEY_FILE_IS_DIRECTORY"
| "sparkey_remove_returncode EOVERFLOW = SPARKEY_FILE_TOO_LARGE"
| "sparkey_remove_returncode _ = SPARKEY_INTERNAL_ERROR"

lemma errno_translation_not_success [simp]:
  "sparkey_open_returncode e \<noteq> SPARKEY_SUCCESS"
  "sparkey_create_returncode e \<noteq> SPARKEY_SUCCESS"
  "sparkey_remove_returncode e \<noteq> SPARKEY_SUCCESS"
  by (cases e; simp)+

section \<open>File names\<close>

text \<open>
  \<open>create_filename\<close> is \<open>_create_filename\<close> of \<open>util.c\<close>; a C string pointer is a \<open>string option\<close> (\<open>None\<close> is
  \<open>NULL\<close>), and the first argument says whether \<open>malloc\<close> succeeds.
\<close>

definition create_filename :: "bool \<Rightarrow> string option \<Rightarrow> string \<Rightarrow> char \<Rightarrow> string option" where
  "create_filename malloc_ok input from to =
     (case input of
        None \<Rightarrow> None
      | Some s \<Rightarrow>
          (let l = length s in
           if l > 10000 then None
           else if l < length from then None
           else if drop (l - length from) s \<noteq> from then None
           else if \<not> malloc_ok then None
           else Some (s[l - 1 := to])))"

definition sparkey_create_log_filename :: "bool \<Rightarrow> string option \<Rightarrow> string option" where
  "sparkey_create_log_filename malloc_ok index_filename =
     create_filename malloc_ok index_filename ''.spi'' (CHR ''l'')"

definition sparkey_create_index_filename :: "bool \<Rightarrow> string option \<Rightarrow> string option" where
  "sparkey_create_index_filename malloc_ok log_filename =
     create_filename malloc_ok log_filename ''.spl'' (CHR ''i'')"

lemma create_filename_suffix:
  assumes "length from = 4"
  shows "create_filename True (Some (base @ from)) from to =
    (if length base + 4 > 10000 then None else Some (base @ butlast from @ [to]))"
proof -
  have "(base @ from)[length base + 4 - 1 := to] = base @ butlast from @ [to]"
    using assms by (auto simp: list_update_append length_Suc_conv eval_nat_numeral)
  then show ?thesis
    using assms by (simp add: create_filename_def Let_def)
qed

lemma create_filename_Some_iff:
  assumes "length from = 4"
  shows "create_filename True (Some s) from to = Some t \<longleftrightarrow>
    (\<exists>base. s = base @ from \<and> t = base @ butlast from @ [to] \<and> length base + 4 \<le> 10000)"
proof (cases "\<exists>base. s = base @ from")
  case True
  then obtain base where "s = base @ from" ..
  then show ?thesis using create_filename_suffix [OF assms, of base to] by auto
next
  case False
  have "drop (length s - 4) s \<noteq> from"
    using False by (metis append_take_drop_id)
  then show ?thesis using False assms by (auto simp: create_filename_def Let_def)
qed

section \<open>Properties\<close>

text \<open>
  The two file name translations are inverse to each other: the index name made from a log name
  leads back to that log name, and a name is accepted exactly when it ends in \<open>.spl\<close> and is not too
  long.
\<close>

theorem filename_roundtrip:
  "((\<exists>t. sparkey_create_index_filename True (Some s) = Some t) \<longleftrightarrow>
      length s \<le> 10000 \<and> (\<exists>base. s = base @ ''.spl''))
   \<and> (sparkey_create_index_filename True (Some s) = Some t \<longleftrightarrow>
      sparkey_create_log_filename True (Some t) = Some s)"
proof -
  have idx: "sparkey_create_index_filename True (Some s) = Some t \<longleftrightarrow>
      (\<exists>base. s = base @ ''.spl'' \<and> t = base @ ''.spi'' \<and> length base + 4 \<le> 10000)" for s t
    unfolding sparkey_create_index_filename_def by (subst create_filename_Some_iff) simp_all
  have log: "sparkey_create_log_filename True (Some t) = Some s \<longleftrightarrow>
      (\<exists>base. s = base @ ''.spl'' \<and> t = base @ ''.spi'' \<and> length base + 4 \<le> 10000)" for s t
    unfolding sparkey_create_log_filename_def by (subst create_filename_Some_iff) auto
  show ?thesis unfolding idx log by auto
qed

end
