(* ===== verification/Os.thy ===== *)
theory Os
  imports Returncodes
begin

text \<open>
  The operating system as the library uses it: a directory of names, an inode store, and the outcome
  of every call that may fail. The calls themselves (\<open>open\<close>, \<open>write\<close>, \<open>remove\<close>, \<open>malloc\<close>, \<open>mmap\<close>,
  \<open>/dev/urandom\<close>) are code outside the repository; their failures are parameters, kept in the state
  as scripts and error tables, so that every error path of the sources is a branch of the model.
\<close>

section \<open>State\<close>

text \<open>
  One entry of \<open>os_writes\<close> is consumed by each \<open>write\<close>: a short write of at most so many bytes, or an
  errno. When the script is used up every \<open>write\<close> takes all it is given. \<open>os_mallocs\<close> likewise answers
  one \<open>malloc\<close> each, and allocation succeeds when the script is used up.
\<close>

datatype write_outcome = WOk nat | WErr errno

record os =
  os_names :: "string \<Rightarrow> nat option"
  os_store :: "bytes list"
  os_writes :: "write_outcome list"
  os_mallocs :: "bool list"
  os_open_err :: "string \<Rightarrow> errno option"
  os_remove_err :: "string \<Rightarrow> errno option"
  os_urandom :: "u32 option"
  os_mmap_ok :: bool
  os_reads :: "write_outcome list"

text \<open>A file descriptor: the inode it refers to (\<open>None\<close> is the descriptor \<open>-1\<close>) and its offset.\<close>

record fd =
  fd_ino :: "nat option"
  fd_off :: nat

section \<open>Calls\<close>

definition os_malloc :: "os \<Rightarrow> bool \<times> os" where
  "os_malloc os =
     (case os_mallocs os of [] \<Rightarrow> (True, os) | b # bs \<Rightarrow> (b, os\<lparr>os_mallocs := bs\<rparr>))"

text \<open>Contents of a named file, as \<open>stat\<close> and \<open>fopen\<close> see it.\<close>

definition os_content :: "os \<Rightarrow> string \<Rightarrow> bytes option" where
  "os_content os name = map_option (\<lambda>i. os_store os ! i) (os_names os name)"

text \<open>\<open>fopen(name, "r")\<close> and \<open>open(name, O_RDONLY)\<close>: the bytes that will be read.\<close>

definition os_open_read :: "os \<Rightarrow> string \<Rightarrow> errno + bytes" where
  "os_open_read os name =
     (case os_open_err os name of
        Some e \<Rightarrow> Inl e
      | None \<Rightarrow> (case os_content os name of None \<Rightarrow> Inl ENOENT | Some c \<Rightarrow> Inr c))"

text \<open>\<open>open(name, O_WRONLY)\<close>: the file must exist and keeps its contents.\<close>

definition os_open_write :: "os \<Rightarrow> string \<Rightarrow> errno + fd" where
  "os_open_write os name =
     (case os_open_err os name of
        Some e \<Rightarrow> Inl e
      | None \<Rightarrow>
          (case os_names os name of
             None \<Rightarrow> Inl ENOENT
           | Some i \<Rightarrow> Inr \<lparr>fd_ino = Some i, fd_off = 0\<rparr>))"

text \<open>
  \<open>open(name, O_WRONLY | O_TRUNC | O_CREAT)\<close> and \<open>creat(name)\<close>: an existing inode is truncated,
  otherwise a new inode is made.
\<close>

definition os_create :: "os \<Rightarrow> string \<Rightarrow> (errno + fd) \<times> os" where
  "os_create os name =
     (case os_open_err os name of
        Some e \<Rightarrow> (Inl e, os)
      | None \<Rightarrow>
          (case os_names os name of
             Some i \<Rightarrow>
               (Inr \<lparr>fd_ino = Some i, fd_off = 0\<rparr>, os\<lparr>os_store := (os_store os)[i := []]\<rparr>)
           | None \<Rightarrow>
               (Inr \<lparr>fd_ino = Some (length (os_store os)), fd_off = 0\<rparr>,
                os\<lparr>os_names := (os_names os)(name \<mapsto> length (os_store os)),
                   os_store := os_store os @ [[]]\<rparr>)))"

text \<open>\<open>remove(name)\<close>: only the name goes, an inode that is still mapped keeps its contents.\<close>

definition os_remove :: "os \<Rightarrow> string \<Rightarrow> (errno + unit) \<times> os" where
  "os_remove os name =
     (case os_remove_err os name of
        Some e \<Rightarrow> (Inl e, os)
      | None \<Rightarrow>
          (case os_names os name of
             None \<Rightarrow> (Inl ENOENT, os)
           | Some _ \<Rightarrow> (Inr (), os\<lparr>os_names := (os_names os)(name := None)\<rparr>)))"

text \<open>Bytes land at the descriptor's offset; a gap behind the end of the file reads as zeros.\<close>

definition file_write :: "bytes \<Rightarrow> nat \<Rightarrow> bytes \<Rightarrow> bytes" where
  "file_write c off bs = splice_at (c @ replicate (off - length c) 0) off bs"

definition io_put :: "os \<Rightarrow> fd \<Rightarrow> bytes \<Rightarrow> os" where
  "io_put os fd bs =
     (case fd_ino fd of
        None \<Rightarrow> os
      | Some i \<Rightarrow> os\<lparr>os_store := (os_store os)[i := file_write (os_store os ! i) (fd_off fd) bs]\<rparr>)"

definition fd_advance :: "fd \<Rightarrow> nat \<Rightarrow> fd" where
  "fd_advance fd n = fd\<lparr>fd_off := fd_off fd + n\<rparr>"

definition sys_write :: "os \<Rightarrow> fd \<Rightarrow> bytes \<Rightarrow> (errno + nat) \<times> os \<times> fd" where
  "sys_write os fd buf =
     (case fd_ino fd of
        None \<Rightarrow> (Inl EBADF, os, fd)
      | Some _ \<Rightarrow>
          (case os_writes os of
             [] \<Rightarrow> (Inr (length buf), io_put os fd buf, fd_advance fd (length buf))
           | WErr e # ws \<Rightarrow> (Inl e, os\<lparr>os_writes := ws\<rparr>, fd)
           | WOk n # ws \<Rightarrow>
               (let m = min n (length buf) in
                (Inr m, (io_put os fd (take m buf))\<lparr>os_writes := ws\<rparr>, fd_advance fd m))))"

text \<open>
  \<open>read(fd, buf, count)\<close>: the bytes delivered. The script \<open>os_reads\<close> is used like \<open>os_writes\<close>; at the end of
  the file nothing is delivered.
\<close>

definition sys_read :: "os \<Rightarrow> fd \<Rightarrow> nat \<Rightarrow> (errno + bytes) \<times> os \<times> fd" where
  "sys_read os fd count =
     (case fd_ino fd of
        None \<Rightarrow> (Inl EBADF, os, fd)
      | Some i \<Rightarrow>
          let rest = drop (fd_off fd) (os_store os ! i) in
          (case os_reads os of
             [] \<Rightarrow> (Inr (take count rest), os, fd_advance fd (length (take count rest)))
           | WErr e # rs \<Rightarrow> (Inl e, os\<lparr>os_reads := rs\<rparr>, fd)
           | WOk n # rs \<Rightarrow>
               (let bs = take (min n count) rest in
                (Inr bs, os\<lparr>os_reads := rs\<rparr>, fd_advance fd (length bs)))))"

text \<open>\<open>lseek(fd, off, SEEK_SET)\<close>.\<close>

definition fd_seek :: "fd \<Rightarrow> nat \<Rightarrow> fd" where
  "fd_seek fd off = fd\<lparr>fd_off := off\<rparr>"

text \<open>\<open>TRY\<close> for operations that change the operating system state and otherwise yield a value.\<close>

definition try_os ::
  "(sparkey_returncode + 'a) \<times> os \<Rightarrow> ('a \<Rightarrow> os \<Rightarrow> (sparkey_returncode + 'b) \<times> os)
     \<Rightarrow> (sparkey_returncode + 'b) \<times> os" where
  "try_os m k = (case m of (Inl rc, os) \<Rightarrow> (Inl rc, os) | (Inr a, os) \<Rightarrow> k a os)"

lemma try_os_simps [run_simps, simp]:
  "try_os (Inl rc, os) k = (Inl rc, os)" "try_os (Inr a, os) k = k a os"
  by (simp_all add: try_os_def)

text \<open>An allocation whose failure is \<open>SPARKEY_INTERNAL_ERROR\<close>.\<close>

definition malloc_or_fail :: "os \<Rightarrow> (sparkey_returncode + unit) \<times> os" where
  "malloc_or_fail os =
     (case os_malloc os of (ok, os') \<Rightarrow> (if ok then Inr () else Inl SPARKEY_INTERNAL_ERROR, os'))"

text \<open>\<open>rand32\<close> of \<open>src/src/util.h\<close>: four bytes from \<open>/dev/urandom\<close>, or an error.\<close>

definition rand32 :: "os \<Rightarrow> sparkey_returncode + u32" where
  "rand32 os = (case os_urandom os of None \<Rightarrow> Inl SPARKEY_INTERNAL_ERROR | Some x \<Rightarrow> Inr x)"

section \<open>Facts\<close>

definition fd_content :: "os \<Rightarrow> fd \<Rightarrow> bytes" where
  "fd_content os fd = (case fd_ino fd of None \<Rightarrow> [] | Some i \<Rightarrow> os_store os ! i)"

text \<open>The descriptor refers to an inode that exists, and its offset is not behind the end of the file.\<close>

definition fd_ok :: "os \<Rightarrow> fd \<Rightarrow> bool" where
  "fd_ok os fd \<longleftrightarrow>
     (case fd_ino fd of None \<Rightarrow> False | Some i \<Rightarrow> i < length (os_store os))
     \<and> fd_off fd \<le> length (fd_content os fd)"

lemma file_write_inside: "off \<le> length c \<Longrightarrow> file_write c off bs = splice_at c off bs"
  by (simp add: file_write_def)

lemma fd_advance_simps [simp]:
  "fd_ino (fd_advance fd n) = fd_ino fd"
  "fd_off (fd_advance fd n) = fd_off fd + n"
  "fd_advance fd 0 = fd"
  "fd_advance (fd_advance fd n) m = fd_advance fd (n + m)"
  by (simp_all add: fd_advance_def)

lemma fd_seek_simps [simp]:
  "fd_ino (fd_seek fd n) = fd_ino fd" "fd_off (fd_seek fd n) = n"
  by (simp_all add: fd_seek_def)

lemma fd_content_seek [simp]: "fd_content os (fd_seek fd n) = fd_content os fd"
  by (simp add: fd_content_def)

lemma fd_content_advance [simp]: "fd_content os (fd_advance fd n) = fd_content os fd"
  by (simp add: fd_content_def)

lemma io_put_frame [simp]:
  "os_names (io_put os fd bs) = os_names os"
  "os_writes (io_put os fd bs) = os_writes os"
  "os_mallocs (io_put os fd bs) = os_mallocs os"
  "os_open_err (io_put os fd bs) = os_open_err os"
  "os_remove_err (io_put os fd bs) = os_remove_err os"
  "os_urandom (io_put os fd bs) = os_urandom os"
  "os_mmap_ok (io_put os fd bs) = os_mmap_ok os"
  "length (os_store (io_put os fd bs)) = length (os_store os)"
  by (simp_all add: io_put_def split: option.splits)

lemma fd_content_writes_update [simp]:
  "fd_content (os\<lparr>os_writes := ws\<rparr>) fd = fd_content os fd"
  by (simp add: fd_content_def split: option.splits)

lemma fd_ok_writes_update [simp]: "fd_ok (os\<lparr>os_writes := ws\<rparr>) fd = fd_ok os fd"
  by (simp add: fd_ok_def split: option.splits)

lemma io_put_writes_update:
  "io_put (os\<lparr>os_writes := ws\<rparr>) fd bs = (io_put os fd bs)\<lparr>os_writes := ws\<rparr>"
  by (simp add: io_put_def split: option.splits)

lemma fd_content_io_put:
  assumes "fd_ok os fd"
  shows "fd_content (io_put os fd bs) fd = splice_at (fd_content os fd) (fd_off fd) bs"
  using assms by (simp add: fd_ok_def io_put_def fd_content_def file_write_inside split: option.splits)

lemma fd_ok_io_put:
  assumes "fd_ok os fd"
  shows "fd_ok (io_put os fd bs) (fd_advance fd (length bs))"
  using assms fd_content_io_put [OF assms, of bs]
  by (auto simp: fd_ok_def splice_at_def split: option.splits)

lemma io_put_io_put:
  assumes "fd_ok os fd"
  shows "io_put (io_put os fd as) (fd_advance fd (length as)) bs = io_put os fd (as @ bs)"
  using assms
  by (auto simp: fd_ok_def io_put_def fd_content_def file_write_def splice_at_append
      length_splice_at splice_at_def min_def ac_simps split: option.splits)

lemma io_put_Nil [simp]: "fd_ok os fd \<Longrightarrow> io_put os fd [] = os"
  by (auto simp: io_put_def fd_ok_def fd_content_def file_write_def splice_at_def split: option.splits)

text \<open>Everything but the contents of one inode and the write script is as it was.\<close>

definition os_frame :: "nat \<Rightarrow> os \<Rightarrow> os \<Rightarrow> bool" where
  "os_frame i os0 os \<longleftrightarrow>
     (\<exists>c ws. os = os0\<lparr>os_store := (os_store os0)[i := c], os_writes := ws\<rparr>)"

lemma os_frame_refl: "os_frame i os os"
  unfolding os_frame_def by (intro exI [of _ "os_store os ! i"] exI [of _ "os_writes os"]) simp

lemma os_frame_trans: "os_frame i os0 os1 \<Longrightarrow> os_frame i os1 os2 \<Longrightarrow> os_frame i os0 os2"
  unfolding os_frame_def by (elim exE) (simp, blast)

lemma os_frame_io_put: "fd_ino fd = Some i \<Longrightarrow> os_frame i os ((io_put os fd bs)\<lparr>os_writes := ws\<rparr>)"
  by (auto simp: os_frame_def io_put_def)

lemma os_frame_other:
  assumes "os_frame i os0 os"
  shows "os_names os = os_names os0" "length (os_store os) = length (os_store os0)"
    "j \<noteq> i \<Longrightarrow> os_store os ! j = os_store os0 ! j"
    "os_mallocs os = os_mallocs os0" "os_open_err os = os_open_err os0"
    "os_remove_err os = os_remove_err os0" "os_urandom os = os_urandom os0"
    "os_mmap_ok os = os_mmap_ok os0"
  using assms by (auto simp: os_frame_def)

text \<open>A machine with an empty disk on which every call succeeds, for concrete runs.\<close>

definition fresh_os :: os where
  "fresh_os =
     \<lparr>os_names = (\<lambda>_. None), os_store = [], os_writes = [], os_mallocs = [],
      os_open_err = (\<lambda>_. None), os_remove_err = (\<lambda>_. None),
      os_urandom = Some 0x12345678, os_mmap_ok = True, os_reads = []\<rparr>"

end
