(* ===== verification/Endian.thy ===== *)
theory Endian
  imports Os
begin

text \<open>
  \<open>src/src/endiantools.c\<close>: complete writes to a file descriptor, and little endian encodings of 32 and
  64 bit values in memory, in file descriptors and in input streams.
\<close>

section \<open>Complete writes\<close>

text \<open>
  \<open>write_full_step\<close> is \<open>_write_full\<close>: retry until every byte is written, give up on a hard error. Each
  round consumes an outcome of the write script or writes all that is left, and the script is finite, so
  the recursion ends. The loop of the code does not end under a kernel that answers \<open>EINTR\<close>, \<open>EAGAIN\<close> or 0 for ever;
  such a kernel is not an \<open>os\<close>.
\<close>

function write_full_step :: "os \<Rightarrow> fd \<Rightarrow> bytes \<Rightarrow> sparkey_returncode \<times> os \<times> fd" where
  "write_full_step os fd buf =
     (if length buf > 0 then
        (case sys_write os fd buf of
           (Inl e, os', fd') \<Rightarrow>
             (case e of
                EINTR \<Rightarrow> write_full_step os' fd' buf
              | EAGAIN \<Rightarrow> write_full_step os' fd' buf
              | ENOSPC \<Rightarrow> (SPARKEY_OUT_OF_DISK, os', fd')
              | EFBIG \<Rightarrow> (SPARKEY_FILE_SIZE_EXCEEDED, os', fd')
              | EBADF \<Rightarrow> (SPARKEY_FILE_CLOSED, os', fd')
              | _ \<Rightarrow> (SPARKEY_INTERNAL_ERROR, os', fd'))
         | (Inr actual, os', fd') \<Rightarrow> write_full_step os' fd' (drop actual buf))
      else (SPARKEY_SUCCESS, os, fd))"
  by pat_completeness auto
termination
  by (relation "measure (\<lambda>(os, fd, buf). length (os_writes os) + length buf)")
    (auto simp: sys_write_def Let_def split: option.splits list.splits write_outcome.splits)

declare write_full_step.simps [simp del]

definition write_block_size :: nat where
  "write_block_size = 256 * 1024 * 1024"

fun write_full_blocks :: "nat \<Rightarrow> os \<Rightarrow> fd \<Rightarrow> bytes \<Rightarrow> sparkey_returncode \<times> os \<times> fd \<times> bytes" where
  "write_full_blocks 0 os fd buf = (SPARKEY_SUCCESS, os, fd, buf)"
| "write_full_blocks (Suc fullruns) os fd buf =
     (case write_full_step os fd (take write_block_size buf) of
        (rc, os', fd') \<Rightarrow>
          if rc \<noteq> SPARKEY_SUCCESS then (rc, os', fd', buf)
          else write_full_blocks fullruns os' fd' (drop write_block_size buf))"

definition write_full :: "os \<Rightarrow> fd \<Rightarrow> bytes \<Rightarrow> sparkey_returncode \<times> os \<times> fd" where
  "write_full os fd buf =
     (case write_full_blocks (length buf div write_block_size) os fd buf of
        (rc, os', fd', buf') \<Rightarrow>
          if rc \<noteq> SPARKEY_SUCCESS then (rc, os', fd')
          else write_full_step os' fd' (take (length buf mod write_block_size) buf'))"

section \<open>Little endian encodings\<close>

definition write_little_endian32 :: "u32 \<Rightarrow> bytes" where
  "write_little_endian32 value =
     [ucast (drop_bit 0 value AND 0xFF), ucast (drop_bit 8 value AND 0xFF),
      ucast (drop_bit 16 value AND 0xFF), ucast (drop_bit 24 value AND 0xFF)]"

definition write_little_endian64 :: "u64 \<Rightarrow> bytes" where
  "write_little_endian64 value =
     [ucast (drop_bit 0 value AND 0xFF), ucast (drop_bit 8 value AND 0xFF),
      ucast (drop_bit 16 value AND 0xFF), ucast (drop_bit 24 value AND 0xFF),
      ucast (drop_bit 32 value AND 0xFF), ucast (drop_bit 40 value AND 0xFF),
      ucast (drop_bit 48 value AND 0xFF), ucast (drop_bit 56 value AND 0xFF)]"

definition fwrite_little_endian32 :: "os \<Rightarrow> fd \<Rightarrow> u32 \<Rightarrow> sparkey_returncode \<times> os \<times> fd" where
  "fwrite_little_endian32 os fd value = write_full os fd (write_little_endian32 value)"

definition fwrite_little_endian64 :: "os \<Rightarrow> fd \<Rightarrow> u64 \<Rightarrow> sparkey_returncode \<times> os \<times> fd" where
  "fwrite_little_endian64 os fd value = write_full os fd (write_little_endian64 value)"

text \<open>
  What a little endian machine reads through a cast pointer: the first byte is the least significant.
  A read outside the array has no defined value.
\<close>

fun le_value :: "bytes \<Rightarrow> 'a::len word" where
  "le_value [] = 0"
| "le_value (b # bs) = ucast b OR push_bit 8 (le_value bs)"

definition read_little_endian32 :: "bytes \<Rightarrow> nat \<Rightarrow> u32 option" where
  "read_little_endian32 array pos =
     (if pos + 4 \<le> length array then Some (le_value (take 4 (drop pos array))) else None)"

definition read_little_endian64 :: "bytes \<Rightarrow> nat \<Rightarrow> u64 option" where
  "read_little_endian64 array pos =
     (if pos + 8 \<le> length array then Some (le_value (take 8 (drop pos array))) else None)"

text \<open>
  Reading from a \<open>FILE\<close>: the stream is the list of bytes not read yet. \<open>fread\<close> of one item either
  delivers the whole item or reports a count below one.
\<close>

definition fread_little_endian32 :: "bytes \<Rightarrow> sparkey_returncode + u32 \<times> bytes" where
  "fread_little_endian32 fp =
     (if length fp < 4 then Inl SPARKEY_UNEXPECTED_EOF
      else Inr (the (read_little_endian32 (take 4 fp) 0), drop 4 fp))"

definition fread_little_endian64 :: "bytes \<Rightarrow> sparkey_returncode + u64 \<times> bytes" where
  "fread_little_endian64 fp =
     (if length fp < 8 then Inl SPARKEY_UNEXPECTED_EOF
      else Inr (the (read_little_endian64 (take 8 fp) 0), drop 8 fp))"

definition correct_endian_platform :: sparkey_returncode where
  "correct_endian_platform = SPARKEY_SUCCESS"

section \<open>Round trips\<close>

lemma length_write_little_endian [codec_simps, simp]:
  "length (write_little_endian32 v) = 4" "length (write_little_endian64 w) = 8"
  by (simp_all add: write_little_endian32_def write_little_endian64_def)

lemma bit_low_byte: "bit (ucast (v AND 0xFF :: 'a::len word) :: byte) n \<longleftrightarrow> n < 8 \<and> bit v n"
proof -
  have m: "(0xFF :: 'a word) = mask 8"
    by (simp add: mask_eq_exp_minus_1)
  show ?thesis
    unfolding m using bit_imp_le_length [of v n] by (auto simp: bit_simps)
qed

lemma bit_le_value:
  "bit (le_value bs :: 'a::len word) n \<longleftrightarrow>
     n < LENGTH('a) \<and> n div 8 < length bs \<and> bit (bs ! (n div 8)) (n mod 8)"
proof (induction bs arbitrary: n)
  case (Cons b bs)
  show ?case
  proof (cases "n < 8")
    case True
    then show ?thesis by (auto simp: bit_simps)
  next
    case False
    then obtain m where m: "n = m + 8" by (metis le_add_diff_inverse2 not_less)
    have "\<not> bit b n" using False bit_imp_le_length [of b n] by auto
    moreover have "(m + 8) div 8 = Suc (m div 8)" by simp
    ultimately show ?thesis using False Cons.IH [of m] by (auto simp: bit_simps m)
  qed
qed simp

lemma le_value_of_bytes:
  fixes v :: "'a::len word"
  assumes "8 * length bs = LENGTH('a)"
    and "\<And>i. i < length bs \<Longrightarrow> bs ! i = ucast (drop_bit (8 * i) v AND 0xFF)"
  shows "le_value bs = v"
proof (rule bit_word_eqI)
  fix n
  assume n: "n < LENGTH('a)"
  then have i: "n div 8 < length bs" using assms(1) by linarith
  have "bit (bs ! (n div 8)) (n mod 8) = bit v (8 * (n div 8) + n mod 8)"
    unfolding assms(2) [OF i] bit_low_byte bit_drop_bit_eq by simp
  then show "bit (le_value bs :: 'a word) n = bit v n"
    using n i by (simp only: bit_le_value mult_div_mod_eq simp_thms)
qed

lemma nth_write_little_endian32:
  "i < 4 \<Longrightarrow> write_little_endian32 v ! i = ucast (drop_bit (8 * i) v AND 0xFF)"
  by (auto simp: write_little_endian32_def less_Suc_eq numeral_eq_Suc)

lemma nth_write_little_endian64:
  "i < 8 \<Longrightarrow> write_little_endian64 v ! i = ucast (drop_bit (8 * i) v AND 0xFF)"
  by (auto simp: write_little_endian64_def less_Suc_eq numeral_eq_Suc)

lemma le_value_write32 [codec_simps, simp]: "le_value (write_little_endian32 v) = v"
  by (rule le_value_of_bytes) (simp_all add: nth_write_little_endian32)

lemma le_value_write64 [codec_simps, simp]: "le_value (write_little_endian64 v) = v"
  by (rule le_value_of_bytes) (simp_all add: nth_write_little_endian64)

lemma fread32_write32 [codec_simps, simp]:
  "fread_little_endian32 (write_little_endian32 v @ rest) = Inr (v, rest)"
  by (simp add: fread_little_endian32_def read_little_endian32_def)

lemma fread64_write64 [codec_simps, simp]:
  "fread_little_endian64 (write_little_endian64 v @ rest) = Inr (v, rest)"
  by (simp add: fread_little_endian64_def read_little_endian64_def)

lemma nth_bytes_of_le_value:
  assumes "8 * length bs = LENGTH('a::len)" "i < length bs"
  shows "ucast (drop_bit (8 * i) (le_value bs :: 'a word) AND 0xFF) = bs ! i"
proof (rule bit_word_eqI)
  fix n
  assume n: "n < LENGTH(8)"
  then have "(8 * i + n) div 8 = i" "(8 * i + n) mod 8 = n" "8 * i + n < LENGTH('a)"
    using assms by auto
  then show "bit (ucast (drop_bit (8 * i) (le_value bs :: 'a word) AND 0xFF) :: byte) n = bit (bs ! i) n"
    using n assms by (simp add: bit_low_byte bit_drop_bit_eq bit_le_value)
qed

lemma write32_le_value: "length bs = 4 \<Longrightarrow> write_little_endian32 (le_value bs) = bs"
  by (rule nth_equalityI) (simp_all add: nth_write_little_endian32 nth_bytes_of_le_value)

lemma write64_le_value: "length bs = 8 \<Longrightarrow> write_little_endian64 (le_value bs) = bs"
  by (rule nth_equalityI) (simp_all add: nth_write_little_endian64 nth_bytes_of_le_value)

lemma fread32_Inr_iff:
  "fread_little_endian32 fp = Inr (v, rest) \<longleftrightarrow> fp = write_little_endian32 v @ rest"
  by (auto simp: fread_little_endian32_def read_little_endian32_def write32_le_value split: if_splits)

lemma fread64_Inr_iff:
  "fread_little_endian64 fp = Inr (v, rest) \<longleftrightarrow> fp = write_little_endian64 v @ rest"
  by (auto simp: fread_little_endian64_def read_little_endian64_def write64_le_value split: if_splits)

lemma fread32_then_Inr_iff:
  "rethrow_sum (fread_little_endian32 fp) k = Inr x
     \<longleftrightarrow> (\<exists>v rest. fp = write_little_endian32 v @ rest \<and> k (v, rest) = Inr x)"
  by (cases "fread_little_endian32 fp") (auto simp: fread32_Inr_iff)

lemma fread64_then_Inr_iff:
  "rethrow_sum (fread_little_endian64 fp) k = Inr x
     \<longleftrightarrow> (\<exists>v rest. fp = write_little_endian64 v @ rest \<and> k (v, rest) = Inr x)"
  by (cases "fread_little_endian64 fp") (auto simp: fread64_Inr_iff)

lemma read32_splice:
  assumes "pos + 4 \<le> length arr"
  shows "read_little_endian32 (splice_at arr pos (write_little_endian32 v)) pos = Some v"
  using assms take_drop_splice_at_same [of pos "write_little_endian32 v" arr]
  by (simp add: read_little_endian32_def length_splice_at)

lemma read64_splice:
  assumes "pos + 8 \<le> length arr"
  shows "read_little_endian64 (splice_at arr pos (write_little_endian64 v)) pos = Some v"
  using assms take_drop_splice_at_same [of pos "write_little_endian64 v" arr]
  by (simp add: read_little_endian64_def length_splice_at)

section \<open>What a complete write does\<close>

text \<open>
  The contract of every write routine of the library: some prefix of the buffer has reached the file
  at the descriptor's offset, the offset moved behind it, and the code is success exactly when the
  prefix is the whole buffer. Nothing but the file and the write script changes.
\<close>

definition write_codes :: "sparkey_returncode set" where
  "write_codes = {SPARKEY_SUCCESS, SPARKEY_OUT_OF_DISK, SPARKEY_FILE_SIZE_EXCEEDED,
     SPARKEY_FILE_CLOSED, SPARKEY_INTERNAL_ERROR}"

lemma SUCCESS_write_codes [simp]: "SPARKEY_SUCCESS \<in> write_codes"
  by (simp add: write_codes_def)

definition wrote :: "os \<Rightarrow> fd \<Rightarrow> bytes \<Rightarrow> sparkey_returncode \<times> os \<times> fd \<Rightarrow> bool" where
  "wrote os fd buf r \<longleftrightarrow>
     (\<exists>n ws. n \<le> length buf
        \<and> fst r \<in> write_codes
        \<and> (fst r = SPARKEY_SUCCESS \<longleftrightarrow> n = length buf)
        \<and> snd r = ((io_put os fd (take n buf))\<lparr>os_writes := ws\<rparr>, fd_advance fd n))"

lemma wrote_refl: "fd_ok os fd \<Longrightarrow> wrote os fd [] (SPARKEY_SUCCESS, os, fd)"
  unfolding wrote_def by (intro exI [of _ 0] exI [of _ "os_writes os"]) simp

lemma wrote_extend:
  assumes ok: "fd_ok os fd" and m: "m \<le> length buf"
    and rest: "wrote ((io_put os fd (take m buf))\<lparr>os_writes := ws0\<rparr>) (fd_advance fd m) (drop m buf) r"
  shows "wrote os fd buf r"
proof -
  from rest obtain n ws where n: "n \<le> length buf - m"
    and rc: "fst r \<in> write_codes"
      "fst r = SPARKEY_SUCCESS \<longleftrightarrow> n = length buf - m"
    and st: "snd r = ((io_put (io_put os fd (take m buf)) (fd_advance fd m) (take n (drop m buf)))
                 \<lparr>os_writes := ws\<rparr>, fd_advance fd (m + n))"
    by (auto simp: wrote_def io_put_writes_update)
  have "io_put (io_put os fd (take m buf)) (fd_advance fd m) (take n (drop m buf))
      = io_put os fd (take (m + n) buf)"
    using io_put_io_put [OF ok, of "take m buf" "take n (drop m buf)"] m
    by (simp add: take_add min_absorb2)
  then show ?thesis
    using n m rc st unfolding wrote_def
    by (intro exI [of _ "m + n"] exI [of _ ws]) auto
qed

lemma wrote_script:
  "wrote (os\<lparr>os_writes := ws\<rparr>) fd buf r \<Longrightarrow> wrote os fd buf r"
  by (auto simp: wrote_def io_put_writes_update)

lemma write_full_step_wrote:
  assumes "fd_ok os fd"
  shows "wrote os fd buf (write_full_step os fd buf)"
  using assms
proof (induction os fd buf rule: write_full_step.induct)
  case (1 os fd buf)
  show ?case
  proof (cases "length buf > 0")
    case False
    then show ?thesis using wrote_refl "1.prems" by (simp add: write_full_step.simps)
  next
    case True
    from "1.prems" obtain i where i: "fd_ino fd = Some i"
      by (auto simp: fd_ok_def split: option.splits)
    show ?thesis
    proof (cases "os_writes os")
      case Nil
      have "sys_write os fd buf = (Inr (length buf), io_put os fd buf, fd_advance fd (length buf))"
        by (simp add: sys_write_def i Nil)
      then have "write_full_step os fd buf = (SPARKEY_SUCCESS, io_put os fd buf, fd_advance fd (length buf))"
        using True by (simp add: write_full_step.simps)
      then show ?thesis
        unfolding wrote_def using Nil
        by (intro exI [of _ "length buf"] exI [of _ "[]"]) simp
    next
      case (Cons w ws)
      show ?thesis
      proof (cases w)
        case (WOk n)
        let ?m = "min n (length buf)"
        have sw: "sys_write os fd buf =
          (Inr ?m, (io_put os fd (take ?m buf))\<lparr>os_writes := ws\<rparr>, fd_advance fd ?m)"
          by (simp add: sys_write_def i Cons WOk Let_def)
        have len: "length (take ?m buf) = ?m" by simp
        have ok': "fd_ok ((io_put os fd (take ?m buf))\<lparr>os_writes := ws\<rparr>) (fd_advance fd ?m)"
          using fd_ok_io_put [OF "1.prems", of "take ?m buf"] unfolding len by simp
        have "wrote ((io_put os fd (take ?m buf))\<lparr>os_writes := ws\<rparr>) (fd_advance fd ?m) (drop ?m buf)
           (write_full_step os fd buf)"
          using "1.IH"(3) [OF True sw [symmetric] _ _ ok'] True sw
          by (simp add: write_full_step.simps [of os fd buf])
        then show ?thesis by (rule wrote_extend [OF "1.prems", rotated]) simp
      next
        case (WErr e)
        have sw: "sys_write os fd buf = (Inl e, os\<lparr>os_writes := ws\<rparr>, fd)"
          by (simp add: sys_write_def i Cons WErr)
        have stop: "wrote os fd buf (rc, os\<lparr>os_writes := ws\<rparr>, fd)"
          if "rc \<in> {SPARKEY_OUT_OF_DISK, SPARKEY_FILE_SIZE_EXCEEDED, SPARKEY_FILE_CLOSED,
                SPARKEY_INTERNAL_ERROR}" for rc
          unfolding wrote_def using that True "1.prems"
          by (intro exI [of _ 0] exI [of _ ws]) (auto simp: write_codes_def)
        have again: "wrote os fd buf (write_full_step (os\<lparr>os_writes := ws\<rparr>) fd buf)"
          if "e = EINTR \<or> e = EAGAIN"
          using that "1.IH"(1) [OF True sw [symmetric]] "1.IH"(2) [OF True sw [symmetric]] "1.prems"
          by (auto intro: wrote_script)
        show ?thesis
          using True sw stop again
          by (cases e) (simp_all add: write_full_step.simps [of os fd buf])
      qed
    qed
  qed
qed

lemma write_full_blocks_wrote:
  assumes "fd_ok os fd" "runs * write_block_size \<le> length buf"
    and "write_full_blocks runs os fd buf = (rc, os', fd', buf')"
  shows "wrote os fd (take (runs * write_block_size) buf) (rc, os', fd')
    \<and> (rc = SPARKEY_SUCCESS \<longrightarrow> buf' = drop (runs * write_block_size) buf)"
  using assms
proof (induction runs arbitrary: os fd buf)
  case 0
  then show ?case by (simp add: wrote_refl)
next
  case (Suc runs)
  let ?B = "write_block_size"
  obtain rc1 os1 fd1 where st: "write_full_step os fd (take ?B buf) = (rc1, os1, fd1)"
    by (metis prod_cases3)
  have len: "length (take ?B buf) = ?B" using Suc.prems(2) by simp
  from write_full_step_wrote [OF Suc.prems(1), of "take ?B buf"] st obtain n ws where
    n: "n \<le> ?B" "rc1 = SPARKEY_SUCCESS \<longleftrightarrow> n = ?B"
    and rc1: "rc1 \<in> write_codes"
    and s1: "os1 = (io_put os fd (take n buf))\<lparr>os_writes := ws\<rparr>" "fd1 = fd_advance fd n"
    using len by (auto simp: wrote_def min_absorb1)
  let ?all = "take (Suc runs * ?B) buf"
  have tk: "take n ?all = take n buf" "length ?all = Suc runs * ?B"
    using n Suc.prems(2) by (auto simp: min_absorb1)
  show ?case
  proof (cases "rc1 = SPARKEY_SUCCESS")
    case False
    with Suc.prems(3) st have "rc = rc1" "os' = os1" "fd' = fd1" by auto
    then show ?thesis
      using False n rc1 s1 tk unfolding wrote_def
      by (intro conjI exI [of _ n] exI [of _ ws]) auto
  next
    case True
    with n have nB: "n = ?B" by simp
    have ok1: "fd_ok os1 fd1"
      using fd_ok_io_put [OF Suc.prems(1), of "take ?B buf"] len by (simp add: s1 nB)
    have "wrote os1 fd1 (take (runs * ?B) (drop ?B buf)) (rc, os', fd')
       \<and> (rc = SPARKEY_SUCCESS \<longrightarrow> buf' = drop (runs * ?B) (drop ?B buf))"
      using Suc.IH [OF ok1, of "drop ?B buf"] Suc.prems(2,3) st True by auto
    moreover have "drop ?B ?all = take (runs * ?B) (drop ?B buf)"
      by (simp add: drop_take)
    ultimately have "wrote ((io_put os fd (take ?B ?all))\<lparr>os_writes := ws\<rparr>) (fd_advance fd ?B) (drop ?B ?all)
         (rc, os', fd')" and "rc = SPARKEY_SUCCESS \<longrightarrow> buf' = drop (Suc runs * ?B) buf"
      using tk by (simp_all add: s1 nB add.commute)
    then show ?thesis
      using wrote_extend [OF Suc.prems(1), of ?B ?all] tk(2) by simp
  qed
qed

lemma write_full_wrote:
  assumes "fd_ok os fd"
  shows "wrote os fd buf (write_full os fd buf)"
proof -
  let ?B = "write_block_size"
  let ?q = "length buf div ?B * ?B"
  obtain rc os1 fd1 buf1 where bl: "write_full_blocks (length buf div ?B) os fd buf = (rc, os1, fd1, buf1)"
    by (metis prod_cases4)
  have q: "?q \<le> length buf" by simp
  from write_full_blocks_wrote [OF assms q bl]
  have w: "wrote os fd (take ?q buf) (rc, os1, fd1)"
    and b: "rc = SPARKEY_SUCCESS \<longrightarrow> buf1 = drop ?q buf" by auto
  then obtain n ws where n: "n \<le> ?q" "rc = SPARKEY_SUCCESS \<longleftrightarrow> n = ?q"
    and rc: "rc \<in> write_codes"
    and s1: "os1 = (io_put os fd (take n buf))\<lparr>os_writes := ws\<rparr>" "fd1 = fd_advance fd n"
    using q by (auto simp: wrote_def min_absorb1)
  show ?thesis
  proof (cases "rc = SPARKEY_SUCCESS")
    case False
    then have "write_full os fd buf = (rc, os1, fd1)" by (simp add: write_full_def bl)
    moreover have "n < length buf" using False n q by linarith
    ultimately show ?thesis
      using False rc s1 unfolding wrote_def
      by (intro exI [of _ n] exI [of _ ws]) auto
  next
    case True
    with n b have nq: "n = ?q" "buf1 = drop ?q buf" by auto
    have "length (drop ?q buf) = length buf mod ?B"
      by (simp add: minus_div_mult_eq_mod)
    then have run: "write_full os fd buf = write_full_step os1 fd1 (drop ?q buf)"
      using True nq by (simp add: write_full_def bl)
    have len: "length (take ?q buf) = ?q" using q by simp
    have ok1: "fd_ok os1 fd1"
      using fd_ok_io_put [OF assms, of "take ?q buf"] unfolding len by (simp add: s1 nq)
    have "wrote ((io_put os fd (take ?q buf))\<lparr>os_writes := ws\<rparr>) (fd_advance fd ?q) (drop ?q buf)
       (write_full os fd buf)"
      using write_full_step_wrote [OF ok1, of "drop ?q buf"] by (simp add: run s1 nq)
    then show ?thesis by (rule wrote_extend [OF assms q])
  qed
qed

lemma wrote_success:
  assumes "wrote os fd buf (SPARKEY_SUCCESS, os', fd')"
  obtains ws where "os' = (io_put os fd buf)\<lparr>os_writes := ws\<rparr>" "fd' = fd_advance fd (length buf)"
  using assms by (auto simp: wrote_def)

text \<open>\<open>RETHROW\<close> between writes: the next write runs only after a complete one.\<close>

definition io_then ::
  "sparkey_returncode \<times> os \<times> fd \<Rightarrow> (os \<Rightarrow> fd \<Rightarrow> sparkey_returncode \<times> os \<times> fd)
     \<Rightarrow> sparkey_returncode \<times> os \<times> fd" where
  "io_then r k = (case r of (rc, os, fd) \<Rightarrow> if rc \<noteq> SPARKEY_SUCCESS then (rc, os, fd) else k os fd)"

lemma wrote_then:
  assumes ok: "fd_ok os fd" and r: "wrote os fd as r"
    and k: "\<And>os' fd'. fd_ok os' fd' \<Longrightarrow> wrote os' fd' bs (k os' fd')"
  shows "wrote os fd (as @ bs) (io_then r k)"
proof (cases "fst r = SPARKEY_SUCCESS")
  case True
  with r obtain ws where st: "snd r = ((io_put os fd as)\<lparr>os_writes := ws\<rparr>, fd_advance fd (length as))"
    by (auto simp: wrote_def)
  then have "io_then r k = k ((io_put os fd as)\<lparr>os_writes := ws\<rparr>) (fd_advance fd (length as))"
    using True by (cases r) (simp add: io_then_def)
  moreover have "fd_ok ((io_put os fd as)\<lparr>os_writes := ws\<rparr>) (fd_advance fd (length as))"
    using fd_ok_io_put [OF ok, of as] by simp
  ultimately show ?thesis
    using wrote_extend [OF ok, of "length as" "as @ bs" ws "io_then r k"] k by simp
next
  case False
  then have "io_then r k = r" by (cases r) (simp add: io_then_def)
  moreover from r False obtain n ws where "n < length as" "fst r \<in> write_codes"
    "snd r = ((io_put os fd (take n as))\<lparr>os_writes := ws\<rparr>, fd_advance fd n)"
    unfolding wrote_def by (metis order_le_imp_less_or_eq)
  ultimately show ?thesis
    using False unfolding wrote_def by (intro exI [of _ n] exI [of _ ws]) simp
qed

lemma fwrite_wrote:
  "fd_ok os fd \<Longrightarrow> wrote os fd (write_little_endian32 v) (fwrite_little_endian32 os fd v)"
  "fd_ok os fd \<Longrightarrow> wrote os fd (write_little_endian64 w) (fwrite_little_endian64 os fd w)"
  by (simp_all add: fwrite_little_endian32_def fwrite_little_endian64_def write_full_wrote)

text \<open>With an error-free script only retries and short writes happen, and a write always completes.\<close>

definition write_retryable :: "write_outcome \<Rightarrow> bool" where
  "write_retryable w = (case w of WOk _ \<Rightarrow> True | WErr e \<Rightarrow> e = EINTR \<or> e = EAGAIN)"

definition os_calm :: "os \<Rightarrow> bool" where
  "os_calm os = list_all write_retryable (os_writes os)"

lemma write_full_step_calm:
  assumes "fd_ino fd = Some i" "os_calm os"
  shows "fst (write_full_step os fd buf) = SPARKEY_SUCCESS
       \<and> os_calm (fst (snd (write_full_step os fd buf)))"
  using assms
proof (induction os fd buf rule: write_full_step.induct)
  case (1 os fd buf)
  show ?case
  proof (cases "length buf > 0")
    case False
    then show ?thesis using "1.prems" by (simp add: write_full_step.simps)
  next
    case True
    note step = write_full_step.simps [of os fd buf]
    show ?thesis
    proof (cases "os_writes os")
      case Nil
      then show ?thesis
        using True "1.prems"
        by (simp add: step write_full_step.simps [of _ _ "[]"] sys_write_def os_calm_def)
    next
      case (Cons w ws)
      show ?thesis
      proof (cases w)
        case (WOk n)
        then have sw: "sys_write os fd buf = (Inr (min n (length buf)),
            (io_put os fd (take (min n (length buf)) buf))\<lparr>os_writes := ws\<rparr>,
            fd_advance fd (min n (length buf)))"
          using Cons "1.prems"(1) by (simp add: sys_write_def Let_def)
        then show ?thesis
          using "1.IH"(3) [OF True sw [symmetric]] sw "1.prems" True Cons
          by (simp add: step os_calm_def)
      next
        case (WErr e)
        then have "sys_write os fd buf = (Inl e, os\<lparr>os_writes := ws\<rparr>, fd)"
          using Cons "1.prems"(1) by (simp add: sys_write_def)
        moreover have "e = EINTR \<or> e = EAGAIN" "os_calm (os\<lparr>os_writes := ws\<rparr>)"
          using "1.prems"(2) Cons WErr by (auto simp: os_calm_def write_retryable_def)
        ultimately show ?thesis
          using "1.IH"(1,2) [OF True] "1.prems" True by (auto simp: step)
      qed
    qed
  qed
qed

lemma write_full_blocks_calm:
  assumes "fd_ok os fd" "os_calm os" "runs * write_block_size \<le> length buf"
    and "write_full_blocks runs os fd buf = (rc, os', fd', buf')"
  shows "rc = SPARKEY_SUCCESS \<and> os_calm os' \<and> fd_ino fd' = fd_ino fd"
  using assms
proof (induction runs arbitrary: os fd buf)
  case (Suc runs)
  let ?B = "write_block_size"
  obtain i where i: "fd_ino fd = Some i"
    using Suc.prems(1) by (auto simp: fd_ok_def split: option.splits)
  obtain os1 fd1 where st: "write_full_step os fd (take ?B buf) = (SPARKEY_SUCCESS, os1, fd1)"
    and calm: "os_calm os1"
    using write_full_step_calm [OF i Suc.prems(2), of "take ?B buf"] by (metis fst_conv prod.exhaust snd_conv)
  have "wrote os fd (take ?B buf) (SPARKEY_SUCCESS, os1, fd1)"
    using write_full_step_wrote [OF Suc.prems(1), of "take ?B buf"] st by simp
  then obtain ws where "os1 = (io_put os fd (take ?B buf))\<lparr>os_writes := ws\<rparr>"
    and fd1: "fd1 = fd_advance fd (length (take ?B buf))" by (rule wrote_success)
  then have "fd_ok os1 fd1" using fd_ok_io_put [OF Suc.prems(1), of "take ?B buf"] by simp
  moreover have "write_full_blocks runs os1 fd1 (drop ?B buf) = (rc, os', fd', buf')"
    using Suc.prems(4) st by simp
  ultimately show ?case
    using Suc.IH [of os1 fd1 "drop ?B buf"] calm Suc.prems(3) fd1 by simp
qed simp

lemma write_full_calm:
  assumes "fd_ok os fd" "os_calm os"
  obtains ws where
    "write_full os fd buf
       = (SPARKEY_SUCCESS, (io_put os fd buf)\<lparr>os_writes := ws\<rparr>, fd_advance fd (length buf))"
    "list_all write_retryable ws"
proof -
  obtain rc os1 fd1 buf1 where
    bl: "write_full_blocks (length buf div write_block_size) os fd buf = (rc, os1, fd1, buf1)"
    by (metis prod_cases4)
  from write_full_blocks_calm [OF assms _ bl]
  have 1: "rc = SPARKEY_SUCCESS" "os_calm os1" "fd_ino fd1 = fd_ino fd" by simp_all
  obtain i where "fd_ino fd1 = Some i"
    using assms(1) 1 by (auto simp: fd_ok_def split: option.splits)
  from write_full_step_calm [OF this 1(2)]
  have succ: "fst (write_full os fd buf) = SPARKEY_SUCCESS" "os_calm (fst (snd (write_full os fd buf)))"
    using 1 by (auto simp: write_full_def bl)
  then obtain os2 fd2 where w: "write_full os fd buf = (SPARKEY_SUCCESS, os2, fd2)"
    by (metis fst_conv prod.exhaust)
  with write_full_wrote [OF assms(1), of buf]
  have "wrote os fd buf (SPARKEY_SUCCESS, os2, fd2)" by simp
  then obtain ws where "os2 = (io_put os fd buf)\<lparr>os_writes := ws\<rparr>" "fd2 = fd_advance fd (length buf)"
    by (rule wrote_success)
  with w succ(2) show thesis by (intro that [of ws]) (auto simp: os_calm_def)
qed

text \<open>A complete write under a calm script, as a contract that composes along \<open>io_then\<close>.\<close>

definition completes :: "os \<Rightarrow> fd \<Rightarrow> bytes \<Rightarrow> sparkey_returncode \<times> os \<times> fd \<Rightarrow> bool" where
  "completes os fd buf r \<longleftrightarrow>
     (\<exists>ws. list_all write_retryable ws
        \<and> r = (SPARKEY_SUCCESS, (io_put os fd buf)\<lparr>os_writes := ws\<rparr>, fd_advance fd (length buf)))"

lemma write_full_completes:
  "fd_ok os fd \<Longrightarrow> os_calm os \<Longrightarrow> completes os fd buf (write_full os fd buf)"
  unfolding completes_def by (metis write_full_calm)

lemma fwrite_completes:
  "fd_ok os fd \<Longrightarrow> os_calm os \<Longrightarrow>
     completes os fd (write_little_endian32 v) (fwrite_little_endian32 os fd v)"
  "fd_ok os fd \<Longrightarrow> os_calm os \<Longrightarrow>
     completes os fd (write_little_endian64 w) (fwrite_little_endian64 os fd w)"
  by (simp_all add: fwrite_little_endian32_def fwrite_little_endian64_def write_full_completes)

lemma completes_then:
  assumes ok: "fd_ok os fd" and r: "completes os fd as r"
    and k: "\<And>os' fd'. fd_ok os' fd' \<Longrightarrow> os_calm os' \<Longrightarrow> completes os' fd' bs (k os' fd')"
  shows "completes os fd (as @ bs) (io_then r k)"
proof -
  from r obtain ws where ws: "list_all write_retryable ws"
    and req: "r = (SPARKEY_SUCCESS, (io_put os fd as)\<lparr>os_writes := ws\<rparr>, fd_advance fd (length as))"
    by (auto simp: completes_def)
  let ?os = "(io_put os fd as)\<lparr>os_writes := ws\<rparr>" and ?fd = "fd_advance fd (length as)"
  have "fd_ok ?os ?fd" using fd_ok_io_put [OF ok, of as] by simp
  moreover have "os_calm ?os" using ws by (simp add: os_calm_def)
  ultimately have "completes ?os ?fd bs (k ?os ?fd)" by (rule k)
  then show ?thesis
    by (auto simp: completes_def req io_then_def io_put_writes_update io_put_io_put [OF ok])
qed

section \<open>Properties\<close>

text \<open>
  C36: \<open>write_full\<close> under every finite sequence of short writes, interruptions and errors that is followed by complete
  writes: a prefix of the buffer is in the file at the old offset, the offset is behind that prefix, and the
  code is success exactly when the prefix is the whole buffer. (A kernel that answers \<open>EINTR\<close>, \<open>EAGAIN\<close> or 0
  for ever, on which the loop of the code does not end, is not among these.)
\<close>

theorem write_full_prefix:
  assumes "fd_ok os fd"
  shows "\<exists>n ws. n \<le> length buf
    \<and> (fst (write_full os fd buf) = SPARKEY_SUCCESS \<longleftrightarrow> n = length buf)
    \<and> snd (write_full os fd buf) = ((io_put os fd (take n buf))\<lparr>os_writes := ws\<rparr>, fd_advance fd n)"
  using write_full_wrote [OF assms, of buf] unfolding wrote_def by blast

theorem write_full_prefix_witness:
  "\<exists>n ws. n \<le> length [1, 2, 3 :: byte]
    \<and> (fst (write_full (fresh_os\<lparr>os_store := [[9]], os_writes := [WErr EINTR, WOk 2, WErr ENOSPC]\<rparr>)
             \<lparr>fd_ino = Some 0, fd_off = 1\<rparr> [1, 2, 3]) = SPARKEY_SUCCESS \<longleftrightarrow> n = length [1, 2, 3 :: byte])
    \<and> snd (write_full (fresh_os\<lparr>os_store := [[9]], os_writes := [WErr EINTR, WOk 2, WErr ENOSPC]\<rparr>)
             \<lparr>fd_ino = Some 0, fd_off = 1\<rparr> [1, 2, 3])
      = ((io_put (fresh_os\<lparr>os_store := [[9]], os_writes := [WErr EINTR, WOk 2, WErr ENOSPC]\<rparr>)
            \<lparr>fd_ino = Some 0, fd_off = 1\<rparr> (take n [1, 2, 3]))\<lparr>os_writes := ws\<rparr>,
         fd_advance \<lparr>fd_ino = Some 0, fd_off = 1\<rparr> n)"
  by (rule write_full_prefix) (simp add: fd_ok_def fd_content_def fresh_os_def)

end
