(* ===== verification/Murmur.thy ===== *)
theory Murmur
  imports Endian
begin

text \<open>
  \<open>src/src/MurmurHash3.c\<close>: the three MurmurHash3 functions and the two wrappers the library uses. Lengths
  are C \<open>int\<close>s here; a length that is negative as an \<open>int\<close> makes the code read before the data, which
  has no defined outcome and is \<open>None\<close>.
\<close>

section \<open>Mixing\<close>

definition rotl32 :: "u32 \<Rightarrow> nat \<Rightarrow> u32" where
  "rotl32 x r = push_bit r x OR drop_bit (32 - r) x"

definition rotl64 :: "u64 \<Rightarrow> nat \<Rightarrow> u64" where
  "rotl64 x r = push_bit r x OR drop_bit (64 - r) x"

definition getblock32 :: "bytes \<Rightarrow> nat \<Rightarrow> u32 option" where
  "getblock32 p i = read_little_endian32 p (4 * i)"

definition getblock64 :: "bytes \<Rightarrow> nat \<Rightarrow> u64 option" where
  "getblock64 p i = read_little_endian64 p (8 * i)"

definition fmix32 :: "u32 \<Rightarrow> u32" where
  "fmix32 h =
     (let h = h XOR drop_bit 16 h;
          h = h * 0x85ebca6b;
          h = h XOR drop_bit 13 h;
          h = h * 0xc2b2ae35
      in h XOR drop_bit 16 h)"

definition fmix64 :: "u64 \<Rightarrow> u64" where
  "fmix64 k =
     (let k = k XOR drop_bit 33 k;
          k = k * 0xff51afd7ed558ccd;
          k = k XOR drop_bit 33 k;
          k = k * 0xc4ceb9fe1a85ec53
      in k XOR drop_bit 33 k)"

text \<open>The loop over the blocks, which are numbered from the start of the data.\<close>

primrec block_loop :: "(nat \<Rightarrow> 's \<Rightarrow> 's option) \<Rightarrow> nat list \<Rightarrow> 's \<Rightarrow> 's option" where
  "block_loop body [] s = Some s"
| "block_loop body (i # is) s = Option.bind (body i s) (block_loop body is)"

text \<open>
  The tail is read by a \<open>switch\<close> whose cases fall through: byte \<open>i\<close> takes part when the tail is longer
  than \<open>i\<close>.
\<close>

definition tail32 :: "bytes \<Rightarrow> nat \<Rightarrow> nat \<Rightarrow> nat \<Rightarrow> u32" where
  "tail32 tail n i s = (if n > i then push_bit s (ucast (tail ! i)) else 0)"

definition tail64 :: "bytes \<Rightarrow> nat \<Rightarrow> nat \<Rightarrow> nat \<Rightarrow> u64" where
  "tail64 tail n i s = (if n > i then push_bit s (ucast (tail ! i)) else 0)"

section \<open>The hash functions\<close>

definition x86_32_k :: "u32 \<Rightarrow> u32" where
  "x86_32_k k1 = rotl32 (k1 * 0xcc9e2d51) 15 * 0x1b873593"

definition x86_32_body :: "bytes \<Rightarrow> nat \<Rightarrow> u32 \<Rightarrow> u32 option" where
  "x86_32_body data i h1 =
     Option.bind (getblock32 data i) (\<lambda>k1.
     let h1 = h1 XOR x86_32_k k1;
         h1 = rotl32 h1 13
     in Some (h1 * 5 + 0xe6546b64))"

definition MurmurHash3_x86_32 :: "bytes \<Rightarrow> u32 \<Rightarrow> u32 \<Rightarrow> u32 option" where
  "MurmurHash3_x86_32 data len seed =
     (if sint len < 0 then None
      else
        let nblocks = unat len div 4 in
        Option.bind (block_loop (x86_32_body data) [0..<nblocks] seed) (\<lambda>h1.
        let tail = drop (nblocks * 4) data;
            n = unat len mod 4;
            k1 = tail32 tail n 2 16 XOR tail32 tail n 1 8 XOR tail32 tail n 0 0;
            h1 = (if n \<ge> 1 then h1 XOR x86_32_k k1 else h1);
            h1 = h1 XOR len
        in Some (fmix32 h1)))"

definition x86_128_k :: "u32 \<Rightarrow> u32 \<Rightarrow> nat \<Rightarrow> u32 \<Rightarrow> u32" where
  "x86_128_k c c' r k = rotl32 (k * c) r * c'"

definition x86_128_body :: "bytes \<Rightarrow> nat \<Rightarrow> u32 \<times> u32 \<times> u32 \<times> u32 \<Rightarrow> (u32 \<times> u32 \<times> u32 \<times> u32) option" where
  "x86_128_body data i h =
     (case h of (h1, h2, h3, h4) \<Rightarrow>
        Option.bind (getblock32 data (i * 4 + 0)) (\<lambda>k1.
        Option.bind (getblock32 data (i * 4 + 1)) (\<lambda>k2.
        Option.bind (getblock32 data (i * 4 + 2)) (\<lambda>k3.
        Option.bind (getblock32 data (i * 4 + 3)) (\<lambda>k4.
        let h1 = h1 XOR x86_128_k 0x239b961b 0xab0e9789 15 k1;
            h1 = rotl32 h1 19; h1 = h1 + h2; h1 = h1 * 5 + 0x561ccd1b;
            h2 = h2 XOR x86_128_k 0xab0e9789 0x38b34ae5 16 k2;
            h2 = rotl32 h2 17; h2 = h2 + h3; h2 = h2 * 5 + 0x0bcaa747;
            h3 = h3 XOR x86_128_k 0x38b34ae5 0xa1e38b93 17 k3;
            h3 = rotl32 h3 15; h3 = h3 + h4; h3 = h3 * 5 + 0x96cd1c35;
            h4 = h4 XOR x86_128_k 0xa1e38b93 0x239b961b 18 k4;
            h4 = rotl32 h4 13; h4 = h4 + h1; h4 = h4 * 5 + 0x32ac3b17
        in Some (h1, h2, h3, h4))))))"

definition MurmurHash3_x86_128 :: "bytes \<Rightarrow> u32 \<Rightarrow> u32 \<Rightarrow> (u32 \<times> u32 \<times> u32 \<times> u32) option" where
  "MurmurHash3_x86_128 data len seed =
     (if sint len < 0 then None
      else
        let nblocks = unat len div 16 in
        Option.bind (block_loop (x86_128_body data) [0..<nblocks] (seed, seed, seed, seed)) (\<lambda>(h1, h2, h3, h4).
        let tail = drop (nblocks * 16) data;
            n = unat len mod 16;
            k4 = tail32 tail n 14 16 XOR tail32 tail n 13 8 XOR tail32 tail n 12 0;
            h4 = (if n \<ge> 13 then h4 XOR x86_128_k 0xa1e38b93 0x239b961b 18 k4 else h4);
            k3 = tail32 tail n 11 24 XOR tail32 tail n 10 16 XOR tail32 tail n 9 8 XOR tail32 tail n 8 0;
            h3 = (if n \<ge> 9 then h3 XOR x86_128_k 0x38b34ae5 0xa1e38b93 17 k3 else h3);
            k2 = tail32 tail n 7 24 XOR tail32 tail n 6 16 XOR tail32 tail n 5 8 XOR tail32 tail n 4 0;
            h2 = (if n \<ge> 5 then h2 XOR x86_128_k 0xab0e9789 0x38b34ae5 16 k2 else h2);
            k1 = tail32 tail n 3 24 XOR tail32 tail n 2 16 XOR tail32 tail n 1 8 XOR tail32 tail n 0 0;
            h1 = (if n \<ge> 1 then h1 XOR x86_128_k 0x239b961b 0xab0e9789 15 k1 else h1);
            h1 = h1 XOR len; h2 = h2 XOR len; h3 = h3 XOR len; h4 = h4 XOR len;
            h1 = h1 + h2; h1 = h1 + h3; h1 = h1 + h4;
            h2 = h2 + h1; h3 = h3 + h1; h4 = h4 + h1;
            h1 = fmix32 h1; h2 = fmix32 h2; h3 = fmix32 h3; h4 = fmix32 h4;
            h1 = h1 + h2; h1 = h1 + h3; h1 = h1 + h4;
            h2 = h2 + h1; h3 = h3 + h1; h4 = h4 + h1
        in Some (h1, h2, h3, h4)))"

definition x64_128_k1 :: "u64 \<Rightarrow> u64" where
  "x64_128_k1 k1 = rotl64 (k1 * 0x87c37b91114253d5) 31 * 0x4cf5ad432745937f"

definition x64_128_k2 :: "u64 \<Rightarrow> u64" where
  "x64_128_k2 k2 = rotl64 (k2 * 0x4cf5ad432745937f) 33 * 0x87c37b91114253d5"

definition x64_128_body :: "bytes \<Rightarrow> nat \<Rightarrow> u64 \<times> u64 \<Rightarrow> (u64 \<times> u64) option" where
  "x64_128_body data i h =
     (case h of (h1, h2) \<Rightarrow>
        Option.bind (getblock64 data (i * 2 + 0)) (\<lambda>k1.
        Option.bind (getblock64 data (i * 2 + 1)) (\<lambda>k2.
        let h1 = h1 XOR x64_128_k1 k1;
            h1 = rotl64 h1 27; h1 = h1 + h2; h1 = h1 * 5 + 0x52dce729;
            h2 = h2 XOR x64_128_k2 k2;
            h2 = rotl64 h2 31; h2 = h2 + h1; h2 = h2 * 5 + 0x38495ab5
        in Some (h1, h2))))"

definition MurmurHash3_x64_128 :: "bytes \<Rightarrow> u32 \<Rightarrow> u32 \<Rightarrow> (u64 \<times> u64) option" where
  "MurmurHash3_x64_128 data len seed =
     (if sint len < 0 then None
      else
        let nblocks = unat len div 16 in
        Option.bind (block_loop (x64_128_body data) [0..<nblocks] (ucast seed, ucast seed)) (\<lambda>(h1, h2).
        let tail = drop (nblocks * 16) data;
            n = unat len mod 16;
            k2 = tail64 tail n 14 48 XOR tail64 tail n 13 40 XOR tail64 tail n 12 32 XOR tail64 tail n 11 24
               XOR tail64 tail n 10 16 XOR tail64 tail n 9 8 XOR tail64 tail n 8 0;
            h2 = (if n \<ge> 9 then h2 XOR x64_128_k2 k2 else h2);
            k1 = tail64 tail n 7 56 XOR tail64 tail n 6 48 XOR tail64 tail n 5 40 XOR tail64 tail n 4 32
               XOR tail64 tail n 3 24 XOR tail64 tail n 2 16 XOR tail64 tail n 1 8 XOR tail64 tail n 0 0;
            h1 = (if n \<ge> 1 then h1 XOR x64_128_k1 k1 else h1);
            h1 = h1 XOR ucast len; h2 = h2 XOR ucast len;
            h1 = h1 + h2; h2 = h2 + h1;
            h1 = fmix64 h1; h2 = fmix64 h2;
            h1 = h1 + h2; h2 = h2 + h1
        in Some (h1, h2)))"

text \<open>The wrappers convert the 64 bit length to \<open>int\<close>.\<close>

definition murmurhash32_hash :: "bytes \<Rightarrow> u32 \<Rightarrow> u64 option" where
  "murmurhash32_hash buf seed = map_option ucast (MurmurHash3_x86_32 buf (of_nat (length buf)) seed)"

definition murmurhash64_hash :: "bytes \<Rightarrow> u32 \<Rightarrow> u64 option" where
  "murmurhash64_hash buf seed = map_option fst (MurmurHash3_x64_128 buf (of_nat (length buf)) seed)"

section \<open>Totality\<close>

lemma block_loop_total:
  assumes "\<And>i s. i \<in> set is \<Longrightarrow> \<exists>s'. body i s = Some s'"
  shows "\<exists>s'. block_loop body is s = Some s'"
  using assms
proof (induction "is" arbitrary: s)
  case (Cons i "is")
  then obtain s1 where "body i s = Some s1" by (metis list.set_intros(1))
  moreover obtain s2 where "block_loop body is s1 = Some s2" using Cons by (metis list.set_intros(2))
  ultimately show ?case by simp
qed simp

text \<open>A C \<open>int\<close> made from the length of data shorter than two gigabytes.\<close>

lemma int_length:
  assumes "length (data :: bytes) < 2 ^ 31"
  shows "\<not> sint (of_nat (length data) :: u32) < 0" "unat (of_nat (length data) :: u32) = length data"
proof -
  show u: "unat (of_nat (length data) :: u32) = length data" using assms by (simp add: unat_of_nat)
  show "\<not> sint (of_nat (length data) :: u32) < 0" using assms sint_unat_u32 [of "of_nat (length data)"] u by simp
qed

lemma getblock_total:
  "4 * i + 4 \<le> length data \<Longrightarrow> \<exists>k. getblock32 data i = Some k"
  "8 * i + 8 \<le> length data \<Longrightarrow> \<exists>k. getblock64 data i = Some k"
  by (simp_all add: getblock32_def getblock64_def read_little_endian32_def read_little_endian64_def)

lemma murmurhash32_total:
  assumes "length data < 2 ^ 31"
  shows "\<exists>h. murmurhash32_hash data seed = Some h \<and> unat h < 2 ^ 32"
proof -
  have "\<exists>h'. block_loop (x86_32_body data) [0..<length data div 4] h = Some h'" for h
  proof (rule block_loop_total)
    fix i and s :: u32
    assume "i \<in> set [0..<length data div 4]"
    then have "4 * i + 4 \<le> length data" by auto
    then obtain k where "getblock32 data i = Some k" using getblock_total(1) by blast
    then show "\<exists>s'. x86_32_body data i s = Some s'" by (simp add: x86_32_body_def Let_def)
  qed
  then obtain h' where h': "block_loop (x86_32_body data) [0..<length data div 4] seed = Some h'" by blast
  then show ?thesis
    using int_length [OF assms] unat_lt_u32
    by (simp add: murmurhash32_hash_def MurmurHash3_x86_32_def Let_def)
qed

lemma murmurhash64_total:
  assumes "length data < 2 ^ 31"
  shows "\<exists>h. murmurhash64_hash data seed = Some h"
proof -
  have "\<exists>h'. block_loop (x64_128_body data) [0..<length data div 16] h = Some h'" for h
  proof (rule block_loop_total)
    fix i and s :: "u64 \<times> u64"
    assume "i \<in> set [0..<length data div 16]"
    then have "8 * (i * 2 + 0) + 8 \<le> length data" "8 * (i * 2 + 1) + 8 \<le> length data" by auto
    from getblock_total(2) [OF this(1)] getblock_total(2) [OF this(2)]
    show "\<exists>s'. x64_128_body data i s = Some s'" by (cases s) (auto simp: x64_128_body_def Let_def)
  qed
  then obtain h' where h': "block_loop (x64_128_body data) [0..<length data div 16] (ucast seed, ucast seed) = Some h'"
    by blast
  then show ?thesis
    using int_length [OF assms]
    by (cases h') (simp add: murmurhash64_hash_def MurmurHash3_x64_128_def Let_def)
qed

section \<open>The mixing functions are bijections\<close>

lemma xor_drop_twice:
  fixes x :: "'a::len word"
  assumes "LENGTH('a) \<le> 2 * n" "y = x XOR drop_bit n x"
  shows "y XOR drop_bit n y = x"
proof (rule bit_word_eqI)
  fix m assume "m < LENGTH('a)"
  moreover have "\<not> bit x (n + (n + m))" using assms(1) bit_imp_le_length [of x "n + (n + m)"] by auto
  ultimately show "bit (y XOR drop_bit n y) m \<longleftrightarrow> bit x m"
    unfolding assms(2) by (auto simp: bit_simps ac_simps)
qed

lemma xor_drop_13:
  fixes x :: u32
  assumes "y = x XOR drop_bit 13 x"
  shows "y XOR drop_bit 13 y XOR drop_bit 26 y = x"
proof (rule bit_word_eqI)
  fix m assume "m < LENGTH(32)"
  moreover have "\<not> bit x (26 + (13 + m))" "\<not> bit x (13 + (26 + m))"
    using bit_imp_le_length [of x "39 + m"] by (auto simp: ac_simps)
  ultimately show "bit (y XOR drop_bit 13 y XOR drop_bit 26 y) m \<longleftrightarrow> bit x m"
    unfolding assms by (auto simp: bit_simps ac_simps)
qed

lemma mult_inverse:
  fixes c d x y :: "'a::len word"
  assumes "c * d = 1" "x * c = y * c"
  shows "x = y"
proof -
  have "x * c * d = y * c * d" using assms(2) by simp
  then show ?thesis using assms(1) by (simp add: mult.assoc)
qed

lemma fmix64_inject:
  assumes "fmix64 a = fmix64 b"
  shows "a = b"
proof -
  define f where "f x = x XOR drop_bit 33 x" for x :: u64
  have fi: "f x XOR drop_bit 33 (f x) = x" for x by (rule xor_drop_twice) (simp_all add: f_def)
  have f: "x = y" if "f x = f y" for x y using fi [of x] fi [of y] that by metis
  have c: "(0xff51afd7ed558ccd :: u64) * 0x4f74430c22a54005 = 1" "(0xc4ceb9fe1a85ec53 :: u64) * 0x9cb4b2f8129337db = 1" by simp_all
  have "f (f (f a * 0xff51afd7ed558ccd) * 0xc4ceb9fe1a85ec53) = f (f (f b * 0xff51afd7ed558ccd) * 0xc4ceb9fe1a85ec53)"
    using assms unfolding fmix64_def Let_def f_def .
  from f [OF mult_inverse [OF c(1) f [OF mult_inverse [OF c(2) f [OF this]]]]] show ?thesis .
qed

lemma fmix32_inject:
  assumes "fmix32 a = fmix32 b"
  shows "a = b"
proof -
  define f where "f x = x XOR drop_bit 16 x" for x :: u32
  define g where "g x = x XOR drop_bit 13 x" for x :: u32
  have fi: "f x XOR drop_bit 16 (f x) = x" for x by (rule xor_drop_twice) (simp_all add: f_def)
  have f: "x = y" if "f x = f y" for x y using fi [of x] fi [of y] that by metis
  have g: "x = y" if "g x = g y" for x y
    using xor_drop_13 [OF g_def [of x]] xor_drop_13 [OF g_def [of y]] that by metis
  have c: "(0x85ebca6b :: u32) * 0xa5cb9243 = 1" "(0xc2b2ae35 :: u32) * 0x7ed1b41d = 1" by simp_all
  have "f (g (f a * 0x85ebca6b) * 0xc2b2ae35) = f (g (f b * 0x85ebca6b) * 0xc2b2ae35)"
    using assms unfolding fmix32_def Let_def f_def g_def .
  from f [OF mult_inverse [OF c(1) g [OF mult_inverse [OF c(2) f [OF this]]]]] show ?thesis .
qed

section \<open>Properties\<close>

text \<open>
  C37: the hash functions are defined for every key below two gigabytes (all reads stay inside the key),
  the 32 bit variant yields a value that fits the 4 byte field of a hash slot, and the final mixing
  of both loses no information: it is a bijection on words.
\<close>

theorem murmurhash_total:
  assumes "length data < 2 ^ 31"
  shows "(\<exists>h. murmurhash32_hash data seed = Some h \<and> unat h < 2 ^ 32) \<and> (\<exists>h. murmurhash64_hash data seed = Some h)
    \<and> bij fmix32 \<and> bij fmix64"
  using murmurhash32_total [OF assms] murmurhash64_total [OF assms] fmix32_inject fmix64_inject
  by (simp add: bij_def inj_def finite_UNIV_inj_surj)

theorem murmurhash_total_witness:
  "(\<exists>h. murmurhash32_hash [122] 7 = Some h \<and> unat h < 2 ^ 32) \<and> (\<exists>h. murmurhash64_hash [122] 7 = Some h)
    \<and> bij fmix32 \<and> bij fmix64"
  by (rule murmurhash_total) simp

text \<open>
  Reference values of \<open>src/src/testhash.c\<close>, for tails of different lengths and for keys with whole
  blocks.
\<close>

lemma murmurhash_vectors:
  "murmurhash32_hash [0x7a] 0x5942ad3d = Some 0x5af6cd1b
    \<and> murmurhash32_hash [0x38, 0x37] 0x500dc5a2 = Some 0x680b80bc
    \<and> murmurhash32_hash [0x74, 0x35, 0x67] 0x696736c5 = Some 0x1a5fd660
    \<and> murmurhash32_hash [0x7a, 0x5a, 0x32, 0x54, 0x30, 0x54, 0x61, 0x69, 0x74, 0x5a, 0x52, 0x44, 0x6d] 0x27d44dd7 = Some 0x6cfdb1fb
    \<and> murmurhash64_hash [0x76, 0x71, 0x38, 0x46, 0x68, 0x32, 0x63] 0x1f66134c = Some 0x5e97a97a5868665d
    \<and> murmurhash64_hash [0xcf, 0x0a, 0x87, 0x5f, 0x17, 0x7d, 0x49, 0x77, 0xb7, 0xb9, 0x11, 0x9d, 0x7e, 0x4e, 0xe4, 0xec] 88057744
        = Some 7646390503503309584"
  by code_simp

end
