(* ===== verification/HashHeader.thy ===== *)
theory HashHeader
  imports Endian Murmur
begin

text \<open>
  \<open>src/src/hashalgorithms.c\<close>, \<open>src/src/hashheader.h\<close> and \<open>src/src/hashheader.c\<close>: the two hash algorithms an
  index can use, the 112 byte header of an index file, how it is written, loaded and checked, and
  the access to the addresses in the slots of the table.
\<close>

section \<open>Hash algorithms\<close>

text \<open>
  The C struct holds three function pointers; there are three values of it, one of which has null
  pointers. Calling through a null pointer, and access outside an array, has no defined outcome.
\<close>

datatype sparkey_hash_algorithm = murmurhash32 | murmurhash64 | invalid

definition sparkey_get_hash_algorithm :: "u32 \<Rightarrow> sparkey_hash_algorithm" where
  "sparkey_get_hash_algorithm hash_size =
     (if hash_size = 4 then murmurhash32 else if hash_size = 8 then murmurhash64 else invalid)"

fun alg_hash :: "sparkey_hash_algorithm \<Rightarrow> bytes \<Rightarrow> u32 \<Rightarrow> u64 option" where
  "alg_hash murmurhash32 data seed = murmurhash32_hash data seed"
| "alg_hash murmurhash64 data seed = murmurhash64_hash data seed"
| "alg_hash invalid data seed = None"

fun read_hash :: "sparkey_hash_algorithm \<Rightarrow> bytes \<Rightarrow> nat \<Rightarrow> u64 option" where
  "read_hash murmurhash32 data pos = map_option ucast (read_little_endian32 data pos)"
| "read_hash murmurhash64 data pos = read_little_endian64 data pos"
| "read_hash invalid data pos = None"

text \<open>Storing bytes at an index of an array.\<close>

definition store_bytes :: "bytes \<Rightarrow> nat \<Rightarrow> bytes \<Rightarrow> bytes option" where
  "store_bytes array pos bs =
     (if pos + length bs \<le> length array then Some (splice_at array pos bs) else None)"

fun write_hash :: "sparkey_hash_algorithm \<Rightarrow> bytes \<Rightarrow> nat \<Rightarrow> u64 \<Rightarrow> bytes option" where
  "write_hash murmurhash32 data pos hash = store_bytes data pos (write_little_endian32 (ucast hash))"
| "write_hash murmurhash64 data pos hash = store_bytes data pos (write_little_endian64 hash)"
| "write_hash invalid data pos hash = None"

section \<open>The header\<close>

definition HASH_MAGIC_NUMBER :: u32 where
  "HASH_MAGIC_NUMBER = 0x9a11318f"

definition HASH_MAJOR_VERSION :: u32 where
  "HASH_MAJOR_VERSION = 1"

definition HASH_MINOR_VERSION :: u32 where
  "HASH_MINOR_VERSION = 1"

definition HASH_HEADER_SIZE :: u32 where
  "HASH_HEADER_SIZE = 112"

record sparkey_hashheader =
  hh_major_version :: u32
  hh_minor_version :: u32
  hh_file_identifier :: u32
  hh_hash_seed :: u32
  hh_header_size :: u32
  hh_data_end :: u64
  hh_max_key_len :: u64
  hh_max_value_len :: u64
  hh_garbage_size :: u64
  hh_num_entries :: u64
  hh_address_size :: u32
  hh_hash_size :: u32
  hh_hash_capacity :: u64
  hh_max_displacement :: u64
  hh_num_puts :: u64
  hh_entry_block_bits :: u32
  hh_entry_block_bitmask :: u32
  hh_hash_collisions :: u64
  hh_total_displacement :: u64
  hh_hash_algorithm :: sparkey_hash_algorithm

section \<open>Loading\<close>

text \<open>
  The mask of the entry index; shifting a C \<open>int\<close> by 32 or more places has no defined outcome, here the
  mask then has all bits set.
\<close>

definition block_bitmask :: "u32 \<Rightarrow> u32" where
  "block_bitmask bits = push_bit (unat bits) 1 - 1"

definition hashheader_version0 :: "u32 \<Rightarrow> u32 \<Rightarrow> bytes \<Rightarrow> sparkey_returncode + sparkey_hashheader" where
  "hashheader_version0 major_version minor_version fp =
     rethrow_sum (fread_little_endian32 fp) (\<lambda>(file_identifier, fp).
     rethrow_sum (fread_little_endian32 fp) (\<lambda>(hash_seed, fp).
     rethrow_sum (fread_little_endian64 fp) (\<lambda>(data_end, fp).
     rethrow_sum (fread_little_endian64 fp) (\<lambda>(max_key_len, fp).
     rethrow_sum (fread_little_endian64 fp) (\<lambda>(max_value_len, fp).
     rethrow_sum (fread_little_endian64 fp) (\<lambda>(num_puts, fp).
     rethrow_sum (fread_little_endian64 fp) (\<lambda>(garbage_size, fp).
     rethrow_sum (fread_little_endian64 fp) (\<lambda>(num_entries, fp).
     rethrow_sum (fread_little_endian32 fp) (\<lambda>(address_size, fp).
     rethrow_sum (fread_little_endian32 fp) (\<lambda>(hash_size, fp).
     rethrow_sum (fread_little_endian64 fp) (\<lambda>(hash_capacity, fp).
     rethrow_sum (fread_little_endian64 fp) (\<lambda>(max_displacement, fp).
     rethrow_sum (fread_little_endian32 fp) (\<lambda>(entry_block_bits, fp).
     rethrow_sum (fread_little_endian64 fp) (\<lambda>(hash_collisions, fp).
     rethrow_sum (fread_little_endian64 fp) (\<lambda>(total_displacement, fp).
     (let header =
             \<lparr>hh_major_version = major_version, hh_minor_version = minor_version,
              hh_file_identifier = file_identifier,
              hh_hash_seed = hash_seed,
              hh_header_size = HASH_HEADER_SIZE,
              hh_data_end = data_end,
              hh_max_key_len = max_key_len,
              hh_max_value_len = max_value_len,
              hh_garbage_size = garbage_size,
              hh_num_entries = num_entries,
              hh_address_size = address_size,
              hh_hash_size = hash_size,
              hh_hash_capacity = hash_capacity,
              hh_max_displacement = max_displacement,
              hh_num_puts = num_puts,
              hh_entry_block_bits = entry_block_bits,
              hh_entry_block_bitmask = block_bitmask entry_block_bits,
              hh_hash_collisions = hash_collisions,
              hh_total_displacement = total_displacement,
              hh_hash_algorithm = sparkey_get_hash_algorithm hash_size\<rparr>
      in if hh_hash_algorithm header = invalid then Inl SPARKEY_HASH_HEADER_CORRUPT
         else if hh_num_entries header > hh_num_puts header then Inl SPARKEY_HASH_HEADER_CORRUPT
         else if hh_max_displacement header > hh_num_entries header then Inl SPARKEY_HASH_HEADER_CORRUPT
         else if hh_hash_collisions header > hh_num_entries header then Inl SPARKEY_HASH_HEADER_CORRUPT
         else Inr header))))))))))))))))"

definition sparkey_load_hashheader :: "os \<Rightarrow> string \<Rightarrow> sparkey_returncode + sparkey_hashheader" where
  "sparkey_load_hashheader os filename =
     (case os_open_read os filename of
        Inl e \<Rightarrow> Inl (sparkey_open_returncode e)
      | Inr fp \<Rightarrow>
          rethrow_sum (fread_little_endian32 fp) (\<lambda>(tmp, fp).
          if tmp \<noteq> HASH_MAGIC_NUMBER then Inl SPARKEY_WRONG_HASH_MAGIC_NUMBER else
          rethrow_sum (fread_little_endian32 fp) (\<lambda>(major_version, fp).
          if major_version \<noteq> HASH_MAJOR_VERSION then Inl SPARKEY_WRONG_HASH_MAJOR_VERSION else
          rethrow_sum (fread_little_endian32 fp) (\<lambda>(minor_version, fp).
          if minor_version > HASH_MINOR_VERSION then Inl SPARKEY_UNSUPPORTED_HASH_MINOR_VERSION else
          hashheader_version0 major_version minor_version fp))))"

section \<open>Writing\<close>

definition write_hashheader :: "os \<Rightarrow> fd \<Rightarrow> sparkey_hashheader \<Rightarrow> sparkey_returncode \<times> os \<times> fd" where
  "write_hashheader os fd header =
     io_then (fwrite_little_endian32 os fd HASH_MAGIC_NUMBER) (\<lambda>os fd.
     io_then (fwrite_little_endian32 os fd HASH_MAJOR_VERSION) (\<lambda>os fd.
     io_then (fwrite_little_endian32 os fd HASH_MINOR_VERSION) (\<lambda>os fd.
     io_then (fwrite_little_endian32 os fd (hh_file_identifier header)) (\<lambda>os fd.
     io_then (fwrite_little_endian32 os fd (hh_hash_seed header)) (\<lambda>os fd.
     io_then (fwrite_little_endian64 os fd (hh_data_end header)) (\<lambda>os fd.
     io_then (fwrite_little_endian64 os fd (hh_max_key_len header)) (\<lambda>os fd.
     io_then (fwrite_little_endian64 os fd (hh_max_value_len header)) (\<lambda>os fd.
     io_then (fwrite_little_endian64 os fd (hh_num_puts header)) (\<lambda>os fd.
     io_then (fwrite_little_endian64 os fd (hh_garbage_size header)) (\<lambda>os fd.
     io_then (fwrite_little_endian64 os fd (hh_num_entries header)) (\<lambda>os fd.
     io_then (fwrite_little_endian32 os fd (hh_address_size header)) (\<lambda>os fd.
     io_then (fwrite_little_endian32 os fd (hh_hash_size header)) (\<lambda>os fd.
     io_then (fwrite_little_endian64 os fd (hh_hash_capacity header)) (\<lambda>os fd.
     io_then (fwrite_little_endian64 os fd (hh_max_displacement header)) (\<lambda>os fd.
     io_then (fwrite_little_endian32 os fd (hh_entry_block_bits header)) (\<lambda>os fd.
     io_then (fwrite_little_endian64 os fd (hh_hash_collisions header)) (\<lambda>os fd.
     fwrite_little_endian64 os fd (hh_total_displacement header))))))))))))))))))"

section \<open>Slots\<close>

text \<open>All arithmetic is on unsigned 64 bit numbers; the caller has made sure that \<open>capacity\<close> is not 0.\<close>

definition get_displacement :: "u64 \<Rightarrow> u64 \<Rightarrow> u64 \<Rightarrow> u64" where
  "get_displacement capacity slot hash =
     (let wanted_slot = hash mod capacity in (capacity + (slot - wanted_slot)) mod capacity)"

definition read_addr :: "bytes \<Rightarrow> nat \<Rightarrow> u32 \<Rightarrow> u64 option" where
  "read_addr hashtable pos address_size =
     (if address_size = 4 then map_option ucast (read_little_endian32 hashtable pos)
      else if address_size = 8 then read_little_endian64 hashtable pos
      else Some (- 1))"

definition write_addr :: "bytes \<Rightarrow> nat \<Rightarrow> u64 \<Rightarrow> u32 \<Rightarrow> bytes option" where
  "write_addr buf pos value address_size =
     (if address_size = 4 then store_bytes buf pos (write_little_endian32 (ucast value))
      else if address_size = 8 then store_bytes buf pos (write_little_endian64 value)
      else Some buf)"

section \<open>Layout\<close>

text \<open>The bytes of a header on disk; the minor version of the writer is \<open>HASH_MINOR_VERSION\<close>.\<close>

definition hashheader_bytes :: "sparkey_hashheader \<Rightarrow> bytes" where
  "hashheader_bytes header =
     write_little_endian32 HASH_MAGIC_NUMBER @
     write_little_endian32 HASH_MAJOR_VERSION @
     write_little_endian32 (hh_minor_version header) @
     write_little_endian32 (hh_file_identifier header) @
     write_little_endian32 (hh_hash_seed header) @
     write_little_endian64 (hh_data_end header) @
     write_little_endian64 (hh_max_key_len header) @
     write_little_endian64 (hh_max_value_len header) @
     write_little_endian64 (hh_num_puts header) @
     write_little_endian64 (hh_garbage_size header) @
     write_little_endian64 (hh_num_entries header) @
     write_little_endian32 (hh_address_size header) @
     write_little_endian32 (hh_hash_size header) @
     write_little_endian64 (hh_hash_capacity header) @
     write_little_endian64 (hh_max_displacement header) @
     write_little_endian32 (hh_entry_block_bits header) @
     write_little_endian64 (hh_hash_collisions header) @
     write_little_endian64 (hh_total_displacement header)"

lemma length_hashheader_bytes [codec_simps, simp]: "length (hashheader_bytes h) = 112"
  by (simp add: hashheader_bytes_def)

lemma write_hashheader_completes:
  assumes "fd_ok os fd" "os_calm os" "hh_minor_version h = HASH_MINOR_VERSION"
  shows "completes os fd (hashheader_bytes h) (write_hashheader os fd h)"
  unfolding write_hashheader_def hashheader_bytes_def assms(3)
  by (intro completes_then fwrite_completes assms(1,2); assumption)

lemma write_hashheader_wrote:
  assumes "fd_ok os fd" "hh_minor_version h = HASH_MINOR_VERSION"
  shows "wrote os fd (hashheader_bytes h) (write_hashheader os fd h)"
  unfolding write_hashheader_def hashheader_bytes_def assms(2)
  by (intro wrote_then fwrite_wrote assms(1); assumption)

section \<open>Consistency\<close>

text \<open>The checks a loaded header has passed, and the fields that are computed from others.\<close>

definition hashheader_consistent :: "sparkey_hashheader \<Rightarrow> bool" where
  "hashheader_consistent h \<longleftrightarrow>
     hh_major_version h = HASH_MAJOR_VERSION \<and> hh_minor_version h \<le> HASH_MINOR_VERSION
     \<and> hh_header_size h = HASH_HEADER_SIZE
     \<and> hh_entry_block_bitmask h = block_bitmask (hh_entry_block_bits h)
     \<and> hh_hash_algorithm h = sparkey_get_hash_algorithm (hh_hash_size h)
     \<and> (hh_hash_size h = 4 \<or> hh_hash_size h = 8)
     \<and> hh_num_entries h \<le> hh_num_puts h
     \<and> hh_max_displacement h \<le> hh_num_entries h
     \<and> hh_hash_collisions h \<le> hh_num_entries h"

lemma get_hash_algorithm_invalid: "sparkey_get_hash_algorithm n = invalid \<longleftrightarrow> n \<noteq> 4 \<and> n \<noteq> 8"
  by (simp add: sparkey_get_hash_algorithm_def)

lemma load_hashheader_bytes:
  assumes "os_open_read os name = Inr (hashheader_bytes h @ rest)" "hashheader_consistent h"
  shows "sparkey_load_hashheader os name = Inr h"
  using assms
  by (simp add: sparkey_load_hashheader_def hashheader_bytes_def hashheader_version0_def
      hashheader_consistent_def Let_def not_less get_hash_algorithm_invalid)

lemma load_hashheader_inv:
  assumes "sparkey_load_hashheader os name = Inr h"
  shows "hashheader_consistent h \<and> (\<exists>rest. os_open_read os name = Inr (hashheader_bytes h @ rest))"
proof -
  from assms obtain fp where op: "os_open_read os name = Inr fp"
    by (auto simp: sparkey_load_hashheader_def split: sum.splits)
  from assms show ?thesis
    unfolding sparkey_load_hashheader_def op sum.case hashheader_version0_def Let_def
    by (auto simp: fread32_then_Inr_iff fread64_then_Inr_iff hashheader_consistent_def
        hashheader_bytes_def not_less get_hash_algorithm_invalid split: if_splits)
qed

section \<open>Properties\<close>

text \<open>
  C33: \<open>sparkey_load_hashheader\<close> accepts a file with header \<open>h\<close> exactly when \<open>h\<close> passes the consistency
  checks, its algorithm and bit mask are those its sizes determine, and the file starts with the 112
  bytes of \<open>h\<close>. A header written by \<open>write_hashheader\<close> is one with the current minor version.
\<close>

theorem load_hashheader_iff:
  "sparkey_load_hashheader os name = Inr h \<longleftrightarrow>
     hashheader_consistent h \<and> (\<exists>rest. os_open_read os name = Inr (hashheader_bytes h @ rest))"
  using load_hashheader_inv load_hashheader_bytes by blast

end
