(* ===== verification/Vlq.thy ===== *)
theory Vlq
  imports Endian
begin

text \<open>
  Variable length quantities: \<open>write_vlq\<close> of \<open>src/src/logwriter.c\<close>, \<open>read_vlq\<close> of \<open>src/src/logreader.c\<close>
  and \<open>unsigned_vlq_size\<close> of \<open>src/src/hashwriter.c\<close>.
\<close>

section \<open>Definitions\<close>

text \<open>The bytes \<open>write_vlq\<close> stores; the C function returns their number.\<close>

function write_vlq :: "u64 \<Rightarrow> bytes" where
  "write_vlq value =
     (if value \<ge> 128 then ucast ((value AND 0x7f) OR 0x80) # write_vlq (drop_bit 7 value)
      else [ucast value])"
  by pat_completeness auto
termination
proof (relation "measure unat")
  fix v :: u64
  assume "128 \<le> v"
  then have "unat v \<ge> 128" by (simp add: word_le_nat_alt)
  then show "(drop_bit 7 v, v) \<in> measure unat"
    unfolding in_measure unat_drop_bit_eq by (simp add: drop_bit_eq_div)
qed simp

declare write_vlq.simps [simp del]

text \<open>
  The loop of \<open>read_vlq\<close>. It has no defined outcome when it leaves the array, or when it would shift a
  64 bit value by 64 bits or more.
\<close>

function read_vlq_loop :: "bytes \<Rightarrow> u64 \<Rightarrow> u64 \<Rightarrow> u64 \<Rightarrow> (u64 \<times> u64) option" where
  "read_vlq_loop array position res shift =
     (if unat position \<ge> length array \<or> unat shift \<ge> 64 then None
      else
        let tmp = ucast (array ! unat position) :: u64;
            position' = position + 1;
            tmp2 = tmp AND 0x7f
        in if tmp = tmp2 then Some (res OR push_bit (unat shift) tmp, position')
           else read_vlq_loop array position' (res OR push_bit (unat shift) tmp2) (shift + 7))"
  by pat_completeness auto
termination
  by (relation "measure (\<lambda>(array, position, res, shift). 64 - unat shift)")
    (auto simp: unat_add_u64)

declare read_vlq_loop.simps [simp del]

definition read_vlq :: "bytes \<Rightarrow> u64 \<Rightarrow> (u64 \<times> u64) option" where
  "read_vlq array position = read_vlq_loop array position 0 0"

definition unsigned_vlq_size :: "u64 \<Rightarrow> u64" where
  "unsigned_vlq_size value =
     (if value < push_bit 7 1 then 1
      else if value < push_bit 14 1 then 2
      else if value < push_bit 21 1 then 3
      else if value < push_bit 28 1 then 4
      else if value < push_bit 35 1 then 5
      else if value < push_bit 42 1 then 6
      else if value < push_bit 49 1 then 7
      else if value < push_bit 56 1 then 8
      else if value < push_bit 63 1 then 9
      else 10)"

section \<open>Sizes\<close>

lemma unat_drop7: "unat (drop_bit 7 (v :: u64)) = unat v div 128"
  unfolding unat_drop_bit_eq by (simp add: drop_bit_eq_div)

text \<open>The size of a VLQ as a natural number, for reasoning.\<close>

lemma unat_unsigned_vlq_size:
  "unat (unsigned_vlq_size v) =
     (if unat v < 2 ^ 7 then 1 else if unat v < 2 ^ 14 then 2 else if unat v < 2 ^ 21 then 3
      else if unat v < 2 ^ 28 then 4 else if unat v < 2 ^ 35 then 5 else if unat v < 2 ^ 42 then 6
      else if unat v < 2 ^ 49 then 7 else if unat v < 2 ^ 56 then 8 else if unat v < 2 ^ 63 then 9 else 10)"
  by (simp add: unsigned_vlq_size_def word_less_nat_alt push_bit_eq_mult)

lemma length_write_vlq: "length (write_vlq v) = unat (unsigned_vlq_size v)"
proof (induction v rule: write_vlq.induct)
  case (1 v)
  show ?case
  proof (cases "v \<ge> 128")
    case True
    then have ge: "unat v \<ge> 128" by (simp add: word_le_nat_alt)
    have "length (write_vlq v) = Suc (unat (unsigned_vlq_size (drop_bit 7 v)))"
      using 1 True by (simp add: write_vlq.simps [of v])
    also have "\<dots> = unat (unsigned_vlq_size v)"
    proof -
      have "unat v div 128 < 2 ^ 57" by (rule less_mult_imp_div_less) simp
      then show ?thesis
        unfolding unat_unsigned_vlq_size unat_drop7 using ge by (auto split: if_splits)
    qed
    finally show ?thesis .
  next
    case False
    then have "unat v < 128" by (simp add: word_le_nat_alt)
    then show ?thesis using False by (simp add: write_vlq.simps [of v] unat_unsigned_vlq_size)
  qed
qed

lemma length_write_vlq_pos [simp]: "length (write_vlq v) > 0"
  by (subst write_vlq.simps) simp

lemma write_vlq_not_Nil [simp]: "write_vlq v \<noteq> []"
  by (metis length_write_vlq_pos length_greater_0_conv)

lemma length_write_vlq_le: "length (write_vlq v) \<le> 10"
  by (simp add: length_write_vlq unat_unsigned_vlq_size)

section \<open>Round trip\<close>

lemma vlq_split: "(v AND 0x7f) OR push_bit 7 (drop_bit 7 v) = (v :: u64)"
proof -
  have m: "(0x7f :: u64) = mask 7" by (simp add: mask_eq_exp_minus_1)
  show ?thesis
    unfolding m by (rule bit_word_eqI) (auto simp: bit_simps not_less, metis le_add_diff_inverse not_less)
qed

lemma bit_0x80: "bit (0x80 :: 'a::semiring_bits) n \<longleftrightarrow> possible_bit TYPE('a) 7 \<and> n = 7"
proof -
  have "bit (2 ^ 7 :: 'a) n \<longleftrightarrow> possible_bit TYPE('a) 7 \<and> n = 7"
    by (auto simp only: bit_exp_iff)
  then show ?thesis by simp
qed

lemma vlq_byte_more:
  "ucast (ucast ((v AND 0x7f) OR 0x80 :: u64) :: byte) = ((v AND 0x7f) OR 0x80 :: u64)"
proof -
  have m: "(0x7f :: u64) = mask 7" by (simp add: mask_eq_exp_minus_1)
  show ?thesis unfolding m by (rule bit_word_eqI) (auto simp: bit_simps bit_0x80)
qed

lemma vlq_byte_more_low:
  "((v AND 0x7f) OR 0x80) AND 0x7f = (v AND 0x7f :: u64)"
  "((v AND 0x7f) OR 0x80 :: u64) \<noteq> v AND 0x7f"
proof -
  have m: "(0x7f :: u64) = mask 7" by (simp add: mask_eq_exp_minus_1)
  show "((v AND 0x7f) OR 0x80) AND 0x7f = (v AND 0x7f :: u64)"
    unfolding m by (rule bit_word_eqI) (auto simp: bit_simps bit_0x80)
  have "bit ((v AND 0x7f) OR 0x80 :: u64) 7" "\<not> bit (v AND 0x7f :: u64) 7"
    unfolding m by (auto simp: bit_simps bit_0x80)
  then show "((v AND 0x7f) OR 0x80 :: u64) \<noteq> v AND 0x7f" by metis
qed

lemma vlq_byte_last:
  assumes "v < 128"
  shows "ucast (ucast (v :: u64) :: byte) = v" "v AND 0x7f = v"
proof -
  have u: "unat v < 128" using assms by (simp add: word_less_nat_alt)
  then show "ucast (ucast v :: byte) = v"
    by (simp add: word_unat_eq_iff unsigned_ucast_eq unsigned_take_bit_eq take_bit_nat_eq_self)
  have m: "(0x7f :: u64) = mask 7" by (simp add: mask_eq_exp_minus_1)
  show "v AND 0x7f = v"
    using u unfolding m
    by (simp add: word_unat_eq_iff unsigned_and_eq take_bit_eq_mask [symmetric] unsigned_take_bit_eq
        take_bit_nat_eq_self)
qed

lemma read_vlq_loop_write:
  assumes "length pre + length (write_vlq v) < 2 ^ 64"
    and "unat shift < 64" "unat v < 2 ^ (64 - unat shift)"
  shows "read_vlq_loop (pre @ write_vlq v @ rest) (of_nat (length pre)) res shift =
    Some (res OR push_bit (unat shift) v, of_nat (length pre + length (write_vlq v)))"
  using assms
proof (induction v arbitrary: pre res shift rule: write_vlq.induct)
  case (1 v)
  have pos: "unat (of_nat (length pre) :: u64) = length pre"
    using "1.prems"(1) by (intro unat_of_nat_u64) linarith
  show ?case
  proof (cases "v \<ge> 128")
    case False
    then have v: "v < 128" by simp
    then have "write_vlq v = [ucast v]" by (simp add: write_vlq.simps [of v] not_le [symmetric])
    then show ?thesis
      using "1.prems" pos vlq_byte_last [OF v]
      by (simp add: read_vlq_loop.simps [of _ "of_nat (length pre)"] nth_append)
  next
    case True
    let ?b = "ucast ((v AND 0x7f) OR 0x80) :: byte"
    let ?v = "drop_bit 7 v"
    have eq: "write_vlq v = ?b # write_vlq ?v" using True by (simp add: write_vlq.simps [of v])
    have ge: "unat v \<ge> 128" using True by (simp add: word_le_nat_alt)
    have s: "unat shift + 7 < 64"
    proof (rule ccontr)
      assume "\<not> unat shift + 7 < 64"
      then have "(2::nat) ^ (64 - unat shift) \<le> 2 ^ 7" by (intro power_increasing) auto
      then show False using "1.prems"(3) ge by simp
    qed
    have us: "unat (shift + 7) = unat shift + 7" using s by (simp add: unat_add_u64)
    have "unat ?v < 2 ^ (64 - (unat shift + 7))"
    proof -
      have "(2::nat) ^ (64 - unat shift) = 2 ^ (64 - (unat shift + 7)) * 2 ^ 7"
      proof -
        have "64 - unat shift = (64 - (unat shift + 7)) + 7" using s by simp
        then show ?thesis by (metis power_add)
      qed
      then show ?thesis using "1.prems"(3) by (simp add: unat_drop7 less_mult_imp_div_less)
    qed
    then have "read_vlq_loop ((pre @ [?b]) @ write_vlq ?v @ rest) (of_nat (length (pre @ [?b])))
        (res OR push_bit (unat shift) (v AND 0x7f)) (shift + 7)
      = Some ((res OR push_bit (unat shift) (v AND 0x7f)) OR push_bit (unat (shift + 7)) ?v,
              of_nat (length (pre @ [?b]) + length (write_vlq ?v)))"
      using "1.IH" [OF True, of "pre @ [?b]" "shift + 7"] "1.prems"(1) eq s us by simp
    moreover have "push_bit (unat shift) (v AND 0x7f) OR push_bit (unat (shift + 7)) ?v = push_bit (unat shift) v"
      using vlq_split [of v] unfolding us
      by (metis push_bit_or push_bit_push_bit)
    ultimately show ?thesis
      using "1.prems"(2) pos vlq_byte_more_low [of v]
      by (simp add: read_vlq_loop.simps [of _ "of_nat (length pre)"] eq vlq_byte_more nth_append
          or.assoc Let_def add.commute)
  qed
qed

lemma read_vlq_write:
  assumes "length pre + length (write_vlq v) < 2 ^ 64"
  shows "read_vlq (pre @ write_vlq v @ rest) (of_nat (length pre)) =
    Some (v, of_nat (length pre + length (write_vlq v)))"
  using read_vlq_loop_write [of pre v 0 rest 0] assms by (simp add: read_vlq_def)

text \<open>What \<open>read_vlq\<close> returns depends only on the bytes up to the end of the quantity.\<close>

lemma read_vlq_at:
  assumes "drop (unat pos) arr = write_vlq v @ rest" "unat pos \<le> length arr" "length arr < 2 ^ 64"
  shows "read_vlq arr pos = Some (v, pos + of_nat (length (write_vlq v)))"
proof -
  let ?pre = "take (unat pos) arr"
  have "arr = ?pre @ write_vlq v @ rest" using assms(1) by (metis append_take_drop_id)
  moreover have "length ?pre = unat pos" using assms(2) by simp
  moreover have "length ?pre + length (write_vlq v) < 2 ^ 64"
    using assms calculation(1) by (metis append_assoc length_append le_add1 order_le_less_trans)
  ultimately show ?thesis
    using read_vlq_write [of ?pre v rest] by (metis of_nat_add of_nat_unat_u64)
qed

section \<open>Properties\<close>

text \<open>
  C35: the reader's \<open>read_vlq\<close> at the position where the writer's \<open>write_vlq\<close> put a number yields that
  number and moves the position by exactly the size \<open>unsigned_vlq_size\<close> computes for the hash writer.
\<close>

theorem vlq_roundtrip:
  assumes "length pre + length (write_vlq v) < 2 ^ 64"
  shows "read_vlq (pre @ write_vlq v @ rest) (of_nat (length pre)) =
    Some (v, of_nat (length pre) + unsigned_vlq_size v)"
  using read_vlq_write [OF assms] by (simp add: length_write_vlq)

theorem vlq_roundtrip_witness:
  "read_vlq ([7, 7] @ write_vlq 300 @ [9]) 2 = Some (300, 2 + unsigned_vlq_size 300)"
  using vlq_roundtrip [of "[7, 7]" 300 "[9]"] length_write_vlq_le [of 300] by simp

end
