(* ===== verification/Compress.thy ===== *)
theory Compress
  imports Returncodes
begin

text \<open>
  \<open>src/src/compress.c\<close>: the table of block compressors. The snappy and zstd libraries are code outside
  the repository: they are the parameter \<open>codec_lib\<close>, with their documented behaviour as the
  hypothesis \<open>codec_ok\<close>. \<open>compressor_ok\<close> is the contract the log writer and reader rely on, and it is
  derived from \<open>codec_ok\<close> for the entries of the table.
\<close>

section \<open>The external libraries\<close>

datatype snappy_status = SNAPPY_OK | SNAPPY_INVALID_INPUT | SNAPPY_BUFFER_TOO_SMALL

text \<open>
  A snappy call gets its input and the size of its output buffer and yields its status, the bytes it
  wrote and the value it left in the size argument. A zstd call returns one number, which is a size
  or, by \<open>ZSTD_isError\<close>, an error.
\<close>

record codec_lib =
  snappy_max_compressed_length :: "u64 \<Rightarrow> u64"
  snappy_compress :: "bytes \<Rightarrow> u64 \<Rightarrow> snappy_status \<times> bytes \<times> u64"
  snappy_uncompress :: "bytes \<Rightarrow> u64 \<Rightarrow> snappy_status \<times> bytes \<times> u64"
  ZSTD_compressBound :: "u64 \<Rightarrow> u64"
  ZSTD_compress :: "u64 \<Rightarrow> bytes \<Rightarrow> int \<Rightarrow> u64 \<times> bytes"
  ZSTD_decompress :: "u64 \<Rightarrow> bytes \<Rightarrow> u64 \<times> bytes"
  ZSTD_isError :: "u64 \<Rightarrow> bool"

section \<open>The compressor table\<close>

text \<open>
  \<open>sparkey_compression_type\<close> is a C enum that is also loaded from disk without a check, so it is the
  32 bit value itself.
\<close>

type_synonym sparkey_compression_type = u32

definition SPARKEY_COMPRESSION_NONE :: sparkey_compression_type where
  [simp]: "SPARKEY_COMPRESSION_NONE = 0"

definition SPARKEY_COMPRESSION_SNAPPY :: sparkey_compression_type where
  [simp]: "SPARKEY_COMPRESSION_SNAPPY = 1"

definition SPARKEY_COMPRESSION_ZSTD :: sparkey_compression_type where
  [simp]: "SPARKEY_COMPRESSION_ZSTD = 2"

text \<open>
  \<open>compress\<close> and \<open>decompress\<close> take the input bytes and the initial value of the in/out size argument;
  they yield the return code, the bytes stored in the output buffer and the final size.
\<close>

record sparkey_compressor =
  max_compressed_size :: "u32 \<Rightarrow> u32"
  decompress :: "bytes \<Rightarrow> u32 \<Rightarrow> sparkey_returncode \<times> bytes \<times> u32"
  compress :: "bytes \<Rightarrow> u32 \<Rightarrow> sparkey_returncode \<times> bytes \<times> u32"

definition sparkey_snappy_max_compressed_size :: "codec_lib \<Rightarrow> u32 \<Rightarrow> u32" where
  "sparkey_snappy_max_compressed_size lib block_size =
     ucast (snappy_max_compressed_length lib (ucast block_size))"

definition sparkey_snappy_decompress ::
  "codec_lib \<Rightarrow> bytes \<Rightarrow> u32 \<Rightarrow> sparkey_returncode \<times> bytes \<times> u32" where
  "sparkey_snappy_decompress lib input uncompressed_size =
     (case snappy_uncompress lib input (ucast uncompressed_size) of
        (status, output, rsize) \<Rightarrow>
          (if status = SNAPPY_OK then SPARKEY_SUCCESS else SPARKEY_INTERNAL_ERROR, output, ucast rsize))"

definition sparkey_snappy_compress ::
  "codec_lib \<Rightarrow> bytes \<Rightarrow> u32 \<Rightarrow> sparkey_returncode \<times> bytes \<times> u32" where
  "sparkey_snappy_compress lib input compressed_size =
     (case snappy_compress lib input (ucast compressed_size) of
        (status, output, rsize) \<Rightarrow>
          (if status = SNAPPY_OK then SPARKEY_SUCCESS else SPARKEY_INTERNAL_ERROR, output, ucast rsize))"

definition sparkey_zstd_max_compressed_size :: "codec_lib \<Rightarrow> u32 \<Rightarrow> u32" where
  "sparkey_zstd_max_compressed_size lib block_size = ucast (ZSTD_compressBound lib (ucast block_size))"

definition sparkey_zstd_decompress ::
  "codec_lib \<Rightarrow> bytes \<Rightarrow> u32 \<Rightarrow> sparkey_returncode \<times> bytes \<times> u32" where
  "sparkey_zstd_decompress lib input uncompressed_size =
     (case ZSTD_decompress lib (ucast uncompressed_size) input of
        (ret, output) \<Rightarrow>
          if ZSTD_isError lib ret then (SPARKEY_INTERNAL_ERROR, output, uncompressed_size)
          else (SPARKEY_SUCCESS, output, ucast ret))"

definition sparkey_zstd_compress ::
  "codec_lib \<Rightarrow> bytes \<Rightarrow> u32 \<Rightarrow> sparkey_returncode \<times> bytes \<times> u32" where
  "sparkey_zstd_compress lib input compressed_size =
     (case ZSTD_compress lib (ucast compressed_size) input 3 of
        (ret, output) \<Rightarrow>
          if ZSTD_isError lib ret then (SPARKEY_INTERNAL_ERROR, output, compressed_size)
          else (SPARKEY_SUCCESS, output, ucast ret))"

text \<open>The table; its first entry holds null pointers, and there is no entry behind the third.\<close>

definition sparkey_compressors :: "codec_lib \<Rightarrow> sparkey_compression_type \<Rightarrow> sparkey_compressor option" where
  "sparkey_compressors lib t =
     (if t = SPARKEY_COMPRESSION_SNAPPY then
        Some \<lparr>max_compressed_size = sparkey_snappy_max_compressed_size lib,
              decompress = sparkey_snappy_decompress lib,
              compress = sparkey_snappy_compress lib\<rparr>
      else if t = SPARKEY_COMPRESSION_ZSTD then
        Some \<lparr>max_compressed_size = sparkey_zstd_max_compressed_size lib,
              decompress = sparkey_zstd_decompress lib,
              compress = sparkey_zstd_compress lib\<rparr>
      else None)"

definition sparkey_uses_compressor :: "sparkey_compression_type \<Rightarrow> bool" where
  "sparkey_uses_compressor t =
     (if t = SPARKEY_COMPRESSION_SNAPPY then True
      else if t = SPARKEY_COMPRESSION_ZSTD then True
      else False)"

section \<open>Contracts\<close>

text \<open>
  Documented behaviour of the libraries, for inputs below two gigabytes: the bound functions are
  monotone and bound the size of compressed data, compression into a buffer of at least that size
  succeeds, and decompression of its result into a buffer that is large enough gives the input back.
\<close>

definition snappy_documented :: "codec_lib \<Rightarrow> bool" where
  "snappy_documented lib \<longleftrightarrow>
     (\<forall>m n. m \<le> n \<longrightarrow> n < 2 ^ 31 \<longrightarrow>
        snappy_max_compressed_length lib m \<le> snappy_max_compressed_length lib n
        \<and> snappy_max_compressed_length lib n < 2 ^ 32)
   \<and> (\<forall>input cap. length input < 2 ^ 31
        \<longrightarrow> snappy_max_compressed_length lib (of_nat (length input)) \<le> cap \<longrightarrow>
        (\<exists>out. snappy_compress lib input cap = (SNAPPY_OK, out, of_nat (length out))
           \<and> length out \<le> unat (snappy_max_compressed_length lib (of_nat (length input)))
           \<and> (\<forall>size. of_nat (length input) \<le> size \<longrightarrow>
                snappy_uncompress lib out size = (SNAPPY_OK, input, of_nat (length input)))))"

definition zstd_documented :: "codec_lib \<Rightarrow> bool" where
  "zstd_documented lib \<longleftrightarrow>
     (\<forall>m n. m \<le> n \<longrightarrow> n < 2 ^ 31 \<longrightarrow>
        ZSTD_compressBound lib m \<le> ZSTD_compressBound lib n \<and> ZSTD_compressBound lib n < 2 ^ 32)
   \<and> (\<forall>input cap level. length input < 2 ^ 31
        \<longrightarrow> ZSTD_compressBound lib (of_nat (length input)) \<le> cap \<longrightarrow>
        (\<exists>out. ZSTD_compress lib cap input level = (of_nat (length out), out)
           \<and> length out \<le> unat (ZSTD_compressBound lib (of_nat (length input)))
           \<and> \<not> ZSTD_isError lib (of_nat (length out))
           \<and> \<not> ZSTD_isError lib (of_nat (length input))
           \<and> (\<forall>size. of_nat (length input) \<le> size \<longrightarrow>
                ZSTD_decompress lib size out = (of_nat (length input), input))))"

definition codec_ok :: "codec_lib \<Rightarrow> bool" where
  "codec_ok lib \<longleftrightarrow> snappy_documented lib \<and> zstd_documented lib"

text \<open>
  What the log relies on: a block of at most \<open>block_size\<close> bytes compresses into the buffer the writer
  has allocated, and decompresses to itself in the buffer the reader has allocated.
\<close>

definition compressor_ok :: "sparkey_compressor \<Rightarrow> u32 \<Rightarrow> bool" where
  "compressor_ok c block_size \<longleftrightarrow>
     (\<forall>input. length input \<le> unat block_size \<longrightarrow>
        (\<exists>out. compress c input (max_compressed_size c block_size)
                 = (SPARKEY_SUCCESS, out, of_nat (length out))
           \<and> length out < 2 ^ 32
           \<and> decompress c out block_size = (SPARKEY_SUCCESS, input, of_nat (length input))))"

lemma uses_compressor_iff:
  "sparkey_uses_compressor t \<longleftrightarrow> (\<exists>c. sparkey_compressors lib t = Some c)"
  by (simp add: sparkey_uses_compressor_def sparkey_compressors_def)

lemma ucast_below_u32: "(x :: u64) < 2 ^ 32 \<Longrightarrow> ucast (ucast x :: u32) = x"
  by (simp add: word_unat_eq_iff word_less_nat_alt unsigned_ucast_eq unsigned_take_bit_eq take_bit_nat_eq_self)

lemma ucast_of_nat_u32: "n < 2 ^ 64 \<Longrightarrow> ucast (of_nat n :: u64) = (of_nat n :: u32)"
  by (simp add: unsigned_of_nat take_bit_nat_eq_self)

lemma of_nat_le_ucast_u32:
  assumes "n \<le> unat (bs :: u32)"
  shows "(of_nat n :: u64) \<le> ucast bs"
proof -
  have "n < 2 ^ 64" using order_le_less_trans [OF assms unsigned_less] by simp
  then show ?thesis using assms by (simp add: word_le_nat_alt unat_of_nat_u64)
qed

lemma snappy_compressor_ok:
  assumes "snappy_documented lib" "block_size < 2 ^ 31"
  shows "compressor_ok \<lparr>max_compressed_size = sparkey_snappy_max_compressed_size lib,
           decompress = sparkey_snappy_decompress lib, compress = sparkey_snappy_compress lib\<rparr> block_size"
  unfolding compressor_ok_def
proof (intro allI impI)
  fix input :: bytes
  assume len: "length input \<le> unat block_size"
  let ?B = "snappy_max_compressed_length lib (ucast block_size)"
  have bs: "unat block_size < 2 ^ 31" using assms(2) by (simp add: word_less_nat_alt)
  have n: "(of_nat (length input) :: u64) \<le> ucast block_size"
    using len by (rule of_nat_le_ucast_u32)
  have "(ucast block_size :: u64) < 2 ^ 31" using bs by (simp add: word_less_nat_alt)
  then have B: "?B < 2 ^ 32" "snappy_max_compressed_length lib (of_nat (length input)) \<le> ?B"
    using assms(1) n unfolding snappy_documented_def by blast+
  have "length input < 2 ^ 31" using len bs by linarith
  with B(2) assms(1) obtain out where out: "snappy_compress lib input ?B = (SNAPPY_OK, out, of_nat (length out))"
    "length out \<le> unat (snappy_max_compressed_length lib (of_nat (length input)))"
    "\<forall>size. of_nat (length input) \<le> size \<longrightarrow>
       snappy_uncompress lib out size = (SNAPPY_OK, input, of_nat (length input))"
    unfolding snappy_documented_def by blast
  have lo: "length out < 2 ^ 32"
    using out(2) B by (simp add: word_le_nat_alt word_less_nat_alt)
  show "\<exists>out. compress \<lparr>max_compressed_size = sparkey_snappy_max_compressed_size lib,
           decompress = sparkey_snappy_decompress lib, compress = sparkey_snappy_compress lib\<rparr> input
         (max_compressed_size \<lparr>max_compressed_size = sparkey_snappy_max_compressed_size lib,
           decompress = sparkey_snappy_decompress lib, compress = sparkey_snappy_compress lib\<rparr> block_size)
        = (SPARKEY_SUCCESS, out, of_nat (length out)) \<and> length out < 2 ^ 32
      \<and> decompress \<lparr>max_compressed_size = sparkey_snappy_max_compressed_size lib,
           decompress = sparkey_snappy_decompress lib, compress = sparkey_snappy_compress lib\<rparr> out block_size
        = (SPARKEY_SUCCESS, input, of_nat (length input))"
    using out lo len bs B(1) n
    by (intro exI [of _ out])
      (simp add: sparkey_snappy_compress_def sparkey_snappy_decompress_def
        sparkey_snappy_max_compressed_size_def ucast_below_u32 ucast_of_nat_u32)
qed

lemma zstd_compressor_ok:
  assumes "zstd_documented lib" "block_size < 2 ^ 31"
  shows "compressor_ok \<lparr>max_compressed_size = sparkey_zstd_max_compressed_size lib,
           decompress = sparkey_zstd_decompress lib, compress = sparkey_zstd_compress lib\<rparr> block_size"
  unfolding compressor_ok_def
proof (intro allI impI)
  fix input :: bytes
  assume len: "length input \<le> unat block_size"
  let ?B = "ZSTD_compressBound lib (ucast block_size)"
  have bs: "unat block_size < 2 ^ 31" using assms(2) by (simp add: word_less_nat_alt)
  have n: "(of_nat (length input) :: u64) \<le> ucast block_size"
    using len by (rule of_nat_le_ucast_u32)
  have "(ucast block_size :: u64) < 2 ^ 31" using bs by (simp add: word_less_nat_alt)
  then have B: "?B < 2 ^ 32" "ZSTD_compressBound lib (of_nat (length input)) \<le> ?B"
    using assms(1) n unfolding zstd_documented_def by blast+
  have "length input < 2 ^ 31" using len bs by linarith
  with B(2) assms(1) obtain out where out: "ZSTD_compress lib ?B input 3 = (of_nat (length out), out)"
    "length out \<le> unat (ZSTD_compressBound lib (of_nat (length input)))"
    "\<not> ZSTD_isError lib (of_nat (length out))" "\<not> ZSTD_isError lib (of_nat (length input))"
    "\<forall>size. of_nat (length input) \<le> size \<longrightarrow>
       ZSTD_decompress lib size out = (of_nat (length input), input)"
    unfolding zstd_documented_def by blast
  have lo: "length out < 2 ^ 32"
    using out(2) B by (simp add: word_le_nat_alt word_less_nat_alt)
  show "\<exists>out. compress \<lparr>max_compressed_size = sparkey_zstd_max_compressed_size lib,
           decompress = sparkey_zstd_decompress lib, compress = sparkey_zstd_compress lib\<rparr> input
         (max_compressed_size \<lparr>max_compressed_size = sparkey_zstd_max_compressed_size lib,
           decompress = sparkey_zstd_decompress lib, compress = sparkey_zstd_compress lib\<rparr> block_size)
        = (SPARKEY_SUCCESS, out, of_nat (length out)) \<and> length out < 2 ^ 32
      \<and> decompress \<lparr>max_compressed_size = sparkey_zstd_max_compressed_size lib,
           decompress = sparkey_zstd_decompress lib, compress = sparkey_zstd_compress lib\<rparr> out block_size
        = (SPARKEY_SUCCESS, input, of_nat (length input))"
    using out lo len bs B(1) n
    by (intro exI [of _ out])
      (simp add: sparkey_zstd_compress_def sparkey_zstd_decompress_def
        sparkey_zstd_max_compressed_size_def ucast_below_u32 ucast_of_nat_u32)
qed

lemma sparkey_compressors_ok:
  assumes "codec_ok lib" "sparkey_compressors lib t = Some c" "block_size < 2 ^ 31"
  shows "compressor_ok c block_size"
  using assms snappy_compressor_ok zstd_compressor_ok
  by (auto simp: codec_ok_def sparkey_compressors_def split: if_splits)

section \<open>A library that satisfies the documented behaviour\<close>

text \<open>Storing the input unchanged; used to show that the hypotheses can hold.\<close>

definition store_lib :: codec_lib where
  "store_lib =
     \<lparr>snappy_max_compressed_length = (\<lambda>n. n),
      snappy_compress = (\<lambda>input cap.
        if of_nat (length input) \<le> cap then (SNAPPY_OK, input, of_nat (length input))
        else (SNAPPY_BUFFER_TOO_SMALL, [], cap)),
      snappy_uncompress = (\<lambda>input cap.
        if of_nat (length input) \<le> cap then (SNAPPY_OK, input, of_nat (length input))
        else (SNAPPY_BUFFER_TOO_SMALL, [], cap)),
      ZSTD_compressBound = (\<lambda>n. n),
      ZSTD_compress = (\<lambda>cap input level.
        if of_nat (length input) \<le> cap then (of_nat (length input), input) else (- 1, [])),
      ZSTD_decompress = (\<lambda>cap input.
        if of_nat (length input) \<le> cap then (of_nat (length input), input) else (- 1, [])),
      ZSTD_isError = (\<lambda>n. n \<ge> 2 ^ 63)\<rparr>"

lemma store_lib_codec_ok: "codec_ok store_lib"
  by (auto simp: codec_ok_def snappy_documented_def zstd_documented_def store_lib_def
      unat_of_nat_u64 word_le_nat_alt word_less_nat_alt)

section \<open>Properties\<close>

text \<open>
  Every compressor of the table compresses any block of at most the block size into the buffer of
  the size it asks for, and decompresses it back, when the libraries behave as documented.
\<close>

theorem compressor_roundtrip:
  assumes "codec_ok lib" "sparkey_compressors lib t = Some c" "block_size < 2 ^ 31"
    and "length input \<le> unat block_size"
  shows "\<exists>out. compress c input (max_compressed_size c block_size) = (SPARKEY_SUCCESS, out, of_nat (length out))
    \<and> decompress c out block_size = (SPARKEY_SUCCESS, input, of_nat (length input))"
  using sparkey_compressors_ok [OF assms(1-3)] assms(4) unfolding compressor_ok_def by blast

theorem compressor_roundtrip_witness:
  "\<exists>out. compress (the (sparkey_compressors store_lib 2)) [1, 2, 3]
       (max_compressed_size (the (sparkey_compressors store_lib 2)) 10) = (SPARKEY_SUCCESS, out, of_nat (length out))
    \<and> decompress (the (sparkey_compressors store_lib 2)) out 10 = (SPARKEY_SUCCESS, [1, 2, 3], of_nat (length [1, 2, 3 :: byte]))"
  by (rule compressor_roundtrip [OF store_lib_codec_ok, of 2])
    (simp_all add: sparkey_compressors_def)

end
