(* ===== verification/LogHeader.thy ===== *)
theory LogHeader
  imports Endian Compress
begin

text \<open>
  \<open>src/src/logheader.h\<close> and \<open>src/src/logheader.c\<close>: the 84 byte header of a log file, how it is
  written, loaded and checked.
\<close>

section \<open>The header\<close>

definition LOG_MAGIC_NUMBER :: u32 where
  "LOG_MAGIC_NUMBER = 0x49b39c95"

definition LOG_MAJOR_VERSION :: u32 where
  "LOG_MAJOR_VERSION = 1"

definition LOG_MINOR_VERSION :: u32 where
  "LOG_MINOR_VERSION = 0"

definition LOG_HEADER_SIZE :: u32 where
  "LOG_HEADER_SIZE = 84"

record sparkey_logheader =
  lh_major_version :: u32
  lh_minor_version :: u32
  lh_file_identifier :: u32
  lh_num_puts :: u64
  lh_num_deletes :: u64
  lh_data_end :: u64
  lh_max_key_len :: u64
  lh_max_value_len :: u64
  lh_delete_size :: u64
  lh_compression_type :: sparkey_compression_type
  lh_compression_block_size :: u32
  lh_put_size :: u64
  lh_header_size :: u32
  lh_max_entries_per_block :: u32

section \<open>Loading\<close>

text \<open>
  The loader for version 1.0. The C function fills in a header whose version fields were read before;
  on an error the caller discards what was filled in.
\<close>

definition logheader_version0 :: "u32 \<Rightarrow> u32 \<Rightarrow> bytes \<Rightarrow> sparkey_returncode + sparkey_logheader" where
  "logheader_version0 major_version minor_version fp =
     rethrow_sum (fread_little_endian32 fp) (\<lambda>(file_identifier, fp).
     rethrow_sum (fread_little_endian64 fp) (\<lambda>(num_puts, fp).
     rethrow_sum (fread_little_endian64 fp) (\<lambda>(num_deletes, fp).
     rethrow_sum (fread_little_endian64 fp) (\<lambda>(data_end, fp).
     rethrow_sum (fread_little_endian64 fp) (\<lambda>(max_key_len, fp).
     rethrow_sum (fread_little_endian64 fp) (\<lambda>(max_value_len, fp).
     rethrow_sum (fread_little_endian64 fp) (\<lambda>(delete_size, fp).
     rethrow_sum (fread_little_endian32 fp) (\<lambda>(compression_type, fp).
     rethrow_sum (fread_little_endian32 fp) (\<lambda>(compression_block_size, fp).
     rethrow_sum (fread_little_endian64 fp) (\<lambda>(put_size, fp).
     rethrow_sum (fread_little_endian32 fp) (\<lambda>(max_entries_per_block, fp).
     (let header =
             \<lparr>lh_major_version = major_version, lh_minor_version = minor_version,
              lh_file_identifier = file_identifier,
              lh_num_puts = num_puts,
              lh_num_deletes = num_deletes,
              lh_data_end = data_end,
              lh_max_key_len = max_key_len,
              lh_max_value_len = max_value_len,
              lh_delete_size = delete_size,
              lh_compression_type = compression_type,
              lh_compression_block_size = compression_block_size,
              lh_put_size = put_size,
              lh_header_size = LOG_HEADER_SIZE, lh_max_entries_per_block = max_entries_per_block\<rparr>
      in if lh_data_end header < ucast (lh_header_size header) then Inl SPARKEY_LOG_HEADER_CORRUPT
         else if lh_num_puts header > lh_data_end header then Inl SPARKEY_LOG_HEADER_CORRUPT
         else if lh_num_deletes header > lh_data_end header then Inl SPARKEY_LOG_HEADER_CORRUPT
         else if lh_compression_type header > SPARKEY_COMPRESSION_ZSTD then Inl SPARKEY_LOG_HEADER_CORRUPT
         else Inr header))))))))))))"

definition sparkey_load_logheader :: "os \<Rightarrow> string \<Rightarrow> sparkey_returncode + sparkey_logheader" where
  "sparkey_load_logheader os filename =
     (case os_open_read os filename of
        Inl e \<Rightarrow> Inl (sparkey_open_returncode e)
      | Inr fp \<Rightarrow>
          rethrow_sum (fread_little_endian32 fp) (\<lambda>(tmp, fp).
          if tmp \<noteq> LOG_MAGIC_NUMBER then Inl SPARKEY_WRONG_LOG_MAGIC_NUMBER else
          rethrow_sum (fread_little_endian32 fp) (\<lambda>(major_version, fp).
          if major_version \<noteq> LOG_MAJOR_VERSION then Inl SPARKEY_WRONG_LOG_MAJOR_VERSION else
          rethrow_sum (fread_little_endian32 fp) (\<lambda>(minor_version, fp).
          if minor_version > LOG_MINOR_VERSION then Inl SPARKEY_UNSUPPORTED_LOG_MINOR_VERSION else
          logheader_version0 major_version minor_version fp))))"

section \<open>Writing\<close>

definition write_logheader :: "os \<Rightarrow> fd \<Rightarrow> sparkey_logheader \<Rightarrow> sparkey_returncode \<times> os \<times> fd" where
  "write_logheader os fd header =
     io_then (fwrite_little_endian32 os fd LOG_MAGIC_NUMBER) (\<lambda>os fd.
     io_then (fwrite_little_endian32 os fd LOG_MAJOR_VERSION) (\<lambda>os fd.
     io_then (fwrite_little_endian32 os fd LOG_MINOR_VERSION) (\<lambda>os fd.
     io_then (fwrite_little_endian32 os fd (lh_file_identifier header)) (\<lambda>os fd.
     io_then (fwrite_little_endian64 os fd (lh_num_puts header)) (\<lambda>os fd.
     io_then (fwrite_little_endian64 os fd (lh_num_deletes header)) (\<lambda>os fd.
     io_then (fwrite_little_endian64 os fd (lh_data_end header)) (\<lambda>os fd.
     io_then (fwrite_little_endian64 os fd (lh_max_key_len header)) (\<lambda>os fd.
     io_then (fwrite_little_endian64 os fd (lh_max_value_len header)) (\<lambda>os fd.
     io_then (fwrite_little_endian64 os fd (lh_delete_size header)) (\<lambda>os fd.
     io_then (fwrite_little_endian32 os fd (lh_compression_type header)) (\<lambda>os fd.
     io_then (fwrite_little_endian32 os fd (lh_compression_block_size header)) (\<lambda>os fd.
     io_then (fwrite_little_endian64 os fd (lh_put_size header)) (\<lambda>os fd.
     fwrite_little_endian32 os fd (lh_max_entries_per_block header))))))))))))))"

section \<open>Layout\<close>

text \<open>The bytes of a header on disk.\<close>

definition logheader_bytes :: "sparkey_logheader \<Rightarrow> bytes" where
  "logheader_bytes header =
     write_little_endian32 LOG_MAGIC_NUMBER @
     write_little_endian32 LOG_MAJOR_VERSION @
     write_little_endian32 LOG_MINOR_VERSION @
     write_little_endian32 (lh_file_identifier header) @
     write_little_endian64 (lh_num_puts header) @
     write_little_endian64 (lh_num_deletes header) @
     write_little_endian64 (lh_data_end header) @
     write_little_endian64 (lh_max_key_len header) @
     write_little_endian64 (lh_max_value_len header) @
     write_little_endian64 (lh_delete_size header) @
     write_little_endian32 (lh_compression_type header) @
     write_little_endian32 (lh_compression_block_size header) @
     write_little_endian64 (lh_put_size header) @
     write_little_endian32 (lh_max_entries_per_block header)"

lemma length_logheader_bytes [codec_simps, simp]: "length (logheader_bytes h) = 84"
  by (simp add: logheader_bytes_def)

lemma write_logheader_wrote:
  assumes "fd_ok os fd"
  shows "wrote os fd (logheader_bytes h) (write_logheader os fd h)"
  unfolding write_logheader_def logheader_bytes_def
  by (intro wrote_then fwrite_wrote assms; assumption)

lemma write_logheader_completes:
  assumes "fd_ok os fd" "os_calm os"
  shows "completes os fd (logheader_bytes h) (write_logheader os fd h)"
  unfolding write_logheader_def logheader_bytes_def
  by (intro completes_then fwrite_completes assms; assumption)

section \<open>Consistency\<close>

text \<open>The checks a loaded header has passed.\<close>

definition logheader_consistent :: "sparkey_logheader \<Rightarrow> bool" where
  "logheader_consistent h \<longleftrightarrow>
     lh_major_version h = LOG_MAJOR_VERSION \<and> lh_minor_version h = LOG_MINOR_VERSION
     \<and> lh_header_size h = LOG_HEADER_SIZE
     \<and> 84 \<le> lh_data_end h \<and> lh_num_puts h \<le> lh_data_end h \<and> lh_num_deletes h \<le> lh_data_end h
     \<and> lh_compression_type h \<le> SPARKEY_COMPRESSION_ZSTD"

lemma load_logheader_bytes:
  assumes "os_open_read os name = Inr (logheader_bytes h @ rest)" "logheader_consistent h"
  shows "sparkey_load_logheader os name = Inr h"
  using assms
  by (simp add: sparkey_load_logheader_def logheader_bytes_def logheader_version0_def
      logheader_consistent_def Let_def LOG_HEADER_SIZE_def LOG_MINOR_VERSION_def not_less
      word_less_nat_alt word_le_nat_alt)

lemma load_logheader_inv:
  assumes "sparkey_load_logheader os name = Inr h"
  shows "logheader_consistent h \<and> (\<exists>rest. os_open_read os name = Inr (logheader_bytes h @ rest))"
proof -
  from assms obtain fp where op: "os_open_read os name = Inr fp"
    by (auto simp: sparkey_load_logheader_def split: sum.splits)
  from assms show ?thesis
    unfolding sparkey_load_logheader_def op sum.case logheader_version0_def Let_def
    by (auto simp: fread32_then_Inr_iff fread64_then_Inr_iff logheader_consistent_def
        logheader_bytes_def LOG_MINOR_VERSION_def LOG_HEADER_SIZE_def not_less split: if_splits)
qed

section \<open>Properties\<close>

text \<open>
  C19: \<open>sparkey_load_logheader\<close> accepts a file with header \<open>h\<close> exactly when \<open>h\<close> is consistent and the
  file starts with the 84 bytes of \<open>h\<close>; so loading inverts writing and accepts nothing else.
\<close>

theorem load_logheader_iff:
  "sparkey_load_logheader os name = Inr h \<longleftrightarrow>
     logheader_consistent h \<and> (\<exists>rest. os_open_read os name = Inr (logheader_bytes h @ rest))"
  using load_logheader_inv load_logheader_bytes by blast

end
