(* ===== verification/LogReader.thy ===== *)
theory LogReader
  imports Vlq LogHeader
begin

text \<open>
  \<open>src/src/logreader.c\<close>: opening a log for reading, and iterators over its entries. The structs are
  those of \<open>src/src/sparkey-internal.h\<close>.
\<close>

section \<open>Readers and iterators\<close>

definition MAGIC_VALUE_LOGITER :: u32 where
  "MAGIC_VALUE_LOGITER = 0xd765c8cc"

definition MAGIC_VALUE_LOGREADER :: u32 where
  "MAGIC_VALUE_LOGREADER = 0xe93356c4"

datatype sparkey_entry_type = SPARKEY_ENTRY_PUT | SPARKEY_ENTRY_DELETE

datatype sparkey_iter_state =
  SPARKEY_ITER_NEW | SPARKEY_ITER_ACTIVE | SPARKEY_ITER_CLOSED | SPARKEY_ITER_INVALID

text \<open>\<open>lr_data\<close> is the mapped memory, \<open>data_len\<close> bytes of the file; it is empty when \<open>data\<close> is \<open>NULL\<close>.\<close>

record sparkey_logreader =
  lr_open_status :: u32
  lr_header :: sparkey_logheader
  lr_fd :: fd
  lr_data_len :: u64
  lr_data :: bytes

text \<open>
  \<open>it_compression_buf\<close> is the memory from the pointer \<open>compression_buf\<close> on: the iterator's own buffer,
  or, without compression, the mapped file from the start of the block. \<open>it_entry_count\<close> is a C \<open>int\<close>.
\<close>

record sparkey_logiter =
  it_open_status :: u32
  it_file_identifier :: u32
  it_block_position :: u64
  it_next_block_position :: u64
  it_block_offset :: u64
  it_block_len :: u64
  it_entry_count :: u32
  it_compression_buf_allocated :: bool
  it_compression_buf :: bytes
  it_entry_block_position :: u64
  it_entry_block_offset :: u64
  it_type :: sparkey_entry_type
  it_state :: sparkey_iter_state
  it_keylen :: u64
  it_valuelen :: u64
  it_key_remaining :: u64
  it_value_remaining :: u64

definition min64 :: "u64 \<Rightarrow> u64 \<Rightarrow> u64" where
  "min64 a b = (if a < b then a else b)"

section \<open>Opening and closing\<close>

text \<open>
  The result of \<open>stat\<close> is the size of the file the name refers to. On an error the callers discard the
  reader.
\<close>

definition sparkey_logreader_open_noalloc ::
  "os \<Rightarrow> sparkey_logreader \<Rightarrow> string \<Rightarrow> sparkey_returncode + sparkey_logreader" where
  "sparkey_logreader_open_noalloc os log filename =
     rethrow_sum (sparkey_load_logheader os filename) (\<lambda>header.
     let log = log\<lparr>lr_header := header, lr_data_len := lh_data_end header\<rparr> in
     if lr_data_len log > of_nat (length (the (os_content os filename))) then Inl SPARKEY_LOG_TOO_SMALL
     else
       (case os_open_read os filename of
          Inl e \<Rightarrow> Inl (sparkey_open_returncode e)
        | Inr c \<Rightarrow>
            if \<not> os_mmap_ok os then Inl SPARKEY_MMAP_FAILED
            else
              Inr (log\<lparr>lr_fd := \<lparr>fd_ino = os_names os filename, fd_off = 0\<rparr>,
                       lr_data := take (unat (lr_data_len log)) c,
                       lr_open_status := MAGIC_VALUE_LOGREADER\<rparr>)))"

definition sparkey_logreader_open ::
  "sparkey_logreader \<Rightarrow> os \<Rightarrow> string \<Rightarrow> (sparkey_returncode + sparkey_logreader) \<times> os" where
  "sparkey_logreader_open junk os filename =
     (if correct_endian_platform \<noteq> SPARKEY_SUCCESS then (Inl correct_endian_platform, os)
      else
        try_os (malloc_or_fail os) (\<lambda>_ os.
        (sparkey_logreader_open_noalloc os junk filename, os)))"

text \<open>A pointer to a reader or iterator that may be \<open>NULL\<close> is an option.\<close>

definition sparkey_logreader_close_nodealloc :: "sparkey_logreader option \<Rightarrow> sparkey_logreader option" where
  "sparkey_logreader_close_nodealloc log_ref =
     (case log_ref of
        None \<Rightarrow> None
      | Some log \<Rightarrow>
          if lr_open_status log \<noteq> MAGIC_VALUE_LOGREADER then Some log
          else Some (log\<lparr>lr_open_status := 0, lr_data := [], lr_fd := \<lparr>fd_ino = None, fd_off = 0\<rparr>\<rparr>))"

text \<open>The argument is \<open>log_ref\<close> itself, whose target becomes \<open>NULL\<close>.\<close>

definition sparkey_logreader_close ::
  "sparkey_logreader option option \<Rightarrow> sparkey_logreader option option" where
  "sparkey_logreader_close log_ref = (case log_ref of None \<Rightarrow> None | Some _ \<Rightarrow> Some None)"

definition assert_log_open :: "sparkey_logreader \<Rightarrow> sparkey_returncode" where
  "assert_log_open log =
     (if lr_open_status log \<noteq> MAGIC_VALUE_LOGREADER then SPARKEY_LOG_CLOSED else SPARKEY_SUCCESS)"

definition assert_iter_open :: "sparkey_logiter \<Rightarrow> sparkey_logreader \<Rightarrow> sparkey_returncode" where
  "assert_iter_open iter log =
     (if assert_log_open log \<noteq> SPARKEY_SUCCESS then assert_log_open log
      else if it_open_status iter \<noteq> MAGIC_VALUE_LOGITER then SPARKEY_LOG_ITERATOR_CLOSED
      else if it_file_identifier iter \<noteq> lh_file_identifier (lr_header log) then SPARKEY_LOG_ITERATOR_MISMATCH
      else SPARKEY_SUCCESS)"

text \<open>\<open>junk\<close> is the memory \<open>malloc\<close> returns for the iterator; the first bytes of its buffer stand for the contents of the memory allocated for the buffer.\<close>

definition sparkey_logiter_create ::
  "sparkey_logiter \<Rightarrow> os \<Rightarrow> sparkey_logreader \<Rightarrow> (sparkey_returncode + sparkey_logiter) \<times> os" where
  "sparkey_logiter_create junk os log =
     (if assert_log_open log \<noteq> SPARKEY_SUCCESS then (Inl (assert_log_open log), os)
      else
        try_os (malloc_or_fail os) (\<lambda>_ os.
        let iter = junk\<lparr>it_open_status := MAGIC_VALUE_LOGITER,
                        it_file_identifier := lh_file_identifier (lr_header log),
                        it_block_position := 0,
                        it_next_block_position := ucast (lh_header_size (lr_header log)),
                        it_block_offset := 0,
                        it_block_len := 0,
                        it_state := SPARKEY_ITER_NEW\<rparr>
        in if sparkey_uses_compressor (lh_compression_type (lr_header log)) then
             let n = unat (lh_compression_block_size (lr_header log)) in
             try_os (malloc_or_fail os) (\<lambda>_ os.
             (Inr (iter\<lparr>it_compression_buf_allocated := True,
                        it_compression_buf :=
                          take n (it_compression_buf junk) @ replicate (n - length (it_compression_buf junk)) 0\<rparr>), os))
           else (Inr (iter\<lparr>it_compression_buf_allocated := False\<rparr>), os)))"

definition sparkey_logiter_close ::
  "sparkey_logiter option option \<Rightarrow> sparkey_logiter option option" where
  "sparkey_logiter_close iter_ref =
     (case iter_ref of
        None \<Rightarrow> None
      | Some None \<Rightarrow> Some None
      | Some (Some iter) \<Rightarrow>
          if it_open_status iter \<noteq> MAGIC_VALUE_LOGITER then Some (Some iter) else Some None)"

section \<open>Blocks\<close>

text \<open>
  \<open>seekblock\<close>. A block whose compressed bytes are not all inside the mapping has no defined outcome. The
  decompressor writes its output at the start of the buffer, also when it fails.
\<close>

definition seekblock ::
  "codec_lib \<Rightarrow> sparkey_logiter \<Rightarrow> sparkey_logreader \<Rightarrow> u64 \<Rightarrow> sparkey_logiter result" where
  "seekblock lib iter log position =
     (let iter = iter\<lparr>it_block_offset := 0\<rparr> in
      if it_block_position iter = position then Some (SPARKEY_SUCCESS, iter)
      else if sparkey_uses_compressor (lh_compression_type (lr_header log)) then
        Option.bind (read_vlq (lr_data log) position) (\<lambda>(v, pos).
        let compressed_size = (ucast v :: u32);
            next_pos = pos + ucast compressed_size;
            uncompressed_size = lh_compression_block_size (lr_header log)
        in if unat pos + unat compressed_size > length (lr_data log) then None
           else
             (case decompress (the (sparkey_compressors lib (lh_compression_type (lr_header log))))
                     (take (unat compressed_size) (drop (unat pos) (lr_data log))) uncompressed_size of
                (ret, out, uncompressed_size) \<Rightarrow>
                  let iter = iter\<lparr>it_compression_buf := splice_at (it_compression_buf iter) 0 out\<rparr> in
                  if ret \<noteq> SPARKEY_SUCCESS then Some (ret, iter)
                  else
                    Some (SPARKEY_SUCCESS,
                          iter\<lparr>it_block_position := position,
                               it_next_block_position := next_pos,
                               it_block_len := ucast uncompressed_size\<rparr>)))
      else
        Some (SPARKEY_SUCCESS,
              iter\<lparr>it_compression_buf := drop (unat position) (lr_data log),
                   it_block_position := position,
                   it_next_block_position := lh_data_end (lr_header log),
                   it_block_len := lr_data_len log - position\<rparr>))"

definition sparkey_logiter_seek ::
  "codec_lib \<Rightarrow> sparkey_logiter \<Rightarrow> sparkey_logreader \<Rightarrow> u64 \<Rightarrow> sparkey_logiter result" where
  "sparkey_logiter_seek lib iter log position =
     (if assert_iter_open iter log \<noteq> SPARKEY_SUCCESS then Some (assert_iter_open iter log, iter)
      else if position = lh_data_end (lr_header log)
      then Some (SPARKEY_SUCCESS, iter\<lparr>it_state := SPARKEY_ITER_CLOSED\<rparr>)
      else
        rethrow (seekblock lib iter log position) id (\<lambda>iter.
        Some (SPARKEY_SUCCESS, iter\<lparr>it_entry_count := - 1, it_state := SPARKEY_ITER_NEW\<rparr>)))"

definition ensure_available ::
  "codec_lib \<Rightarrow> sparkey_logiter \<Rightarrow> sparkey_logreader \<Rightarrow> sparkey_logiter result" where
  "ensure_available lib iter log =
     (if it_block_offset iter < it_block_len iter then Some (SPARKEY_SUCCESS, iter)
      else if it_next_block_position iter \<ge> lh_data_end (lr_header log)
      then Some (SPARKEY_SUCCESS,
                 iter\<lparr>it_block_position := 0, it_block_offset := 0, it_block_len := 0\<rparr>)
      else
        rethrow (seekblock lib iter log (it_next_block_position iter)) id (\<lambda>iter.
        Some (SPARKEY_SUCCESS, iter\<lparr>it_entry_count := - 1\<rparr>)))"

text \<open>At the end of the data \<open>ensure_available\<close> succeeds with nothing available, and this loop never ends.\<close>

partial_function (option) skip ::
  "codec_lib \<Rightarrow> sparkey_logiter \<Rightarrow> sparkey_logreader \<Rightarrow> u64 \<Rightarrow> sparkey_logiter result" where
  "skip lib iter log len =
     (if len > 0 then
        rethrow (ensure_available lib iter log) id (\<lambda>iter.
        let m = min64 len (it_block_len iter - it_block_offset iter) in
        skip lib (iter\<lparr>it_block_offset := it_block_offset iter + m\<rparr>) log (len - m))
      else Some (SPARKEY_SUCCESS, iter))"

section \<open>Entries\<close>

text \<open>
  The second half of \<open>sparkey_logiter_next\<close>, behind the check for the end of the data: the two leading
  numbers of the entry are read and the entry becomes current.
\<close>

definition logiter_read_entry :: "sparkey_logiter \<Rightarrow> sparkey_logreader \<Rightarrow> sparkey_logiter result" where
  "logiter_read_entry iter log =
     (let iter = (if lh_compression_type (lr_header log) = SPARKEY_COMPRESSION_NONE then
                    iter\<lparr>it_block_position := it_block_position iter + it_block_offset iter,
                         it_block_len := it_block_len iter - it_block_offset iter,
                         it_block_offset := 0,
                         it_compression_buf :=
                           drop (unat (it_block_position iter + it_block_offset iter)) (lr_data log),
                         it_entry_count := - 1\<rparr>
                  else iter);
          iter = iter\<lparr>it_entry_count := it_entry_count iter + 1\<rparr>
      in
      Option.bind (read_vlq (it_compression_buf iter) (it_block_offset iter)) (\<lambda>(a, off).
      Option.bind (read_vlq (it_compression_buf iter) off) (\<lambda>(b, off).
      let iter = iter\<lparr>it_block_offset := off\<rparr>;
          iter = (if a = 0 then
                    iter\<lparr>it_keylen := b, it_key_remaining := b,
                         it_valuelen := 0, it_value_remaining := 0,
                         it_type := SPARKEY_ENTRY_DELETE\<rparr>
                  else
                    iter\<lparr>it_keylen := a - 1, it_key_remaining := a - 1,
                         it_valuelen := b, it_value_remaining := b,
                         it_type := SPARKEY_ENTRY_PUT\<rparr>)
      in Some (SPARKEY_SUCCESS,
               iter\<lparr>it_entry_block_position := it_block_position iter,
                    it_entry_block_offset := it_block_offset iter,
                    it_state := SPARKEY_ITER_ACTIVE\<rparr>))))"

definition sparkey_logiter_next ::
  "codec_lib \<Rightarrow> sparkey_logiter \<Rightarrow> sparkey_logreader \<Rightarrow> sparkey_logiter result" where
  "sparkey_logiter_next lib iter log =
     (if it_state iter = SPARKEY_ITER_CLOSED then Some (SPARKEY_SUCCESS, iter)
      else
        let key_remaining = (if it_state iter = SPARKEY_ITER_ACTIVE then it_key_remaining iter else 0);
            value_remaining = (if it_state iter = SPARKEY_ITER_ACTIVE then it_value_remaining iter else 0);
            iter = iter\<lparr>it_state := SPARKEY_ITER_INVALID, it_key_remaining := 0, it_value_remaining := 0,
                        it_keylen := 0, it_valuelen := 0\<rparr>
        in
        if assert_iter_open iter log \<noteq> SPARKEY_SUCCESS then Some (assert_iter_open iter log, iter)
        else
          rethrow (skip lib iter log key_remaining) id (\<lambda>iter.
          rethrow (skip lib iter log value_remaining) id (\<lambda>iter.
          rethrow (ensure_available lib iter log) id (\<lambda>iter.
          if it_block_len iter - it_block_offset iter = 0
          then Some (SPARKEY_SUCCESS, iter\<lparr>it_state := SPARKEY_ITER_CLOSED\<rparr>)
          else logiter_read_entry iter log))))"

definition sparkey_logiter_reset ::
  "codec_lib \<Rightarrow> sparkey_logiter \<Rightarrow> sparkey_logreader \<Rightarrow> sparkey_logiter result" where
  "sparkey_logiter_reset lib iter log =
     (if it_state iter \<noteq> SPARKEY_ITER_ACTIVE then Some (SPARKEY_LOG_ITERATOR_INACTIVE, iter)
      else
        rethrow (seekblock lib iter log (it_entry_block_position iter)) id (\<lambda>iter.
        Some (SPARKEY_SUCCESS,
              iter\<lparr>it_key_remaining := it_keylen iter,
                   it_value_remaining := it_valuelen iter,
                   it_block_offset := it_entry_block_offset iter\<rparr>)))"

text \<open>The loop counter is a C \<open>int\<close>; a negative count does nothing.\<close>

function sparkey_logiter_skip ::
  "codec_lib \<Rightarrow> sparkey_logiter \<Rightarrow> sparkey_logreader \<Rightarrow> int \<Rightarrow> sparkey_logiter result" where
  "sparkey_logiter_skip lib iter log count =
     (if count > 0 then
        rethrow (sparkey_logiter_next lib iter log) id (\<lambda>iter.
        sparkey_logiter_skip lib iter log (count - 1))
      else Some (SPARKEY_SUCCESS, iter))"
  by pat_completeness auto
termination
  by (relation "measure (\<lambda>(lib, iter, log, count). nat count)") auto

declare sparkey_logiter_skip.simps [simp del]

section \<open>Chunks of keys and values\<close>

text \<open>The pointer \<open>var\<close> of \<open>sparkey_logiter_chunk\<close> is the field it points to.\<close>

datatype remaining_field = KEY_REMAINING | VALUE_REMAINING

fun get_remaining :: "remaining_field \<Rightarrow> sparkey_logiter \<Rightarrow> u64" where
  "get_remaining KEY_REMAINING iter = it_key_remaining iter"
| "get_remaining VALUE_REMAINING iter = it_value_remaining iter"

fun set_remaining :: "remaining_field \<Rightarrow> u64 \<Rightarrow> sparkey_logiter \<Rightarrow> sparkey_logiter" where
  "set_remaining KEY_REMAINING v iter = iter\<lparr>it_key_remaining := v\<rparr>"
| "set_remaining VALUE_REMAINING v iter = iter\<lparr>it_value_remaining := v\<rparr>"

text \<open>
  The result holds \<open>*len\<close> and the memory from \<open>*res\<close> on, in front of the iterator. When the length is
  zero or the call fails, \<open>*res\<close> is not set and the memory is empty.
\<close>

definition sparkey_logiter_chunk ::
  "codec_lib \<Rightarrow> sparkey_logiter \<Rightarrow> sparkey_logreader \<Rightarrow> u64 \<Rightarrow> remaining_field
     \<Rightarrow> (u64 \<times> bytes \<times> sparkey_logiter) result" where
  "sparkey_logiter_chunk lib iter log maxlen var =
     (if assert_iter_open iter log \<noteq> SPARKEY_SUCCESS then Some (assert_iter_open iter log, 0, [], iter)
      else if it_state iter \<noteq> SPARKEY_ITER_ACTIVE then Some (SPARKEY_LOG_ITERATOR_INACTIVE, 0, [], iter)
      else if get_remaining var iter > 0 then
        rethrow (ensure_available lib iter log) (\<lambda>iter. (0, [], iter)) (\<lambda>iter.
        let m = min64 (get_remaining var iter) (it_block_len iter - it_block_offset iter);
            m = min64 maxlen m;
            res = drop (unat (it_block_offset iter)) (it_compression_buf iter);
            iter = iter\<lparr>it_block_offset := it_block_offset iter + m\<rparr>
        in Some (SPARKEY_SUCCESS, m, res, set_remaining var (get_remaining var iter - m) iter))
      else Some (SPARKEY_SUCCESS, 0, [], iter))"

definition sparkey_logiter_keychunk ::
  "codec_lib \<Rightarrow> sparkey_logiter \<Rightarrow> sparkey_logreader \<Rightarrow> u64 \<Rightarrow> (u64 \<times> bytes \<times> sparkey_logiter) result" where
  "sparkey_logiter_keychunk lib iter log maxlen = sparkey_logiter_chunk lib iter log maxlen KEY_REMAINING"

definition sparkey_logiter_valuechunk ::
  "codec_lib \<Rightarrow> sparkey_logiter \<Rightarrow> sparkey_logreader \<Rightarrow> u64 \<Rightarrow> (u64 \<times> bytes \<times> sparkey_logiter) result" where
  "sparkey_logiter_valuechunk lib iter log maxlen =
     rethrow (skip lib iter log (it_key_remaining iter)) (\<lambda>iter. (0, [], iter)) (\<lambda>iter.
     sparkey_logiter_chunk lib (iter\<lparr>it_key_remaining := 0\<rparr>) log maxlen VALUE_REMAINING)"

text \<open>
  The loop of \<open>fill_key\<close> and \<open>fill_value\<close>. The result holds the bytes copied to \<open>buf\<close> so far; their number
  is \<open>*len\<close>. Copying bytes outside the iterator's memory has no defined outcome.
\<close>

partial_function (option) fill_loop ::
  "(sparkey_logiter \<Rightarrow> u64 \<Rightarrow> (u64 \<times> bytes \<times> sparkey_logiter) result)
     \<Rightarrow> sparkey_logiter \<Rightarrow> u64 \<Rightarrow> bytes \<Rightarrow> (bytes \<times> sparkey_logiter) result" where
  "fill_loop chunk iter maxlen buf =
     (if maxlen > 0 then
        rethrow (chunk iter maxlen) (\<lambda>(len2, buf2, iter). (buf, iter)) (\<lambda>(len2, buf2, iter).
        if len2 = 0 then Some (SPARKEY_SUCCESS, buf, iter)
        else if length buf2 < unat len2 then None
        else fill_loop chunk iter (maxlen - len2) (buf @ take (unat len2) buf2))
      else Some (SPARKEY_SUCCESS, buf, iter))"

definition sparkey_logiter_fill_key ::
  "codec_lib \<Rightarrow> sparkey_logiter \<Rightarrow> sparkey_logreader \<Rightarrow> u64 \<Rightarrow> (bytes \<times> sparkey_logiter) result" where
  "sparkey_logiter_fill_key lib iter log maxlen =
     fill_loop (\<lambda>iter maxlen. sparkey_logiter_keychunk lib iter log maxlen) iter maxlen []"

definition sparkey_logiter_fill_value ::
  "codec_lib \<Rightarrow> sparkey_logiter \<Rightarrow> sparkey_logreader \<Rightarrow> u64 \<Rightarrow> (bytes \<times> sparkey_logiter) result" where
  "sparkey_logiter_fill_value lib iter log maxlen =
     fill_loop (\<lambda>iter maxlen. sparkey_logiter_valuechunk lib iter log maxlen) iter maxlen []"

text \<open>
  \<open>memcmp\<close> yields the difference of the first bytes that differ; the C standard fixes only its sign.
\<close>

fun memcmp :: "bytes \<Rightarrow> bytes \<Rightarrow> int" where
  "memcmp (a # as) (b # bs) = (if a = b then memcmp as bs else int (unat a) - int (unat b))"
| "memcmp _ _ = 0"

text \<open>
  \<open>sparkey_logiter_keycmp\<close>; the state is the pair of iterators, the first component of the result is
  \<open>*res\<close>. The loop has the current chunks as arguments.
\<close>

partial_function (option) keycmp_loop ::
  "codec_lib \<Rightarrow> sparkey_logreader \<Rightarrow> u64 \<Rightarrow> bytes \<Rightarrow> sparkey_logiter \<Rightarrow> u64 \<Rightarrow> bytes \<Rightarrow> sparkey_logiter
     \<Rightarrow> (int \<times> sparkey_logiter \<times> sparkey_logiter) result" where
  "keycmp_loop lib log first_len first iter1 second_len second iter2 =
     (if first_len = 0 \<and> second_len = 0 then Some (SPARKEY_SUCCESS, 0, iter1, iter2)
      else if first_len = 0 then Some (SPARKEY_SUCCESS, - 1, iter1, iter2)
      else if second_len = 0 then Some (SPARKEY_SUCCESS, 1, iter1, iter2)
      else
        let cmp_len = min64 first_len second_len in
        if length first < unat cmp_len \<or> length second < unat cmp_len then None
        else
          let v = memcmp (take (unat cmp_len) first) (take (unat cmp_len) second) in
          if v \<noteq> 0 then Some (SPARKEY_SUCCESS, v, iter1, iter2)
          else
            rethrow
              (if first_len - cmp_len = 0 then sparkey_logiter_keychunk lib iter1 log (push_bit 30 1)
               else Some (SPARKEY_SUCCESS, first_len - cmp_len, drop (unat cmp_len) first, iter1))
              (\<lambda>(len, res, iter1). (0, iter1, iter2)) (\<lambda>(first_len, first, iter1).
            rethrow
              (if second_len - cmp_len = 0 then sparkey_logiter_keychunk lib iter2 log (push_bit 30 1)
               else Some (SPARKEY_SUCCESS, second_len - cmp_len, drop (unat cmp_len) second, iter2))
              (\<lambda>(len, res, iter2). (0, iter1, iter2)) (\<lambda>(second_len, second, iter2).
            keycmp_loop lib log first_len first iter1 second_len second iter2)))"

definition sparkey_logiter_keycmp ::
  "codec_lib \<Rightarrow> sparkey_logiter \<Rightarrow> sparkey_logiter \<Rightarrow> sparkey_logreader
     \<Rightarrow> (int \<times> sparkey_logiter \<times> sparkey_logiter) result" where
  "sparkey_logiter_keycmp lib iter1 iter2 log =
     rethrow (sparkey_logiter_keychunk lib iter1 log (push_bit 30 1)) (\<lambda>(len, res, iter1). (0, iter1, iter2))
       (\<lambda>(first_len, first, iter1).
     rethrow (sparkey_logiter_keychunk lib iter2 log (push_bit 30 1)) (\<lambda>(len, res, iter2). (0, iter1, iter2))
       (\<lambda>(second_len, second, iter2).
     keycmp_loop lib log first_len first iter1 second_len second iter2))"

section \<open>Accessors\<close>

definition sparkey_logreader_maxkeylen :: "sparkey_logreader \<Rightarrow> u64" where
  "sparkey_logreader_maxkeylen log = lh_max_key_len (lr_header log)"

definition sparkey_logreader_maxvaluelen :: "sparkey_logreader \<Rightarrow> u64" where
  "sparkey_logreader_maxvaluelen log = lh_max_value_len (lr_header log)"

definition sparkey_logreader_get_compression_blocksize :: "sparkey_logreader \<Rightarrow> u32" where
  "sparkey_logreader_get_compression_blocksize log = lh_compression_block_size (lr_header log)"

definition sparkey_logreader_get_compression_type :: "sparkey_logreader \<Rightarrow> sparkey_compression_type" where
  "sparkey_logreader_get_compression_type log = lh_compression_type (lr_header log)"

definition sparkey_logiter_state :: "sparkey_logiter \<Rightarrow> sparkey_iter_state" where
  "sparkey_logiter_state iter = it_state iter"

definition sparkey_logiter_type :: "sparkey_logiter \<Rightarrow> sparkey_entry_type" where
  "sparkey_logiter_type iter = it_type iter"

definition sparkey_logiter_keylen :: "sparkey_logiter \<Rightarrow> u64" where
  "sparkey_logiter_keylen iter = it_keylen iter"

definition sparkey_logiter_valuelen :: "sparkey_logiter \<Rightarrow> u64" where
  "sparkey_logiter_valuelen iter = it_valuelen iter"

end
