(* ===== verification/HashIter.thy ===== *)
theory HashIter
  imports HashHeader LogReader
begin

text \<open>\<open>src/src/hashiter.c\<close>: the hash of the key an iterator is on.\<close>

text \<open>
  The chunk length \<open>1 << 31\<close> is a negative \<open>int\<close>, converted to 64 bits. Errors of the iterator are not
  reported: the hash is then 0. A failed allocation is not checked, and writing through the null pointer
  has no defined outcome.
\<close>

definition key_chunk_max :: u64 where
  "key_chunk_max = - (2 ^ 31)"

definition sparkey_iter_hash ::
  "codec_lib \<Rightarrow> sparkey_hashheader \<Rightarrow> os \<Rightarrow> sparkey_logiter \<Rightarrow> sparkey_logreader
     \<Rightarrow> (u64 \<times> os \<times> sparkey_logiter) option" where
  "sparkey_iter_hash lib hash_header os iter log =
     Option.bind (sparkey_logiter_keychunk lib iter log key_chunk_max) (\<lambda>(returncode, len, buf, iter).
     if returncode \<noteq> SPARKEY_SUCCESS then Some (0, os, iter)
     else if len = it_keylen iter then
       if length buf < unat len then None
       else
         map_option (\<lambda>hash. (hash, os, iter))
           (alg_hash (hh_hash_algorithm hash_header) (take (unat len) buf) (hh_hash_seed hash_header))
     else
       (case os_malloc os of (ok, os) \<Rightarrow>
          if \<not> ok \<or> length buf < unat len then None
          else
            Option.bind (sparkey_logiter_fill_key lib iter log key_chunk_max) (\<lambda>(returncode, rest, iter).
            if len + of_nat (length rest) \<noteq> it_keylen iter then Some (0, os, iter)
            else
              map_option (\<lambda>hash. (hash, os, iter))
                (alg_hash (hh_hash_algorithm hash_header) (take (unat len) buf @ rest) (hh_hash_seed hash_header)))))"

end
