(* ===== verification/HashWriter.thy ===== *)
theory HashWriter
  imports HashIter
begin

text \<open>
  \<open>src/src/hashwriter.c\<close>: building the index of a log. The index is an open addressing hash table with
  Robin Hood displacement, kept as the bytes that are written to the file.
\<close>

section \<open>Helpers\<close>

function int_log2_loop :: "u32 \<Rightarrow> u32 \<Rightarrow> u32" where
  "int_log2_loop x count = (if x > 0 then int_log2_loop (drop_bit 1 x) (count + 1) else count)"
  by auto
termination
  by (relation "measure (\<lambda>(x, count). unat x)") (auto simp: drop_bit_eq_div unat_div word_less_nat_alt)

definition int_log2 :: "u32 \<Rightarrow> u32" where
  "int_log2 x = int_log2_loop x 0"

definition added_entry :: "sparkey_hashheader \<Rightarrow> sparkey_hashheader" where
  "added_entry hash_header = hash_header\<lparr>hh_num_entries := hh_num_entries hash_header + 1\<rparr>"

definition replaced_entry :: "sparkey_hashheader \<Rightarrow> u64 \<Rightarrow> u64 \<Rightarrow> sparkey_hashheader" where
  "replaced_entry hash_header keylen valuelen =
     hash_header\<lparr>hh_garbage_size := hh_garbage_size hash_header
       + (keylen + valuelen + unsigned_vlq_size (keylen + 1) + unsigned_vlq_size valuelen)\<rparr>"

definition deleted_entry :: "sparkey_hashheader \<Rightarrow> u64 \<Rightarrow> u64 \<Rightarrow> sparkey_hashheader" where
  "deleted_entry hash_header keylen valuelen =
     (let hash_header = hash_header\<lparr>hh_garbage_size := hh_garbage_size hash_header
            + (keylen + valuelen + unsigned_vlq_size (keylen + 1) + unsigned_vlq_size valuelen)\<rparr>
      in hash_header\<lparr>hh_num_entries := hh_num_entries hash_header - 1\<rparr>)"

text \<open>
  Access to one slot: the hash, and behind it the address. \<open>pos\<close> is the byte offset of the slot; the
  offsets are computed in 64 bits, with the size of a slot extended from an \<open>int\<close>. An address of 0 is an
  empty slot.
\<close>

definition slot_size :: "sparkey_hashheader \<Rightarrow> u64" where
  "slot_size hash_header = scast (hh_address_size hash_header + hh_hash_size hash_header)"

definition read_slot :: "sparkey_hashheader \<Rightarrow> bytes \<Rightarrow> u64 \<Rightarrow> (u64 \<times> u64) option" where
  "read_slot hash_header hashtable pos =
     Option.bind (read_hash (hh_hash_algorithm hash_header) hashtable (unat pos)) (\<lambda>hash.
     Option.bind (read_addr hashtable (unat (pos + ucast (hh_hash_size hash_header))) (hh_address_size hash_header)) (\<lambda>position.
     Some (hash, position)))"

definition write_slot :: "sparkey_hashheader \<Rightarrow> bytes \<Rightarrow> u64 \<Rightarrow> u64 \<Rightarrow> u64 \<Rightarrow> bytes option" where
  "write_slot hash_header hashtable pos hash position =
     Option.bind (write_hash (hh_hash_algorithm hash_header) hashtable (unat pos) hash) (\<lambda>hashtable.
     write_addr hashtable (unat (pos + ucast (hh_hash_size hash_header))) position (hh_address_size hash_header))"

text \<open>The entry index packed into an address, a C \<open>int\<close>.\<close>

definition entry_index :: "sparkey_hashheader \<Rightarrow> u64 \<Rightarrow> int" where
  "entry_index hash_header position = sint (ucast position AND hh_entry_block_bitmask hash_header)"

text \<open>
  What \<open>hash_put\<close> and \<open>hash_delete\<close> do when the hash of a slot is the one searched for: \<open>ra_iter\<close> moves to the
  entry the slot points to; if it has the key of \<open>iter\<close>, the result holds the lengths of its key and
  value.
\<close>

type_synonym iters = "sparkey_logiter \<times> sparkey_logiter"

definition same_key ::
  "codec_lib \<Rightarrow> sparkey_logreader \<Rightarrow> iters \<Rightarrow> u64 \<Rightarrow> int \<Rightarrow> ((u64 \<times> u64) option \<times> iters) result" where
  "same_key lib log its position index =
     (case its of (iter, ra_iter) \<Rightarrow>
        rethrow (sparkey_logiter_seek lib ra_iter log position) (\<lambda>ra_iter. (None, iter, ra_iter)) (\<lambda>ra_iter.
        rethrow (sparkey_logiter_skip lib ra_iter log index) (\<lambda>ra_iter. (None, iter, ra_iter)) (\<lambda>ra_iter.
        rethrow (sparkey_logiter_next lib ra_iter log) (\<lambda>ra_iter. (None, iter, ra_iter)) (\<lambda>ra_iter.
        let keylen2 = it_keylen ra_iter; valuelen2 = it_valuelen ra_iter in
        if it_type ra_iter \<noteq> SPARKEY_ENTRY_PUT then Some (SPARKEY_INTERNAL_ERROR, None, iter, ra_iter)
        else if it_keylen iter = keylen2 then
          rethrow (sparkey_logiter_reset lib iter log) (\<lambda>iter. (None, iter, ra_iter)) (\<lambda>iter.
          rethrow (sparkey_logiter_keycmp lib iter ra_iter log) (\<lambda>(cmp, its). (None, its)) (\<lambda>(cmp, its).
          Some (SPARKEY_SUCCESS, if cmp = 0 then Some (keylen2, valuelen2) else None, its)))
        else Some (SPARKEY_SUCCESS, None, iter, ra_iter)))))"

section \<open>Deleting a key\<close>

text \<open>
  The entries behind the deleted one move up, until an empty slot or one whose entry is at the slot it
  wants. The result is the table and the slot that is left over.
\<close>

partial_function (option) delete_shift :: "sparkey_hashheader \<Rightarrow> bytes \<Rightarrow> u64 \<Rightarrow> (bytes \<times> u64) option" where
  "delete_shift hash_header hashtable slot =
     (let next_slot = (slot + 1) mod hh_hash_capacity hash_header;
          next_pos = next_slot * slot_size hash_header
      in
      Option.bind (read_slot hash_header hashtable next_pos) (\<lambda>(hash3, position3).
      if position3 = 0 then Some (hashtable, slot)
      else if hash3 mod hh_hash_capacity hash_header = next_slot then Some (hashtable, slot)
      else
        Option.bind (write_slot hash_header hashtable (slot * slot_size hash_header) hash3 position3) (\<lambda>hashtable.
        delete_shift hash_header hashtable next_slot)))"

text \<open>
  The state of the loops is the table, the header and the two iterators; \<open>hash_delete\<close> and \<open>hash_put\<close> also
  have the slot, its offset and the displacement.
\<close>

type_synonym index_state = "bytes \<times> sparkey_hashheader \<times> iters"

partial_function (option) hash_delete_loop ::
  "codec_lib \<Rightarrow> sparkey_logreader \<Rightarrow> u64 \<Rightarrow> bytes \<Rightarrow> sparkey_hashheader \<Rightarrow> iters \<Rightarrow> u64 \<Rightarrow> u64 \<Rightarrow> u64
     \<Rightarrow> index_state result" where
  "hash_delete_loop lib log hash hashtable hash_header its slot pos displacement =
     Option.bind (read_slot hash_header hashtable pos) (\<lambda>(hash2, position2).
     if position2 = 0 then Some (SPARKEY_SUCCESS, hashtable, hash_header, its)
     else
       let entry_index2 = entry_index hash_header position2;
           position2 = drop_bit (unat (hh_entry_block_bits hash_header)) position2
       in
       if position2 < ucast (lh_header_size (lr_header log)) \<or> position2 \<ge> lh_data_end (lr_header log)
       then Some (SPARKEY_INTERNAL_ERROR, hashtable, hash_header, its)
       else
         rethrow
           (if hash = hash2 then same_key lib log its position2 entry_index2
            else Some (SPARKEY_SUCCESS, None, its))
           (\<lambda>(found, its). (hashtable, hash_header, its)) (\<lambda>(found, its).
         case found of
           Some (keylen2, valuelen2) \<Rightarrow>
             Option.bind (delete_shift hash_header hashtable slot) (\<lambda>(hashtable, slot).
             Option.bind (write_slot hash_header hashtable (slot * slot_size hash_header) 0 0) (\<lambda>hashtable.
             Some (SPARKEY_SUCCESS, hashtable, deleted_entry hash_header keylen2 valuelen2, its)))
         | None \<Rightarrow>
             if displacement > get_displacement (hh_hash_capacity hash_header) slot hash2
             then Some (SPARKEY_SUCCESS, hashtable, hash_header, its)
             else if slot + 1 \<ge> hh_hash_capacity hash_header
             then hash_delete_loop lib log hash hashtable hash_header its 0 0 (displacement + 1)
             else hash_delete_loop lib log hash hashtable hash_header its (slot + 1) (pos + slot_size hash_header)
                    (displacement + 1)))"

definition hash_delete ::
  "codec_lib \<Rightarrow> u64 \<Rightarrow> u64 \<Rightarrow> bytes \<Rightarrow> sparkey_hashheader \<Rightarrow> iters \<Rightarrow> sparkey_logreader \<Rightarrow> index_state result" where
  "hash_delete lib wanted_slot hash hashtable hash_header its log =
     hash_delete_loop lib log hash hashtable hash_header its wanted_slot (wanted_slot * slot_size hash_header) 0"

section \<open>Putting a key\<close>

text \<open>
  \<open>refs\<close> holds the iterators and the log, or nothing when the caller passes null pointers. Once an entry
  is displaced no key is compared any more.
\<close>

type_synonym put_refs = "(iters \<times> sparkey_logreader) option"

partial_function (option) hash_put_loop ::
  "codec_lib \<Rightarrow> bytes \<Rightarrow> sparkey_hashheader \<Rightarrow> put_refs \<Rightarrow> bool \<Rightarrow> u64 \<Rightarrow> u64 \<Rightarrow> u64 \<Rightarrow> u64 \<Rightarrow> u64
     \<Rightarrow> (bytes \<times> sparkey_hashheader \<times> put_refs) result" where
  "hash_put_loop lib hashtable hash_header refs might_be_collision slot pos displacement hash position =
     Option.bind (read_slot hash_header hashtable pos) (\<lambda>(hash2, position2).
     if position2 = 0 then
       Option.bind (write_slot hash_header hashtable pos hash position) (\<lambda>hashtable.
       Some (SPARKEY_SUCCESS, hashtable, added_entry hash_header, refs))
     else
       let entry_index2 = entry_index hash_header position2;
           position3 = drop_bit (unat (hh_entry_block_bits hash_header)) position2
       in
       rethrow
         (case refs of
            Some (its, log) \<Rightarrow>
              if might_be_collision \<and> hash = hash2
              then map_option (\<lambda>(rc, found, its). (rc, found, Some (its, log))) (same_key lib log its position3 entry_index2)
              else Some (SPARKEY_SUCCESS, None, refs)
          | None \<Rightarrow> Some (SPARKEY_SUCCESS, None, refs))
         (\<lambda>(found, refs). (hashtable, hash_header, refs)) (\<lambda>(found, refs).
       case found of
         Some (keylen2, valuelen2) \<Rightarrow>
           Option.bind (write_slot hash_header hashtable pos hash position) (\<lambda>hashtable.
           Some (SPARKEY_SUCCESS, hashtable, replaced_entry hash_header keylen2 valuelen2, refs))
       | None \<Rightarrow>
           let other_displacement = get_displacement (hh_hash_capacity hash_header) slot hash2;
               steal = displacement > other_displacement
           in
           Option.bind (if steal then write_slot hash_header hashtable pos hash position else Some hashtable) (\<lambda>hashtable.
           hash_put_loop lib hashtable hash_header refs
             (if steal then False else might_be_collision)
             (if slot + 1 \<ge> hh_hash_capacity hash_header then 0 else slot + 1)
             (if slot + 1 \<ge> hh_hash_capacity hash_header then 0 else pos + slot_size hash_header)
             ((if steal then other_displacement else displacement) + 1)
             (if steal then hash2 else hash)
             (if steal then position2 else position))))"

definition hash_put ::
  "codec_lib \<Rightarrow> u64 \<Rightarrow> u64 \<Rightarrow> bytes \<Rightarrow> sparkey_hashheader \<Rightarrow> put_refs \<Rightarrow> u64
     \<Rightarrow> (bytes \<times> sparkey_hashheader \<times> put_refs) result" where
  "hash_put lib wanted_slot hash hashtable hash_header refs position =
     hash_put_loop lib hashtable hash_header refs (refs \<noteq> None) wanted_slot
       (wanted_slot * slot_size hash_header) 0 hash position"

section \<open>Statistics\<close>

record displacement_stats =
  ds_max_displacement :: u64
  ds_num_hash_collisions :: u64
  ds_total_displacement :: u64
  ds_has_first :: bool
  ds_first_hash :: u64
  ds_has_last :: bool
  ds_last_hash :: u64
  ds_has_prev :: bool
  ds_prev_hash :: u64

definition displacement_step ::
  "sparkey_hashheader \<Rightarrow> u64 \<Rightarrow> u64 \<times> u64 \<Rightarrow> displacement_stats \<Rightarrow> displacement_stats" where
  "displacement_step hash_header slot entry st =
     (case entry of (hash, position) \<Rightarrow>
        let capacity = hh_hash_capacity hash_header;
            st = (if ds_has_prev st \<and> ds_prev_hash st = hash
                  then st\<lparr>ds_num_hash_collisions := ds_num_hash_collisions st + 1\<rparr> else st)
        in if position \<noteq> 0 then
             let st = st\<lparr>ds_prev_hash := hash, ds_has_prev := True\<rparr>;
                 displacement = get_displacement capacity slot hash;
                 st = st\<lparr>ds_total_displacement := ds_total_displacement st + displacement\<rparr>;
                 st = (if displacement > ds_max_displacement st then st\<lparr>ds_max_displacement := displacement\<rparr> else st);
                 st = (if slot = 0 then st\<lparr>ds_first_hash := hash, ds_has_first := True\<rparr> else st)
             in if slot = capacity - 1 then st\<lparr>ds_last_hash := hash, ds_has_last := True\<rparr> else st
           else st\<lparr>ds_has_prev := False\<rparr>)"

text \<open>The loop over the slots with the numbers in the list.\<close>

primrec displacement_loop ::
  "sparkey_hashheader \<Rightarrow> bytes \<Rightarrow> nat list \<Rightarrow> displacement_stats \<Rightarrow> displacement_stats option" where
  "displacement_loop hash_header hashtable [] st = Some st"
| "displacement_loop hash_header hashtable (i # is) st =
     Option.bind (read_slot hash_header hashtable (of_nat i * slot_size hash_header)) (\<lambda>entry.
     displacement_loop hash_header hashtable is (displacement_step hash_header (of_nat i) entry st))"

definition calculate_max_displacement :: "sparkey_hashheader \<Rightarrow> bytes \<Rightarrow> sparkey_hashheader option" where
  "calculate_max_displacement hash_header hashtable =
     Option.bind
       (displacement_loop hash_header hashtable [0..<unat (hh_hash_capacity hash_header)]
          \<lparr>ds_max_displacement = 0, ds_num_hash_collisions = 0, ds_total_displacement = 0,
           ds_has_first = False, ds_first_hash = 0, ds_has_last = False, ds_last_hash = 0,
           ds_has_prev = False, ds_prev_hash = - 1\<rparr>) (\<lambda>st.
     let st = (if ds_has_first st \<and> ds_has_last st \<and> ds_first_hash st = ds_last_hash st
               then st\<lparr>ds_num_hash_collisions := ds_num_hash_collisions st + 1\<rparr> else st)
     in Some (hash_header\<lparr>hh_total_displacement := ds_total_displacement st,
                          hh_max_displacement := ds_max_displacement st,
                          hh_hash_collisions := ds_num_hash_collisions st\<rparr>))"

end
