(* ===== verification/HashBuild.thy ===== *)
theory HashBuild
  imports HashWriter
begin

text \<open>
  \<open>src/src/hashwriter.c\<close>, second part: copying an older index of the same log and building the index file.
\<close>

section \<open>Copying an old index\<close>

text \<open>
  Every round reads to the start of \<open>buf\<close>, not behind what was read before. At the end of the file
  nothing is read and the loop never ends.
\<close>

partial_function (option) read_fully :: "os \<Rightarrow> fd \<Rightarrow> bytes \<Rightarrow> nat \<Rightarrow> (os \<times> fd \<times> bytes) result" where
  "read_fully os fd buf count =
     (if count > 0 then
        case sys_read os fd count of
          (Inl e, os, fd) \<Rightarrow> Some (SPARKEY_INTERNAL_ERROR, os, fd, buf)
        | (Inr bs, os, fd) \<Rightarrow> read_fully os fd (bs @ drop (length bs) buf) (count - length bs)
      else Some (SPARKEY_SUCCESS, os, fd, buf))"

text \<open>The loop variable is a 32 bit number.\<close>

partial_function (option) hash_copy_loop ::
  "codec_lib \<Rightarrow> bytes \<Rightarrow> u64 \<Rightarrow> sparkey_hashheader \<Rightarrow> u32 \<Rightarrow> bytes \<Rightarrow> sparkey_hashheader
     \<Rightarrow> (bytes \<times> sparkey_hashheader) result" where
  "hash_copy_loop lib buf buffer_size old_header i hashtable new_header =
     (if ucast i < buffer_size then
        Option.bind (read_slot old_header buf (ucast i)) (\<lambda>(hash, position).
        let index = entry_index old_header position;
            position = drop_bit (unat (hh_entry_block_bits old_header)) position;
            wanted_slot = hash mod hh_hash_capacity new_header
        in
        if position \<noteq> 0 then
          rethrow
            (hash_put lib wanted_slot hash hashtable new_header None
               (push_bit (unat (hh_entry_block_bits new_header)) position OR of_int index))
            (\<lambda>(hashtable, new_header, refs). (hashtable, new_header)) (\<lambda>(hashtable, new_header, refs).
          hash_copy_loop lib buf buffer_size old_header (i + ucast (slot_size old_header)) hashtable new_header)
        else
          hash_copy_loop lib buf buffer_size old_header (i + ucast (slot_size old_header)) hashtable new_header)
      else Some (SPARKEY_SUCCESS, hashtable, new_header))"

definition hash_copy ::
  "codec_lib \<Rightarrow> bytes \<Rightarrow> bytes \<Rightarrow> u64 \<Rightarrow> sparkey_hashheader \<Rightarrow> sparkey_hashheader
     \<Rightarrow> (bytes \<times> sparkey_hashheader) result" where
  "hash_copy lib hashtable buf buffer_size old_header new_header =
     hash_copy_loop lib buf buffer_size old_header 0 hashtable new_header"

text \<open>
  Reading the old table in pieces of 1024 slots. \<open>mem\<close> is the contents of the memory \<open>malloc\<close> returns;
  closing the file is taken to succeed.
\<close>

definition fill_piece ::
  "codec_lib \<Rightarrow> sparkey_hashheader \<Rightarrow> os \<times> fd \<times> bytes \<times> bytes \<times> sparkey_hashheader \<Rightarrow> u64
     \<Rightarrow> (os \<times> fd \<times> bytes \<times> bytes \<times> sparkey_hashheader) result" where
  "fill_piece lib old_header s count =
     (case s of (os, fd, buf, hashtable, new_header) \<Rightarrow>
        rethrow (read_fully os fd buf (unat count)) (\<lambda>(os, fd, buf). (os, fd, buf, hashtable, new_header)) (\<lambda>(os, fd, buf).
        map_option (\<lambda>(rc, hashtable, new_header). (rc, os, fd, buf, hashtable, new_header))
          (hash_copy lib hashtable buf count old_header new_header)))"

partial_function (option) fill_hash_loop ::
  "codec_lib \<Rightarrow> sparkey_hashheader \<Rightarrow> u64 \<Rightarrow> u64 \<Rightarrow> os \<times> fd \<times> bytes \<times> bytes \<times> sparkey_hashheader
     \<Rightarrow> (os \<times> fd \<times> bytes \<times> bytes \<times> sparkey_hashheader) result" where
  "fill_hash_loop lib old_header buffer_size remaining s =
     (if buffer_size \<le> remaining then
        rethrow (fill_piece lib old_header s buffer_size) id (\<lambda>s.
        fill_hash_loop lib old_header buffer_size (remaining - buffer_size) s)
      else fill_piece lib old_header s remaining)"

definition fill_hash ::
  "codec_lib \<Rightarrow> bytes \<Rightarrow> os \<Rightarrow> bytes \<Rightarrow> string \<Rightarrow> sparkey_hashheader \<Rightarrow> sparkey_hashheader
     \<Rightarrow> (os \<times> bytes \<times> sparkey_hashheader) result" where
  "fill_hash lib mem os hashtable hash_filename old_header new_header =
     (case os_open_read os hash_filename of
        Inl e \<Rightarrow> Some (sparkey_open_returncode e, os, hashtable, new_header)
      | Inr _ \<Rightarrow>
          let fd = \<lparr>fd_ino = os_names os hash_filename, fd_off = unat (hh_header_size old_header)\<rparr>;
              buffer_size = slot_size old_header * 1024
          in
          (case os_malloc os of
             (False, os) \<Rightarrow> Some (SPARKEY_INTERNAL_ERROR, os, hashtable, new_header)
           | (True, os) \<Rightarrow>
               let buf = take (unat buffer_size) (mem @ replicate (unat buffer_size) 0);
                   remaining = hh_hash_capacity old_header * slot_size old_header
               in
               map_option (\<lambda>(rc, os, fd, buf, hashtable, new_header). (rc, os, hashtable, new_header))
                 (fill_hash_loop lib old_header buffer_size remaining (os, fd, buf, hashtable, new_header))))"

section \<open>The capacity\<close>

text \<open>
  The capacity is 1.3 times a count, computed with doubles. A positive double is a significand \<open>m\<close> and
  an exponent \<open>e\<close>, for \<open>m * 2 ^ e\<close>; results are rounded to 53 bits, to the nearest, ties to even. The
  constant 1.3 is the double closest to it.
\<close>

fun excess_bits :: "nat \<Rightarrow> nat" where
  "excess_bits n = (if n < 2 ^ 53 then 0 else Suc (excess_bits (n div 2)))"

declare excess_bits.simps [simp del]

definition round_half_even :: "nat \<Rightarrow> nat \<Rightarrow> nat" where
  "round_half_even n k =
     (let q = n div 2 ^ k; r = n mod 2 ^ k in
      if 2 ^ k < 2 * r \<or> (2 * r = 2 ^ k \<and> odd q) then q + 1 else q)"

definition double_round :: "nat \<Rightarrow> int \<Rightarrow> nat \<times> int" where
  "double_round m e = (round_half_even m (excess_bits m), e + int (excess_bits m))"

definition double_mult :: "nat \<times> int \<Rightarrow> nat \<times> int \<Rightarrow> nat \<times> int" where
  "double_mult x y = double_round (fst x * fst y) (snd x + snd y)"

definition double_floor :: "nat \<times> int \<Rightarrow> nat" where
  "double_floor x =
     (if snd x \<ge> 0 then fst x * 2 ^ nat (snd x) else fst x div 2 ^ nat (- snd x))"

definition double_1_3 :: "nat \<times> int" where
  "double_1_3 = (5854679515581645, - 52)"

text \<open>\<open>1 | (uint64_t) cap\<close>; the conversion of a double that does not fit has no defined outcome.\<close>

definition hash_capacity_for :: "u64 \<Rightarrow> u64 option" where
  "hash_capacity_for n =
     (let cap = double_floor (double_mult (double_round (unat n) 0) double_1_3) in
      if cap < 2 ^ 64 then Some (1 OR of_nat cap) else None)"

section \<open>Building the index\<close>

type_synonym build_state = "os \<times> bytes \<times> sparkey_hashheader \<times> iters"

text \<open>One entry of the log, after \<open>next\<close> has made it current.\<close>

definition index_entry ::
  "codec_lib \<Rightarrow> sparkey_logreader \<Rightarrow> build_state \<Rightarrow> build_state result" where
  "index_entry lib log s =
     (case s of (os, hashtable, hash_header, iter, ra_iter) \<Rightarrow>
        let iter_block_start = it_block_position iter;
            iter_entry_count = scast (it_entry_count iter)
        in
        Option.bind (sparkey_iter_hash lib hash_header os iter log) (\<lambda>(key_hash, os, iter).
        let wanted_slot = key_hash mod hh_hash_capacity hash_header in
        case it_type iter of
          SPARKEY_ENTRY_PUT \<Rightarrow>
            Option.bind
              (hash_put lib wanted_slot key_hash hashtable hash_header (Some ((iter, ra_iter), log))
                 (push_bit (unat (hh_entry_block_bits hash_header)) iter_block_start OR iter_entry_count))
              (\<lambda>(rc, hashtable, hash_header, refs).
            case refs of
              Some (its, log) \<Rightarrow> Some (rc, os, hashtable, hash_header, its)
            | None \<Rightarrow> None)
        | SPARKEY_ENTRY_DELETE \<Rightarrow>
            let hash_header = hash_header\<lparr>hh_garbage_size := hh_garbage_size hash_header
                  + (1 + unsigned_vlq_size (it_keylen iter) + it_keylen iter)\<rparr>
            in
            map_option (\<lambda>(rc, s). (rc, os, s))
              (hash_delete lib wanted_slot key_hash hashtable hash_header (iter, ra_iter) log)))"

partial_function (option) index_loop ::
  "codec_lib \<Rightarrow> sparkey_logreader \<Rightarrow> build_state \<Rightarrow> build_state result" where
  "index_loop lib log s =
     (case s of (os, hashtable, hash_header, iter, ra_iter) \<Rightarrow>
        rethrow (sparkey_logiter_next lib iter log) (\<lambda>iter. (os, hashtable, hash_header, iter, ra_iter)) (\<lambda>iter.
        case it_state iter of
          SPARKEY_ITER_CLOSED \<Rightarrow> Some (SPARKEY_SUCCESS, os, hashtable, hash_header, iter, ra_iter)
        | SPARKEY_ITER_ACTIVE \<Rightarrow>
            rethrow (index_entry lib log (os, hashtable, hash_header, iter, ra_iter)) id (index_loop lib log)
        | _ \<Rightarrow> Some (SPARKEY_INTERNAL_ERROR, os, hashtable, hash_header, iter, ra_iter)))"

text \<open>
  Writing the file: an old file is removed first. The result of \<open>creat\<close> is not checked; on the descriptor
  -1 the writes fail.
\<close>

definition write_index ::
  "os \<Rightarrow> string \<Rightarrow> sparkey_hashheader \<Rightarrow> sparkey_logheader \<Rightarrow> bytes \<Rightarrow> sparkey_returncode \<times> os" where
  "write_index os hash_filename hash_header log_header hashtable =
     (case os_remove os hash_filename of
        (removed, os) \<Rightarrow>
          if (case removed of Inl e \<Rightarrow> e \<noteq> ENOENT | Inr _ \<Rightarrow> False)
          then (sparkey_remove_returncode (projl removed), os)
          else
            (case os_create os hash_filename of
               (created, os) \<Rightarrow>
                 let fd = (case created of Inr fd \<Rightarrow> fd | Inl e \<Rightarrow> \<lparr>fd_ino = None, fd_off = 0\<rparr>);
                     hash_header = hash_header\<lparr>hh_major_version := HASH_MAJOR_VERSION,
                       hh_minor_version := HASH_MINOR_VERSION,
                       hh_file_identifier := lh_file_identifier log_header,
                       hh_data_end := lh_data_end log_header\<rparr>
                 in
                 (case write_hashheader os fd hash_header of
                    (rc, os, fd) \<Rightarrow>
                      if rc \<noteq> SPARKEY_SUCCESS then (rc, os)
                      else (case write_full os fd hashtable of (rc, os, fd) \<Rightarrow> (rc, os)))))"

text \<open>
  The header of the new index before any entry is put, from the header of the log, the old index and the
  requested hash size. \<open>junk\<close> is the uninitialised struct.
\<close>

definition index_header ::
  "sparkey_hashheader \<Rightarrow> sparkey_logheader \<Rightarrow> u64 \<Rightarrow> u32 \<Rightarrow> u64 \<Rightarrow> u32 \<Rightarrow> u32 \<Rightarrow> sparkey_returncode + sparkey_hashheader" where
  "index_header junk log_header capacity hash_seed garbage_size old_hash_size hash_size =
     (let h = junk\<lparr>hh_garbage_size := garbage_size,
                   hh_hash_capacity := capacity,
                   hh_hash_seed := hash_seed,
                   hh_max_key_len := lh_max_key_len log_header,
                   hh_max_value_len := lh_max_value_len log_header,
                   hh_data_end := lh_data_end log_header,
                   hh_num_puts := lh_num_puts log_header,
                   hh_entry_block_bits := int_log2 (lh_max_entries_per_block log_header)\<rparr>;
          h = h\<lparr>hh_entry_block_bitmask := block_bitmask (hh_entry_block_bits h)\<rparr>;
          h = h\<lparr>hh_address_size :=
                  (if hh_data_end h < push_bit (unat (32 - hh_entry_block_bits h)) 1 then 4 else 8)\<rparr>;
          h = h\<lparr>hh_hash_size :=
                  (if old_hash_size = 8 \<or> hh_hash_capacity h \<ge> push_bit 23 1 then 8 else 4)\<rparr>
      in
      if hash_size \<noteq> 0 \<and> hash_size \<noteq> 4 \<and> hash_size \<noteq> 8 then Inl SPARKEY_HASH_SIZE_INVALID
      else
        let h = (if hash_size \<noteq> 0 then h\<lparr>hh_hash_size := hash_size\<rparr> else h);
            h = h\<lparr>hh_hash_algorithm := sparkey_get_hash_algorithm (hh_hash_size h)\<rparr>
        in Inr (h\<lparr>hh_max_displacement := 0, hh_total_displacement := 0, hh_num_entries := 0,
                  hh_hash_collisions := 0\<rparr>))"

text \<open>What the new index starts from: an old index of the same log, or nothing.\<close>

definition old_index :: "os \<Rightarrow> string \<Rightarrow> sparkey_logheader \<Rightarrow> sparkey_hashheader option" where
  "old_index os hash_filename log_header =
     (case sparkey_load_hashheader os hash_filename of
        Inr old_header \<Rightarrow>
          if hh_file_identifier old_header = lh_file_identifier log_header
             \<and> hh_major_version old_header = HASH_MAJOR_VERSION
             \<and> hh_minor_version old_header = HASH_MINOR_VERSION
          then Some old_header else None
      | Inl rc \<Rightarrow> None)"

definition finish_index ::
  "codec_lib \<Rightarrow> string \<Rightarrow> sparkey_logheader \<Rightarrow> sparkey_logreader \<Rightarrow> build_state \<Rightarrow> os result" where
  "finish_index lib hash_filename log_header log s =
     rethrow (index_loop lib log s) fst (\<lambda>(os, hashtable, hash_header, its).
     Option.bind (calculate_max_displacement hash_header hashtable) (\<lambda>hash_header.
     Some (write_index os hash_filename hash_header log_header hashtable)))"

text \<open>Allocating the table, copying the old one when it has the same kind of hashes, indexing the rest.\<close>

definition build_index ::
  "codec_lib \<Rightarrow> bytes \<Rightarrow> os \<Rightarrow> string \<Rightarrow> sparkey_logheader \<Rightarrow> sparkey_logreader \<Rightarrow> iters \<Rightarrow> sparkey_hashheader option
     \<Rightarrow> sparkey_hashheader \<Rightarrow> os result" where
  "build_index lib mem os hash_filename log_header log its old hash_header =
     (case os_malloc os of
        (False, os) \<Rightarrow> Some (SPARKEY_INTERNAL_ERROR, os)
      | (True, os) \<Rightarrow>
          let hashsize = slot_size hash_header * hh_hash_capacity hash_header;
              hashtable = replicate (unat hashsize) 0
          in
          (case old of
             Some old_header \<Rightarrow>
               if hh_hash_size hash_header \<noteq> hh_hash_size old_header
               then finish_index lib hash_filename log_header log (os, hashtable, hash_header, its)
               else if hh_data_end old_header = lh_data_end (lr_header log) then Some (SPARKEY_SUCCESS, os)
               else
                 rethrow (fill_hash lib mem os hashtable hash_filename old_header hash_header) fst
                   (\<lambda>(os, hashtable, hash_header).
                 rethrow (sparkey_logiter_seek lib (fst its) log (hh_data_end old_header)) (\<lambda>iter. os) (\<lambda>iter.
                 finish_index lib hash_filename log_header log (os, hashtable, hash_header, iter, snd its)))
           | None \<Rightarrow> finish_index lib hash_filename log_header log (os, hashtable, hash_header, its)))"

text \<open>
  The whole operation; \<open>junk\<close>, \<open>junkr\<close>, \<open>junki\<close>, \<open>junki2\<close> and \<open>mem\<close> are uninitialised memory. All errors release
  the memory and end with their code.
\<close>

definition sparkey_hash_write ::
  "codec_lib \<Rightarrow> sparkey_hashheader \<Rightarrow> sparkey_logreader \<Rightarrow> sparkey_logiter \<Rightarrow> sparkey_logiter \<Rightarrow> bytes \<Rightarrow> os
     \<Rightarrow> string \<Rightarrow> string \<Rightarrow> u32 \<Rightarrow> os result" where
  "sparkey_hash_write lib junk junkr junki junki2 mem os hash_filename log_filename hash_size =
     (case sparkey_load_logheader os log_filename of
        Inl rc \<Rightarrow> Some (rc, os)
      | Inr log_header \<Rightarrow>
          (case sparkey_logreader_open junkr os log_filename of
             (Inl rc, os) \<Rightarrow> Some (rc, os)
           | (Inr log, os) \<Rightarrow>
               (case sparkey_logiter_create junki os log of
                  (Inl rc, os) \<Rightarrow> Some (rc, os)
                | (Inr iter, os) \<Rightarrow>
                    (case sparkey_logiter_create junki2 os log of
                       (Inl rc, os) \<Rightarrow> Some (rc, os)
                     | (Inr ra_iter, os) \<Rightarrow>
                         let old = old_index os hash_filename log_header in
                         (case old of
                            Some old_header \<Rightarrow>
                              Option.bind
                                (hash_capacity_for ((lh_num_puts log_header - hh_num_puts old_header)
                                   + hh_num_entries old_header)) (\<lambda>capacity.
                              case index_header junk log_header capacity (hh_hash_seed old_header)
                                     (hh_garbage_size old_header) (hh_hash_size old_header) hash_size of
                                Inl rc \<Rightarrow> Some (rc, os)
                              | Inr hash_header \<Rightarrow>
                                  build_index lib mem os hash_filename log_header log (iter, ra_iter) old hash_header)
                          | None \<Rightarrow>
                              (case rand32 os of
                                 Inl rc \<Rightarrow> Some (rc, os)
                               | Inr hash_seed \<Rightarrow>
                                   Option.bind (hash_capacity_for (lh_num_puts log_header)) (\<lambda>capacity.
                                   case index_header junk log_header capacity hash_seed 0 0 hash_size of
                                     Inl rc \<Rightarrow> Some (rc, os)
                                   | Inr hash_header \<Rightarrow>
                                       build_index lib mem os hash_filename log_header log (iter, ra_iter) old
                                         hash_header)))))))"

end
