(* ===== verification/RobinHood.thy ===== *)
theory RobinHood
  imports Prelude "HOL-Library.Multiset"
begin

text \<open>
  Robin Hood hashing on an abstract table, a list of slots that are empty or hold an item. Every item has
  a home, the slot it wants; its displacement is how far behind its home it is, around the end of the
  table. The invariant relates each slot to the one before it.
\<close>

section \<open>Positions on the ring\<close>

definition succ_slot :: "nat \<Rightarrow> nat \<Rightarrow> nat" where
  "succ_slot n i = (if Suc i \<ge> n then 0 else Suc i)"

definition ring_dist :: "nat \<Rightarrow> nat \<Rightarrow> nat \<Rightarrow> nat" where
  "ring_dist n a b = (if a \<le> b then b - a else b + n - a)"

lemma succ_slot_less [simp]: "i < n \<Longrightarrow> succ_slot n i < n"
  by (auto simp: succ_slot_def)

lemma ring_dist_less: "a < n \<Longrightarrow> b < n \<Longrightarrow> ring_dist n a b < n"
  by (auto simp: ring_dist_def)

lemma ring_dist_0 [simp]: "ring_dist n a a = 0"
  by (simp add: ring_dist_def)

lemma ring_dist_eq_0: "a < n \<Longrightarrow> b < n \<Longrightarrow> ring_dist n a b = 0 \<longleftrightarrow> a = b"
  by (auto simp: ring_dist_def)

lemma ring_dist_succ:
  assumes "a < n" "b < n" "succ_slot n b \<noteq> a"
  shows "ring_dist n a (succ_slot n b) = Suc (ring_dist n a b)"
  using assms by (auto simp: ring_dist_def succ_slot_def)

lemma ring_dist_start:
  assumes "a < n" "b < n" "a \<noteq> b"
  shows "ring_dist n a b = Suc (ring_dist n (succ_slot n a) b)"
  using assms by (auto simp: ring_dist_def succ_slot_def)

lemma ring_dist_wrap: "a < n \<Longrightarrow> b < n \<Longrightarrow> succ_slot n b = a \<Longrightarrow> Suc (ring_dist n a b) = n"
  by (auto simp: ring_dist_def succ_slot_def split: if_splits)

lemma pred_slot:
  assumes "j < n"
  obtains i where "i < n" "succ_slot n i = j"
proof (cases j)
  case 0
  then show thesis using that [of "n - 1"] assms by (simp add: succ_slot_def)
next
  case (Suc i)
  then show thesis using that [of i] assms by (simp add: succ_slot_def)
qed

section \<open>Tables\<close>

text \<open>The home of an item is a parameter; the table has as many slots as the list.\<close>

definition displacement :: "('i \<Rightarrow> nat) \<Rightarrow> 'i option list \<Rightarrow> nat \<Rightarrow> 'i \<Rightarrow> nat" where
  "displacement home T i x = ring_dist (length T) (home x) i"

text \<open>\<open>follows home T i d\<close>: an item with displacement \<open>d\<close> may stand at slot \<open>succ_slot n i\<close>, behind slot \<open>i\<close>.\<close>

definition follows :: "('i \<Rightarrow> nat) \<Rightarrow> 'i option list \<Rightarrow> nat \<Rightarrow> nat \<Rightarrow> bool" where
  "follows home T i d \<longleftrightarrow> d = 0 \<or> (\<exists>y. T ! i = Some y \<and> d \<le> Suc (displacement home T i y))"

definition rh_inv :: "('i \<Rightarrow> nat) \<Rightarrow> 'i option list \<Rightarrow> bool" where
  "rh_inv home T \<longleftrightarrow>
     T \<noteq> [] \<and> (\<forall>x. Some x \<in> set T \<longrightarrow> home x < length T)
     \<and> (\<forall>i x. i < length T \<longrightarrow> T ! succ_slot (length T) i = Some x
          \<longrightarrow> follows home T i (displacement home T (succ_slot (length T) i) x))"

text \<open>A slot where a walk along the table stops: it is empty or its item is at home.\<close>

definition at_rest :: "('i \<Rightarrow> nat) \<Rightarrow> 'i option list \<Rightarrow> nat \<Rightarrow> bool" where
  "at_rest home T i \<longleftrightarrow> i < length T \<and> (\<forall>x. T ! i = Some x \<longrightarrow> home x = i)"

definition items :: "'i option list \<Rightarrow> 'i multiset" where
  "items T = mset (List.map_filter id T)"

lemma items_simps [simp]:
  "items [] = {#}" "items (None # T) = items T" "items (Some x # T) = add_mset x (items T)"
  by (simp_all add: items_def List.map_filter_def)

lemma items_append: "items (S @ T) = items S + items T"
  by (simp add: items_def List.map_filter_def)

lemma set_items: "x \<in># items T \<longleftrightarrow> Some x \<in> set T"
  by (induction T) (auto simp: items_def List.map_filter_def split: option.splits)

lemma items_split: "i < length T \<Longrightarrow> items T = items (take i T) + items [T ! i] + items (drop (Suc i) T)"
  by (metis append_Cons append_Nil append_assoc id_take_nth_drop items_append)

lemma items_update:
  assumes "i < length T"
  shows "items (T[i := s]) + items [T ! i] = items T + items [s]"
  using items_split [OF assms] items_split [of i "T[i := s]"] assms by simp

lemma rh_inv_home: "rh_inv home T \<Longrightarrow> i < length T \<Longrightarrow> T ! i = Some x \<Longrightarrow> home x < length T"
  unfolding rh_inv_def by (metis nth_mem)

lemma rh_inv_follows:
  "rh_inv home T \<Longrightarrow> i < length T \<Longrightarrow> T ! succ_slot (length T) i = Some x
     \<Longrightarrow> follows home T i (displacement home T (succ_slot (length T) i) x)"
  unfolding rh_inv_def by blast

text \<open>All slots from the home of an item up to the item are full, each with at least its own distance.\<close>

lemma rh_path:
  assumes inv: "rh_inv home T" and "i < length T" "T ! i = Some x" "j < length T"
    and "ring_dist (length T) (home x) j \<le> displacement home T i x"
  shows "\<exists>y. T ! j = Some y \<and> ring_dist (length T) (home x) j \<le> displacement home T j y"
  using assms(4,5)
proof (induction "displacement home T i x - ring_dist (length T) (home x) j" arbitrary: j)
  case 0
  have h: "home x < length T" by (rule rh_inv_home [OF assms(1-3)])
  have "ring_dist (length T) (home x) j = ring_dist (length T) (home x) i"
    using 0 by (simp add: displacement_def)
  then have "j = i" using h 0(2) assms(2) by (auto simp: ring_dist_def split: if_splits)
  then show ?case using assms(3) by (simp add: displacement_def)
next
  case (Suc m)
  have h: "home x < length T" by (rule rh_inv_home [OF assms(1-3)])
  let ?n = "length T" let ?j = "succ_slot ?n j"
  have j': "?j < ?n" using Suc.prems(1) by simp
  have lt: "ring_dist ?n (home x) j < displacement home T i x" using Suc(2) by linarith
  have "displacement home T i x < ?n" using h assms(2) by (simp add: displacement_def ring_dist_less)
  then have "?j \<noteq> home x" using ring_dist_wrap [OF h Suc.prems(1)] lt by auto
  then have d: "ring_dist ?n (home x) ?j = Suc (ring_dist ?n (home x) j)"
    by (rule ring_dist_succ [OF h Suc.prems(1)])
  have "\<exists>y. T ! ?j = Some y \<and> ring_dist ?n (home x) ?j \<le> displacement home T ?j y"
    by (rule Suc.hyps(1)) (use Suc(2) d lt j' in linarith)+
  then obtain y where y: "T ! ?j = Some y" "Suc (ring_dist ?n (home x) j) \<le> displacement home T ?j y"
    unfolding d by blast
  from rh_inv_follows [OF inv Suc.prems(1) y(1)] y(2) show ?case
    by (auto simp: follows_def)
qed

section \<open>Searching\<close>

text \<open>
  The search for an item that satisfies \<open>P\<close>, as lookups and deletions do it: from slot \<open>s\<close> with distance \<open>d\<close>
  on, it stops at an empty slot, at a match, or where the item of the slot is closer to its home than
  the search is. It never takes more than one round, whatever the table holds.
\<close>

function rh_find :: "('i \<Rightarrow> nat) \<Rightarrow> ('i \<Rightarrow> bool) \<Rightarrow> 'i option list \<Rightarrow> nat \<Rightarrow> nat \<Rightarrow> nat option" where
  "rh_find home P T s d =
     (if s < length T \<and> d \<le> length T then
        case T ! s of
          None \<Rightarrow> None
        | Some y \<Rightarrow>
            if P y then Some s
            else if d > displacement home T s y then None
            else rh_find home P T (succ_slot (length T) s) (Suc d)
      else None)"
  by auto
termination
  by (relation "measure (\<lambda>(home, P, T, s, d). Suc (length T) - d)") auto

declare rh_find.simps [simp del]

lemma rh_find_Some:
  "rh_find home P T s d = Some i \<Longrightarrow> i < length T \<and> (\<exists>y. T ! i = Some y \<and> P y)"
  by (induction home P T s d rule: rh_find.induct)
    (subst (asm) (2) rh_find.simps, auto split: option.splits if_splits)

text \<open>An item that is in the table with home \<open>h\<close> is found, unless another match comes first.\<close>

lemma rh_find_reaches:
  assumes inv: "rh_inv home T" and i: "i < length T" "T ! i = Some x" "P x"
    and s: "s < length T" "d = ring_dist (length T) (home x) s" "d \<le> displacement home T i x"
  shows "\<exists>j. rh_find home P T s d = Some j"
  using s
proof (induction "displacement home T i x - d" arbitrary: s d)
  case 0
  have h: "home x < length T" by (rule rh_inv_home [OF inv i(1,2)])
  have "ring_dist (length T) (home x) s = ring_dist (length T) (home x) i"
    using 0 by (simp add: displacement_def)
  then have "s = i" using h 0(2) i(1) by (auto simp: ring_dist_def split: if_splits)
  moreover have "d \<le> length T" using 0 h i(1) ring_dist_less [of "home x" "length T" i] by (simp add: displacement_def)
  ultimately show ?case using i by (subst rh_find.simps) simp
next
  case (Suc m)
  let ?n = "length T"
  have h: "home x < ?n" by (rule rh_inv_home [OF inv i(1,2)])
  have dn: "displacement home T i x < ?n" using h i(1) by (simp add: displacement_def ring_dist_less)
  obtain y where y: "T ! s = Some y" "d \<le> displacement home T s y"
    using rh_path [OF inv i(1,2) Suc.prems(1)] Suc.prems(2,3) by auto
  have "succ_slot ?n s \<noteq> home x" using ring_dist_wrap [OF h Suc.prems(1)] Suc(2) Suc.prems(2) dn by auto
  then have "ring_dist ?n (home x) (succ_slot ?n s) = Suc d"
    using ring_dist_succ [OF h Suc.prems(1)] Suc.prems(2) by simp
  then have "\<exists>j. rh_find home P T (succ_slot ?n s) (Suc d) = Some j"
    by (intro Suc.hyps(1)) (use Suc(2) Suc.prems(1) in auto)
  then show ?case using y Suc.prems(1) Suc(2) dn by (subst rh_find.simps) auto
qed

lemma rh_find_None:
  assumes inv: "rh_inv home T" and none: "rh_find home P T h 0 = None" and h: "h < length T"
    and x: "x \<in># items T" "home x = h"
  shows "\<not> P x"
proof
  assume "P x"
  obtain i where i: "i < length T" "T ! i = Some x" using x(1) unfolding set_items in_set_conv_nth by blast
  have "\<exists>j. rh_find home P T h 0 = Some j"
    by (rule rh_find_reaches [where P = P, OF inv i \<open>P x\<close> h]) (simp_all add: x(2))
  then show False using none by simp
qed

section \<open>Inserting\<close>

text \<open>
  \<open>carried home T s d x\<close>: the item \<open>x\<close> is on its way, it is at slot \<open>s\<close> with displacement \<open>d\<close>, and may be
  put there as far as the slot before is concerned.
\<close>

definition carried :: "('i \<Rightarrow> nat) \<Rightarrow> 'i option list \<Rightarrow> nat \<Rightarrow> nat \<Rightarrow> 'i \<Rightarrow> bool" where
  "carried home T s d x \<longleftrightarrow>
     s < length T \<and> home x < length T \<and> d = displacement home T s x
     \<and> (\<forall>i < length T. succ_slot (length T) i = s \<longrightarrow> follows home T i d)"

lemma carried_start: "h < length T \<Longrightarrow> home x = h \<Longrightarrow> carried home T h 0 x"
  by (simp add: carried_def displacement_def follows_def)

lemma displacement_update [simp]: "displacement home (T[s := v]) i x = displacement home T i x"
  by (simp add: displacement_def)

lemma succ_slot_inj: "i < n \<Longrightarrow> j < n \<Longrightarrow> succ_slot n i = succ_slot n j \<Longrightarrow> i = j"
  by (auto simp: succ_slot_def split: if_splits)

lemma rh_inv_place:
  assumes inv: "rh_inv home T" and c: "carried home T s d x"
    and s: "\<And>y. T ! s = Some y \<Longrightarrow> displacement home T s y \<le> d"
  shows "rh_inv home (T[s := Some x])"
proof -
  let ?T = "T[s := Some x]" let ?n = "length T"
  have sn: "s < ?n" and hx: "home x < ?n" and d: "d = displacement home T s x" using c by (auto simp: carried_def)
  have fol: "follows home ?T i (displacement home T (succ_slot ?n i) z)"
    if i: "i < ?n" and z: "?T ! succ_slot ?n i = Some z" for i z
  proof (cases "succ_slot ?n i = s")
    case True
    then have zx: "z = x" using z sn by simp
    have "follows home T i d" using c True i unfolding carried_def by blast
    then show ?thesis
      using True zx d sn by (cases "i = s") (auto simp: follows_def)
  next
    case False
    then have "T ! succ_slot ?n i = Some z" using z by simp
    note f = rh_inv_follows [OF inv i this]
    show ?thesis
    proof (cases "i = s")
      case True
      then show ?thesis using f s d sn by (fastforce simp: follows_def)
    next
      case False
      then show ?thesis using f by (simp add: follows_def)
    qed
  qed
  have "home z < ?n" if "Some z \<in> set ?T" for z
    using that hx inv set_update_subset_insert [of T s "Some x"] by (auto simp: rh_inv_def)
  then show ?thesis using inv fol by (simp add: rh_inv_def)
qed

text \<open>When there is an empty slot, no item is a full round away from its home.\<close>

lemma displacement_bound:
  assumes inv: "rh_inv home T" and e: "e < length T" "T ! e = None" and i: "i < length T" "T ! i = Some y"
  shows "Suc (displacement home T i y) < length T"
proof (rule ccontr)
  assume not: "\<not> Suc (displacement home T i y) < length T"
  have h: "home y < length T" by (rule rh_inv_home [OF inv i])
  have "ring_dist (length T) (home y) e \<le> displacement home T i y"
    using ring_dist_less [OF h e(1)] not by linarith
  from rh_path [OF inv i e(1) this] e(2) show False by simp
qed

lemma carried_next:
  assumes inv: "rh_inv home T" and e: "e < length T" "T ! e = None"
    and s: "s < length T" "T ! s = Some y" "home x < length T" "d = displacement home T s x"
    and d: "d \<le> displacement home T s y"
  shows "carried home T (succ_slot (length T) s) (Suc d) x"
proof -
  let ?n = "length T"
  have "Suc d < ?n" using displacement_bound [OF inv e s(1,2)] d by linarith
  then have "succ_slot ?n s \<noteq> home x" using ring_dist_wrap [OF s(3,1)] s(4) by (auto simp: displacement_def)
  then have "displacement home T (succ_slot ?n s) x = Suc d"
    using ring_dist_succ [OF s(3,1)] s(4) by (simp add: displacement_def)
  moreover have "follows home T i (Suc d)" if "i < ?n" "succ_slot ?n i = succ_slot ?n s" for i
    using succ_slot_inj [OF that(1) s(1) that(2)] s(2) d by (auto simp: follows_def)
  ultimately show ?thesis using s by (auto simp: carried_def)
qed

lemma carried_displaced:
  assumes inv: "rh_inv home T" and c: "carried home T s d x" and e: "e < length T" "T ! e = None"
    and y: "T ! s = Some y" and less: "displacement home T s y < d"
  shows "carried home (T[s := Some x]) (succ_slot (length T) s) (Suc (displacement home T s y)) y"
proof -
  let ?n = "length T" let ?T = "T[s := Some x]"
  have sn: "s < ?n" and d: "d = displacement home T s x" using c by (auto simp: carried_def)
  have hy: "home y < ?n" by (rule rh_inv_home [OF inv sn y])
  have "Suc (displacement home T s y) < ?n" by (rule displacement_bound [OF inv e sn y])
  then have "succ_slot ?n s \<noteq> home y" using ring_dist_wrap [OF hy sn] by (auto simp: displacement_def)
  then have "displacement home T (succ_slot ?n s) y = Suc (displacement home T s y)"
    using ring_dist_succ [OF hy sn] by (simp add: displacement_def)
  moreover have "follows home ?T i (Suc (displacement home T s y))" if "i < ?n" "succ_slot ?n i = succ_slot ?n s" for i
    using succ_slot_inj [OF that(1) sn that(2)] sn less d by (auto simp: follows_def)
  ultimately show ?thesis using sn hy by (auto simp: carried_def)
qed

text \<open>After the last write there is still a slot where a walk stops.\<close>

lemma place_at_rest:
  assumes inv: "rh_inv home T" and s: "s < length T" "T ! s = None" and hx: "home x < length T"
  shows "\<exists>i. at_rest home (T[s := Some x]) i"
proof (cases "succ_slot (length T) s = s")
  case True
  then have "length T \<le> 1" using s(1) by (simp add: succ_slot_def split: if_splits)
  then have "length T = 1" using s(1) by linarith
  then have "at_rest home (T[s := Some x]) s" using s(1) hx by (simp add: at_rest_def)
  then show ?thesis ..
next
  case False
  let ?j = "succ_slot (length T) s"
  have "home y = ?j" if y: "T ! ?j = Some y" for y
  proof -
    have "displacement home T ?j y = 0"
      using rh_inv_follows [OF inv s(1) y] s(2) by (simp add: follows_def)
    moreover have "home y < length T" using rh_inv_home [OF inv _ y] s(1) by simp
    ultimately show ?thesis using s(1) ring_dist_eq_0 [of "home y" "length T" ?j] by (simp add: displacement_def)
  qed
  then have "at_rest home (T[s := Some x]) ?j" using False s(1) by (auto simp: at_rest_def)
  then show ?thesis ..
qed

section \<open>Deleting\<close>

lemma rh_inv_shift:
  assumes inv: "rh_inv home T" and s: "s < length T" "T ! s = Some y"
    and z: "T ! succ_slot (length T) s = Some z" "home z \<noteq> succ_slot (length T) s"
  shows "rh_inv home (T[s := Some z])" "Suc (displacement home T s z) = displacement home T (succ_slot (length T) s) z"
    "displacement home T s z \<le> displacement home T s y"
proof -
  let ?n = "length T" let ?j = "succ_slot ?n s" let ?T = "T[s := Some z]"
  have jn: "?j < ?n" using s(1) by simp
  have hz: "home z < ?n" by (rule rh_inv_home [OF inv jn z(1)])
  show sd: "Suc (displacement home T s z) = displacement home T ?j z"
    using ring_dist_succ [OF hz s(1)] z(2) by (simp add: displacement_def)
  show le: "displacement home T s z \<le> displacement home T s y"
    using rh_inv_follows [OF inv s(1) z(1)] s(2) sd by (auto simp: follows_def)
  have fol: "follows home ?T i (displacement home T (succ_slot ?n i) w)"
    if i: "i < ?n" and w: "?T ! succ_slot ?n i = Some w" for i w
  proof (cases "succ_slot ?n i = s")
    case True
    then have wz: "w = z" using w s(1) by simp
    have "T ! succ_slot ?n i = Some y" using True s(2) by simp
    from rh_inv_follows [OF inv i this] True le wz show ?thesis
      using s(1) by (cases "i = s") (auto simp: follows_def)
  next
    case False
    then have T: "T ! succ_slot ?n i = Some w" using w by simp
    show ?thesis
    proof (cases "i = s")
      case True
      then have "w = z" using T z(1) by simp
      then show ?thesis using True sd s(1) by (simp add: follows_def)
    next
      case False
      then show ?thesis using rh_inv_follows [OF inv i T] by (simp add: follows_def)
    qed
  qed
  have "home w < ?n" if "Some w \<in> set ?T" for w
    using that hz inv set_update_subset_insert [of T s "Some z"] by (auto simp: rh_inv_def)
  then show "rh_inv home ?T" using inv fol by (simp add: rh_inv_def)
qed

lemma at_rest_shift:
  assumes inv: "rh_inv home T" and s: "s < length T" "T ! s = Some y" and a: "at_rest home T a"
    and z: "T ! succ_slot (length T) s = Some z" "home z \<noteq> succ_slot (length T) s"
  shows "at_rest home (T[s := Some z]) a"
proof (cases "a = s")
  case True
  have hz: "home z < length T" by (rule rh_inv_home [OF inv _ z(1)]) (use s(1) in simp)
  have "home y = s" using a s True by (simp add: at_rest_def)
  then have "displacement home T s z = 0"
    using rh_inv_shift(3) [OF inv s z] by (simp add: displacement_def)
  then have "home z = s" using ring_dist_eq_0 [OF hz s(1)] by (simp add: displacement_def)
  then show ?thesis using True s(1) by (simp add: at_rest_def)
next
  case False
  then show ?thesis using a by (simp add: at_rest_def)
qed

text \<open>Emptying a slot that is followed by an empty slot or an item at home.\<close>

lemma rh_inv_clear:
  assumes inv: "rh_inv home T" and s: "s < length T"
    and z: "\<And>z. T ! succ_slot (length T) s = Some z \<Longrightarrow> home z = succ_slot (length T) s"
  shows "rh_inv home (T[s := None])"
proof -
  let ?n = "length T"
  have "follows home (T[s := None]) i (displacement home T (succ_slot ?n i) w)"
    if i: "i < ?n" and w: "T[s := None] ! succ_slot ?n i = Some w" for i w
  proof -
    have T: "T ! succ_slot ?n i = Some w" using w s by (cases "succ_slot ?n i = s") auto
    show ?thesis
    proof (cases "i = s")
      case True
      then show ?thesis using z T by (simp add: follows_def displacement_def)
    next
      case False
      then show ?thesis using rh_inv_follows [OF inv i T] by (simp add: follows_def)
    qed
  qed
  moreover have "home w < ?n" if "Some w \<in> set (T[s := None])" for w
    using that inv set_update_subset_insert [of T s None] by (auto simp: rh_inv_def)
  ultimately show ?thesis using inv by (simp add: rh_inv_def)
qed

section \<open>Replacing\<close>

text \<open>An item may be exchanged for another with the same home.\<close>

lemma rh_replace:
  assumes inv: "rh_inv home T" and s: "s < length T" "T ! s = Some y" "home x = home y"
  shows "rh_inv home (T[s := Some x])" "at_rest home T a \<Longrightarrow> at_rest home (T[s := Some x]) a"
proof -
  let ?n = "length T"
  have hy: "home y < ?n" by (rule rh_inv_home [OF inv s(1,2)])
  have same: "displacement home T i x = displacement home T i y" for i by (simp add: displacement_def s(3))
  have fol: "follows home (T[s := Some x]) i d" if "follows home T i d" for i d
    using that s same by (cases "i = s") (auto simp: follows_def)
  have "follows home (T[s := Some x]) i (displacement home T (succ_slot ?n i) z)"
    if i: "i < ?n" and z: "T[s := Some x] ! succ_slot ?n i = Some z" for i z
  proof (cases "succ_slot ?n i = s")
    case True
    then have "z = x" "T ! succ_slot ?n i = Some y" using z s by simp_all
    then show ?thesis using fol [OF rh_inv_follows [OF inv i]] same by simp
  next
    case False
    then show ?thesis using z by (intro fol rh_inv_follows [OF inv i]) simp
  qed
  moreover have "home z < ?n" if "Some z \<in> set (T[s := Some x])" for z
    using that hy s(3) inv set_update_subset_insert [of T s "Some x"] by (auto simp: rh_inv_def)
  ultimately show "rh_inv home (T[s := Some x])" using inv by (simp add: rh_inv_def)
  show "at_rest home (T[s := Some x]) a" if "at_rest home T a"
    using that s by (cases "a = s") (auto simp: at_rest_def)
qed

lemma empty_slot_exists:
  assumes "size (items T) < length T"
  shows "\<exists>e < length T. T ! e = None"
proof (rule ccontr)
  assume none: "\<not> ?thesis"
  have "size (items T) = length T"
    using none
  proof (induction T)
    case (Cons s T)
    have "s \<noteq> None" using Cons.prems by (metis length_Cons nth_Cons_0 zero_less_Suc)
    moreover have "\<not> (\<exists>e < length T. T ! e = None)" using Cons.prems by (metis Suc_less_eq length_Cons nth_Cons_Suc)
    ultimately show ?case using Cons.IH by (cases s) auto
  qed simp
  then show False using assms by simp
qed

lemma items_replicate_None [simp]: "items (replicate n None) = {#}"
  by (induction n) simp_all

lemma rh_inv_replicate_None: "0 < n \<Longrightarrow> rh_inv home (replicate n None)" "0 < n \<Longrightarrow> at_rest home (replicate n None) 0"
  by (auto simp: rh_inv_def at_rest_def)

section \<open>Counting\<close>

lemma size_items: "size (items T) = card {i. i < length T \<and> T ! i \<noteq> None}"
proof (induction T rule: rev_induct)
  case (snoc s T)
  let ?F = "\<lambda>U. {i. i < length U \<and> U ! i \<noteq> None}"
  have "?F (T @ [s]) = (if s = None then ?F T else insert (length T) (?F T))"
    by (auto simp: nth_append less_Suc_eq)
  then show ?case using snoc by (cases s) (simp_all add: items_append)
qed simp

text \<open>All slots from its home to an item are full, so it is not further from home than there are items.\<close>

lemma displacement_less_items:
  assumes inv: "rh_inv home T" and i: "i < length T" "T ! i = Some x"
  shows "displacement home T i x < size (items T)"
proof -
  let ?n = "length T" let ?d = "displacement home T i x"
  have h: "home x < ?n" by (rule rh_inv_home [OF inv i])
  have dn: "?d < ?n" using h i(1) by (simp add: displacement_def ring_dist_less)
  define f where "f m = (home x + m) mod ?n" for m
  have f: "f m < ?n" "ring_dist ?n (home x) (f m) = m" if "m \<le> ?d" for m
  proof -
    have m: "m < ?n" using that dn by simp
    show "f m < ?n" unfolding f_def using h by (intro mod_less_divisor) linarith
    show "ring_dist ?n (home x) (f m) = m"
    proof (cases "home x + m < ?n")
      case True
      then show ?thesis by (simp add: f_def ring_dist_def)
    next
      case False
      then have "f m = home x + m - ?n" using h m unfolding f_def by (simp add: mod_if)
      then show ?thesis using False h m by (auto simp: ring_dist_def)
    qed
  qed
  have "inj_on f {..?d}" using f(2) by (metis atMost_iff inj_on_def)
  moreover have "f ` {..?d} \<subseteq> {j. j < ?n \<and> T ! j \<noteq> None}"
    using f rh_path [OF inv i] by fastforce
  ultimately have "card {..?d} \<le> card {j. j < ?n \<and> T ! j \<noteq> None}"
    by (intro card_inj_on_le) auto
  then show ?thesis by (simp add: size_items)
qed

end
