(* ===== verification/HashTable.thy ===== *)
theory HashTable
  imports HashWriter RobinHood
begin

text \<open>
  The bytes of a hash table as a list of slots: reading and writing a slot at its byte offset is reading
  and updating one element of the list.
\<close>

section \<open>Headers with a valid geometry\<close>

text \<open>The sizes of the fields of a slot, and a table that fits the address space.\<close>

definition index_shape :: "sparkey_hashheader \<Rightarrow> bool" where
  "index_shape h \<longleftrightarrow>
     (hh_hash_size h = 4 \<or> hh_hash_size h = 8) \<and> (hh_address_size h = 4 \<or> hh_address_size h = 8)
     \<and> hh_hash_algorithm h = sparkey_get_hash_algorithm (hh_hash_size h)
     \<and> 0 < hh_hash_capacity h \<and> 16 * unat (hh_hash_capacity h) < 2 ^ 63"

abbreviation capacity :: "sparkey_hashheader \<Rightarrow> nat" where
  "capacity h \<equiv> unat (hh_hash_capacity h)"

lemma capacity_pos: "index_shape h \<Longrightarrow> 0 < capacity h"
  by (simp add: index_shape_def word_less_nat_alt)

text \<open>The sum that is a C \<open>int\<close> here is unsigned in \<open>sparkey_hash_open\<close>; for the sizes of an index they agree.\<close>

lemma slot_size_unsigned: "index_shape h \<Longrightarrow> slot_size h = ucast (hh_hash_size h + hh_address_size h)"
  by (auto simp: index_shape_def slot_size_def)

lemma slot_size_unat:
  assumes "index_shape h"
  shows "unat (slot_size h) = unat (hh_hash_size h) + unat (hh_address_size h)"
    "unat (slot_size h) \<le> 16" "0 < unat (slot_size h)"
  using assms by (auto simp: index_shape_def slot_size_def)

lemma slot_number:
  assumes "index_shape h" "i \<le> capacity h"
  shows "unat (of_nat i :: u64) = i"
  using assms by (intro unat_of_nat_u64) (simp add: index_shape_def)

definition table_ok :: "sparkey_hashheader \<Rightarrow> bytes \<Rightarrow> bool" where
  "table_ok h t \<longleftrightarrow> index_shape h \<and> length t = unat (slot_size h) * capacity h"

lemma slot_offset:
  assumes "index_shape h" "i < capacity h"
  shows "unat (of_nat i * slot_size h) = i * unat (slot_size h)"
    "i * unat (slot_size h) + unat (slot_size h) \<le> unat (slot_size h) * capacity h"
    "i * unat (slot_size h) + unat (slot_size h) < 2 ^ 63"
proof -
  note s = slot_size_unat [OF assms(1)]
  have c: "16 * capacity h < 2 ^ 63" using assms(1) by (simp add: index_shape_def)
  have "Suc i * unat (slot_size h) \<le> capacity h * unat (slot_size h)" using assms(2) by (intro mult_le_mono1) simp
  then show le: "i * unat (slot_size h) + unat (slot_size h) \<le> unat (slot_size h) * capacity h"
    by (simp add: mult.commute)
  have "unat (slot_size h) * capacity h \<le> 16 * capacity h" using s(2) by (intro mult_le_mono1)
  then show b: "i * unat (slot_size h) + unat (slot_size h) < 2 ^ 63" using le c by linarith
  have "unat (of_nat i :: u64) = i" using assms by (intro slot_number [OF assms(1)]) simp
  then show "unat (of_nat i * slot_size h) = i * unat (slot_size h)" using b by (simp add: unat_mult_u64)
qed

section \<open>Slots\<close>

text \<open>The bytes of a slot, and what they are read as.\<close>

definition slot_bytes :: "sparkey_hashheader \<Rightarrow> u64 \<Rightarrow> u64 \<Rightarrow> bytes" where
  "slot_bytes h hash position =
     (if hh_hash_size h = 4 then write_little_endian32 (ucast hash) else write_little_endian64 hash) @
     (if hh_address_size h = 4 then write_little_endian32 (ucast position) else write_little_endian64 position)"

definition slot_value :: "sparkey_hashheader \<Rightarrow> bytes \<Rightarrow> u64 \<times> u64" where
  "slot_value h bs =
     (if hh_hash_size h = 4 then ucast (le_value (take 4 bs) :: u32) else le_value (take 8 bs),
      if hh_address_size h = 4 then ucast (le_value (take 4 (drop (unat (hh_hash_size h)) bs)) :: u32)
      else le_value (take 8 (drop (unat (hh_hash_size h)) bs)))"

definition item_fits :: "sparkey_hashheader \<Rightarrow> u64 \<times> u64 \<Rightarrow> bool" where
  "item_fits h x \<longleftrightarrow>
     (hh_hash_size h = 4 \<longrightarrow> unat (fst x) < 2 ^ 32) \<and> (hh_address_size h = 4 \<longrightarrow> unat (snd x) < 2 ^ 32)"

lemma length_slot_bytes: "index_shape h \<Longrightarrow> length (slot_bytes h a p) = unat (slot_size h)"
  using slot_size_unat(1) [of h] by (auto simp: slot_bytes_def index_shape_def)

lemma ucast_ucast_fits: "unat (x :: u64) < 2 ^ 32 \<Longrightarrow> ucast (ucast x :: u32) = x"
  by (simp add: word_unat_eq_iff unsigned_ucast_eq unsigned_take_bit_eq take_bit_nat_eq_self)

lemma slot_value_bytes:
  assumes "index_shape h" "item_fits h (a, p)"
  shows "slot_value h (slot_bytes h a p) = (a, p)"
  using assms by (auto simp: slot_value_def slot_bytes_def index_shape_def item_fits_def ucast_ucast_fits)

lemma read_slot_value:
  assumes shape: "index_shape h" and pos: "unat pos + unat (slot_size h) \<le> length t" "unat pos + unat (slot_size h) < 2 ^ 63"
  shows "read_slot h t pos = Some (slot_value h (take (unat (slot_size h)) (drop (unat pos) t)))"
proof -
  note s = slot_size_unat [OF shape]
  have p: "unat (pos + ucast (hh_hash_size h)) = unat pos + unat (hh_hash_size h)"
    using s pos(2) by (simp add: unat_add_u64)
  have 1: "read_hash (hh_hash_algorithm h) t (unat pos)
      = Some (fst (slot_value h (take (unat (slot_size h)) (drop (unat pos) t))))"
    using shape pos(1) unfolding s(1)
    by (auto simp: index_shape_def sparkey_get_hash_algorithm_def read_little_endian32_def
        read_little_endian64_def slot_value_def)
  have 2: "read_addr t (unat pos + unat (hh_hash_size h)) (hh_address_size h)
      = Some (snd (slot_value h (take (unat (slot_size h)) (drop (unat pos) t))))"
  proof -
    let ?hs = "unat (hh_hash_size h)" let ?as = "unat (hh_address_size h)"
    have tk: "drop ?hs (take (unat (slot_size h)) (drop (unat pos) t)) = take ?as (drop (unat pos + ?hs) t)"
      by (simp add: s(1) drop_take add.commute)
    have len: "unat pos + ?hs + ?as \<le> length t" using pos(1) s(1) by simp
    consider "hh_address_size h = 4" "?as = 4" | "hh_address_size h = 8" "?as = 8"
      using shape by (auto simp: index_shape_def)
    then show ?thesis
      unfolding slot_value_def tk using len
      by cases (simp_all add: read_addr_def read_little_endian32_def read_little_endian64_def)
  qed
  show ?thesis unfolding read_slot_def p using 1 2 by simp
qed

lemma write_slot_splice:
  assumes shape: "index_shape h" and pos: "unat pos + unat (slot_size h) \<le> length t" "unat pos + unat (slot_size h) < 2 ^ 63"
  shows "write_slot h t pos a p = Some (splice_at t (unat pos) (slot_bytes h a p))"
proof -
  note s = slot_size_unat [OF shape]
  have p: "unat (pos + ucast (hh_hash_size h)) = unat pos + unat (hh_hash_size h)"
    using s pos(2) by (simp add: unat_add_u64)
  let ?a = "if hh_hash_size h = 4 then write_little_endian32 (ucast a) else write_little_endian64 a"
  let ?p = "if hh_address_size h = 4 then write_little_endian32 (ucast p) else write_little_endian64 p"
  have la: "length ?a = unat (hh_hash_size h)" and lp: "length ?p = unat (hh_address_size h)"
    using shape by (auto simp: index_shape_def)
  have 1: "write_hash (hh_hash_algorithm h) t (unat pos) a = Some (splice_at t (unat pos) ?a)"
    using shape pos(1) s(1) la by (auto simp: index_shape_def sparkey_get_hash_algorithm_def store_bytes_def)
  have len: "length (splice_at t (unat pos) ?a) = length t"
    by (rule length_splice_at) (use la s(1) pos(1) in linarith)
  have 2: "write_addr (splice_at t (unat pos) ?a) (unat pos + unat (hh_hash_size h)) p (hh_address_size h)
      = Some (splice_at (splice_at t (unat pos) ?a) (unat pos + length ?a) ?p)"
    using shape pos(1) s(1) lp la len unfolding la by (auto simp: index_shape_def write_addr_def store_bytes_def)
  show ?thesis
    using 1 2 pos(1) s splice_at_append [of "unat pos" t ?a ?p] unfolding write_slot_def p slot_bytes_def by simp
qed

section \<open>The list of slots\<close>

definition slot_at :: "sparkey_hashheader \<Rightarrow> bytes \<Rightarrow> nat \<Rightarrow> (u64 \<times> u64) option" where
  "slot_at h t i =
     (case slot_value h (take (unat (slot_size h)) (drop (i * unat (slot_size h)) t)) of
        (hash, position) \<Rightarrow> if position = 0 then None else Some (hash, position))"

definition slots :: "sparkey_hashheader \<Rightarrow> bytes \<Rightarrow> (u64 \<times> u64) option list" where
  "slots h t = map (slot_at h t) [0..<capacity h]"

text \<open>The slot an item wants.\<close>

definition wanted :: "sparkey_hashheader \<Rightarrow> u64 \<times> u64 \<Rightarrow> nat" where
  "wanted h x = unat (fst x mod hh_hash_capacity h)"

lemma length_slots [simp]: "length (slots h t) = capacity h"
  by (simp add: slots_def)

lemma wanted_less: "index_shape h \<Longrightarrow> wanted h x < capacity h"
  using capacity_pos [of h] by (simp add: wanted_def unat_mod)

lemma read_slot_slots:
  assumes t: "table_ok h t" and i: "i < capacity h"
  obtains a p where "read_slot h t (of_nat i * slot_size h) = Some (a, p)"
    "slots h t ! i = (if p = 0 then None else Some (a, p))"
proof -
  have shape: "index_shape h" and len: "length t = unat (slot_size h) * capacity h" using t by (simp_all add: table_ok_def)
  note o = slot_offset [OF shape i]
  let ?bs = "take (unat (slot_size h)) (drop (i * unat (slot_size h)) t)"
  have "read_slot h t (of_nat i * slot_size h) = Some (slot_value h ?bs)"
    using read_slot_value [OF shape, of "of_nat i * slot_size h" t] o len by simp
  then show thesis
    using that [of "fst (slot_value h ?bs)" "snd (slot_value h ?bs)"] i
    by (simp add: slots_def slot_at_def case_prod_beta)
qed

lemma slot_regions_disjoint:
  fixes i j s :: nat
  assumes "i \<noteq> j"
  shows "j * s + s \<le> i * s \<or> i * s + s \<le> j * s"
proof (cases "i < j")
  case True
  then have "Suc i * s \<le> j * s" by (intro mult_le_mono1) simp
  then show ?thesis by simp
next
  case False
  then have "Suc j * s \<le> i * s" using assms by (intro mult_le_mono1) simp
  then show ?thesis by simp
qed

lemma write_slot_slots:
  assumes t: "table_ok h t" and i: "i < capacity h" and fits: "item_fits h (a, p)"
  obtains t' where "write_slot h t (of_nat i * slot_size h) a p = Some t'" "table_ok h t'"
    "slots h t' = (slots h t)[i := (if p = 0 then None else Some (a, p))]"
proof -
  have shape: "index_shape h" and len: "length t = unat (slot_size h) * capacity h" using t by (simp_all add: table_ok_def)
  note o = slot_offset [OF shape i]
  let ?s = "unat (slot_size h)" let ?b = "slot_bytes h a p" let ?t = "splice_at t (i * ?s) ?b"
  have lb: "length ?b = ?s" by (rule length_slot_bytes [OF shape])
  have run: "write_slot h t (of_nat i * slot_size h) a p = Some ?t"
    using write_slot_splice [OF shape, of "of_nat i * slot_size h" t] o len by simp
  have in_range: "i * ?s + length ?b \<le> length t" using o(2) len lb by simp
  have ok: "table_ok h ?t" using t length_splice_at [OF in_range] by (simp add: table_ok_def)
  have "slots h ?t ! j = (slots h t)[i := (if p = 0 then None else Some (a, p))] ! j" if j: "j < capacity h" for j
  proof (cases "j = i")
    case True
    have "take ?s (drop (i * ?s) ?t) = ?b" using take_drop_splice_at_same [OF in_range] lb by simp
    then show ?thesis using True i slot_value_bytes [OF shape fits] by (simp add: slots_def slot_at_def)
  next
    case False
    have "j * ?s + ?s \<le> length t" using slot_offset(2) [OF shape j] len by simp
    then have "take ?s (drop (j * ?s) ?t) = take ?s (drop (j * ?s) t)"
      using take_drop_splice_at_other [OF in_range, of "j * ?s" ?s] slot_regions_disjoint [OF False, of ?s] lb by auto
    then show ?thesis using False j by (simp add: slots_def slot_at_def)
  qed
  then have "slots h ?t = (slots h t)[i := (if p = 0 then None else Some (a, p))]"
    by (intro nth_equalityI) simp_all
  then show thesis using that run ok by blast
qed

text \<open>A new table has only empty slots.\<close>

lemma le_value_zeros: "le_value (replicate n 0) = 0"
  by (induction n) simp_all

lemma table_ok_new:
  assumes "index_shape h"
  shows "table_ok h (replicate (unat (slot_size h * hh_hash_capacity h)) 0)"
    "slots h (replicate (unat (slot_size h * hh_hash_capacity h)) 0) = replicate (capacity h) None"
proof -
  note s = slot_size_unat [OF assms]
  have c: "16 * capacity h < 2 ^ 63" using assms by (simp add: index_shape_def)
  have "unat (slot_size h) * capacity h \<le> 16 * capacity h" using s(2) by (intro mult_le_mono1)
  then have "unat (slot_size h) * capacity h < 2 ^ 63" using c by (rule order_le_less_trans)
  then have "unat (slot_size h) * capacity h < 2 ^ 64" by (rule less_trans) simp
  then have u: "unat (slot_size h * hh_hash_capacity h) = unat (slot_size h) * capacity h"
    by (rule unat_mult_u64)
  show "table_ok h (replicate (unat (slot_size h * hh_hash_capacity h)) 0)"
    using assms by (simp add: table_ok_def u)
  have z: "slot_value h (replicate (unat (slot_size h)) 0) = (0, 0)"
    by (simp add: slot_value_def le_value_zeros)
  have "slot_at h (replicate (unat (slot_size h * hh_hash_capacity h)) 0) i = None" if i: "i < capacity h" for i
  proof -
    have "unat (slot_size h) \<le> unat (slot_size h) * capacity h - i * unat (slot_size h)"
      using slot_offset(2) [OF assms i] by linarith
    then show ?thesis using z by (simp add: slot_at_def u)
  qed
  then show "slots h (replicate (unat (slot_size h * hh_hash_capacity h)) 0) = replicate (capacity h) None"
    by (intro nth_equalityI) (simp_all add: slots_def)
qed

section \<open>The arithmetic of the loops\<close>

lemma get_displacement_slots:
  assumes "index_shape h" "i < capacity h"
  shows "unat (get_displacement (hh_hash_capacity h) (of_nat i) (fst x)) = ring_dist (capacity h) (wanted h x) i"
proof -
  let ?c = "hh_hash_capacity h" let ?n = "capacity h" let ?w = "fst x mod ?c"
  have c: "16 * ?n < 2 ^ 63" using assms(1) by (simp add: index_shape_def)
  have w: "unat ?w < ?n" using wanted_less [OF assms(1), of x] by (simp add: wanted_def)
  have i: "unat (of_nat i :: u64) = i" using assms(2) by (intro slot_number [OF assms(1)]) simp
  have eq: "?c + (of_nat i - ?w) = (?c + of_nat i) - ?w" by simp
  have s: "unat (?c + of_nat i) = ?n + i" using i assms(2) c by (intro trans [OF unat_add_u64]) simp_all
  have "unat (?c + (of_nat i - ?w)) = ?n + i - unat ?w"
    unfolding eq using s w by (intro trans [OF unat_sub_u64]) simp_all
  then have "unat (get_displacement ?c (of_nat i) (fst x)) = (?n + i - unat ?w) mod ?n"
    by (simp add: get_displacement_def Let_def unat_mod)
  also have "\<dots> = ring_dist ?n (unat ?w) i"
  proof (cases "unat ?w \<le> i")
    case True
    then have eq: "?n + i - unat ?w = ?n + (i - unat ?w)" by simp
    have "(?n + (i - unat ?w)) mod ?n = (i - unat ?w) mod ?n" by (rule mod_add_self1)
    also have "\<dots> = i - unat ?w" using assms(2) by (intro mod_less) linarith
    finally show ?thesis unfolding eq using True by (simp only: ring_dist_def if_True)
  next
    case False
    then show ?thesis using assms(2) w by (simp add: ring_dist_def add.commute)
  qed
  finally show ?thesis by (simp add: wanted_def)
qed

text \<open>The next slot, as the loops of the code compute it from a slot and its offset.\<close>

lemma next_slot_loop:
  assumes "index_shape h" "i < capacity h"
  shows "(if of_nat i + 1 \<ge> hh_hash_capacity h then 0 else of_nat i + 1) = (of_nat (succ_slot (capacity h) i) :: u64)"
    "(if of_nat i + 1 \<ge> hh_hash_capacity h then 0 else of_nat i * slot_size h + slot_size h)
       = of_nat (succ_slot (capacity h) i) * slot_size h"
proof -
  have c: "16 * capacity h < 2 ^ 63" using assms(1) by (simp add: index_shape_def)
  have "unat (of_nat (Suc i) :: u64) = Suc i" using assms(2) by (intro slot_number [OF assms(1)]) simp
  then have "of_nat i + 1 \<ge> hh_hash_capacity h \<longleftrightarrow> Suc i \<ge> capacity h"
    by (simp add: word_le_nat_alt add.commute)
  then show "(if of_nat i + 1 \<ge> hh_hash_capacity h then 0 else of_nat i + 1) = (of_nat (succ_slot (capacity h) i) :: u64)"
    "(if of_nat i + 1 \<ge> hh_hash_capacity h then 0 else of_nat i * slot_size h + slot_size h)
       = of_nat (succ_slot (capacity h) i) * slot_size h"
    by (auto simp: succ_slot_def add.commute distrib_right)
qed

lemma next_slot_mod:
  assumes "index_shape h" "i < capacity h"
  shows "(of_nat i + 1) mod hh_hash_capacity h = (of_nat (succ_slot (capacity h) i) :: u64)"
proof -
  have c: "16 * capacity h < 2 ^ 63" using assms(1) by (simp add: index_shape_def)
  have "unat (of_nat (Suc i) :: u64) = Suc i" using assms(2) by (intro slot_number [OF assms(1)]) simp
  then have u: "unat ((of_nat i + 1 :: u64) mod hh_hash_capacity h) = Suc i mod capacity h"
    by (simp add: unat_mod add.commute)
  have "Suc i mod capacity h = succ_slot (capacity h) i"
    using assms(2) by (auto simp: succ_slot_def dest: le_antisym)
  moreover have "unat (of_nat (succ_slot (capacity h) i) :: u64) = succ_slot (capacity h) i"
    using succ_slot_less [OF assms(2)] by (intro slot_number [OF assms(1)]) simp
  ultimately show ?thesis using u by (simp add: u64_eq_iff_unat)
qed

end
