(* ===== verification/HashReader.thy ===== *)
theory HashReader
  imports HashWriter
begin

text \<open>
  \<open>src/src/hashreader.c\<close>: opening an index with its log, looking up a key, and iterating over the entries of
  the log that the index refers to.
\<close>

section \<open>Readers\<close>

definition MAGIC_VALUE_HASHREADER :: u32 where
  "MAGIC_VALUE_HASHREADER = 0x75103df9"

record sparkey_hashreader =
  hr_open_status :: u32
  hr_header :: sparkey_hashheader
  hr_log :: sparkey_logreader
  hr_fd :: fd
  hr_data_len :: u64
  hr_data :: bytes

text \<open>\<open>junk\<close> is the memory \<open>malloc\<close> returns. On an error the reader is released.\<close>

definition sparkey_hash_open ::
  "sparkey_hashreader \<Rightarrow> os \<Rightarrow> string \<Rightarrow> string \<Rightarrow> (sparkey_returncode + sparkey_hashreader) \<times> os" where
  "sparkey_hash_open junk os hash_filename log_filename =
     (if correct_endian_platform \<noteq> SPARKEY_SUCCESS then (Inl correct_endian_platform, os)
      else
        try_os (malloc_or_fail os) (\<lambda>_ os.
        (rethrow_sum (sparkey_load_hashheader os hash_filename) (\<lambda>header.
         rethrow_sum (sparkey_logreader_open_noalloc os (hr_log junk) log_filename) (\<lambda>log.
         if hh_file_identifier header \<noteq> lh_file_identifier (lr_header log) then Inl SPARKEY_FILE_IDENTIFIER_MISMATCH
         else if hh_data_end header > lh_data_end (lr_header log) then Inl SPARKEY_HASH_HEADER_CORRUPT
         else if hh_max_key_len header > lh_max_key_len (lr_header log) then Inl SPARKEY_HASH_HEADER_CORRUPT
         else if hh_max_value_len header > lh_max_value_len (lr_header log) then Inl SPARKEY_HASH_HEADER_CORRUPT
         else
           (case os_open_read os hash_filename of
              Inl e \<Rightarrow> Inl (sparkey_open_returncode e)
            | Inr c \<Rightarrow>
                let data_len = ucast (hh_header_size header)
                      + hh_hash_capacity header * ucast (hh_hash_size header + hh_address_size header)
                in
                if data_len > of_nat (length (the (os_content os hash_filename))) then Inl SPARKEY_HASH_TOO_SMALL
                else if \<not> os_mmap_ok os then Inl SPARKEY_MMAP_FAILED
                else
                  Inr (junk\<lparr>hr_header := header, hr_log := log,
                            hr_fd := \<lparr>fd_ino = os_names os hash_filename, fd_off = 0\<rparr>,
                            hr_data_len := data_len,
                            hr_data := take (unat data_len) c,
                            hr_open_status := MAGIC_VALUE_HASHREADER\<rparr>)))), os)))"

text \<open>The argument is \<open>reader_ref\<close> itself; the memory it points to is released and the target becomes \<open>NULL\<close>.\<close>

definition sparkey_hash_close :: "sparkey_hashreader option option \<Rightarrow> sparkey_hashreader option option" where
  "sparkey_hash_close reader_ref = (case reader_ref of None \<Rightarrow> None | Some _ \<Rightarrow> Some None)"

definition assert_reader_open :: "sparkey_hashreader \<Rightarrow> sparkey_returncode" where
  "assert_reader_open reader =
     (if hr_open_status reader \<noteq> MAGIC_VALUE_HASHREADER then SPARKEY_HASH_CLOSED else SPARKEY_SUCCESS)"

text \<open>The table behind the header of the mapped file.\<close>

definition reader_table :: "sparkey_hashreader \<Rightarrow> bytes" where
  "reader_table reader = drop (unat (hh_header_size (hr_header reader))) (hr_data reader)"

section \<open>Looking up a key\<close>

text \<open>The comparison of the key with the key of the entry, chunk by chunk from \<open>pos2\<close> on.\<close>

partial_function (option) get_compare ::
  "codec_lib \<Rightarrow> sparkey_logreader \<Rightarrow> bytes \<Rightarrow> u64 \<Rightarrow> sparkey_logiter \<Rightarrow> (bool \<times> sparkey_logiter) result" where
  "get_compare lib log key pos2 iter =
     (if pos2 < of_nat (length key) then
        rethrow (sparkey_logiter_keychunk lib iter log (of_nat (length key))) (\<lambda>(len2, buf2, iter). (False, iter))
          (\<lambda>(len2, buf2, iter).
        if length (drop (unat pos2) key) < unat len2 \<or> length buf2 < unat len2 then None
        else if memcmp (take (unat len2) (drop (unat pos2) key)) (take (unat len2) buf2) \<noteq> 0
        then Some (SPARKEY_SUCCESS, False, iter)
        else get_compare lib log key (pos2 + len2) iter)
      else Some (SPARKEY_SUCCESS, True, iter))"

text \<open>
  What happens when the hash of a slot is the one searched for; the first component says whether the key
  is found.
\<close>

definition get_match ::
  "codec_lib \<Rightarrow> sparkey_logreader \<Rightarrow> bytes \<Rightarrow> u64 \<Rightarrow> int \<Rightarrow> sparkey_logiter \<Rightarrow> (bool \<times> sparkey_logiter) result" where
  "get_match lib log key position index iter =
     rethrow (sparkey_logiter_seek lib iter log position) (Pair False) (\<lambda>iter.
     rethrow (sparkey_logiter_skip lib iter log index) (Pair False) (\<lambda>iter.
     rethrow (sparkey_logiter_next lib iter log) (Pair False) (\<lambda>iter.
     let keylen2 = it_keylen iter in
     if it_type iter \<noteq> SPARKEY_ENTRY_PUT
     then Some (SPARKEY_INTERNAL_ERROR, False, iter\<lparr>it_state := SPARKEY_ITER_INVALID\<rparr>)
     else if of_nat (length key) = keylen2 then get_compare lib log key 0 iter
     else Some (SPARKEY_SUCCESS, False, iter))))"

partial_function (option) hash_get_loop ::
  "codec_lib \<Rightarrow> sparkey_hashreader \<Rightarrow> bytes \<Rightarrow> u64 \<Rightarrow> u64 \<Rightarrow> u64 \<Rightarrow> u64 \<Rightarrow> sparkey_logiter \<Rightarrow> sparkey_logiter result" where
  "hash_get_loop lib reader key hash slot pos displacement iter =
     Option.bind (read_slot (hr_header reader) (reader_table reader) pos) (\<lambda>(hash2, position2).
     if position2 = 0 then Some (SPARKEY_SUCCESS, iter\<lparr>it_state := SPARKEY_ITER_INVALID\<rparr>)
     else
       let entry_index2 = entry_index (hr_header reader) position2;
           position2 = drop_bit (unat (hh_entry_block_bits (hr_header reader))) position2
       in
       rethrow
         (if hash = hash2 then get_match lib (hr_log reader) key position2 entry_index2 iter
          else Some (SPARKEY_SUCCESS, False, iter))
         snd (\<lambda>(equals, iter).
       if equals then Some (SPARKEY_SUCCESS, iter)
       else if displacement > get_displacement (hh_hash_capacity (hr_header reader)) slot hash2
       then Some (SPARKEY_SUCCESS, iter\<lparr>it_state := SPARKEY_ITER_INVALID\<rparr>)
       else if slot + 1 \<ge> hh_hash_capacity (hr_header reader)
       then hash_get_loop lib reader key hash 0 0 (displacement + 1) iter
       else hash_get_loop lib reader key hash (slot + 1) (pos + slot_size (hr_header reader)) (displacement + 1) iter))"

text \<open>A capacity of 0, which the loader does not exclude, is a division by zero.\<close>

definition sparkey_hash_get ::
  "codec_lib \<Rightarrow> sparkey_hashreader \<Rightarrow> bytes \<Rightarrow> sparkey_logiter \<Rightarrow> sparkey_logiter result" where
  "sparkey_hash_get lib reader key iter =
     (if assert_reader_open reader \<noteq> SPARKEY_SUCCESS then Some (assert_reader_open reader, iter)
      else
        Option.bind (alg_hash (hh_hash_algorithm (hr_header reader)) key (hh_hash_seed (hr_header reader))) (\<lambda>hash.
        if hh_hash_capacity (hr_header reader) = 0 then None
        else
          let wanted_slot = hash mod hh_hash_capacity (hr_header reader) in
          hash_get_loop lib reader key hash wanted_slot (wanted_slot * slot_size (hr_header reader)) 0 iter))"

section \<open>Iterating over the live entries\<close>

text \<open>The search for the address of the current entry; the result says whether it is in the table.\<close>

partial_function (option) hashnext_probe ::
  "sparkey_hashheader \<Rightarrow> bytes \<Rightarrow> u64 \<Rightarrow> u64 \<Rightarrow> u64 \<Rightarrow> u64 \<Rightarrow> bool option" where
  "hashnext_probe hash_header hashtable position slot pos displacement =
     Option.bind (read_slot hash_header hashtable pos) (\<lambda>(hash2, position2).
     if position2 = 0 then Some False
     else if position = position2 then Some True
     else if displacement > get_displacement (hh_hash_capacity hash_header) slot hash2 then Some False
     else if slot + 1 \<ge> hh_hash_capacity hash_header
     then hashnext_probe hash_header hashtable position 0 0 (displacement + 1)
     else hashnext_probe hash_header hashtable position (slot + 1) (pos + slot_size hash_header) (displacement + 1))"

partial_function (option) hashnext_loop ::
  "codec_lib \<Rightarrow> sparkey_hashreader \<Rightarrow> os \<Rightarrow> sparkey_logiter \<Rightarrow> (os \<times> sparkey_logiter) result" where
  "hashnext_loop lib reader os iter =
     rethrow (sparkey_logiter_next lib iter (hr_log reader)) (Pair os) (\<lambda>iter.
     if it_state iter \<noteq> SPARKEY_ITER_ACTIVE then Some (SPARKEY_SUCCESS, os, iter)
     else if it_type iter \<noteq> SPARKEY_ENTRY_PUT then hashnext_loop lib reader os iter
     else
       let position = push_bit (unat (hh_entry_block_bits (hr_header reader))) (it_entry_block_position iter)
             OR scast (it_entry_count iter)
       in
       Option.bind (sparkey_iter_hash lib (hr_header reader) os iter (hr_log reader)) (\<lambda>(key_hash, os, iter).
       if hh_hash_capacity (hr_header reader) = 0 then None
       else
         let wanted_slot = key_hash mod hh_hash_capacity (hr_header reader) in
         Option.bind
           (hashnext_probe (hr_header reader) (reader_table reader) position wanted_slot
              (wanted_slot * slot_size (hr_header reader)) 0) (\<lambda>live.
         if live then map_option (\<lambda>(rc, iter). (rc, os, iter)) (sparkey_logiter_reset lib iter (hr_log reader))
         else hashnext_loop lib reader os iter)))"

definition sparkey_logiter_hashnext ::
  "codec_lib \<Rightarrow> os \<Rightarrow> sparkey_logiter \<Rightarrow> sparkey_hashreader \<Rightarrow> (os \<times> sparkey_logiter) result" where
  "sparkey_logiter_hashnext lib os iter reader =
     (if assert_reader_open reader \<noteq> SPARKEY_SUCCESS then Some (assert_reader_open reader, os, iter)
      else hashnext_loop lib reader os iter)"

definition sparkey_hash_getreader :: "sparkey_hashreader \<Rightarrow> sparkey_logreader" where
  "sparkey_hash_getreader reader = hr_log reader"

definition sparkey_hash_numentries :: "sparkey_hashreader \<Rightarrow> u64" where
  "sparkey_hash_numentries reader = hh_num_entries (hr_header reader)"

definition sparkey_hash_numcollisions :: "sparkey_hashreader \<Rightarrow> u64" where
  "sparkey_hash_numcollisions reader = hh_hash_collisions (hr_header reader)"

end
