(* ===== verification/HashSlots.thy ===== *)
theory HashSlots
  imports HashTable HashReader
begin

text \<open>
  Robin Hood steps on a table in memory. The locale states what a store of slots must offer (reading
  and writing single slots, as an update of a list); inside it, placing, shifting and clearing an item is
  shown to keep the invariant and to change the items as it should. The byte table of the index is such a
  store.
\<close>

section \<open>Stores of slots\<close>

locale slot_store =
  fixes ok :: "'t \<Rightarrow> bool" and view :: "'t \<Rightarrow> (u64 \<times> u64) option list"
    and peek :: "'t \<Rightarrow> nat \<Rightarrow> (u64 \<times> u64) option" and poke :: "'t \<Rightarrow> nat \<Rightarrow> u64 \<times> u64 \<Rightarrow> 't option"
    and fits :: "u64 \<times> u64 \<Rightarrow> bool" and home :: "u64 \<times> u64 \<Rightarrow> nat"
  assumes peek_view: "ok t \<Longrightarrow> i < length (view t) \<Longrightarrow>
      \<exists>a p. peek t i = Some (a, p) \<and> view t ! i = (if p = 0 then None else Some (a, p))"
    and poke_view: "ok t \<Longrightarrow> i < length (view t) \<Longrightarrow> fits x \<Longrightarrow>
      \<exists>t'. poke t i x = Some t' \<and> ok t' \<and> view t' = (view t)[i := (if snd x = 0 then None else Some x)]"
    and view_fits: "ok t \<Longrightarrow> Some x \<in> set (view t) \<Longrightarrow> fits x \<and> snd x \<noteq> 0"
    and fits_zero: "fits (0, 0)"
    and home_less: "ok t \<Longrightarrow> home x < length (view t)"
begin

lemma peek_empty:
  assumes "ok t" "i < length (view t)" "view t ! i = None"
  shows "\<exists>a. peek t i = Some (a, 0)"
  using peek_view [OF assms(1,2)] assms(3) by (auto split: if_splits)

lemma peek_full:
  assumes "ok t" "i < length (view t)" "view t ! i = Some x"
  shows "peek t i = Some x" "snd x \<noteq> 0" "fits x"
  using peek_view [OF assms(1,2)] assms(3) view_fits [OF assms(1), of x] nth_mem [OF assms(2)]
  by (auto split: if_splits)

text \<open>Writing an item that is on its way.\<close>

lemma poke_place:
  assumes t: "ok t" "rh_inv home (view t)" and c: "carried home (view t) s d x" and x: "fits x" "snd x \<noteq> 0"
    and s: "\<And>y. view t ! s = Some y \<Longrightarrow> displacement home (view t) s y \<le> d"
  obtains t' where "poke t s x = Some t'" "ok t'" "view t' = (view t)[s := Some x]" "rh_inv home (view t')"
    "items (view t') + items [view t ! s] = add_mset x (items (view t))"
proof -
  have sn: "s < length (view t)" using c by (simp add: carried_def)
  obtain t' where t': "poke t s x = Some t'" "ok t'" "view t' = (view t)[s := Some x]"
    using poke_view [OF t(1) sn x(1)] x(2) by auto
  show thesis
    by (rule that [OF t']) (use rh_inv_place [OF t(2) c s] items_update [OF sn, of "Some x"] t'(3) in simp_all)
qed

text \<open>Moving the item of the next slot up.\<close>

lemma poke_shift:
  assumes t: "ok t" "rh_inv home (view t)" and s: "s < length (view t)" "view t ! s = Some y"
    and z: "view t ! succ_slot (length (view t)) s = Some z" "home z \<noteq> succ_slot (length (view t)) s"
  obtains t' where "poke t s z = Some t'" "ok t'" "view t' = (view t)[s := Some z]" "rh_inv home (view t')"
    "add_mset y (items (view t')) = add_mset z (items (view t))"
proof -
  have j: "succ_slot (length (view t)) s < length (view t)" using s(1) by simp
  note zf = peek_full [OF t(1) j z(1)]
  obtain t' where t': "poke t s z = Some t'" "ok t'" "view t' = (view t)[s := Some z]"
    using poke_view [OF t(1) s(1) zf(3)] zf(2) by auto
  show thesis
    by (rule that [OF t']) (use rh_inv_shift(1) [OF t(2) s z] items_update [OF s(1), of "Some z"] s(2) t'(3) in simp_all)
qed

text \<open>Emptying a slot.\<close>

lemma poke_clear:
  assumes t: "ok t" "rh_inv home (view t)" and s: "s < length (view t)" "view t ! s = Some y"
    and z: "\<And>z. view t ! succ_slot (length (view t)) s = Some z \<Longrightarrow> home z = succ_slot (length (view t)) s"
  obtains t' where "poke t s (0, 0) = Some t'" "ok t'" "view t' = (view t)[s := None]" "rh_inv home (view t')"
    "add_mset y (items (view t')) = items (view t)" "at_rest home (view t') s"
proof -
  obtain t' where t': "poke t s (0, 0) = Some t'" "ok t'" "view t' = (view t)[s := None]"
    using poke_view [OF t(1) s(1) fits_zero] by auto
  show thesis
    by (rule that [OF t']) (use rh_inv_clear [OF t(2) s(1) z] items_update [OF s(1), of None] s t'(3) in \<open>simp_all add: at_rest_def\<close>)
qed

end

lemma slot_items_fit:
  assumes "table_ok h t" "Some x \<in> set (slots h t)"
  shows "item_fits h x \<and> snd x \<noteq> 0"
proof -
  obtain i where "slot_at h t i = Some x" using assms(2) by (auto simp: slots_def)
  then show ?thesis
    by (auto simp: slot_at_def slot_value_def item_fits_def split: prod.splits if_splits)
qed

interpretation byte_store: slot_store "table_ok h" "slots h" "\<lambda>t i. read_slot h t (of_nat i * slot_size h)"
  "\<lambda>t i x. write_slot h t (of_nat i * slot_size h) (fst x) (snd x)" "item_fits h" "wanted h" for h
proof unfold_locales
  fix t i
  assume t: "table_ok h t" and i: "i < length (slots h t)"
  obtain a p where "read_slot h t (of_nat i * slot_size h) = Some (a, p)"
    "slots h t ! i = (if p = 0 then None else Some (a, p))"
    by (rule read_slot_slots [OF t i [unfolded length_slots]])
  then show "\<exists>a p. read_slot h t (of_nat i * slot_size h) = Some (a, p)
      \<and> slots h t ! i = (if p = 0 then None else Some (a, p))" by blast
next
  fix t i and x :: "u64 \<times> u64"
  assume t: "table_ok h t" and i: "i < length (slots h t)" and x: "item_fits h x"
  obtain t' where "write_slot h t (of_nat i * slot_size h) (fst x) (snd x) = Some t'" "table_ok h t'"
    "slots h t' = (slots h t)[i := (if snd x = 0 then None else Some (fst x, snd x))]"
    by (rule write_slot_slots [OF t i [unfolded length_slots], of "fst x" "snd x"]) (use x in simp_all)
  then show "\<exists>t'. write_slot h t (of_nat i * slot_size h) (fst x) (snd x) = Some t' \<and> table_ok h t'
      \<and> slots h t' = (slots h t)[i := (if snd x = 0 then None else Some x)]" by auto
next
  fix t x
  assume "table_ok h t" "Some x \<in> set (slots h t)"
  then show "item_fits h x \<and> snd x \<noteq> 0" by (rule slot_items_fit)
next
  show "item_fits h (0, 0)" by (simp add: item_fits_def)
next
  fix t x
  assume "table_ok h t"
  then show "wanted h x < length (slots h t)" using wanted_less by (simp add: table_ok_def)
qed

section \<open>The displacement of an item in the table\<close>

lemma displacement_code:
  assumes "table_ok h t" "s < capacity h"
  shows "unat (get_displacement (hh_hash_capacity h) (of_nat s) a) = displacement (wanted h) (slots h t) s (a, p)"
  using get_displacement_slots [of h s "(a, p)"] assms by (simp add: displacement_def table_ok_def)

lemma displacement_less:
  assumes "table_ok h t" "s < capacity h"
  shows "displacement (wanted h) (slots h t) s x < capacity h"
  using assms wanted_less [of h x] by (simp add: displacement_def ring_dist_less table_ok_def)

lemma displacement_compare:
  assumes t: "table_ok h t" "s < capacity h" and d: "d \<le> capacity h"
  shows "of_nat d > get_displacement (hh_hash_capacity h) (of_nat s) a
    \<longleftrightarrow> d > displacement (wanted h) (slots h t) s (a, p)"
proof -
  have "unat (of_nat d :: u64) = d" using t(1) d by (intro slot_number [of h]) (auto simp: table_ok_def)
  then show ?thesis using displacement_code [OF t] by (simp add: word_less_nat_alt)
qed

lemma displacement_succ_code:
  assumes "table_ok h t" "s < capacity h"
  shows "get_displacement (hh_hash_capacity h) (of_nat s) a + 1 = of_nat (Suc (displacement (wanted h) (slots h t) s (a, p)))"
  using displacement_code [OF assms, of a p] of_nat_unat_u64 by (metis add.commute of_nat_Suc)

section \<open>Putting an item that needs no comparison\<close>

text \<open>The comparison \<open>hash_put\<close> makes at a full slot.\<close>

definition put_compare ::
  "codec_lib \<Rightarrow> sparkey_hashheader \<Rightarrow> put_refs \<Rightarrow> bool \<Rightarrow> u64 \<Rightarrow> u64 \<times> u64 \<Rightarrow> ((u64 \<times> u64) option \<times> put_refs) result" where
  "put_compare lib h refs might a x2 =
     (case refs of
        Some (its, log) \<Rightarrow>
          if might \<and> a = fst x2
          then map_option (\<lambda>(rc, found, its). (rc, found, Some (its, log)))
            (same_key lib log its (drop_bit (unat (hh_entry_block_bits h)) (snd x2)) (entry_index h (snd x2)))
          else Some (SPARKEY_SUCCESS, None, refs)
      | None \<Rightarrow> Some (SPARKEY_SUCCESS, None, refs))"

lemma put_compare_idle [simp]: "put_compare lib h refs False a x2 = Some (SPARKEY_SUCCESS, None, refs)"
  by (simp add: put_compare_def split: option.splits)

text \<open>One round of the loop at a full slot whose key is another one.\<close>

lemma hash_put_loop_full:
  assumes t: "table_ok h t" and s: "s < capacity h" "slots h t ! s = Some (a2, p2)" and d: "d \<le> capacity h"
    and c: "put_compare lib h refs might a (a2, p2) = Some (SPARKEY_SUCCESS, None, refs')"
    and j: "j = succ_slot (capacity h) s" and other: "other = displacement (wanted h) (slots h t) s (a2, p2)"
  shows "hash_put_loop lib t h refs might (of_nat s) (of_nat s * slot_size h) (of_nat d) a p =
    (if other < d
     then Option.bind (write_slot h t (of_nat s * slot_size h) a p) (\<lambda>t.
          hash_put_loop lib t h refs' False (of_nat j) (of_nat j * slot_size h) (of_nat (Suc other)) a2 p2)
     else hash_put_loop lib t h refs' might (of_nat j) (of_nat j * slot_size h) (of_nat (Suc d)) a p)"
proof -
  have shape: "index_shape h" using t by (simp add: table_ok_def)
  note full = byte_store.peek_full [OF t _ s(2), simplified, OF s(1)]
  note nx = next_slot_loop [OF shape s(1)]
  note cmp = displacement_compare [OF t s(1) d, of a2 p2, folded other]
  note od = displacement_succ_code [OF t s(1), of a2 p2, folded other]
  note c' = c [unfolded put_compare_def fst_conv snd_conv]
  show ?thesis
    by (subst hash_put_loop.simps)
      (simp only: full(1,2) c' Let_def cmp nx od j option.case Option.bind.simps prod.case rethrow_Success if_False if_True
        of_nat_Suc add.commute [of 1] cong: if_cong split: if_split, simp)
qed

text \<open>A round at an empty slot.\<close>

lemma hash_put_loop_empty:
  assumes t: "table_ok h t" and s: "s < capacity h" "slots h t ! s = None"
  shows "hash_put_loop lib t h refs might (of_nat s) (of_nat s * slot_size h) d a p =
    Option.bind (write_slot h t (of_nat s * slot_size h) a p) (\<lambda>t. Some (SPARKEY_SUCCESS, t, added_entry h, refs))"
proof -
  obtain a2 where "read_slot h t (of_nat s * slot_size h) = Some (a2, 0)"
    using byte_store.peek_empty [OF t _ s(2)] s(1) by auto
  then show ?thesis by (subst hash_put_loop.simps) simp
qed

text \<open>
  The loop of \<open>hash_put\<close> once nothing is compared any more: as long as the table has an empty slot, it ends,
  keeps the invariant and adds the item.
\<close>

lemma hash_put_walk:
  assumes "table_ok h t" "rh_inv (wanted h) (slots h t)" "carried (wanted h) (slots h t) s d (a, p)"
    and "item_fits h (a, p)" "p \<noteq> 0" "e < capacity h" "slots h t ! e = None"
  shows "\<exists>t'. hash_put_loop lib t h refs False (of_nat s) (of_nat s * slot_size h) (of_nat d) a p
      = Some (SPARKEY_SUCCESS, t', added_entry h, refs)
    \<and> table_ok h t' \<and> rh_inv (wanted h) (slots h t') \<and> (\<exists>i. at_rest (wanted h) (slots h t') i)
    \<and> items (slots h t') = add_mset (a, p) (items (slots h t))"
  using assms
proof (induction "ring_dist (capacity h) s e" arbitrary: t s d a p rule: less_induct)
  case less
  have sn: "s < capacity h" using less.prems(3) by (simp add: carried_def)
  have shape: "index_shape h" using less.prems(1) by (simp add: table_ok_def)
  have hx: "wanted h (a, p) < capacity h" by (rule wanted_less [OF shape])
  show ?case
  proof (cases "slots h t ! s")
    case None
    obtain t' where t': "write_slot h t (of_nat s * slot_size h) a p = Some t'" "table_ok h t'"
      "slots h t' = (slots h t)[s := Some (a, p)]" "rh_inv (wanted h) (slots h t')"
      "items (slots h t') + items [slots h t ! s] = add_mset (a, p) (items (slots h t))"
      by (rule byte_store.poke_place [OF less.prems(1-4)]) (use less.prems(5) None in auto)
    have "\<exists>i. at_rest (wanted h) (slots h t') i"
      using place_at_rest [OF less.prems(2) _ None] sn hx by (simp add: t'(3))
    then show ?thesis
      using t' None hash_put_loop_empty [OF less.prems(1) sn None] by simp
  next
    case (Some x2)
    obtain a2 p2 where x2: "x2 = (a2, p2)" by (cases x2)
    note full = byte_store.peek_full [OF less.prems(1) _ Some [unfolded x2], simplified, OF sn]
    have se: "s \<noteq> e" using less.prems(7) Some by auto
    let ?n = "capacity h" let ?j = "succ_slot ?n s" let ?other = "displacement (wanted h) (slots h t) s (a2, p2)"
    have closer: "ring_dist ?n ?j e < ring_dist ?n s e" using ring_dist_start [OF sn less.prems(6) se] by simp
    have d: "d = displacement (wanted h) (slots h t) s (a, p)" using less.prems(3) by (simp add: carried_def)
    have dn: "d < ?n" unfolding d by (rule displacement_less [OF less.prems(1) sn])
    note step = hash_put_loop_full [OF less.prems(1) sn Some [unfolded x2] less_imp_le [OF dn] put_compare_idle refl refl]
    show ?thesis
    proof (cases "?other < d")
      case False
      then have "carried (wanted h) (slots h t) ?j (Suc d) (a, p)"
        using carried_next [OF less.prems(2) _ less.prems(7) _ Some [unfolded x2] _ d] less.prems(6) sn hx by simp
      from less.hyps [OF closer less.prems(1,2) this less.prems(4-7)]
      show ?thesis using False step by simp
    next
      case True
      obtain t' where t': "write_slot h t (of_nat s * slot_size h) a p = Some t'" "table_ok h t'"
        "slots h t' = (slots h t)[s := Some (a, p)]" "rh_inv (wanted h) (slots h t')"
        "items (slots h t') + items [slots h t ! s] = add_mset (a, p) (items (slots h t))"
        by (rule byte_store.poke_place [OF less.prems(1-4)]) (use less.prems(5) Some x2 True in auto)
      have "carried (wanted h) (slots h t') ?j (Suc ?other) (a2, p2)"
        using carried_displaced [OF less.prems(2,3) _ less.prems(7) Some [unfolded x2] True] less.prems(6) t'(3) by simp
      moreover have "slots h t' ! e = None" using t'(3) se less.prems(7) by simp
      moreover have "item_fits h (a2, p2)" "p2 \<noteq> 0" using full by simp_all
      ultimately obtain t2 where t2: "hash_put_loop lib t' h refs False (of_nat ?j) (of_nat ?j * slot_size h)
          (of_nat (Suc ?other)) a2 p2 = Some (SPARKEY_SUCCESS, t2, added_entry h, refs)"
        "table_ok h t2" "rh_inv (wanted h) (slots h t2)" "\<exists>i. at_rest (wanted h) (slots h t2) i"
        "items (slots h t2) = add_mset (a2, p2) (items (slots h t'))"
        using less.hyps [OF closer t'(2,4)] less.prems(6) by blast
      have "items (slots h t2) = add_mset (a, p) (items (slots h t))"
        using t2(5) t'(5) Some x2 by simp
      then show ?thesis
        using t2 t'(1) True step by simp
    qed
  qed
qed

section \<open>Moving entries up after a deletion\<close>

lemma slot_number_eq:
  assumes "index_shape h" "i \<le> capacity h"
  shows "(x :: u64) = of_nat i \<longleftrightarrow> unat x = i"
  using slot_number [OF assms] by (auto simp: u64_eq_iff_unat)

text \<open>
  The inner loop of \<open>hash_delete\<close>: it ends if there is a slot where a walk stops, and leaves a slot that can
  be emptied; the items are those of the table, with the item deleted in place of the one left over.
\<close>

lemma delete_shift_walk:
  assumes "table_ok h t" "rh_inv (wanted h) (slots h t)" "at_rest (wanted h) (slots h t) e"
    and "s < capacity h" "slots h t ! s = Some y"
  shows "\<exists>t' s' y'. delete_shift h t (of_nat s) = Some (t', of_nat s') \<and> s' < capacity h
    \<and> slots h t' ! s' = Some y' \<and> table_ok h t' \<and> rh_inv (wanted h) (slots h t')
    \<and> (\<forall>z. slots h t' ! succ_slot (capacity h) s' = Some z \<longrightarrow> wanted h z = succ_slot (capacity h) s')
    \<and> add_mset y (items (slots h t')) = add_mset y' (items (slots h t))"
  using assms
proof (induction "ring_dist (capacity h) (succ_slot (capacity h) s) e" arbitrary: t s y rule: less_induct)
  case less
  let ?n = "capacity h" let ?j = "succ_slot ?n s"
  have shape: "index_shape h" using less.prems(1) by (simp add: table_ok_def)
  have jn: "?j < ?n" using less.prems(4) by simp
  note nx = next_slot_mod [OF shape less.prems(4)]
  show ?case
  proof (cases "\<exists>z. slots h t ! ?j = Some z \<and> wanted h z \<noteq> ?j")
    case False
    then have z: "\<forall>z. slots h t ! ?j = Some z \<longrightarrow> wanted h z = ?j" by blast
    obtain a p where rd: "read_slot h t (of_nat ?j * slot_size h) = Some (a, p)"
      "slots h t ! ?j = (if p = 0 then None else Some (a, p))"
      by (rule read_slot_slots [OF less.prems(1) jn])
    have "p \<noteq> 0 \<Longrightarrow> a mod hh_hash_capacity h = of_nat ?j"
      using z rd(2) slot_number_eq [OF shape less_imp_le [OF jn]] by (simp add: wanted_def)
    then have "delete_shift h t (of_nat s) = Some (t, of_nat s)"
      using rd(1) nx by (subst delete_shift.simps) (simp add: Let_def)
    then show ?thesis using less.prems z by blast
  next
    case True
    then obtain a p where z: "slots h t ! ?j = Some (a, p)" "wanted h (a, p) \<noteq> ?j" by auto
    note full = byte_store.peek_full [OF less.prems(1) _ z(1), simplified, OF jn]
    obtain t1 where t1: "write_slot h t (of_nat s * slot_size h) a p = Some t1" "table_ok h t1"
      "slots h t1 = (slots h t)[s := Some (a, p)]" "rh_inv (wanted h) (slots h t1)"
      "add_mset y (items (slots h t1)) = add_mset (a, p) (items (slots h t))"
      by (rule byte_store.poke_shift [OF less.prems(1,2) _ less.prems(5)]) (use less.prems(4) z in auto)
    have je: "?j \<noteq> e" using z less.prems(3) by (auto simp: at_rest_def)
    have en: "e < ?n" using less.prems(3) by (simp add: at_rest_def)
    have "at_rest (wanted h) (slots h t1) e"
      using at_rest_shift [OF less.prems(2) _ less.prems(5,3)] less.prems(4) z t1(3) by simp
    moreover have "slots h t1 ! ?j = Some (a, p)"
      using z(1) t1(3) less.prems(4) by (cases "?j = s") simp_all
    moreover have "ring_dist ?n (succ_slot ?n ?j) e < ring_dist ?n ?j e" using ring_dist_start [OF jn en je] by simp
    ultimately obtain t' s' y' where r: "delete_shift h t1 (of_nat ?j) = Some (t', of_nat s')" "s' < ?n"
      "slots h t' ! s' = Some y'" "table_ok h t'" "rh_inv (wanted h) (slots h t')"
      "\<forall>z. slots h t' ! succ_slot ?n s' = Some z \<longrightarrow> wanted h z = succ_slot ?n s'"
      "add_mset (a, p) (items (slots h t')) = add_mset y' (items (slots h t1))"
      using less.hyps [OF _ t1(2,4) _ jn] by blast
    have ne: "a mod hh_hash_capacity h \<noteq> of_nat ?j"
      using z(2) slot_number_eq [OF shape less_imp_le [OF jn]] by (simp add: wanted_def)
    have "delete_shift h t (of_nat s) = Some (t', of_nat s')"
      using full(1,2) ne nx t1(1) r(1) by (subst delete_shift.simps) (simp add: Let_def)
    moreover have "add_mset (a, p) (add_mset y (items (slots h t'))) = add_mset (a, p) (add_mset y' (items (slots h t)))"
      using r(7) t1(5) by (metis add_mset_commute)
    ultimately show ?thesis using r by auto
  qed
qed

section \<open>Searching\<close>

text \<open>A round of the search loops at a full slot that does not match: the next slot.\<close>

lemma rh_find_full:
  assumes "s < length T" "d \<le> length T" "T ! s = Some y"
  shows "rh_find home P T s d =
    (if P y then Some s else if d > displacement home T s y then None else rh_find home P T (succ_slot (length T) s) (Suc d))"
  by (subst rh_find.simps) (use assms in simp)

lemma rh_find_empty: "s < length T \<Longrightarrow> T ! s = None \<Longrightarrow> rh_find home P T s d = None"
  by (subst rh_find.simps) simp

text \<open>The loop that looks for the address of an entry is a search for it.\<close>

lemma hashnext_probe_find:
  assumes t: "table_ok h t" and s: "s < capacity h" and d: "d \<le> capacity h"
  shows "hashnext_probe h t p (of_nat s) (of_nat s * slot_size h) (of_nat d)
    = Some (rh_find (wanted h) (\<lambda>x. snd x = p) (slots h t) s d \<noteq> None)"
  using s d
proof (induction "Suc (capacity h) - d" arbitrary: s d rule: less_induct)
  case less
  have shape: "index_shape h" using t by (simp add: table_ok_def)
  show ?case
  proof (cases "slots h t ! s")
    case None
    obtain a where "read_slot h t (of_nat s * slot_size h) = Some (a, 0)"
      using byte_store.peek_empty [OF t _ None] less.prems(1) by auto
    then show ?thesis using None less.prems by (subst hashnext_probe.simps) (simp add: rh_find_empty)
  next
    case (Some x)
    obtain a2 p2 where x: "x = (a2, p2)" by (cases x)
    note full = byte_store.peek_full [OF t _ Some [unfolded x], simplified, OF less.prems(1)]
    note cmp = displacement_compare [OF t less.prems(1,2), of a2 p2]
    note nx = next_slot_loop [OF shape less.prems(1)]
    have lt: "displacement (wanted h) (slots h t) s (a2, p2) < capacity h" by (rule displacement_less [OF t less.prems(1)])
    let ?j = "succ_slot (capacity h) s"
    have loop: "hashnext_probe h t p (of_nat s) (of_nat s * slot_size h) (of_nat d) =
      (if p = p2 then Some True else if displacement (wanted h) (slots h t) s (a2, p2) < d then Some False
       else hashnext_probe h t p (of_nat ?j) (of_nat ?j * slot_size h) (of_nat (Suc d)))"
      by (subst hashnext_probe.simps)
        (use full(1,2) cmp nx in \<open>auto simp: add.commute split: if_splits\<close>)
    show ?thesis
    proof (cases "p2 \<noteq> p \<and> \<not> displacement (wanted h) (slots h t) s (a2, p2) < d")
      case True
      then have "Suc d \<le> capacity h" using lt by linarith
      then have "hashnext_probe h t p (of_nat ?j) (of_nat ?j * slot_size h) (of_nat (Suc d))
          = Some (rh_find (wanted h) (\<lambda>x. snd x = p) (slots h t) ?j (Suc d) \<noteq> None)"
        using less.prems by (intro less.hyps) auto
      then show ?thesis using loop True rh_find_full [of s "slots h t" d] Some x less.prems by auto
    next
      case False
      then show ?thesis using loop rh_find_full [of s "slots h t" d] Some x less.prems by auto
    qed
  qed
qed

end
