(* ===== verification/LogFormat.thy ===== *)
theory LogFormat
  imports Vlq LogHeader
begin

text \<open>
  The log file format as an abstract specification (README.md, "Log file format"): entries, their
  encoding, and, for compressed logs, how a sequence of entries is grouped into blocks. The writer is
  proved to produce this format and the reader to understand it.
\<close>

section \<open>Entries\<close>

datatype log_entry = PutEntry bytes bytes | DeleteEntry bytes

fun entry_key :: "log_entry \<Rightarrow> bytes" where
  "entry_key (PutEntry k v) = k"
| "entry_key (DeleteEntry k) = k"

fun entry_value :: "log_entry \<Rightarrow> bytes" where
  "entry_value (PutEntry k v) = v"
| "entry_value (DeleteEntry k) = []"

text \<open>The two numbers A and B in front of an entry.\<close>

fun entry_nums :: "log_entry \<Rightarrow> u64 \<times> u64" where
  "entry_nums (PutEntry k v) = (of_nat (length k) + 1, of_nat (length v))"
| "entry_nums (DeleteEntry k) = (0, of_nat (length k))"

definition entry_head :: "log_entry \<Rightarrow> bytes" where
  "entry_head e = write_vlq (fst (entry_nums e)) @ write_vlq (snd (entry_nums e))"

definition entry_body :: "log_entry \<Rightarrow> bytes" where
  "entry_body e = entry_key e @ entry_value e"

definition encode_entry :: "log_entry \<Rightarrow> bytes" where
  "encode_entry e = entry_head e @ entry_body e"

definition encode_entries :: "log_entry list \<Rightarrow> bytes" where
  "encode_entries es = concat (map encode_entry es)"

text \<open>Entries whose sizes fit the documented limit of the format (data sizes below \<open>2^63\<close> bytes).\<close>

definition entry_ok :: "log_entry \<Rightarrow> bool" where
  "entry_ok e \<longleftrightarrow> length (encode_entry e) < 2 ^ 63"

lemma encode_entries_simps [codec_simps, simp]:
  "encode_entries [] = []"
  "encode_entries (e # es) = encode_entry e @ encode_entries es"
  "encode_entries (es @ fs) = encode_entries es @ encode_entries fs"
  by (simp_all add: encode_entries_def)

lemma length_entry_head: "2 \<le> length (entry_head e)" "length (entry_head e) \<le> 20"
  using length_write_vlq_pos [of "fst (entry_nums e)"] length_write_vlq_pos [of "snd (entry_nums e)"]
    length_write_vlq_le [of "fst (entry_nums e)"] length_write_vlq_le [of "snd (entry_nums e)"]
  unfolding entry_head_def length_append by linarith+

lemma encode_entry_not_Nil [simp]: "encode_entry e \<noteq> []" "entry_head e \<noteq> []"
  using length_entry_head(1) [of e] by (auto simp: encode_entry_def)

lemma encode_entries_Nil_iff [simp]: "encode_entries es = [] \<longleftrightarrow> es = []"
  by (cases es) simp_all

section \<open>Blocks\<close>

text \<open>A run of bytes cut into pieces of \<open>bs\<close> bytes; only the last piece may be shorter.\<close>

function chop :: "nat \<Rightarrow> 'a list \<Rightarrow> 'a list list" where
  "chop bs xs =
     (if xs = [] then [] else if length xs \<le> bs \<or> bs = 0 then [xs]
      else take bs xs # chop bs (drop bs xs))"
  by pat_completeness auto
termination
  by (relation "measure (\<lambda>(bs, xs). length xs)") auto

declare chop.simps [simp del]

lemma concat_chop [simp]: "concat (chop bs xs) = xs"
proof (induction bs xs rule: chop.induct)
  case (1 bs xs)
  then show ?case by (subst chop.simps) simp
qed

lemma chop_append_full:
  assumes "\<forall>b \<in> set blocks. length b = bs" "0 < bs" "length d \<le> bs" "d \<noteq> []"
  shows "chop bs (concat blocks @ d) = blocks @ [d]"
  using assms(1)
proof (induction blocks)
  case Nil
  then show ?case using assms by (subst chop.simps) simp
next
  case (Cons b blocks)
  then have "length b = bs" "b \<noteq> []" using assms(2) by auto
  moreover have "length (concat blocks @ d) > 0" using assms(4) by simp
  ultimately show ?case
    using Cons assms(2) by (simp add: chop.simps [of bs "b @ concat blocks @ d"])
qed

lemma chop_blocks:
  assumes "0 < bs"
  shows "\<forall>b \<in> set (chop bs xs). b \<noteq> [] \<and> length b \<le> bs"
  using assms
proof (induction bs xs rule: chop.induct)
  case (1 bs xs)
  then show ?case by (subst chop.simps) auto
qed

text \<open>A block on disk: the size of the compressed data as a VLQ, then the compressed data.\<close>

definition block_out :: "sparkey_compressor \<Rightarrow> u32 \<Rightarrow> bytes \<Rightarrow> bytes" where
  "block_out c block_size b = fst (snd (compress c b (max_compressed_size c block_size)))"

definition block_frame :: "sparkey_compressor \<Rightarrow> u32 \<Rightarrow> bytes \<Rightarrow> bytes" where
  "block_frame c block_size b =
     write_vlq (of_nat (length (block_out c block_size b))) @ block_out c block_size b"

definition blocks_bytes :: "sparkey_compressor \<Rightarrow> u32 \<Rightarrow> bytes list \<Rightarrow> bytes" where
  "blocks_bytes c block_size bs = concat (map (block_frame c block_size) bs)"

lemma blocks_bytes_simps [codec_simps, simp]:
  "blocks_bytes c n [] = []"
  "blocks_bytes c n (b # bs) = block_frame c n b @ blocks_bytes c n bs"
  "blocks_bytes c n (as @ bs) = blocks_bytes c n as @ blocks_bytes c n bs"
  by (simp_all add: blocks_bytes_def)

lemma compressor_ok_block_out:
  assumes "compressor_ok c n" "length b \<le> unat n"
  shows "compress c b (max_compressed_size c n)
      = (SPARKEY_SUCCESS, block_out c n b, of_nat (length (block_out c n b)))"
    and "length (block_out c n b) < 2 ^ 32"
    and "decompress c (block_out c n b) n = (SPARKEY_SUCCESS, b, of_nat (length b))"
proof -
  obtain out where "compress c b (max_compressed_size c n) = (SPARKEY_SUCCESS, out, of_nat (length out))"
    "length out < 2 ^ 32" "decompress c out n = (SPARKEY_SUCCESS, b, of_nat (length b))"
    using assms unfolding compressor_ok_def by blast
  moreover from this have "out = block_out c n b" by (simp add: block_out_def)
  ultimately show "compress c b (max_compressed_size c n)
      = (SPARKEY_SUCCESS, block_out c n b, of_nat (length (block_out c n b)))"
    "length (block_out c n b) < 2 ^ 32"
    "decompress c (block_out c n b) n = (SPARKEY_SUCCESS, b, of_nat (length b))" by simp_all
qed

section \<open>Grouping entries into blocks\<close>

text \<open>
  A compressed log is a sequence of groups. The entries of a group are encoded one after the other
  and cut into blocks; only the last entry of a group may reach behind the first block, and its two
  leading numbers are always in the first block. The state of the grouping is the list of finished
  groups and the group that is being filled.
\<close>

definition group_blocks :: "nat \<Rightarrow> log_entry list \<Rightarrow> bytes list" where
  "group_blocks bs g = chop bs (encode_entries g)"

definition layout_room :: "nat \<Rightarrow> log_entry list \<Rightarrow> nat" where
  "layout_room bs cur = bs - length (encode_entries cur)"

definition layout_break :: "nat \<Rightarrow> log_entry list \<Rightarrow> log_entry \<Rightarrow> bool" where
  "layout_break bs cur e \<longleftrightarrow>
     layout_room bs cur < length (entry_head e)
     \<or> (length (encode_entry e) \<le> bs \<and> layout_room bs cur < length (encode_entry e))"

fun layout_add ::
  "nat \<Rightarrow> log_entry list list \<times> log_entry list \<Rightarrow> log_entry \<Rightarrow> log_entry list list \<times> log_entry list" where
  "layout_add bs (gs, cur) e =
     (let (gs, cur) = (if layout_break bs cur e then (gs @ [cur], []) else (gs, cur)) in
      if bs < length (encode_entries (cur @ [e])) then (gs @ [cur @ [e]], []) else (gs, cur @ [e]))"

definition layout_flush :: "log_entry list list \<times> log_entry list \<Rightarrow> log_entry list list" where
  "layout_flush l = (if snd l = [] then fst l else fst l @ [snd l])"

text \<open>What the reader needs of a group.\<close>

definition group_ok :: "nat \<Rightarrow> log_entry list \<Rightarrow> bool" where
  "group_ok bs g \<longleftrightarrow>
     g \<noteq> [] \<and> length (encode_entries (butlast g)) + length (entry_head (last g)) \<le> bs"

definition layout_ok :: "nat \<Rightarrow> log_entry list list \<times> log_entry list \<Rightarrow> bool" where
  "layout_ok bs l \<longleftrightarrow> (\<forall>g \<in> set (fst l). group_ok bs g) \<and> length (encode_entries (snd l)) \<le> bs"

lemma group_ok_fits:
  assumes "g \<noteq> []" "length (encode_entries g) \<le> bs"
  shows "group_ok bs g"
proof -
  have "encode_entries g = encode_entries (butlast g) @ encode_entry (last g)"
    using assms(1) by (metis append_butlast_last_id append_Nil2 encode_entries_simps)
  then show ?thesis using assms by (simp add: group_ok_def encode_entry_def)
qed

lemma layout_add_ok:
  assumes "layout_ok bs (gs, cur)" "length (entry_head e) \<le> bs"
  shows "layout_ok bs (layout_add bs (gs, cur) e)"
proof -
  have cur: "length (encode_entries cur) \<le> bs" and gs: "\<forall>g \<in> set gs. group_ok bs g"
    using assms(1) by (auto simp: layout_ok_def)
  have fin: "layout_ok bs (if bs < length (encode_entries (cur' @ [e])) then (gs' @ [cur' @ [e]], []) else (gs', cur' @ [e]))"
    if "\<forall>g \<in> set gs'. group_ok bs g" "length (encode_entries cur') + length (entry_head e) \<le> bs"
    for gs' cur'
    using that by (auto simp: layout_ok_def group_ok_def)
  show ?thesis
  proof (cases "layout_break bs cur e")
    case True
    have "cur \<noteq> []"
      using True assms(2) by (auto simp: layout_break_def layout_room_def)
    then have "\<forall>g \<in> set (gs @ [cur]). group_ok bs g"
      using gs group_ok_fits [OF _ cur] by simp
    from fin [OF this, of "[]"] show ?thesis using True assms(2) by simp
  next
    case False
    then have "length (encode_entries cur) + length (entry_head e) \<le> bs"
      using cur by (auto simp: layout_break_def layout_room_def)
    from fin [OF gs this] show ?thesis using False by simp
  qed
qed

lemma layout_add_entries:
  "concat (fst (layout_add bs l e)) @ snd (layout_add bs l e) = concat (fst l) @ snd l @ [e]"
  by (cases l) (simp add: Let_def)

declare layout_add.simps [simp del]

definition layout_run :: "nat \<Rightarrow> log_entry list \<Rightarrow> log_entry list list \<times> log_entry list" where
  "layout_run bs es = foldl (layout_add bs) ([], []) es"

lemma layout_run_snoc [simp]: "layout_run bs (es @ [e]) = layout_add bs (layout_run bs es) e"
  by (simp add: layout_run_def)

lemma layout_run_Nil [simp]: "layout_run bs [] = ([], [])"
  by (simp add: layout_run_def)

lemma layout_run_entries:
  "concat (fst (layout_run bs es)) @ snd (layout_run bs es) = es"
  by (induction es rule: rev_induct) (simp_all add: layout_add_entries)

lemma layout_run_ok:
  assumes "\<forall>e \<in> set es. length (entry_head e) \<le> bs"
  shows "layout_ok bs (layout_run bs es)"
  using assms
proof (induction es rule: rev_induct)
  case (snoc e es)
  then show ?case by (cases "layout_run bs es") (auto intro: layout_add_ok)
qed (simp add: layout_ok_def)

lemma layout_flush_entries: "concat (layout_flush (layout_run bs es)) = es"
  using layout_run_entries [of bs es] by (cases "layout_run bs es") (auto simp: layout_flush_def)

lemma layout_flush_ok:
  assumes "layout_ok bs l"
  shows "\<forall>g \<in> set (layout_flush l). group_ok bs g"
  using assms group_ok_fits by (auto simp: layout_flush_def layout_ok_def split: if_splits)

text \<open>The data part of a log file.\<close>

definition log_blocks :: "nat \<Rightarrow> log_entry list list \<Rightarrow> bytes list" where
  "log_blocks bs gs = concat (map (group_blocks bs) gs)"

text \<open>The data part of the log file that holds the groups \<open>gs\<close>, with and without compression.\<close>

definition log_data :: "codec_lib \<Rightarrow> sparkey_logheader \<Rightarrow> log_entry list list \<Rightarrow> bytes" where
  "log_data lib h gs =
     (case sparkey_compressors lib (lh_compression_type h) of
        Some c \<Rightarrow> blocks_bytes c (lh_compression_block_size h)
                    (log_blocks (unat (lh_compression_block_size h)) gs)
      | None \<Rightarrow> encode_entries (concat gs))"

text \<open>Adding an entry; without compression every entry is a group of its own.\<close>

definition layout_step ::
  "sparkey_logheader \<Rightarrow> log_entry list list \<times> log_entry list \<Rightarrow> log_entry
     \<Rightarrow> log_entry list list \<times> log_entry list" where
  "layout_step h l e =
     (if sparkey_uses_compressor (lh_compression_type h)
      then layout_add (unat (lh_compression_block_size h)) l e
      else (fst l @ [[e]], []))"

lemma log_blocks_snoc [simp]: "log_blocks bs (gs @ [g]) = log_blocks bs gs @ group_blocks bs g"
  by (simp add: log_blocks_def)

lemma group_blocks_single:
  assumes "g \<noteq> []" "length (encode_entries g) \<le> bs"
  shows "group_blocks bs g = [encode_entries g]"
  unfolding group_blocks_def by (subst chop.simps) (use assms in simp)

lemma two_entries_le: "2 * length es \<le> length (encode_entries es)"
proof (induction es)
  case (Cons e es)
  then show ?case using length_entry_head(1) [of e] by (simp add: encode_entry_def)
qed simp

section \<open>Counters\<close>

fun is_put :: "log_entry \<Rightarrow> bool" where
  "is_put (PutEntry k v) = True"
| "is_put (DeleteEntry k) = False"

definition max_length :: "bytes list \<Rightarrow> nat" where
  "max_length xs = foldr max (map length xs) 0"

lemma foldr_max_start: "foldr max ns n = max n (foldr max ns (0 :: nat))"
  by (induction ns) (simp_all add: max.left_commute)

lemma max_length_simps [simp]:
  "max_length [] = 0" "max_length (x # xs) = max (length x) (max_length xs)"
  "max_length (xs @ [x]) = max (length x) (max_length xs)"
  using foldr_max_start [of "map length xs" "length x"] by (simp_all add: max_length_def)

text \<open>The header counts the entries of the log, their encoded sizes and the longest keys and values put.\<close>

definition header_counts :: "sparkey_logheader \<Rightarrow> log_entry list \<Rightarrow> bool" where
  "header_counts h es \<longleftrightarrow>
     lh_num_puts h = of_nat (length (filter is_put es))
     \<and> lh_num_deletes h = of_nat (length (filter (Not \<circ> is_put) es))
     \<and> lh_put_size h = of_nat (length (encode_entries (filter is_put es)))
     \<and> lh_delete_size h = of_nat (length (encode_entries (filter (Not \<circ> is_put) es)))
     \<and> unat (lh_max_key_len h) = max_length (map entry_key (filter is_put es))
     \<and> unat (lh_max_value_len h) = max_length (map entry_value (filter is_put es))"

section \<open>Log files\<close>

text \<open>
  A file with contents \<open>c\<close> holds the log with header \<open>h\<close> and the groups \<open>gs\<close>. Bytes behind the end of the
  data are not part of the log.
\<close>

definition log_file :: "codec_lib \<Rightarrow> sparkey_logheader \<Rightarrow> log_entry list list \<Rightarrow> bytes \<Rightarrow> bool" where
  "log_file lib h gs c \<longleftrightarrow>
     (\<exists>junk. c = logheader_bytes h @ log_data lib h gs @ junk)
     \<and> lh_data_end h = of_nat (84 + length (log_data lib h gs))
     \<and> header_counts h (concat gs)
     \<and> (case sparkey_compressors lib (lh_compression_type h) of
          None \<Rightarrow> True
        | Some cm \<Rightarrow>
            compressor_ok cm (lh_compression_block_size h)
            \<and> 10 \<le> unat (lh_compression_block_size h) \<and> unat (lh_compression_block_size h) < 2 ^ 31
            \<and> unat (lh_max_entries_per_block h) < 2 ^ 31
            \<and> (\<forall>g \<in> set gs. group_ok (unat (lh_compression_block_size h)) g
                \<and> length g \<le> unat (lh_max_entries_per_block h)))"

text \<open>The parts of a header that are constant during the life of a log.\<close>

definition header_versions :: "sparkey_logheader \<Rightarrow> bool" where
  "header_versions h \<longleftrightarrow>
     lh_major_version h = LOG_MAJOR_VERSION \<and> lh_minor_version h = LOG_MINOR_VERSION
     \<and> lh_compression_type h \<le> SPARKEY_COMPRESSION_ZSTD"

lemma count_entries_le: "length (filter P es) \<le> length (encode_entries es)"
  using two_entries_le [of es] length_filter_le [of P es] by linarith

end
