(* ===== verification/LogReaderCorrect.thy ===== *)
theory LogReaderCorrect
  imports LogReader LogFormat
begin

text \<open>
  Correctness of log iterators. \<open>iter_at\<close> says which bytes an iterator has in front of it: the rest of
  its current block and the blocks behind it. \<open>reading\<close> says which entries they spell.
\<close>

section \<open>Readers\<close>

text \<open>A reader of a log whose data ends where the header says.\<close>

definition reader_ok :: "codec_lib \<Rightarrow> sparkey_logreader \<Rightarrow> bool" where
  "reader_ok lib log \<longleftrightarrow>
     lr_open_status log = MAGIC_VALUE_LOGREADER
     \<and> lr_data_len log = of_nat (length (lr_data log)) \<and> length (lr_data log) < 2 ^ 63
     \<and> lh_data_end (lr_header log) = lr_data_len log
     \<and> lh_header_size (lr_header log) = LOG_HEADER_SIZE \<and> 84 \<le> length (lr_data log)
     \<and> lh_compression_type (lr_header log) \<le> SPARKEY_COMPRESSION_ZSTD
     \<and> (\<forall>c. sparkey_compressors lib (lh_compression_type (lr_header log)) = Some c
           \<longrightarrow> compressor_ok c (lh_compression_block_size (lr_header log)))"

abbreviation rtype :: "sparkey_logreader \<Rightarrow> sparkey_compression_type" where
  "rtype log \<equiv> lh_compression_type (lr_header log)"

abbreviation rsize :: "sparkey_logreader \<Rightarrow> u32" where
  "rsize log \<equiv> lh_compression_block_size (lr_header log)"

lemma reader_ok_None:
  assumes "reader_ok lib log"
  shows "sparkey_compressors lib (rtype log) = None \<longleftrightarrow> rtype log = SPARKEY_COMPRESSION_NONE"
proof -
  have "unat (rtype log) \<le> 2" using assms by (simp add: reader_ok_def word_le_nat_alt)
  then have "unat (rtype log) = 0 \<or> unat (rtype log) = 1 \<or> unat (rtype log) = 2" by linarith
  then have "rtype log = 0 \<or> rtype log = 1 \<or> rtype log = 2"
    by (simp add: word_unat_eq_iff)
  then show ?thesis by (auto simp: sparkey_compressors_def)
qed

text \<open>The blocks from position \<open>p\<close> of the file on. Without compression the rest of the file is one block.\<close>

definition blocks_at :: "codec_lib \<Rightarrow> sparkey_logreader \<Rightarrow> u64 \<Rightarrow> bytes list \<Rightarrow> bool" where
  "blocks_at lib log p bl \<longleftrightarrow>
     84 \<le> unat p \<and> unat p \<le> length (lr_data log) \<and>
     (case sparkey_compressors lib (rtype log) of
        Some c \<Rightarrow> drop (unat p) (lr_data log) = blocks_bytes c (rsize log) bl
          \<and> (\<forall>b \<in> set bl. b \<noteq> [] \<and> length b \<le> unat (rsize log))
      | None \<Rightarrow> bl = (if unat p = length (lr_data log) then [] else [drop (unat p) (lr_data log)]))"

lemma write_vlq_inject:
  assumes "write_vlq v @ x = write_vlq w @ y"
  shows "v = w \<and> x = y"
proof -
  have v: "read_vlq ([] @ write_vlq v @ x) (of_nat (length ([] :: bytes))) = Some (v, of_nat (length ([] :: bytes) + length (write_vlq v)))"
    and w: "read_vlq ([] @ write_vlq w @ y) (of_nat (length ([] :: bytes))) = Some (w, of_nat (length ([] :: bytes) + length (write_vlq w)))"
    using length_write_vlq_le [of v] length_write_vlq_le [of w] by (intro read_vlq_write; simp)+
  then show ?thesis using assms by simp
qed

lemma block_frame_not_Nil [simp]: "block_frame c n b \<noteq> []"
  by (simp add: block_frame_def)

lemma block_frame_inject:
  assumes "compressor_ok c n" "length a \<le> unat n" "length b \<le> unat n"
    and eq: "block_frame c n a @ x = block_frame c n b @ y"
  shows "a = b \<and> x = y"
proof -
  note ca = compressor_ok_block_out [OF assms(1,2)] and cb = compressor_ok_block_out [OF assms(1,3)]
  have eq': "write_vlq (of_nat (length (block_out c n a))) @ (block_out c n a @ x)
      = write_vlq (of_nat (length (block_out c n b))) @ (block_out c n b @ y)"
    using eq unfolding block_frame_def append_assoc .
  note * = write_vlq_inject [OF eq', THEN conjunct1] write_vlq_inject [OF eq', THEN conjunct2]
  have small: "unat (of_nat n :: u64) = n" if "n < 2 ^ 32" for n
    using that by (intro unat_of_nat_u64) simp
  have "length (block_out c n a) = length (block_out c n b)" 
    using *(1) small [OF ca(2)] small [OF cb(2)] by metis
  then have out: "block_out c n a = block_out c n b \<and> x = y" using *(2) append_eq_append_conv by blast
  then have "(SPARKEY_SUCCESS, a, of_nat (length a) :: u32) = (SPARKEY_SUCCESS, b, of_nat (length b))"
    using ca(3) cb(3) by metis
  then show ?thesis using out by blast
qed

lemma blocks_bytes_inject:
  assumes "compressor_ok c n" "\<forall>b \<in> set as. length b \<le> unat n" "\<forall>b \<in> set bs. length b \<le> unat n"
    and "blocks_bytes c n as = blocks_bytes c n bs"
  shows "as = bs"
  using assms
proof (induction as arbitrary: bs)
  case Nil
  then show ?case by (cases bs) auto
next
  case (Cons a as)
  then obtain b bs' where bs: "bs = b # bs'" by (cases bs) auto
  have "a = b \<and> blocks_bytes c n as = blocks_bytes c n bs'"
    by (rule block_frame_inject [OF Cons.prems(1)]) (use Cons.prems bs in simp_all)
  then show ?case using Cons.IH [OF Cons.prems(1), of bs'] Cons.prems(2,3) bs by simp
qed

lemma blocks_at_unique:
  assumes "reader_ok lib log" "blocks_at lib log p as" "blocks_at lib log p bs"
  shows "as = bs"
proof (cases "sparkey_compressors lib (rtype log)")
  case None
  then show ?thesis using assms by (simp add: blocks_at_def)
next
  case (Some c)
  then show ?thesis
    using assms blocks_bytes_inject [of c "rsize log" as bs] by (auto simp: blocks_at_def reader_ok_def)
qed

section \<open>Iterators and blocks\<close>

definition iter_at ::
  "codec_lib \<Rightarrow> sparkey_logreader \<Rightarrow> sparkey_logiter \<Rightarrow> bytes \<Rightarrow> bytes list \<Rightarrow> bool" where
  "iter_at lib log iter cur rest \<longleftrightarrow>
     it_open_status iter = MAGIC_VALUE_LOGITER
     \<and> it_file_identifier iter = lh_file_identifier (lr_header log)
     \<and> it_block_offset iter \<le> it_block_len iter
     \<and> unat (it_block_len iter) \<le> length (it_compression_buf iter)
     \<and> cur = drop (unat (it_block_offset iter)) (take (unat (it_block_len iter)) (it_compression_buf iter))
     \<and> blocks_at lib log (it_next_block_position iter) rest
     \<and> (if it_block_position iter = 0 then it_block_len iter = 0
        else it_block_position iter < it_next_block_position iter
          \<and> blocks_at lib log (it_block_position iter) (take (unat (it_block_len iter)) (it_compression_buf iter) # rest))
     \<and> (sparkey_uses_compressor (rtype log) \<longrightarrow> length (it_compression_buf iter) = unat (rsize log))"

text \<open>The iterator with its first block at position \<open>p\<close>, at the block's start.\<close>

definition at_block ::
  "codec_lib \<Rightarrow> sparkey_logreader \<Rightarrow> sparkey_logiter \<Rightarrow> u64 \<Rightarrow> bytes \<Rightarrow> bytes list \<Rightarrow> bool" where
  "at_block lib log iter p b rest \<longleftrightarrow>
     iter_at lib log iter b rest \<and> it_block_position iter = p \<and> it_block_offset iter = 0"

text \<open>The fields that describe the current entry.\<close>

definition same_entry :: "sparkey_logiter \<Rightarrow> sparkey_logiter \<Rightarrow> bool" where
  "same_entry a b \<longleftrightarrow>
     it_entry_block_position b = it_entry_block_position a \<and> it_entry_block_offset b = it_entry_block_offset a
     \<and> it_type b = it_type a \<and> it_state b = it_state a \<and> it_keylen b = it_keylen a
     \<and> it_valuelen b = it_valuelen a \<and> it_key_remaining b = it_key_remaining a
     \<and> it_value_remaining b = it_value_remaining a"

lemma same_entry_refl [simp]: "same_entry a a"
  by (simp add: same_entry_def)

lemma same_entry_trans: "same_entry a b \<Longrightarrow> same_entry b c \<Longrightarrow> same_entry a c"
  by (simp add: same_entry_def)

lemma blocks_at_Cons_lt:
  assumes "blocks_at lib log p (b # rest)"
  shows "unat p < length (lr_data log)" "b \<noteq> []"
proof -
  have "drop (unat p) (lr_data log) \<noteq> [] \<and> b \<noteq> []"
    using assms by (auto simp: blocks_at_def split: option.splits if_splits)
  then show "unat p < length (lr_data log)" "b \<noteq> []" by auto
qed

lemma seekblock_cached:
  assumes ok: "reader_ok lib log" and it: "iter_at lib log iter cur rest0"
    and b: "blocks_at lib log p (b # rest)" and p: "it_block_position iter = p"
  shows "\<exists>iter'. seekblock lib iter log p = Some (SPARKEY_SUCCESS, iter') \<and> at_block lib log iter' p b rest
    \<and> same_entry iter iter'"
proof -
  have "p \<noteq> 0" using b by (auto simp: blocks_at_def)
  then have "take (unat (it_block_len iter)) (it_compression_buf iter) # rest0 = b # rest"
    using it b p blocks_at_unique [OF ok] by (auto simp: iter_at_def)
  then show ?thesis
    using it p \<open>p \<noteq> 0\<close> by (simp add: seekblock_def at_block_def iter_at_def same_entry_def)
qed

lemma seekblock_plain:
  assumes ok: "reader_ok lib log" and it: "iter_at lib log iter cur rest0"
    and b: "blocks_at lib log p (b # rest)" and p: "it_block_position iter \<noteq> p"
    and c: "sparkey_compressors lib (rtype log) = None"
  shows "\<exists>iter'. seekblock lib iter log p = Some (SPARKEY_SUCCESS, iter') \<and> at_block lib log iter' p b rest
    \<and> same_entry iter iter'"
proof -
  have nu: "\<not> sparkey_uses_compressor (rtype log)" using c uses_compressor_iff [of _ lib] by simp
  have pos: "84 \<le> unat p" "unat p < length (lr_data log)" "b = drop (unat p) (lr_data log)" "rest = []"
    using b c blocks_at_Cons_lt [OF b] by (auto simp: blocks_at_def split: if_splits)
  have len: "unat (lr_data_len log) = length (lr_data log)" "lh_data_end (lr_header log) = lr_data_len log"
    using ok by (auto simp: reader_ok_def unat_of_nat_u64)
  then have bl: "unat (lr_data_len log - p) = length b" using pos by (simp add: unat_sub_u64)
  let ?iter = "iter\<lparr>it_block_offset := 0, it_compression_buf := b, it_block_position := p,
      it_next_block_position := lr_data_len log, it_block_len := lr_data_len log - p\<rparr>"
  have "seekblock lib iter log p = Some (SPARKEY_SUCCESS, ?iter)"
    using p nu pos len by (simp add: seekblock_def Let_def)
  moreover have "blocks_at lib log (lr_data_len log) []"
    using c len pos by (simp add: blocks_at_def)
  moreover have "p \<noteq> 0" "p < lr_data_len log" using pos len by (auto simp: word_less_nat_alt)
  ultimately show ?thesis
    using it b bl nu pos(4) by (auto simp: at_block_def iter_at_def same_entry_def)
qed

text \<open>The compressed block at a position, as \<open>seekblock\<close> reads it.\<close>

lemma read_block:
  assumes ok: "reader_ok lib log" and b: "blocks_at lib log p (b # rest)"
    and c: "sparkey_compressors lib (rtype log) = Some c"
  obtains pos where
    "read_vlq (lr_data log) p = Some (of_nat (length (block_out c (rsize log) b)), pos)"
    "unat pos = unat p + length (write_vlq (of_nat (length (block_out c (rsize log) b))))"
    "unat pos + length (block_out c (rsize log) b) \<le> length (lr_data log)"
    "take (length (block_out c (rsize log) b)) (drop (unat pos) (lr_data log)) = block_out c (rsize log) b"
    "drop (unat pos + length (block_out c (rsize log) b)) (lr_data log) = blocks_bytes c (rsize log) rest"
proof -
  let ?out = "block_out c (rsize log) b" let ?v = "write_vlq (of_nat (length ?out))"
  have dr: "drop (unat p) (lr_data log) = ?v @ ?out @ blocks_bytes c (rsize log) rest"
    and le: "unat p \<le> length (lr_data log)" and len: "length (lr_data log) < 2 ^ 63"
    using b c ok by (simp_all add: blocks_at_def block_frame_def reader_ok_def)
  have tot: "unat p + length ?v + length ?out + length (blocks_bytes c (rsize log) rest) = length (lr_data log)"
    using arg_cong [OF dr, of length] le by simp
  have rd: "read_vlq (lr_data log) p = Some (of_nat (length ?out), p + of_nat (length ?v))"
    by (rule read_vlq_at [OF dr le]) (use len in simp)
  have pos: "unat (p + of_nat (length ?v)) = unat p + length ?v"
    using tot len by (simp add: u64_arith)
  have dp: "drop (unat p + length ?v) (lr_data log) = ?out @ blocks_bytes c (rsize log) rest"
    using dr by (metis append_eq_conv_conj drop_drop add.commute)
  have dd: "drop (unat p + length ?v + length ?out) (lr_data log) = blocks_bytes c (rsize log) rest"
    using arg_cong [OF dp, of "drop (length ?out)"] by (simp add: add.commute)
  show thesis
    by (rule that [OF rd pos]) (use tot dp dd in \<open>simp_all only: pos take_append_exact, linarith?\<close>)
qed

lemma seekblock_compressed:
  assumes ok: "reader_ok lib log" and it: "iter_at lib log iter cur rest0"
    and b: "blocks_at lib log p (b # rest)" and p: "it_block_position iter \<noteq> p"
    and c: "sparkey_compressors lib (rtype log) = Some c"
  shows "\<exists>iter'. seekblock lib iter log p = Some (SPARKEY_SUCCESS, iter') \<and> at_block lib log iter' p b rest
    \<and> same_entry iter iter'"
proof -
  let ?out = "block_out c (rsize log) b"
  have u: "sparkey_uses_compressor (rtype log)" using c uses_compressor_iff by blast
  have bl: "length b \<le> unat (rsize log)" "84 \<le> unat p" "\<forall>x \<in> set rest. x \<noteq> [] \<and> length x \<le> unat (rsize log)"
    using b c by (simp_all add: blocks_at_def)
  have "compressor_ok c (rsize log)" using ok c by (simp add: reader_ok_def)
  note cm = compressor_ok_block_out [OF this bl(1)]
  have len: "length (lr_data log) < 2 ^ 63" using ok by (simp add: reader_ok_def)
  obtain pos where rd: "read_vlq (lr_data log) p = Some (of_nat (length ?out), pos)"
    and pos: "unat pos = unat p + length (write_vlq (of_nat (length ?out)))"
      "unat pos + length ?out \<le> length (lr_data log)"
    and tk: "take (length ?out) (drop (unat pos) (lr_data log)) = ?out"
    and dr: "drop (unat pos + length ?out) (lr_data log) = blocks_bytes c (rsize log) rest"
    by (rule read_block [OF ok b c])
  have sz: "unat (ucast (of_nat (length ?out) :: u64) :: u32) = length ?out"
    using cm(2) by (simp add: unsigned_ucast_eq unat_of_nat_u64 take_bit_nat_eq_self)
  then have nx: "unat (pos + ucast (ucast (of_nat (length ?out) :: u64) :: u32)) = unat pos + length ?out"
    using pos(2) len by (simp add: unat_add_u64)
  have lb: "unat (ucast (of_nat (length b) :: u32) :: u64) = length b"
    using order_le_less_trans [OF bl(1) unsigned_less] by (simp add: unat_of_nat)
  have buf: "length (it_compression_buf iter) = unat (rsize log)" using it u by (simp add: iter_at_def)
  let ?iter = "iter\<lparr>it_block_offset := 0, it_compression_buf := splice_at (it_compression_buf iter) 0 b,
      it_block_position := p, it_next_block_position := pos + ucast (ucast (of_nat (length ?out) :: u64) :: u32),
      it_block_len := ucast (of_nat (length b) :: u32)\<rparr>"
  have run: "seekblock lib iter log p = Some (SPARKEY_SUCCESS, ?iter)"
    using p u rd pos(2) c cm(3) tk sz by (simp add: seekblock_def Let_def)
  have bf: "take (length b) (splice_at (it_compression_buf iter) 0 b) = b"
    "length (splice_at (it_compression_buf iter) 0 b) = unat (rsize log)"
    using buf bl(1) by (simp_all add: splice_at_def)
  have nb: "blocks_at lib log (it_next_block_position ?iter) rest"
    using nx pos dr bl c by (simp add: blocks_at_def)
  have "p \<noteq> 0" "p < it_next_block_position ?iter"
    using bl(2) nx pos(1) length_write_vlq_pos [of "of_nat (length ?out)"] by (auto simp: word_less_nat_alt)
  then have "at_block lib log ?iter p b rest"
    using it b nb bf lb bl(1) by (simp add: at_block_def iter_at_def)
  then show ?thesis using run by (auto simp: same_entry_def)
qed

lemma seekblock_at:
  assumes "reader_ok lib log" "iter_at lib log iter cur rest0" "blocks_at lib log p (b # rest)"
  obtains iter' where "seekblock lib iter log p = Some (SPARKEY_SUCCESS, iter')"
    "at_block lib log iter' p b rest" "same_entry iter iter'"
  using seekblock_cached [OF assms] seekblock_plain [OF assms] seekblock_compressed [OF assms]
  by (cases "it_block_position iter = p"; cases "sparkey_compressors lib (rtype log)") auto

section \<open>Moving through blocks\<close>

lemma u64_le_lt: "n \<le> unat (w :: u64) \<Longrightarrow> n < 2 ^ 64"
  by (rule order_le_less_trans [where y = "unat w"]) simp_all

lemma iter_at_frame [simp]:
  "iter_at lib log (iter\<lparr>it_entry_count := x1\<rparr>) = iter_at lib log iter"
  "iter_at lib log (iter\<lparr>it_state := x2\<rparr>) = iter_at lib log iter"
  "iter_at lib log (iter\<lparr>it_type := x3\<rparr>) = iter_at lib log iter"
  "iter_at lib log (iter\<lparr>it_keylen := x4\<rparr>) = iter_at lib log iter"
  "iter_at lib log (iter\<lparr>it_valuelen := x5\<rparr>) = iter_at lib log iter"
  "iter_at lib log (iter\<lparr>it_key_remaining := x6\<rparr>) = iter_at lib log iter"
  "iter_at lib log (iter\<lparr>it_value_remaining := x7\<rparr>) = iter_at lib log iter"
  "iter_at lib log (iter\<lparr>it_entry_block_position := x8\<rparr>) = iter_at lib log iter"
  "iter_at lib log (iter\<lparr>it_entry_block_offset := x9\<rparr>) = iter_at lib log iter"
  by (intro ext, simp add: iter_at_def cong: if_cong)+

lemma iter_at_open:
  assumes "reader_ok lib log" "iter_at lib log iter cur rest"
  shows "assert_iter_open iter log = SPARKEY_SUCCESS"
  using assms by (simp add: assert_iter_open_def assert_log_open_def reader_ok_def iter_at_def)

lemma iter_at_room:
  assumes "iter_at lib log iter cur rest"
  shows "unat (it_block_len iter - it_block_offset iter) = length cur"
    "unat (it_block_offset iter) + length cur = unat (it_block_len iter)"
  using assms by (auto simp: iter_at_def word_le_nat_alt unat_sub_u64)

lemma iter_at_advance:
  assumes "iter_at lib log iter cur rest" "unat n \<le> length cur"
  shows "iter_at lib log (iter\<lparr>it_block_offset := it_block_offset iter + n\<rparr>) (drop (unat n) cur) rest"
    "unat (it_block_offset iter + n) = unat (it_block_offset iter) + unat n"
proof -
  have "unat (it_block_offset iter) + unat n \<le> unat (it_block_len iter)"
    using assms iter_at_room(2) [OF assms(1)] by simp
  moreover from this show eq: "unat (it_block_offset iter + n) = unat (it_block_offset iter) + unat n"
    by (intro unat_add_u64 u64_le_lt)
  ultimately show "iter_at lib log (iter\<lparr>it_block_offset := it_block_offset iter + n\<rparr>) (drop (unat n) cur) rest"
    using assms by (simp add: iter_at_def word_le_nat_alt add.commute)
qed

lemma blocks_at_Nil_iff:
  assumes "reader_ok lib log" "blocks_at lib log p bl"
  shows "bl = [] \<longleftrightarrow> lh_data_end (lr_header log) \<le> p"
proof -
  have de: "unat (lh_data_end (lr_header log)) = length (lr_data log)" and pl: "unat p \<le> length (lr_data log)"
    using assms by (auto simp: reader_ok_def unat_of_nat_u64 blocks_at_def)
  have "bl = [] \<longleftrightarrow> unat p = length (lr_data log)"
  proof (cases bl)
    case Nil
    then show ?thesis using assms(2) pl by (auto simp: blocks_at_def split: option.splits if_splits)
  next
    case (Cons b bs)
    then show ?thesis using assms(2) blocks_at_Cons_lt(1) [of lib log p b bs] by simp
  qed
  then show ?thesis using de pl by (auto simp: word_le_nat_alt)
qed

lemma iter_at_cur_Nil:
  assumes "iter_at lib log iter cur rest"
  shows "it_block_offset iter < it_block_len iter \<longleftrightarrow> cur \<noteq> []"
  using iter_at_room(2) [OF assms] length_greater_0_conv [of cur]
  unfolding word_less_nat_alt by linarith

lemma ensure_available_more:
  assumes "iter_at lib log iter cur rest" "cur \<noteq> []"
  shows "ensure_available lib iter log = Some (SPARKEY_SUCCESS, iter)"
  using iter_at_cur_Nil [OF assms(1)] assms(2) by (simp add: ensure_available_def)

lemma ensure_available_block:
  assumes ok: "reader_ok lib log" and it: "iter_at lib log iter [] (b # rest)"
  obtains iter' where "ensure_available lib iter log = Some (SPARKEY_SUCCESS, iter')"
    "at_block lib log iter' (it_next_block_position iter) b rest" "same_entry iter iter'"
    "it_entry_count iter' = - 1"
proof -
  have bl: "blocks_at lib log (it_next_block_position iter) (b # rest)" using it by (simp add: iter_at_def)
  have "\<not> lh_data_end (lr_header log) \<le> it_next_block_position iter" using blocks_at_Nil_iff [OF ok bl] by simp
  moreover obtain iter' where "seekblock lib iter log (it_next_block_position iter) = Some (SPARKEY_SUCCESS, iter')"
    "at_block lib log iter' (it_next_block_position iter) b rest" "same_entry iter iter'"
    by (rule seekblock_at [OF ok it bl])
  ultimately show thesis
    using iter_at_cur_Nil [OF it] that [of "iter'\<lparr>it_entry_count := - 1\<rparr>"]
    by (simp add: ensure_available_def at_block_def same_entry_def)
qed

lemma ensure_available_end:
  assumes ok: "reader_ok lib log" and it: "iter_at lib log iter [] []"
  obtains iter' where "ensure_available lib iter log = Some (SPARKEY_SUCCESS, iter')"
    "iter_at lib log iter' [] []" "same_entry iter iter'"
proof -
  have bl: "blocks_at lib log (it_next_block_position iter) []" using it by (simp add: iter_at_def)
  then have "lh_data_end (lr_header log) \<le> it_next_block_position iter" using blocks_at_Nil_iff [OF ok bl] by simp
  then show thesis
    using iter_at_cur_Nil [OF it] it that [of "iter\<lparr>it_block_position := 0, it_block_offset := 0, it_block_len := 0\<rparr>"]
    by (simp add: ensure_available_def iter_at_def same_entry_def)
qed

lemma min64_min: "unat (min64 a b) = min (unat a) (unat b)"
  by (simp add: min64_def min_def word_less_nat_alt)

text \<open>Skipping bytes that are there ends, and leaves exactly them behind.\<close>

lemma skip_at:
  assumes "reader_ok lib log" "iter_at lib log iter cur (restA @ later)" "unat n \<le> length (cur @ concat restA)"
  shows "\<exists>iter' cur' restA'. skip lib iter log n = Some (SPARKEY_SUCCESS, iter')
    \<and> iter_at lib log iter' cur' (restA' @ later) \<and> cur' @ concat restA' = drop (unat n) (cur @ concat restA)
    \<and> same_entry iter iter'"
  using assms(2,3)
proof (induction "unat n" arbitrary: n iter cur restA rule: less_induct)
  case less
  show ?case
  proof (cases "n = 0")
    case True
    then show ?thesis using less.prems by (intro exI [of _ iter] exI [of _ cur] exI [of _ restA]) (simp add: skip.simps)
  next
    case False
    then have n: "n > 0" by (simp add: word_gt_0)
    obtain iter1 cur1 restA1 where en: "ensure_available lib iter log = Some (SPARKEY_SUCCESS, iter1)"
      "iter_at lib log iter1 cur1 (restA1 @ later)" "cur1 \<noteq> []" "cur1 @ concat restA1 = cur @ concat restA"
      "same_entry iter iter1"
    proof (cases "cur = []")
      case False
      then show thesis using that [of iter cur restA] ensure_available_more [OF less.prems(1)] less.prems(1) by simp
    next
      case True
      then have "0 < length (concat restA)" 
        using less.prems(2) n by (simp only: word_less_nat_alt append_Nil)
      then obtain b bs where bs: "restA = b # bs" by (cases restA) auto
      then obtain iter1 where "ensure_available lib iter log = Some (SPARKEY_SUCCESS, iter1)"
        "at_block lib log iter1 (it_next_block_position iter) b (bs @ later)" "same_entry iter iter1"
        using ensure_available_block [OF assms(1), of iter b "bs @ later"] less.prems(1) True by auto
      moreover have "b \<noteq> []"
        using less.prems(1) blocks_at_Cons_lt(2) [of lib log "it_next_block_position iter" b "bs @ later"]
        by (simp add: iter_at_def bs)
      ultimately show thesis using that [of iter1 b bs] True bs by (simp add: at_block_def)
    qed
    let ?m = "min64 n (it_block_len iter1 - it_block_offset iter1)"
    have m: "unat ?m = min (unat n) (length cur1)" using iter_at_room(1) [OF en(2)] by (simp add: min64_min)
    have mpos: "0 < unat ?m" using m n en(3) by (auto simp: word_less_nat_alt)
    have nm: "unat (n - ?m) = unat n - unat ?m" using m by (intro unat_sub_u64) simp
    let ?iter2 = "iter1\<lparr>it_block_offset := it_block_offset iter1 + ?m\<rparr>"
    have "iter_at lib log ?iter2 (drop (unat ?m) cur1) (restA1 @ later)"
      using iter_at_advance(1) [OF en(2), of ?m] m by simp
    moreover have "unat (n - ?m) \<le> length (drop (unat ?m) cur1 @ concat restA1)"
      using nm m less.prems(2) arg_cong [OF en(4), of length] by simp
    moreover have "unat (n - ?m) < unat n" using nm mpos m by simp
    ultimately obtain iter' cur' restA' where
      r: "skip lib ?iter2 log (n - ?m) = Some (SPARKEY_SUCCESS, iter')"
      "iter_at lib log iter' cur' (restA' @ later)"
      "cur' @ concat restA' = drop (unat (n - ?m)) (drop (unat ?m) cur1 @ concat restA1)" "same_entry ?iter2 iter'"
      using less.hyps by blast
    have "drop (unat (n - ?m)) (drop (unat ?m) cur1 @ concat restA1) = drop (unat n) (cur @ concat restA)"
    proof -
      have "drop (unat ?m) cur1 @ concat restA1 = drop (unat ?m) (cur1 @ concat restA1)" using m by simp
      moreover have "unat (n - ?m) + unat ?m = unat n" using nm m by simp
      ultimately show ?thesis by (metis drop_drop en(4))
    qed
    moreover have "skip lib iter log n = Some (SPARKEY_SUCCESS, iter')"
      using n en(1) r(1) by (simp add: skip.simps [of lib iter] Let_def)
    moreover have "same_entry iter iter'" using en(5) r(4) by (simp add: same_entry_def)
    ultimately show ?thesis using r(2,3) by metis
  qed
qed

text \<open>Skipping inside the current block moves the offset only.\<close>

lemma skip_inside:
  assumes "iter_at lib log iter cur rest" "unat n \<le> length cur"
  shows "skip lib iter log n = Some (SPARKEY_SUCCESS, iter\<lparr>it_block_offset := it_block_offset iter + n\<rparr>)"
proof (cases "n = 0")
  case False
  then have n: "n > 0" "cur \<noteq> []" using assms(2) unat_gt_0 [of n] by (auto simp: word_gt_0)
  have "unat (min64 n (it_block_len iter - it_block_offset iter)) = unat n"
    using iter_at_room(1) [OF assms(1)] assms(2) by (simp add: min64_min)
  then have "min64 n (it_block_len iter - it_block_offset iter) = n" by (simp add: word_unat_eq_iff)
  then show ?thesis
    using n ensure_available_more [OF assms(1)] by (simp add: skip.simps [of lib iter] skip.simps [of lib _ log 0] Let_def)
qed (simp add: skip.simps)

end
