(* ===== verification/LogIterate.thy ===== *)
theory LogIterate
  imports LogReaderCorrect
begin

text \<open>
  Iteration over the entries of a log: \<open>reading\<close> relates an iterator to the entries it has in front of
  it, \<open>active\<close> to its current entry, and every operation of the iterator is described in these terms.
\<close>

section \<open>Groups of entries in a file\<close>

text \<open>
  A group of entries and the blocks that spell it: the leading numbers of every entry are in the
  first block, and only the last entry reaches behind it.
\<close>

definition group_layout :: "sparkey_logreader \<Rightarrow> log_entry list \<times> bytes list \<Rightarrow> bool" where
  "group_layout log x \<longleftrightarrow>
     (case x of (g, bl) \<Rightarrow>
        g \<noteq> [] \<and> bl \<noteq> [] \<and> concat bl = encode_entries g
        \<and> length (encode_entries (butlast g)) + length (entry_head (last g)) \<le> length (hd bl)
        \<and> (\<forall>e \<in> set g. entry_ok e)
        \<and> (sparkey_uses_compressor (rtype log) \<longrightarrow> length g \<le> unat (lh_max_entries_per_block (lr_header log))))"

text \<open>
  \<open>anchored rg\<close>: the groups \<open>rg\<close> are the last ones of a compressed file that is split into groups from its
  first block on. (Without compression every entry is addressed on its own.)
\<close>

definition anchored :: "codec_lib \<Rightarrow> sparkey_logreader \<Rightarrow> (log_entry list \<times> bytes list) list \<Rightarrow> bool" where
  "anchored lib log rg \<longleftrightarrow>
     (\<forall>x \<in> set rg. group_layout log x)
     \<and> (sparkey_compressors lib (rtype log) \<noteq> None \<longrightarrow>
          (\<exists>gl. (\<forall>x \<in> set gl. group_layout log x)
             \<and> blocks_at lib log (ucast LOG_HEADER_SIZE) (concat (map snd (gl @ rg)))))"

lemma anchored_layout: "anchored lib log rg \<Longrightarrow> \<forall>x \<in> set rg. group_layout log x"
  by (simp add: anchored_def)

lemma anchored_Cons:
  assumes "anchored lib log (x # rg)"
  shows "group_layout log x" "anchored lib log rg"
proof -
  show "group_layout log x" using assms by (simp add: anchored_def)
  show "anchored lib log rg"
  proof (cases "sparkey_compressors lib (rtype log) = None")
    case False
    then obtain gl where "\<forall>y \<in> set gl. group_layout log y"
      "blocks_at lib log (ucast LOG_HEADER_SIZE) (concat (map snd (gl @ x # rg)))"
      using assms by (auto simp: anchored_def)
    then have "\<forall>y \<in> set (gl @ [x]). group_layout log y"
      "blocks_at lib log (ucast LOG_HEADER_SIZE) (concat (map snd ((gl @ [x]) @ rg)))"
      using assms by (simp_all add: anchored_def)
    then show ?thesis using assms unfolding anchored_def by (metis list.set_intros(2))
  qed (use assms in \<open>simp add: anchored_def\<close>)
qed

lemma anchored_plain:
  "sparkey_compressors lib (rtype log) = None \<Longrightarrow> anchored lib log rg \<longleftrightarrow> (\<forall>x \<in> set rg. group_layout log x)"
  by (simp add: anchored_def)

text \<open>\<open>group_at p g rg\<close>: the group \<open>g\<close> starts with the block at position \<open>p\<close>, and the groups \<open>rg\<close> follow.\<close>

definition group_at ::
  "codec_lib \<Rightarrow> sparkey_logreader \<Rightarrow> u64 \<Rightarrow> log_entry list \<Rightarrow> bytes list
     \<Rightarrow> (log_entry list \<times> bytes list) list \<Rightarrow> bool" where
  "group_at lib log p g bl rg \<longleftrightarrow>
     blocks_at lib log p (bl @ concat (map snd rg)) \<and> anchored lib log ((g, bl) # rg)"

lemma group_at_simps:
  assumes "group_at lib log p g bl rg"
  shows "blocks_at lib log p (bl @ concat (map snd rg))" "group_layout log (g, bl)" "anchored lib log rg"
    "\<forall>x \<in> set rg. group_layout log x"
  using assms anchored_Cons [of lib log "(g, bl)" rg] anchored_layout [of lib log rg] by (simp_all add: group_at_def)

text \<open>The entry with index \<open>idx\<close> in the block at \<open>p\<close> is \<open>e\<close>, and \<open>es\<close> are the entries behind it.\<close>

definition entry_at ::
  "codec_lib \<Rightarrow> sparkey_logreader \<Rightarrow> u64 \<Rightarrow> nat \<Rightarrow> log_entry \<Rightarrow> log_entry list \<Rightarrow> bool" where
  "entry_at lib log p idx e es \<longleftrightarrow>
     (\<exists>g bl rg. group_at lib log p g bl rg \<and> idx < length g \<and> g ! idx = e
        \<and> es = drop (Suc idx) g @ concat (map fst rg))"

lemma encode_entries_split:
  assumes "j < length g"
  shows "encode_entries g = encode_entries (take j g) @ encode_entry (g ! j) @ encode_entries (drop (Suc j) g)"
proof -
  have "g = take j g @ g ! j # drop (Suc j) g" using assms by (rule id_take_nth_drop)
  then show ?thesis by (metis encode_entries_simps(2,3))
qed

lemma encode_entries_take_Suc:
  "j < length g \<Longrightarrow> encode_entries (take (Suc j) g) = encode_entries (take j g) @ encode_entry (g ! j)"
  by (simp add: take_Suc_conv_app_nth)

lemma encode_take_le:
  "j \<le> n \<Longrightarrow> length (encode_entries (take j g)) \<le> length (encode_entries (take n g))"
  by (metis append_take_drop_id encode_entries_simps(3) le_add1 length_append min.absorb1 take_take)

text \<open>Where entry \<open>j\<close> of a group is in the group's first block.\<close>

lemma group_split:
  assumes "group_layout log (g, b # bt)" "j < length g"
  shows "length (encode_entries (take j g)) + length (entry_head (g ! j)) \<le> length b"
    "Suc j < length g \<Longrightarrow> length (encode_entries (take (Suc j) g)) + 2 \<le> length b"
    "drop (length (encode_entries (take j g))) b @ concat bt
       = encode_entry (g ! j) @ encode_entries (drop (Suc j) g)"
proof -
  have bl: "b @ concat bt = encode_entries g" and g: "g \<noteq> []"
    and hd: "length (encode_entries (butlast g)) + length (entry_head (last g)) \<le> length b"
    using assms(1) by (simp_all add: group_layout_def)
  have bu: "butlast g = take (length g - 1) g" by (rule butlast_conv_take)
  show 1: "length (encode_entries (take j g)) + length (entry_head (g ! j)) \<le> length b"
  proof (cases "Suc j = length g")
    case True
    then have "length g - 1 = j" by simp
    then show ?thesis using hd g by (simp add: bu last_conv_nth)
  next
    case False
    then have "length (encode_entries (take (Suc j) g)) \<le> length (encode_entries (butlast g))"
      unfolding bu using assms(2) by (intro encode_take_le) linarith
    then show ?thesis using hd assms(2) by (simp add: encode_entries_take_Suc encode_entry_def)
  qed
  show "length (encode_entries (take (Suc j) g)) + 2 \<le> length b" if "Suc j < length g"
  proof -
    have "length (encode_entries (take (Suc j) g)) \<le> length (encode_entries (butlast g))"
      unfolding bu using that by (intro encode_take_le) linarith
    then show ?thesis using hd length_entry_head(1) [of "last g"] by linarith
  qed
  have "b @ concat bt = encode_entries (take j g) @ encode_entry (g ! j) @ encode_entries (drop (Suc j) g)"
    unfolding bl by (rule encode_entries_split [OF assms(2)])
  then have "drop (length (encode_entries (take j g))) (b @ concat bt)
      = encode_entry (g ! j) @ encode_entries (drop (Suc j) g)" by simp
  then show "drop (length (encode_entries (take j g))) b @ concat bt
       = encode_entry (g ! j) @ encode_entries (drop (Suc j) g)" using 1 by simp
qed

section \<open>What an iterator has in front of it\<close>

text \<open>
  Either the iterator is in the first block of a group with entries left in it, \<open>r\<close> being the unread
  rest of the entry before; or it is reading the end of the last entry of a group.
\<close>

definition in_block ::
  "codec_lib \<Rightarrow> sparkey_logreader \<Rightarrow> sparkey_logiter \<Rightarrow> log_entry list \<Rightarrow> bytes list
     \<Rightarrow> (log_entry list \<times> bytes list) list \<Rightarrow> nat \<Rightarrow> bytes \<Rightarrow> bool" where
  "in_block lib log iter g bl rg j r \<longleftrightarrow>
     group_at lib log (it_block_position iter) g bl rg
     \<and> (\<exists>cur. iter_at lib log iter cur (tl bl @ concat (map snd rg)))
     \<and> take (unat (it_block_len iter)) (it_compression_buf iter) = hd bl
     \<and> j < length g
     \<and> unat (it_block_offset iter) + length r = length (encode_entries (take j g))
     \<and> drop (unat (it_block_offset iter)) (encode_entries (take j g)) = r
     \<and> it_entry_count iter = of_nat j - 1"

definition tail_of ::
  "codec_lib \<Rightarrow> sparkey_logreader \<Rightarrow> sparkey_logiter \<Rightarrow> (log_entry list \<times> bytes list) list \<Rightarrow> bytes \<Rightarrow> bool" where
  "tail_of lib log iter rg r \<longleftrightarrow>
     anchored lib log rg
     \<and> (\<exists>cur restA. iter_at lib log iter cur (restA @ concat (map snd rg)) \<and> cur @ concat restA = r)"

definition in_group ::
  "codec_lib \<Rightarrow> sparkey_logreader \<Rightarrow> sparkey_logiter \<Rightarrow> nat \<Rightarrow> log_entry list \<Rightarrow> bool" where
  "in_group lib log iter j es \<longleftrightarrow>
     (\<exists>g bl rg. in_block lib log iter g bl rg j [] \<and> es = drop j g @ concat (map fst rg))"

text \<open>An iterator between two entries, with the entries \<open>es\<close> in front of it.\<close>

definition reading :: "codec_lib \<Rightarrow> sparkey_logreader \<Rightarrow> sparkey_logiter \<Rightarrow> log_entry list \<Rightarrow> bool" where
  "reading lib log iter es \<longleftrightarrow>
     (\<exists>j. in_group lib log iter j es) \<or> (\<exists>rg. tail_of lib log iter rg [] \<and> es = concat (map fst rg))"

text \<open>
  An iterator inside the entry \<open>e\<close>, which is entry \<open>idx\<close> of its group: the bytes \<open>r\<close> of its key and value
  are in front of it, then the entries \<open>es\<close>. The place of the entry is the one \<open>next\<close> recorded.
\<close>

definition body_at ::
  "codec_lib \<Rightarrow> sparkey_logreader \<Rightarrow> sparkey_logiter \<Rightarrow> nat \<Rightarrow> log_entry \<Rightarrow> log_entry list \<Rightarrow> bytes \<Rightarrow> bool" where
  "body_at lib log iter idx e es r \<longleftrightarrow>
     (\<exists>g bl rg. group_at lib log (it_entry_block_position iter) g bl rg \<and> idx < length g \<and> g ! idx = e
        \<and> es = drop (Suc idx) g @ concat (map fst rg)
        \<and> unat (it_entry_block_offset iter) = length (encode_entries (take idx g)) + length (entry_head e)
        \<and> (if Suc idx < length g
           then it_block_position iter = it_entry_block_position iter \<and> in_block lib log iter g bl rg (Suc idx) r
           else tail_of lib log iter rg r))"

lemma body_entry_at:
  "body_at lib log iter idx e es r \<Longrightarrow> entry_at lib log (it_entry_block_position iter) idx e es"
  unfolding body_at_def entry_at_def by blast

lemma in_block_iter_at: "in_block lib log iter g bl rg j r \<Longrightarrow> \<exists>cur rest. iter_at lib log iter cur rest"
  by (auto simp: in_block_def)

lemma tail_of_iter_at: "tail_of lib log iter rg r \<Longrightarrow> \<exists>cur rest. iter_at lib log iter cur rest"
  by (auto simp: tail_of_def)

lemma reading_iter_at: "reading lib log iter es \<Longrightarrow> \<exists>cur rest. iter_at lib log iter cur rest"
  by (auto simp: reading_def in_group_def dest: in_block_iter_at tail_of_iter_at)

lemma body_iter_at: "body_at lib log iter idx e es r \<Longrightarrow> \<exists>cur rest. iter_at lib log iter cur rest"
  by (auto simp: body_at_def split: if_splits dest: in_block_iter_at tail_of_iter_at)

lemma in_block_frame [simp]:
  "in_block lib log (iter\<lparr>it_state := x2\<rparr>) = in_block lib log iter"
  "in_block lib log (iter\<lparr>it_type := x3\<rparr>) = in_block lib log iter"
  "in_block lib log (iter\<lparr>it_keylen := x4\<rparr>) = in_block lib log iter"
  "in_block lib log (iter\<lparr>it_valuelen := x5\<rparr>) = in_block lib log iter"
  "in_block lib log (iter\<lparr>it_key_remaining := x6\<rparr>) = in_block lib log iter"
  "in_block lib log (iter\<lparr>it_value_remaining := x7\<rparr>) = in_block lib log iter"
  "in_block lib log (iter\<lparr>it_entry_block_position := x8\<rparr>) = in_block lib log iter"
  "in_block lib log (iter\<lparr>it_entry_block_offset := x9\<rparr>) = in_block lib log iter"
  by (intro ext, simp add: in_block_def)+

lemma tail_of_frame [simp]:
  "tail_of lib log (iter\<lparr>it_state := x2\<rparr>) = tail_of lib log iter"
  "tail_of lib log (iter\<lparr>it_type := x3\<rparr>) = tail_of lib log iter"
  "tail_of lib log (iter\<lparr>it_keylen := x4\<rparr>) = tail_of lib log iter"
  "tail_of lib log (iter\<lparr>it_valuelen := x5\<rparr>) = tail_of lib log iter"
  "tail_of lib log (iter\<lparr>it_key_remaining := x6\<rparr>) = tail_of lib log iter"
  "tail_of lib log (iter\<lparr>it_value_remaining := x7\<rparr>) = tail_of lib log iter"
  "tail_of lib log (iter\<lparr>it_entry_block_position := x8\<rparr>) = tail_of lib log iter"
  "tail_of lib log (iter\<lparr>it_entry_block_offset := x9\<rparr>) = tail_of lib log iter"
  by (intro ext, simp add: tail_of_def)+

lemma reading_frame [simp]:
  "reading lib log (iter\<lparr>it_state := x2\<rparr>) = reading lib log iter"
  "reading lib log (iter\<lparr>it_type := x3\<rparr>) = reading lib log iter"
  "reading lib log (iter\<lparr>it_keylen := x4\<rparr>) = reading lib log iter"
  "reading lib log (iter\<lparr>it_valuelen := x5\<rparr>) = reading lib log iter"
  "reading lib log (iter\<lparr>it_key_remaining := x6\<rparr>) = reading lib log iter"
  "reading lib log (iter\<lparr>it_value_remaining := x7\<rparr>) = reading lib log iter"
  by (intro ext, simp add: reading_def in_group_def)+

lemma body_frame [simp]:
  "body_at lib log (iter\<lparr>it_state := x2\<rparr>) = body_at lib log iter"
  "body_at lib log (iter\<lparr>it_type := x3\<rparr>) = body_at lib log iter"
  "body_at lib log (iter\<lparr>it_keylen := x4\<rparr>) = body_at lib log iter"
  "body_at lib log (iter\<lparr>it_valuelen := x5\<rparr>) = body_at lib log iter"
  "body_at lib log (iter\<lparr>it_key_remaining := x6\<rparr>) = body_at lib log iter"
  "body_at lib log (iter\<lparr>it_value_remaining := x7\<rparr>) = body_at lib log iter"
  by (intro ext, simp add: body_at_def)+

lemma body_reading:
  assumes "body_at lib log iter idx e es []"
  shows "reading lib log iter es"
  using assms unfolding body_at_def reading_def in_group_def by (auto split: if_splits)

text \<open>Inside the first block of a group the iterator never leaves the block.\<close>

lemma in_block_advance:
  assumes ib: "in_block lib log iter g bl rg j r" and n: "unat n \<le> length r"
  shows "in_block lib log (iter\<lparr>it_block_offset := it_block_offset iter + n\<rparr>) g bl rg j (drop (unat n) r)"
    "\<exists>cur rest. iter_at lib log iter cur rest \<and> take (length r) cur = r \<and> cur \<noteq> [] \<and> length r \<le> length cur"
proof -
  obtain b bt where bl: "bl = b # bt"
    using ib by (cases bl) (auto simp: in_block_def group_layout_def dest!: group_at_simps(2))
  from ib obtain cur where ga: "group_at lib log (it_block_position iter) g (b # bt) rg"
    and it: "iter_at lib log iter cur (bt @ concat (map snd rg))"
    and b: "take (unat (it_block_len iter)) (it_compression_buf iter) = b"
    and j: "j < length g"
    and off: "unat (it_block_offset iter) + length r = length (encode_entries (take j g))"
      "drop (unat (it_block_offset iter)) (encode_entries (take j g)) = r"
    and cnt: "it_entry_count iter = of_nat j - 1"
    by (auto simp: in_block_def bl)
  have lay: "group_layout log (g, b # bt)" using group_at_simps [OF ga] by simp
  note sp = group_split(1,3) [OF lay j]
  have cur: "cur = drop (unat (it_block_offset iter)) b" using it b by (simp add: iter_at_def)
  have le: "length r < length cur"
    using sp(1) off(1) length_entry_head(1) [of "g ! j"] unfolding cur length_drop by linarith
  have pre: "take (length (encode_entries (take j g))) b = encode_entries (take j g)"
  proof -
    have "b @ concat bt = encode_entries (take j g) @ encode_entry (g ! j) @ encode_entries (drop (Suc j) g)"
      using lay encode_entries_split [OF j] by (simp add: group_layout_def)
    then have "take (length (encode_entries (take j g))) (b @ concat bt) = encode_entries (take j g)" by simp
    then show ?thesis using sp(1) by simp
  qed
  have "take (length r) cur = r"
    unfolding cur using pre off by (metis drop_take add_diff_cancel_left')
  then show "\<exists>cur rest. iter_at lib log iter cur rest \<and> take (length r) cur = r \<and> cur \<noteq> [] \<and> length r \<le> length cur"
    using it le by force
  have le': "unat n \<le> length cur" using n le by simp
  note adv = iter_at_advance [OF it le']
  show "in_block lib log (iter\<lparr>it_block_offset := it_block_offset iter + n\<rparr>) g bl rg j (drop (unat n) r)"
    unfolding in_block_def using ga adv b j off cnt n by (auto simp: bl add.commute)
qed

lemma tail_of_skip:
  assumes ok: "reader_ok lib log" and tl: "tail_of lib log iter rg r" and n: "unat n \<le> length r"
  obtains iter' where "skip lib iter log n = Some (SPARKEY_SUCCESS, iter')"
    "tail_of lib log iter' rg (drop (unat n) r)" "same_entry iter iter'"
proof -
  from tl obtain cur restA where it: "iter_at lib log iter cur (restA @ concat (map snd rg))"
    and x: "anchored lib log rg" "cur @ concat restA = r"
    by (auto simp: tail_of_def)
  from skip_at [OF ok it, of n] n x(2) obtain iter' cur' restA' where
    "skip lib iter log n = Some (SPARKEY_SUCCESS, iter')" "iter_at lib log iter' cur' (restA' @ concat (map snd rg))"
    "cur' @ concat restA' = drop (unat n) r" "same_entry iter iter'" by auto
  then show thesis using that [of iter'] x unfolding tail_of_def by blast
qed

lemma body_skip:
  assumes ok: "reader_ok lib log" and bd: "body_at lib log iter idx e es r" and n: "unat n \<le> length r"
  obtains iter' where "skip lib iter log n = Some (SPARKEY_SUCCESS, iter')"
    "body_at lib log iter' idx e es (drop (unat n) r)" "same_entry iter iter'"
proof -
  from bd obtain g bl rg where ga: "group_at lib log (it_entry_block_position iter) g bl rg"
    and i: "idx < length g" "g ! idx = e" "es = drop (Suc idx) g @ concat (map fst rg)"
    and off: "unat (it_entry_block_offset iter) = length (encode_entries (take idx g)) + length (entry_head e)"
    and st: "if Suc idx < length g
        then it_block_position iter = it_entry_block_position iter \<and> in_block lib log iter g bl rg (Suc idx) r
        else tail_of lib log iter rg r"
    by (auto simp: body_at_def)
  show thesis
  proof (cases "Suc idx < length g")
    case True
    then have ib: "in_block lib log iter g bl rg (Suc idx) r" using st by simp
    from in_block_advance(2) [OF ib n] obtain cur rest where it: "iter_at lib log iter cur rest"
      "length r \<le> length cur" by blast
    let ?iter = "iter\<lparr>it_block_offset := it_block_offset iter + n\<rparr>"
    have "body_at lib log ?iter idx e es (drop (unat n) r)"
      unfolding body_at_def using ga i off st True in_block_advance(1) [OF ib n]
      by (intro exI [of _ g] exI [of _ bl] exI [of _ rg]) simp
    then show thesis
      using that [of ?iter] skip_inside [OF it(1), of n] it(2) n by (simp add: same_entry_def)
  next
    case False
    obtain iter' where sk: "skip lib iter log n = Some (SPARKEY_SUCCESS, iter')"
      "tail_of lib log iter' rg (drop (unat n) r)" "same_entry iter iter'"
      using tail_of_skip [OF ok _ n] st False by auto
    have "body_at lib log iter' idx e es (drop (unat n) r)"
      unfolding body_at_def using ga i off sk(2,3) False
      by (intro exI [of _ g] exI [of _ bl] exI [of _ rg]) (simp add: same_entry_def)
    then show thesis using that sk by blast
  qed
qed

text \<open>Behind the last byte of an entry there is another entry in the block, another group, or nothing.\<close>

lemma iter_at_blocks_nonempty:
  assumes "iter_at lib log iter cur rest"
  shows "\<forall>b \<in> set rest. b \<noteq> []"
  using assms by (auto simp: iter_at_def blocks_at_def split: option.splits if_splits)

lemma ensure_entry:
  assumes ok: "reader_ok lib log" and rd: "reading lib log iter es" and es: "es \<noteq> []"
  obtains iter' j where "ensure_available lib iter log = Some (SPARKEY_SUCCESS, iter')"
    "in_group lib log iter' j es" "same_entry iter iter'"
proof (cases "\<exists>j. in_group lib log iter j es")
  case True
  then obtain j where ig: "in_group lib log iter j es" ..
  then obtain g bl rg where ib: "in_block lib log iter g bl rg j []" by (auto simp: in_group_def)
  from in_block_advance(2) [OF ib, of 0] obtain cur rest where "iter_at lib log iter cur rest" "cur \<noteq> []" by auto
  then show thesis using that [of iter j] ensure_available_more ig by simp
next
  case False
  then obtain cur restA rg where it: "iter_at lib log iter cur (restA @ concat (map snd rg))"
    and x: "anchored lib log rg" "cur @ concat restA = []" "es = concat (map fst rg)"
    using rd by (auto simp: reading_def tail_of_def)
  have restA: "restA = []" using iter_at_blocks_nonempty [OF it] x(2) by (cases restA) auto
  obtain g bl rg' where rg: "rg = (g, bl) # rg'" using es x(3) by (cases rg) auto
  then have lay: "group_layout log (g, bl)" using x(1) anchored_Cons(1) by blast
  then obtain b bt where bl: "bl = b # bt" by (cases bl) (auto simp: group_layout_def)
  obtain iter' where en: "ensure_available lib iter log = Some (SPARKEY_SUCCESS, iter')"
    "at_block lib log iter' (it_next_block_position iter) b (bt @ concat (map snd rg'))" "same_entry iter iter'"
    "it_entry_count iter' = - 1"
    using ensure_available_block [OF ok, of iter b "bt @ concat (map snd rg')"] it x(2) restA rg bl by auto
  have p: "it_block_position iter' = it_next_block_position iter" "it_block_offset iter' = 0"
    and it': "iter_at lib log iter' b (bt @ concat (map snd rg'))"
    using en(2) by (simp_all add: at_block_def)
  have ga: "group_at lib log (it_block_position iter') g bl rg'"
    using it x(1) rg bl restA lay by (simp add: group_at_def p iter_at_def)
  have "take (unat (it_block_len iter')) (it_compression_buf iter') = b"
    using it' p(2) by (simp add: iter_at_def)
  then have "in_block lib log iter' g bl rg' 0 []"
    unfolding in_block_def using ga it' lay en(4) p(2) bl by (auto simp: group_layout_def)
  then have "in_group lib log iter' 0 es" using x(3) rg by (auto simp: in_group_def)
  then show thesis using that en by blast
qed

lemma ensure_end:
  assumes ok: "reader_ok lib log" and rd: "reading lib log iter []"
  obtains iter' where "ensure_available lib iter log = Some (SPARKEY_SUCCESS, iter')"
    "iter_at lib log iter' [] []" "same_entry iter iter'"
proof -
  obtain cur restA rg where it: "iter_at lib log iter cur (restA @ concat (map snd rg))"
    and x: "anchored lib log rg" "cur @ concat restA = []" "concat (map fst rg) = []"
    using rd by (auto simp: reading_def in_group_def in_block_def tail_of_def)
  have "restA = []" using iter_at_blocks_nonempty [OF it] x(2) by (cases restA) auto
  moreover have "rg = []" using anchored_layout [OF x(1)] x(3) by (cases rg) (auto simp: group_layout_def)
  ultimately show thesis using ensure_available_end [OF ok, of iter] it x(2) that by auto
qed

section \<open>The next entry\<close>

lemma read_vlq_here:
  assumes "drop (unat pos) arr = write_vlq v @ rest" "unat pos + length (write_vlq v) < 2 ^ 64"
  shows "read_vlq arr pos = Some (v, pos + of_nat (length (write_vlq v)))"
    "unat (pos + of_nat (length (write_vlq v))) = unat pos + length (write_vlq v)"
proof -
  let ?pre = "take (unat pos) arr"
  have "unat pos \<le> length arr"
    using assms(1) by (metis append_is_Nil_conv drop_all linear write_vlq_not_Nil)
  then have l: "length ?pre = unat pos" by simp
  have "arr = ?pre @ write_vlq v @ rest" using assms(1) by (metis append_take_drop_id)
  then show "read_vlq arr pos = Some (v, pos + of_nat (length (write_vlq v)))"
    using read_vlq_write [of ?pre v rest] assms(2) l by (metis of_nat_add of_nat_unat_u64)
  show "unat (pos + of_nat (length (write_vlq v))) = unat pos + length (write_vlq v)"
    using assms(2) by (simp add: u64_arith)
qed

text \<open>Without compression \<open>next\<close> starts a new block at the entry.\<close>

lemma in_group_rebase:
  assumes ok: "reader_ok lib log" and ig: "in_group lib log iter j es"
    and c: "sparkey_compressors lib (rtype log) = None"
  shows "in_group lib log (iter\<lparr>it_block_position := it_block_position iter + it_block_offset iter,
           it_block_len := it_block_len iter - it_block_offset iter, it_block_offset := 0,
           it_compression_buf := drop (unat (it_block_position iter + it_block_offset iter)) (lr_data log),
           it_entry_count := - 1\<rparr>) 0 es"
proof -
  from ig obtain g bl rg cur where ga0: "group_at lib log (it_block_position iter) g bl rg"
    and it0: "iter_at lib log iter cur (tl bl @ concat (map snd rg))"
    and b0: "take (unat (it_block_len iter)) (it_compression_buf iter) = hd bl"
    and j: "j < length g" "es = drop j g @ concat (map fst rg)"
    and off: "unat (it_block_offset iter) = length (encode_entries (take j g))"
    by (auto simp: in_group_def in_block_def)
  obtain b bt where "bl = b # bt" using ga0 by (cases bl) (auto dest!: group_at_simps(2) simp: group_layout_def)
  then have ga: "group_at lib log (it_block_position iter) g (b # bt) rg"
    and it: "iter_at lib log iter cur (bt @ concat (map snd rg))"
    and b: "take (unat (it_block_len iter)) (it_compression_buf iter) = b"
    using ga0 it0 b0 by simp_all
  let ?p = "it_block_position iter" let ?o = "it_block_offset iter"
  have lay: "group_layout log (g, b # bt)" "\<forall>x \<in> set rg. group_layout log x"
    and bl: "blocks_at lib log ?p (b # bt @ concat (map snd rg))"
    using group_at_simps [OF ga] by simp_all
  have bp: "b = drop (unat ?p) (lr_data log)" "84 \<le> unat ?p" "unat ?p \<le> length (lr_data log)"
    and nil: "bt = []" "concat (map snd rg) = []"
    using bl c by (auto simp: blocks_at_def split: if_splits)
  have rg: "rg = []" using nil(2) lay(2) by (cases rg) (auto simp: group_layout_def)
  note sp = group_split(1,3) [OF lay(1) j(1)]
  have lt: "unat ?o < length b" using sp(1) off length_entry_head(1) [of "g ! j"] by linarith
  have len: "length (lr_data log) < 2 ^ 63" using ok by (simp add: reader_ok_def)
  have po: "unat (?p + ?o) = unat ?p + unat ?o" using lt bp len by (intro unat_add_u64) simp
  have b': "drop (unat (?p + ?o)) (lr_data log) = drop (unat ?o) b" unfolding po bp(1) by (simp add: add.commute)
  have enc: "drop (unat ?o) b = encode_entries (drop j g)"
    using sp(2) j(1) off nil(1) by (simp add: Cons_nth_drop_Suc [symmetric] del: Cons_nth_drop_Suc)
  have blen: "length b = unat (it_block_len iter)" using b it by (auto simp: iter_at_def)
  then have len': "unat (it_block_len iter - ?o) = length (drop (unat ?o) b)" using lt by (simp add: unat_sub_u64)
  have dj: "drop j g \<noteq> []" using j(1) by simp
  have ents: "encode_entries (drop j g) = encode_entries (butlast (drop j g)) @ encode_entry (last (drop j g))"
    using dj by (metis append_Nil2 append_butlast_last_id encode_entries_simps)
  have "length (encode_entries (butlast (drop j g))) + length (entry_head (last (drop j g))) \<le> length (drop (unat ?o) b)"
    unfolding enc by (subst ents) (simp add: encode_entry_def)
  moreover have "\<forall>e \<in> set (drop j g). entry_ok e" using lay(1) in_set_dropD [of _ j g] by (auto simp: group_layout_def)
  ultimately have lay': "group_layout log (drop j g, [drop (unat ?o) b])"
    using dj enc c uses_compressor_iff [of "rtype log" lib] by (simp add: group_layout_def)
  have bl': "blocks_at lib log (?p + ?o) [drop (unat ?o) b]"
  proof -
    have "unat ?p + unat ?o < length (lr_data log)" using lt bp by simp
    then show ?thesis using c bp b' by (simp add: blocks_at_def po)
  qed
  have nb: "it_next_block_position iter = lh_data_end (lr_header log)"
  proof -
    have "lh_data_end (lr_header log) \<le> it_next_block_position iter"
      using blocks_at_Nil_iff [OF ok, of "it_next_block_position iter" "[]"] it nil rg by (simp add: iter_at_def)
    moreover have "unat (it_next_block_position iter) \<le> unat (lh_data_end (lr_header log))"
      using it ok by (auto simp: iter_at_def blocks_at_def reader_ok_def unat_of_nat_u64)
    ultimately show ?thesis by (simp add: word_le_nat_alt word_unat_eq_iff)
  qed
  have "unat (lh_data_end (lr_header log)) = length (lr_data log)"
    using ok by (auto simp: reader_ok_def unat_of_nat_u64)
  then have pos: "?p + ?o < it_next_block_position iter" "?p + ?o \<noteq> 0"
    using po lt bp unat_0 unfolding nb word_less_nat_alt by auto
  let ?iter = "iter\<lparr>it_block_position := ?p + ?o, it_block_len := it_block_len iter - ?o, it_block_offset := 0,
           it_compression_buf := drop (unat (?p + ?o)) (lr_data log), it_entry_count := - 1\<rparr>"
  have bf: "take (unat (it_block_len ?iter)) (it_compression_buf ?iter) = drop (unat ?o) b"
    using len' b' by simp
  have "iter_at lib log ?iter (drop (unat ?o) b) []"
    using it pos bl' nil rg len' b' c uses_compressor_iff [of _ lib] unfolding iter_at_def bf by simp
  then have "in_block lib log ?iter (drop j g) [drop (unat ?o) b] [] 0 []"
    unfolding in_block_def group_at_def anchored_plain [OF c] using lay' bl' bf j by auto
  then show ?thesis unfolding in_group_def using j rg by fastforce
qed

text \<open>Reading the two leading numbers of the entry in front of the iterator.\<close>

lemma read_head:
  assumes buf: "drop (unat off) buf = entry_head e @ rest" and small: "unat off + length (entry_head e) < 2 ^ 64"
  obtains off1 where "read_vlq buf off = Some (fst (entry_nums e), off1)"
    "read_vlq buf off1 = Some (snd (entry_nums e), off + of_nat (length (entry_head e)))"
    "unat (off + of_nat (length (entry_head e))) = unat off + length (entry_head e)"
proof -
  let ?v1 = "write_vlq (fst (entry_nums e))" and ?v2 = "write_vlq (snd (entry_nums e))"
  have hd: "entry_head e = ?v1 @ ?v2" by (simp add: entry_head_def)
  have 1: "drop (unat off) buf = ?v1 @ (?v2 @ rest)" "unat off + length ?v1 < 2 ^ 64"
    using buf small by (simp_all add: hd)
  note v1 = read_vlq_here [OF 1]
  have "drop (length ?v1) (drop (unat off) buf) = ?v2 @ rest" unfolding 1(1) by simp
  then have 2: "drop (unat (off + of_nat (length ?v1))) buf = ?v2 @ rest"
    "unat (off + of_nat (length ?v1)) + length ?v2 < 2 ^ 64"
    unfolding v1(2) using small by (simp_all add: add.commute hd)
  note v2 = read_vlq_here [OF 2]
  have eq: "off + of_nat (length ?v1) + of_nat (length ?v2) = off + of_nat (length (entry_head e))"
    by (simp add: hd)
  have "unat (off + of_nat (length (entry_head e))) = unat off + length (entry_head e)"
    using v2(2) unfolding eq v1(2) by (simp add: hd)
  then show thesis by (intro that [OF v1(1) v2(1) [unfolded eq]])
qed

lemma in_group_entry:
  assumes ig: "in_group lib log iter j (e # es)"
  obtains g b bt rg tail where
    "group_at lib log (it_block_position iter) g (b # bt) rg" "j < length g" "e = g ! j"
    "es = drop (Suc j) g @ concat (map fst rg)"
    "take (unat (it_block_len iter)) (it_compression_buf iter) = b"
    "unat (it_block_offset iter) = length (encode_entries (take j g))"
    "it_entry_count iter = of_nat j - 1"
    "iter_at lib log iter (entry_head e @ tail) (bt @ concat (map snd rg))"
    "tail @ concat bt = entry_body e @ encode_entries (drop (Suc j) g)"
proof -
  from ig obtain g bl rg cur where ga0: "group_at lib log (it_block_position iter) g bl rg"
    and it0: "iter_at lib log iter cur (tl bl @ concat (map snd rg))"
    and b0: "take (unat (it_block_len iter)) (it_compression_buf iter) = hd bl"
    and j: "j < length g" "e # es = drop j g @ concat (map fst rg)"
    and off: "unat (it_block_offset iter) = length (encode_entries (take j g))"
    and cnt: "it_entry_count iter = of_nat j - 1"
    by (auto simp: in_group_def in_block_def)
  obtain b bt where "bl = b # bt" using ga0 by (cases bl) (auto dest!: group_at_simps(2) simp: group_layout_def)
  then have ga: "group_at lib log (it_block_position iter) g (b # bt) rg"
    and it: "iter_at lib log iter cur (bt @ concat (map snd rg))"
    and b: "take (unat (it_block_len iter)) (it_compression_buf iter) = b"
    using ga0 it0 b0 by simp_all
  have e: "e = g ! j" "es = drop (Suc j) g @ concat (map fst rg)"
    using j by (simp_all add: Cons_nth_drop_Suc [symmetric])
  have lay: "group_layout log (g, b # bt)" using group_at_simps [OF ga] by simp
  note sp = group_split(1,3) [OF lay j(1), folded e(1) off]
  have cur: "cur = drop (unat (it_block_offset iter)) b" using it b by (simp add: iter_at_def)
  have st: "cur @ concat bt = entry_head e @ entry_body e @ encode_entries (drop (Suc j) g)"
    using sp(2) by (simp add: cur encode_entry_def)
  have hl: "length (entry_head e) \<le> length cur" using sp(1) cur by simp
  define tail where "tail = drop (length (entry_head e)) cur"
  have "take (length (entry_head e)) (cur @ concat bt) = entry_head e" unfolding st by simp
  then have hd: "take (length (entry_head e)) cur = entry_head e" using hl by simp
  have cu: "cur = entry_head e @ tail"
    using append_take_drop_id [of "length (entry_head e)" cur] unfolding hd tail_def by simp
  have "tail @ concat bt = entry_body e @ encode_entries (drop (Suc j) g)"
    using st unfolding cu by simp
  then show thesis using that [OF ga j(1) e b off cnt] it cu by simp
qed

lemma parse_entry:
  assumes ig: "in_group lib log iter j (e # es)"
  obtains off1 off2 where
    "read_vlq (it_compression_buf iter) (it_block_offset iter) = Some (fst (entry_nums e), off1)"
    "read_vlq (it_compression_buf iter) off1 = Some (snd (entry_nums e), off2)"
    "entry_ok e"
    "body_at lib log (iter\<lparr>it_entry_count := it_entry_count iter + 1, it_block_offset := off2,
       it_entry_block_position := it_block_position iter, it_entry_block_offset := off2\<rparr>) j e es (entry_body e)"
    "it_entry_count iter + 1 = of_nat j"
proof -
  obtain g b bt rg tail where ga: "group_at lib log (it_block_position iter) g (b # bt) rg"
    and j: "j < length g" "e = g ! j" "es = drop (Suc j) g @ concat (map fst rg)"
    and b: "take (unat (it_block_len iter)) (it_compression_buf iter) = b"
    and off: "unat (it_block_offset iter) = length (encode_entries (take j g))"
    and cnt: "it_entry_count iter = of_nat j - 1"
    and it: "iter_at lib log iter (entry_head e @ tail) (bt @ concat (map snd rg))"
    and tl: "tail @ concat bt = entry_body e @ encode_entries (drop (Suc j) g)"
    by (rule in_group_entry [OF ig])
  let ?o = "it_block_offset iter" let ?h = "length (entry_head e)" let ?buf = "it_compression_buf iter"
  have ok: "entry_ok e" using group_at_simps(2) [OF ga] j by (simp add: group_layout_def)
  have lay: "anchored lib log rg" using group_at_simps [OF ga] by simp
  have room: "unat ?o + length (entry_head e @ tail) = unat (it_block_len iter)" by (rule iter_at_room(2) [OF it])
  have cur: "drop (unat ?o) (take (unat (it_block_len iter)) ?buf) = entry_head e @ tail"
    using it by (simp add: iter_at_def)
  have "drop (unat ?o) ?buf = drop (unat ?o) (take (unat (it_block_len iter)) ?buf @ drop (unat (it_block_len iter)) ?buf)"
    by simp
  also have "\<dots> = (entry_head e @ tail) @ drop (unat (it_block_len iter)) ?buf"
    using room it unfolding drop_append cur by (simp add: iter_at_def)
  finally have buf: "drop (unat ?o) ?buf = entry_head e @ (tail @ drop (unat (it_block_len iter)) ?buf)" by simp
  have small: "unat ?o + ?h < 2 ^ 64" using room by (intro u64_le_lt [of _ "it_block_len iter"]) simp
  obtain off1 where rd: "read_vlq ?buf ?o = Some (fst (entry_nums e), off1)"
    "read_vlq ?buf off1 = Some (snd (entry_nums e), ?o + of_nat ?h)" and o2: "unat (?o + of_nat ?h) = unat ?o + ?h"
    by (rule read_head [OF buf small])
  have hu: "unat (of_nat ?h :: u64) = ?h" using length_entry_head(2) [of e] by (intro unat_of_nat_u64) simp
  let ?iter = "iter\<lparr>it_entry_count := it_entry_count iter + 1, it_block_offset := ?o + of_nat ?h\<rparr>"
  have "iter_at lib log (iter\<lparr>it_entry_count := it_entry_count iter + 1\<rparr>) (entry_head e @ tail) (bt @ concat (map snd rg))"
    using it by simp
  from iter_at_advance(1) [OF this, of "of_nat ?h"] hu
  have it': "iter_at lib log ?iter tail (bt @ concat (map snd rg))" by simp
  let ?iter2 = "?iter\<lparr>it_entry_block_position := it_block_position iter, it_entry_block_offset := ?o + of_nat ?h\<rparr>"
  have st: "if Suc j < length g
      then it_block_position ?iter2 = it_entry_block_position ?iter2 \<and> in_block lib log ?iter2 g (b # bt) rg (Suc j) (entry_body e)
      else tail_of lib log ?iter2 rg (entry_body e)"
  proof (cases "Suc j < length g")
    case True
    have "unat (?o + of_nat ?h) + length (entry_body e) = length (encode_entries (take (Suc j) g))"
      "drop (unat (?o + of_nat ?h)) (encode_entries (take (Suc j) g)) = entry_body e"
      using j off o2 by (simp_all add: encode_entries_take_Suc encode_entry_def)
    then have "in_block lib log ?iter g (b # bt) rg (Suc j) (entry_body e)"
      unfolding in_block_def using ga it' b True cnt by auto
    then show ?thesis using True by simp
  next
    case False
    then have "tail_of lib log ?iter rg (entry_body e)"
      unfolding tail_of_def using it' lay tl by (auto intro!: exI [of _ tail] exI [of _ bt])
    then show ?thesis using False by simp
  qed
  have "body_at lib log ?iter2 j e es (entry_body e)"
    unfolding body_at_def using ga j o2 off st by (intro exI [of _ g] exI [of _ "b # bt"] exI [of _ rg]) simp
  then show thesis using that [OF rd ok] cnt by simp
qed

text \<open>
  An iterator whose current entry is \<open>e\<close>, with the bytes \<open>rk\<close> of its key and \<open>rv\<close> of its value not yet
  delivered, and the entries \<open>es\<close> behind it.
\<close>

definition active ::
  "codec_lib \<Rightarrow> sparkey_logreader \<Rightarrow> sparkey_logiter \<Rightarrow> log_entry \<Rightarrow> log_entry list \<Rightarrow> bytes \<Rightarrow> bytes \<Rightarrow> bool" where
  "active lib log iter e es rk rv \<longleftrightarrow>
     it_state iter = SPARKEY_ITER_ACTIVE
     \<and> it_type iter = (if is_put e then SPARKEY_ENTRY_PUT else SPARKEY_ENTRY_DELETE)
     \<and> it_keylen iter = of_nat (length (entry_key e)) \<and> it_valuelen iter = of_nat (length (entry_value e))
     \<and> it_key_remaining iter = of_nat (length rk) \<and> it_value_remaining iter = of_nat (length rv)
     \<and> (\<exists>k0 v0. entry_key e = k0 @ rk \<and> entry_value e = v0 @ rv)
     \<and> entry_ok e \<and> (\<exists>idx. body_at lib log iter idx e es (rk @ rv))"

text \<open>An iterator in front of the entries \<open>es\<close>, in the middle of an entry or not.\<close>

definition before :: "codec_lib \<Rightarrow> sparkey_logreader \<Rightarrow> sparkey_logiter \<Rightarrow> log_entry list \<Rightarrow> bool" where
  "before lib log iter es \<longleftrightarrow>
     it_state iter \<noteq> SPARKEY_ITER_CLOSED
     \<and> (if it_state iter = SPARKEY_ITER_ACTIVE then \<exists>e rk rv. active lib log iter e es rk rv
        else reading lib log iter es)"

lemma active_state: "active lib log iter e es rk rv \<Longrightarrow> it_state iter = SPARKEY_ITER_ACTIVE"
  by (simp add: active_def)

lemma active_before: "active lib log iter e es rk rv \<Longrightarrow> before lib log iter es"
  using active_state [of lib log iter e es rk rv] by (auto simp: before_def)

lemma active_lengths:
  assumes "active lib log iter e es rk rv"
  shows "unat (it_key_remaining iter) = length rk" "unat (it_value_remaining iter) = length rv"
    "length rk < 2 ^ 63" "length rv < 2 ^ 63"
proof -
  from assms obtain k0 v0 where kv: "entry_key e = k0 @ rk" "entry_value e = v0 @ rv" and ok: "entry_ok e"
    by (auto simp: active_def)
  have "length (encode_entry e) = length (entry_head e) + (length k0 + length rk) + (length v0 + length rv)"
    by (simp add: encode_entry_def entry_body_def kv)
  then show *: "length rk < 2 ^ 63" "length rv < 2 ^ 63" using ok by (simp_all add: entry_ok_def)
  then show "unat (it_key_remaining iter) = length rk" "unat (it_value_remaining iter) = length rv"
    using assms by (simp_all add: active_def unat_of_nat_u64)
qed

lemma before_iter_at: "before lib log iter es \<Longrightarrow> \<exists>cur rest. iter_at lib log iter cur rest"
  by (auto simp: before_def active_def split: if_splits dest: reading_iter_at body_iter_at)

text \<open>The first part of \<open>next\<close>: what is left of the current entry is skipped.\<close>

lemma skip_zero [simp]: "skip lib iter log 0 = Some (SPARKEY_SUCCESS, iter)"
  by (simp add: skip.simps)

lemma before_skips:
  assumes ok: "reader_ok lib log" and bf: "before lib log iter es"
    and iter1: "iter1 = iter\<lparr>it_state := SPARKEY_ITER_INVALID, it_key_remaining := 0, it_value_remaining := 0,
      it_keylen := 0, it_valuelen := 0\<rparr>"
  obtains iter2 iter3 where
    "skip lib iter1 log (if it_state iter = SPARKEY_ITER_ACTIVE then it_key_remaining iter else 0) = Some (SPARKEY_SUCCESS, iter2)"
    "skip lib iter2 log (if it_state iter = SPARKEY_ITER_ACTIVE then it_value_remaining iter else 0) = Some (SPARKEY_SUCCESS, iter3)"
    "reading lib log iter3 es"
proof (cases "it_state iter = SPARKEY_ITER_ACTIVE")
  case True
  then obtain e rk rv where a: "active lib log iter e es rk rv" using bf by (auto simp: before_def)
  then obtain idx where bd: "body_at lib log iter idx e es (rk @ rv)" by (auto simp: active_def)
  note len = active_lengths(1,2) [OF a]
  have bd1: "body_at lib log iter1 idx e es (rk @ rv)" using bd by (simp add: iter1)
  have le: "unat (it_key_remaining iter) \<le> length (rk @ rv)" using len by simp
  obtain iter2 where 2: "skip lib iter1 log (it_key_remaining iter) = Some (SPARKEY_SUCCESS, iter2)"
    "body_at lib log iter2 idx e es (drop (unat (it_key_remaining iter)) (rk @ rv))"
    by (rule body_skip [OF ok bd1 le])
  have "body_at lib log iter2 idx e es rv" "unat (it_value_remaining iter) \<le> length rv" using 2(2) len by simp_all
  then obtain iter3 where "skip lib iter2 log (it_value_remaining iter) = Some (SPARKEY_SUCCESS, iter3)"
    "body_at lib log iter3 idx e es (drop (unat (it_value_remaining iter)) rv)"
    by (rule body_skip [OF ok])
  then show thesis using that [OF _ _ body_reading] True 2(1) len by simp
next
  case False
  then have "reading lib log iter1 es" using bf by (simp add: before_def iter1)
  then show thesis using that [of iter1 iter1] False by simp
qed

lemma before_open:
  assumes "reader_ok lib log" "before lib log iter es"
  shows "assert_iter_open (iter\<lparr>it_state := SPARKEY_ITER_INVALID, it_key_remaining := 0, it_value_remaining := 0,
      it_keylen := 0, it_valuelen := 0\<rparr>) log = SPARKEY_SUCCESS"
  using before_iter_at [OF assms(2)] iter_at_open [OF assms(1)] by auto

lemma logiter_next_end:
  assumes ok: "reader_ok lib log" and bf: "before lib log iter []"
  obtains iter' where "sparkey_logiter_next lib iter log = Some (SPARKEY_SUCCESS, iter')"
    "it_state iter' = SPARKEY_ITER_CLOSED" "\<exists>cur rest. iter_at lib log iter' cur rest"
proof -
  let ?iter1 = "iter\<lparr>it_state := SPARKEY_ITER_INVALID, it_key_remaining := 0, it_value_remaining := 0,
      it_keylen := 0, it_valuelen := 0\<rparr>"
  obtain iter2 iter3 where sk:
    "skip lib ?iter1 log (if it_state iter = SPARKEY_ITER_ACTIVE then it_key_remaining iter else 0) = Some (SPARKEY_SUCCESS, iter2)"
    "skip lib iter2 log (if it_state iter = SPARKEY_ITER_ACTIVE then it_value_remaining iter else 0) = Some (SPARKEY_SUCCESS, iter3)"
    "reading lib log iter3 []"
    by (rule before_skips [OF ok bf refl])
  obtain iter4 where en: "ensure_available lib iter3 log = Some (SPARKEY_SUCCESS, iter4)" "iter_at lib log iter4 [] []"
    by (rule ensure_end [OF ok sk(3)])
  have z: "it_block_len iter4 - it_block_offset iter4 = 0"
    using iter_at_room(1) [OF en(2)] by (simp add: unat_eq_0)
  have ns: "it_state iter \<noteq> SPARKEY_ITER_CLOSED" using bf by (simp add: before_def)
  have "sparkey_logiter_next lib iter log = Some (SPARKEY_SUCCESS, iter4\<lparr>it_state := SPARKEY_ITER_CLOSED\<rparr>)"
    unfolding sparkey_logiter_next_def Let_def using ns before_open [OF ok bf] sk(1,2) en(1) z by simp
  then show thesis using that en(2) by fastforce
qed

text \<open>The fields \<open>next\<close> fills in.\<close>

definition set_entry :: "log_entry \<Rightarrow> sparkey_logiter \<Rightarrow> sparkey_logiter" where
  "set_entry e iter =
     iter\<lparr>it_keylen := of_nat (length (entry_key e)), it_key_remaining := of_nat (length (entry_key e)),
          it_valuelen := of_nat (length (entry_value e)), it_value_remaining := of_nat (length (entry_value e)),
          it_type := (if is_put e then SPARKEY_ENTRY_PUT else SPARKEY_ENTRY_DELETE)\<rparr>"

lemma entry_nums_parse:
  assumes "entry_ok e"
  shows "fst (entry_nums e) = 0 \<longleftrightarrow> \<not> is_put e"
    "is_put e \<Longrightarrow> fst (entry_nums e) - 1 = of_nat (length (entry_key e)) \<and> snd (entry_nums e) = of_nat (length (entry_value e))"
    "\<not> is_put e \<Longrightarrow> snd (entry_nums e) = of_nat (length (entry_key e)) \<and> entry_value e = []"
proof -
  have "of_nat (length k) + 1 \<noteq> (0 :: u64)" if "length k < 2 ^ 63" for k :: bytes
  proof -
    have "unat (of_nat (length k) + 1 :: u64) = length k + 1" using that by (simp add: u64_arith)
    then show ?thesis by (metis add_eq_0_iff_both_eq_0 unat_0 zero_neq_one)
  qed
  moreover have "length (entry_key e) < 2 ^ 63"
    using assms by (simp add: entry_ok_def encode_entry_def entry_body_def)
  ultimately show "fst (entry_nums e) = 0 \<longleftrightarrow> \<not> is_put e" by (cases e) auto
  show "is_put e \<Longrightarrow> fst (entry_nums e) - 1 = of_nat (length (entry_key e)) \<and> snd (entry_nums e) = of_nat (length (entry_value e))"
    "\<not> is_put e \<Longrightarrow> snd (entry_nums e) = of_nat (length (entry_key e)) \<and> entry_value e = []"
    by (cases e; simp)+
qed

lemma logiter_next_entry:
  assumes ok: "reader_ok lib log" and bf: "before lib log iter (e # es)"
  obtains iter' idx where "sparkey_logiter_next lib iter log = Some (SPARKEY_SUCCESS, iter')"
    "active lib log iter' e es (entry_key e) (entry_value e)"
    "body_at lib log iter' idx e es (entry_body e)" "it_entry_count iter' = of_nat idx"
    "rtype log = SPARKEY_COMPRESSION_NONE \<Longrightarrow> idx = 0" "it_entry_block_position iter' = it_block_position iter'"
proof -
  let ?iter1 = "iter\<lparr>it_state := SPARKEY_ITER_INVALID, it_key_remaining := 0, it_value_remaining := 0,
      it_keylen := 0, it_valuelen := 0\<rparr>"
  obtain iter2 iter3 where sk:
    "skip lib ?iter1 log (if it_state iter = SPARKEY_ITER_ACTIVE then it_key_remaining iter else 0) = Some (SPARKEY_SUCCESS, iter2)"
    "skip lib iter2 log (if it_state iter = SPARKEY_ITER_ACTIVE then it_value_remaining iter else 0) = Some (SPARKEY_SUCCESS, iter3)"
    "reading lib log iter3 (e # es)"
    by (rule before_skips [OF ok bf refl])
  obtain iter4 j where en: "ensure_available lib iter3 log = Some (SPARKEY_SUCCESS, iter4)"
    "in_group lib log iter4 j (e # es)"
    by (rule ensure_entry [OF ok sk(3)]) simp_all
  have ns: "it_state iter \<noteq> SPARKEY_ITER_CLOSED" using bf by (simp add: before_def)
  have nz: "it_block_len iter4 - it_block_offset iter4 \<noteq> 0"
  proof -
    from en(2) obtain g bl rg where "in_block lib log iter4 g bl rg j []" by (auto simp: in_group_def)
    from in_block_advance(2) [OF this, of 0] obtain cur rest where "iter_at lib log iter4 cur rest" "cur \<noteq> []" by auto
    then show ?thesis using iter_at_room(1) [of lib log iter4 cur rest] by (auto simp: word_unat_eq_iff)
  qed
  define iter5 where "iter5 = (if rtype log = SPARKEY_COMPRESSION_NONE then
        iter4\<lparr>it_block_position := it_block_position iter4 + it_block_offset iter4,
             it_block_len := it_block_len iter4 - it_block_offset iter4, it_block_offset := 0,
             it_compression_buf := drop (unat (it_block_position iter4 + it_block_offset iter4)) (lr_data log),
             it_entry_count := - 1\<rparr> else iter4)"
  obtain j' where ig: "in_group lib log iter5 j' (e # es)" and j0: "rtype log = SPARKEY_COMPRESSION_NONE \<Longrightarrow> j' = 0"
    using in_group_rebase [OF ok en(2)] en(2) reader_ok_None [OF ok] unfolding iter5_def
    by (cases "rtype log = SPARKEY_COMPRESSION_NONE") auto
  obtain off1 off2 where rd: "read_vlq (it_compression_buf iter5) (it_block_offset iter5) = Some (fst (entry_nums e), off1)"
    "read_vlq (it_compression_buf iter5) off1 = Some (snd (entry_nums e), off2)"
    and eok: "entry_ok e"
    and bd: "body_at lib log (iter5\<lparr>it_entry_count := it_entry_count iter5 + 1, it_block_offset := off2,
       it_entry_block_position := it_block_position iter5, it_entry_block_offset := off2\<rparr>) j' e es (entry_body e)"
    and cnt: "it_entry_count iter5 + 1 = of_nat j'"
    by (rule parse_entry [OF ig])
  define iter' where "iter' = (set_entry e (iter5\<lparr>it_entry_count := it_entry_count iter5 + 1, it_block_offset := off2\<rparr>))
      \<lparr>it_entry_block_position := it_block_position iter5, it_entry_block_offset := off2, it_state := SPARKEY_ITER_ACTIVE\<rparr>"
  have run: "sparkey_logiter_next lib iter log = Some (SPARKEY_SUCCESS, iter')"
  proof -
    have "sparkey_logiter_next lib iter log = logiter_read_entry iter4 log"
      unfolding sparkey_logiter_next_def Let_def using ns before_open [OF ok bf] sk(1,2) en(1) nz by simp
    also have "\<dots> = Some (SPARKEY_SUCCESS, iter')"
      unfolding logiter_read_entry_def iter5_def [symmetric] Let_def
      using rd entry_nums_parse [OF eok] by (cases "is_put e") (simp_all add: iter'_def set_entry_def)
    finally show ?thesis .
  qed
  have "iter' = (iter5\<lparr>it_entry_count := it_entry_count iter5 + 1, it_block_offset := off2,
       it_entry_block_position := it_block_position iter5, it_entry_block_offset := off2\<rparr>)
      \<lparr>it_keylen := of_nat (length (entry_key e)), it_key_remaining := of_nat (length (entry_key e)),
       it_valuelen := of_nat (length (entry_value e)), it_value_remaining := of_nat (length (entry_value e)),
       it_type := (if is_put e then SPARKEY_ENTRY_PUT else SPARKEY_ENTRY_DELETE), it_state := SPARKEY_ITER_ACTIVE\<rparr>"
    by (simp add: iter'_def set_entry_def)
  then have bd': "body_at lib log iter' j' e es (entry_body e)" using bd by simp
  have "active lib log iter' e es (entry_key e) (entry_value e)"
    unfolding active_def using bd' eok by (auto simp: iter'_def set_entry_def entry_body_def)
  then show thesis using that [OF run] bd' cnt j0 by (simp add: iter'_def set_entry_def)
qed

text \<open>The index of an entry in its block is below the bound in the header.\<close>

lemma body_index:
  assumes "body_at lib log iter idx e es r" "sparkey_uses_compressor (rtype log)"
  shows "idx < unat (lh_max_entries_per_block (lr_header log))"
  using assms by (auto simp: body_at_def group_layout_def dest!: group_at_simps(2))

end
