(* ===== verification/LogChunks.thy ===== *)
theory LogChunks
  imports LogIterate
begin

text \<open>
  Delivering the bytes of the current entry: chunks, the fill functions, comparison of keys, and
  resetting, seeking and skipping iterators.
\<close>

section \<open>Available bytes\<close>

text \<open>\<open>cur\<close> are bytes that can be taken from the iterator without changing block, in front of \<open>r\<close>.\<close>

definition available ::
  "codec_lib \<Rightarrow> sparkey_logreader \<Rightarrow> sparkey_logiter \<Rightarrow> bytes \<Rightarrow> bytes \<Rightarrow> nat \<Rightarrow> log_entry \<Rightarrow> log_entry list \<Rightarrow> bool" where
  "available lib log iter cur r idx e es \<longleftrightarrow>
     cur \<noteq> [] \<and> (\<exists>rest. iter_at lib log iter cur rest)
     \<and> (\<forall>m. m \<le> length cur \<and> m \<le> length r \<longrightarrow> take m cur = take m r)
     \<and> (\<forall>n. unat n \<le> length cur \<and> unat n \<le> length r \<longrightarrow>
          body_at lib log (iter\<lparr>it_block_offset := it_block_offset iter + n\<rparr>) idx e es (drop (unat n) r))"

lemma tail_of_advance:
  assumes it: "iter_at lib log iter cur (restA @ concat (map snd rg))" and x: "anchored lib log rg"
    and r: "cur @ concat restA = r" and n: "unat n \<le> length cur"
  shows "tail_of lib log (iter\<lparr>it_block_offset := it_block_offset iter + n\<rparr>) rg (drop (unat n) r)"
proof -
  have "iter_at lib log (iter\<lparr>it_block_offset := it_block_offset iter + n\<rparr>) (drop (unat n) cur) (restA @ concat (map snd rg))"
    by (rule iter_at_advance(1) [OF it n])
  moreover have "drop (unat n) cur @ concat restA = drop (unat n) r" using r n by auto
  ultimately show ?thesis using x unfolding tail_of_def by blast
qed

lemma tail_of_ensure:
  assumes ok: "reader_ok lib log" and tl: "tail_of lib log iter rg r" and r: "r \<noteq> []"
  obtains iter' cur restA where "ensure_available lib iter log = Some (SPARKEY_SUCCESS, iter')"
    "iter_at lib log iter' cur (restA @ concat (map snd rg))" "cur @ concat restA = r" "cur \<noteq> []" "same_entry iter iter'"
proof -
  from tl obtain cur restA where it: "iter_at lib log iter cur (restA @ concat (map snd rg))"
    and x: "cur @ concat restA = r"
    by (auto simp: tail_of_def)
  show thesis
  proof (cases "cur = []")
    case False
    then show thesis using that [OF _ it x] ensure_available_more [OF it] by simp
  next
    case True
    then obtain b bs where bs: "restA = b # bs" using x r by (cases restA) auto
    obtain iter' where en: "ensure_available lib iter log = Some (SPARKEY_SUCCESS, iter')"
      "at_block lib log iter' (it_next_block_position iter) b (bs @ concat (map snd rg))" "same_entry iter iter'"
      using ensure_available_block [OF ok, of iter b "bs @ concat (map snd rg)"] it True bs by auto
    have ne: "b \<noteq> []" using iter_at_blocks_nonempty [OF it] bs by simp
    have it': "iter_at lib log iter' b (bs @ concat (map snd rg))" using en(2) by (simp add: at_block_def)
    have "b @ concat bs = r" using x True bs by simp
    then show thesis using that [OF en(1) it'] ne en(3) by blast
  qed
qed

lemma ensure_body:
  assumes ok: "reader_ok lib log" and bd: "body_at lib log iter idx e es r" and r: "r \<noteq> []"
  obtains iter' cur where "ensure_available lib iter log = Some (SPARKEY_SUCCESS, iter')"
    "available lib log iter' cur r idx e es" "same_entry iter iter'"
proof -
  from bd obtain g bl rg where ga: "group_at lib log (it_entry_block_position iter) g bl rg"
    and i: "idx < length g" "g ! idx = e" "es = drop (Suc idx) g @ concat (map fst rg)"
    and off: "unat (it_entry_block_offset iter) = length (encode_entries (take idx g)) + length (entry_head e)"
    and st: "if Suc idx < length g
        then it_block_position iter = it_entry_block_position iter \<and> in_block lib log iter g bl rg (Suc idx) r
        else tail_of lib log iter rg r"
    by (auto simp: body_at_def)
  show thesis
  proof (cases "Suc idx < length g")
    case True
    then have ib: "in_block lib log iter g bl rg (Suc idx) r" using st by simp
    from in_block_advance(2) [OF ib, of 0] obtain cur rest where it: "iter_at lib log iter cur rest"
      and cur: "take (length r) cur = r" "cur \<noteq> []" by auto
    have pre: "take m cur = take m r" if "m \<le> length r" for m
      using cur(1) that by (metis min.absorb1 take_take)
    have "body_at lib log (iter\<lparr>it_block_offset := it_block_offset iter + n\<rparr>) idx e es (drop (unat n) r)"
      if "unat n \<le> length r" for n
      unfolding body_at_def using ga i off st True in_block_advance(1) [OF ib that]
      by (intro exI [of _ g] exI [of _ bl] exI [of _ rg]) simp
    then have "available lib log iter cur r idx e es" using it cur(2) pre unfolding available_def by blast
    then show thesis using that [of iter cur] ensure_available_more [OF it cur(2)] by simp
  next
    case False
    then have tl: "tail_of lib log iter rg r" using st by simp
    then have x: "anchored lib log rg" by (simp add: tail_of_def)
    obtain iter' cur restA where en: "ensure_available lib iter log = Some (SPARKEY_SUCCESS, iter')"
      "iter_at lib log iter' cur (restA @ concat (map snd rg))" "cur @ concat restA = r" "cur \<noteq> []" "same_entry iter iter'"
      by (rule tail_of_ensure [OF ok tl r])
    have "body_at lib log (iter'\<lparr>it_block_offset := it_block_offset iter' + n\<rparr>) idx e es (drop (unat n) r)"
      if "unat n \<le> length cur" for n
      unfolding body_at_def using ga i off False en(5) tail_of_advance [OF en(2) x en(3) that]
      by (intro exI [of _ g] exI [of _ bl] exI [of _ rg]) (simp add: same_entry_def)
    then have "available lib log iter' cur r idx e es" using en(2-4) by (auto simp: available_def)
    then show thesis using that en by blast
  qed
qed

lemma available_memory:
  assumes "available lib log iter cur r idx e es"
  shows "unat (it_block_len iter - it_block_offset iter) = length cur"
    "m \<le> length cur \<Longrightarrow> m \<le> length r \<Longrightarrow>
       take m (drop (unat (it_block_offset iter)) (it_compression_buf iter)) = take m r
       \<and> m \<le> length (drop (unat (it_block_offset iter)) (it_compression_buf iter))"
proof -
  from assms obtain rest where it: "iter_at lib log iter cur rest" by (auto simp: available_def)
  show "unat (it_block_len iter - it_block_offset iter) = length cur" by (rule iter_at_room(1) [OF it])
  note room = iter_at_room(2) [OF it]
  let ?buf = "it_compression_buf iter" let ?o = "unat (it_block_offset iter)" let ?l = "unat (it_block_len iter)"
  have cur: "cur = drop ?o (take ?l ?buf)" "?l \<le> length ?buf" using it by (auto simp: iter_at_def)
  assume m: "m \<le> length cur" "m \<le> length r"
  have "cur = take (length cur) (drop ?o ?buf)"
    unfolding cur(1) using room cur by (simp add: drop_take)
  then have "take m cur = take m (drop ?o ?buf)" using m by (metis min.absorb1 take_take)
  moreover have "take m cur = take m r" using assms m by (simp add: available_def)
  moreover have "m \<le> length (drop ?o ?buf)" using m room cur(2) by simp
  ultimately show "take m (drop ?o ?buf) = take m r \<and> m \<le> length (drop ?o ?buf)" by simp
qed

section \<open>Chunks\<close>

lemma active_open:
  assumes "reader_ok lib log" "active lib log iter e es rk rv"
  shows "assert_iter_open iter log = SPARKEY_SUCCESS"
proof -
  obtain idx where "body_at lib log iter idx e es (rk @ rv)" using assms(2) by (auto simp: active_def)
  then obtain cur rest where "iter_at lib log iter cur rest" using body_iter_at by blast
  then show ?thesis by (rule iter_at_open [OF assms(1)])
qed

lemma same_entry_offset [simp]: "same_entry iter (iter'\<lparr>it_block_offset := n\<rparr>) = same_entry iter iter'"
  by (simp add: same_entry_def)

text \<open>The current entry after \<open>n\<close> more bytes of its key, or of its value, have been delivered.\<close>

lemma active_deliver_key:
  assumes a: "active lib log iter e es rk rv" and se: "same_entry iter iter1"
    and av: "available lib log iter1 cur (rk @ rv) idx e es" and n: "unat n \<le> length cur" "unat n \<le> length rk"
  shows "active lib log (iter1\<lparr>it_block_offset := it_block_offset iter1 + n, it_key_remaining := it_key_remaining iter1 - n\<rparr>)
    e es (drop (unat n) rk) rv"
proof -
  let ?iter = "iter1\<lparr>it_block_offset := it_block_offset iter1 + n, it_key_remaining := it_key_remaining iter1 - n\<rparr>"
  have "body_at lib log (iter1\<lparr>it_block_offset := it_block_offset iter1 + n\<rparr>) idx e es (drop (unat n) (rk @ rv))"
    using av n unfolding available_def by (metis length_append trans_le_add1)
  then have rd: "body_at lib log ?iter idx e es (drop (unat n) rk @ rv)" using n by simp
  have "unat (it_key_remaining iter1) = length rk" using active_lengths(1) [OF a] se by (simp add: same_entry_def)
  then have "unat (it_key_remaining iter1 - n) = length (drop (unat n) rk)" using n by (simp add: unat_sub_u64)
  then have kr: "it_key_remaining iter1 - n = of_nat (length (drop (unat n) rk))" by (metis of_nat_unat_u64)
  from a obtain k0 v0 where kv: "entry_key e = k0 @ rk" "entry_value e = v0 @ rv" by (auto simp: active_def)
  have "\<exists>k0 v0. entry_key e = k0 @ drop (unat n) rk \<and> entry_value e = v0 @ rv"
    using kv by (metis append_assoc append_take_drop_id)
  then show ?thesis using a se rd kr unfolding active_def by (auto simp: same_entry_def)
qed

lemma active_deliver_value:
  assumes a: "active lib log iter e es [] rv" and se: "same_entry iter iter1"
    and av: "available lib log iter1 cur rv idx e es" and n: "unat n \<le> length cur" "unat n \<le> length rv"
  shows "active lib log (iter1\<lparr>it_block_offset := it_block_offset iter1 + n, it_value_remaining := it_value_remaining iter1 - n\<rparr>)
    e es [] (drop (unat n) rv)"
proof -
  let ?iter = "iter1\<lparr>it_block_offset := it_block_offset iter1 + n, it_value_remaining := it_value_remaining iter1 - n\<rparr>"
  have rd: "body_at lib log ?iter idx e es (drop (unat n) rv)" using av n by (simp add: available_def)
  have "unat (it_value_remaining iter1) = length rv" using active_lengths(2) [OF a] se by (simp add: same_entry_def)
  then have "unat (it_value_remaining iter1 - n) = length (drop (unat n) rv)" using n by (simp add: unat_sub_u64)
  then have vr: "it_value_remaining iter1 - n = of_nat (length (drop (unat n) rv))" by (metis of_nat_unat_u64)
  from a obtain k0 v0 where kv: "entry_key e = k0 @ []" "entry_value e = v0 @ rv" by (auto simp: active_def)
  have "\<exists>k0 v0. entry_key e = k0 @ [] \<and> entry_value e = v0 @ drop (unat n) rv"
    using kv by (metis append_assoc append_take_drop_id)
  then show ?thesis using a se rd vr unfolding active_def by (auto simp: same_entry_def)
qed

text \<open>
  A chunk is a prefix of what is left, at most \<open>maxlen\<close> bytes of it, and not empty unless nothing is left
  or nothing is wanted.
\<close>

definition chunk_of :: "u64 \<Rightarrow> bytes \<Rightarrow> u64 \<Rightarrow> bytes \<Rightarrow> bool" where
  "chunk_of maxlen r m mem \<longleftrightarrow>
     unat m \<le> length r \<and> m \<le> maxlen \<and> (r \<noteq> [] \<and> maxlen > 0 \<longrightarrow> m > 0)
     \<and> unat m \<le> length mem \<and> take (unat m) mem = take (unat m) r"

lemma keychunk_active:
  assumes ok: "reader_ok lib log" and a: "active lib log iter e es rk rv"
  obtains m mem iter' where "sparkey_logiter_keychunk lib iter log maxlen = Some (SPARKEY_SUCCESS, m, mem, iter')"
    "chunk_of maxlen rk m mem" "active lib log iter' e es (drop (unat m) rk) rv"
proof (cases "rk = []")
  case True
  then have "it_key_remaining iter = 0" using a by (simp add: active_def)
  then show thesis
    using that [of 0 "[]" iter] a True active_open [OF ok a] active_state [OF a]
    by (simp add: sparkey_logiter_keychunk_def sparkey_logiter_chunk_def chunk_of_def)
next
  case False
  obtain idx where rd: "body_at lib log iter idx e es (rk @ rv)" using a by (auto simp: active_def)
  obtain iter1 cur where en: "ensure_available lib iter log = Some (SPARKEY_SUCCESS, iter1)"
    and av: "available lib log iter1 cur (rk @ rv) idx e es" and se: "same_entry iter iter1"
    by (rule ensure_body [OF ok rd]) (use False in auto)
  have rem: "unat (it_key_remaining iter1) = length rk" using active_lengths(1) [OF a] se by (simp add: same_entry_def)
  let ?m = "min64 maxlen (min64 (it_key_remaining iter1) (it_block_len iter1 - it_block_offset iter1))"
  let ?mem = "drop (unat (it_block_offset iter1)) (it_compression_buf iter1)"
  let ?iter = "iter1\<lparr>it_block_offset := it_block_offset iter1 + ?m, it_key_remaining := it_key_remaining iter1 - ?m\<rparr>"
  have m: "unat ?m = min (unat maxlen) (min (length rk) (length cur))"
    by (simp add: min64_min rem available_memory(1) [OF av])
  have "it_key_remaining iter > 0"
    using active_lengths(1) [OF a] False unfolding word_less_nat_alt by simp
  then have run: "sparkey_logiter_keychunk lib iter log maxlen = Some (SPARKEY_SUCCESS, ?m, ?mem, ?iter)"
    using active_open [OF ok a] active_state [OF a] en
    by (simp add: sparkey_logiter_keychunk_def sparkey_logiter_chunk_def Let_def)
  have le: "unat ?m \<le> length cur" "unat ?m \<le> length rk" using m by simp_all
  have mem: "take (unat ?m) ?mem = take (unat ?m) (rk @ rv) \<and> unat ?m \<le> length ?mem"
    by (rule available_memory(2) [OF av]) (use le in simp_all)
  have cur: "cur \<noteq> []" using av by (simp add: available_def)
  have "chunk_of maxlen rk ?m ?mem"
    unfolding chunk_of_def word_le_nat_alt word_less_nat_alt using le m mem cur by auto
  then show thesis using that [OF run] active_deliver_key [OF a se av le] by blast
qed

text \<open>\<open>valuechunk\<close> skips what is left of the key first.\<close>

lemma skip_key:
  assumes ok: "reader_ok lib log" and a: "active lib log iter e es rk rv"
  obtains iter1 where "skip lib iter log (it_key_remaining iter) = Some (SPARKEY_SUCCESS, iter1)"
    "active lib log (iter1\<lparr>it_key_remaining := 0\<rparr>) e es [] rv"
proof -
  obtain idx where rd: "body_at lib log iter idx e es (rk @ rv)" using a by (auto simp: active_def)
  have len: "unat (it_key_remaining iter) = length rk" by (rule active_lengths(1) [OF a])
  obtain iter1 where sk: "skip lib iter log (it_key_remaining iter) = Some (SPARKEY_SUCCESS, iter1)"
    "body_at lib log iter1 idx e es (drop (unat (it_key_remaining iter)) (rk @ rv))" "same_entry iter iter1"
    by (rule body_skip [OF ok rd, of "it_key_remaining iter"]) (use len in simp)
  have "active lib log (iter1\<lparr>it_key_remaining := 0\<rparr>) e es [] rv"
    using a sk(2,3) len unfolding active_def by (auto simp: same_entry_def)
  then show thesis using that sk(1) by blast
qed

lemma valuechunk_active:
  assumes ok: "reader_ok lib log" and a0: "active lib log iter0 e es rk rv"
  obtains m mem iter' where "sparkey_logiter_valuechunk lib iter0 log maxlen = Some (SPARKEY_SUCCESS, m, mem, iter')"
    "chunk_of maxlen rv m mem" "active lib log iter' e es [] (drop (unat m) rv)"
proof -
  obtain iter2 where sk: "skip lib iter0 log (it_key_remaining iter0) = Some (SPARKEY_SUCCESS, iter2)"
    and a2: "active lib log (iter2\<lparr>it_key_remaining := 0\<rparr>) e es [] rv"
    by (rule skip_key [OF ok a0])
  let ?i = "iter2\<lparr>it_key_remaining := 0\<rparr>"
  have vc: "sparkey_logiter_valuechunk lib iter0 log maxlen = sparkey_logiter_chunk lib ?i log maxlen VALUE_REMAINING"
    using sk by (simp add: sparkey_logiter_valuechunk_def)
  note op = active_open [OF ok a2] and stt = active_state [OF a2]
  show thesis
  proof (cases "rv = []")
    case True
    then have "it_value_remaining ?i = 0" using a2 by (simp add: active_def)
    then show thesis
      using that [of 0 "[]" ?i] a2 True op stt vc by (simp add: sparkey_logiter_chunk_def chunk_of_def)
  next
    case False
    obtain idx where rd: "body_at lib log ?i idx e es rv" using a2 by (auto simp: active_def)
    obtain iter1 cur where en: "ensure_available lib ?i log = Some (SPARKEY_SUCCESS, iter1)"
      and av: "available lib log iter1 cur rv idx e es" and se: "same_entry ?i iter1"
      by (rule ensure_body [OF ok rd False])
    have rem: "unat (it_value_remaining iter1) = length rv" using active_lengths(2) [OF a2] se by (simp add: same_entry_def)
    let ?m = "min64 maxlen (min64 (it_value_remaining iter1) (it_block_len iter1 - it_block_offset iter1))"
    let ?mem = "drop (unat (it_block_offset iter1)) (it_compression_buf iter1)"
    let ?iter = "iter1\<lparr>it_block_offset := it_block_offset iter1 + ?m, it_value_remaining := it_value_remaining iter1 - ?m\<rparr>"
    have m: "unat ?m = min (unat maxlen) (min (length rv) (length cur))"
      by (simp add: min64_min rem available_memory(1) [OF av])
    have "it_value_remaining ?i > 0"
      using active_lengths(2) [OF a2] False unfolding word_less_nat_alt by simp
    then have run: "sparkey_logiter_valuechunk lib iter0 log maxlen = Some (SPARKEY_SUCCESS, ?m, ?mem, ?iter)"
      unfolding vc using op stt en by (simp add: sparkey_logiter_chunk_def Let_def)
    have le: "unat ?m \<le> length cur" "unat ?m \<le> length rv" using m by simp_all
    have mem: "take (unat ?m) ?mem = take (unat ?m) rv \<and> unat ?m \<le> length ?mem"
      by (rule available_memory(2) [OF av]) (use le in simp_all)
    have cur: "cur \<noteq> []" using av by (simp add: available_def)
    have "chunk_of maxlen rv ?m ?mem"
      unfolding chunk_of_def word_le_nat_alt word_less_nat_alt using le m mem cur by auto
    then show thesis using that [OF run] active_deliver_value [OF a2 se av le] by blast
  qed
qed

section \<open>Filling a buffer\<close>

text \<open>
  The fill loop over any source of chunks: \<open>left r iter\<close> says that the bytes \<open>r\<close> are left. The locale is
  instantiated for the key and for the value of the current entry.
\<close>

locale chunk_source =
  fixes chunk :: "sparkey_logiter \<Rightarrow> u64 \<Rightarrow> (u64 \<times> bytes \<times> sparkey_logiter) result"
    and left :: "bytes \<Rightarrow> sparkey_logiter \<Rightarrow> bool"
  assumes chunk_left: "left r iter \<Longrightarrow>
    \<exists>m mem iter'. chunk iter maxlen = Some (SPARKEY_SUCCESS, m, mem, iter')
      \<and> chunk_of maxlen r m mem \<and> left (drop (unat m) r) iter'"
begin

lemma fill_loop_left:
  assumes "left r iter"
  shows "\<exists>iter'. fill_loop chunk iter maxlen buf = Some (SPARKEY_SUCCESS, buf @ take (unat maxlen) r, iter')
    \<and> left (drop (unat maxlen) r) iter'"
  using assms
proof (induction "unat maxlen" arbitrary: maxlen r iter buf rule: less_induct)
  case less
  show ?case
  proof (cases "maxlen > 0")
    case False
    then have "unat maxlen = 0" by (simp add: word_less_nat_alt)
    then show ?thesis using False less.prems by (simp add: fill_loop.simps)
  next
    case True
    obtain m mem iter1 where c: "chunk iter maxlen = Some (SPARKEY_SUCCESS, m, mem, iter1)"
      "chunk_of maxlen r m mem" "left (drop (unat m) r) iter1"
      using chunk_left [OF less.prems] by blast
    show ?thesis
    proof (cases "m = 0")
      case zero: True
      then have "r = []" using c(2) True by (auto simp: chunk_of_def)
      then show ?thesis using True c zero by (simp add: fill_loop.simps [of chunk iter])
    next
      case False
      have mm: "unat m \<le> unat maxlen" "unat m \<le> length r" "unat m \<le> length mem" "take (unat m) mem = take (unat m) r"
        and pos: "0 < unat m"
        using c(2) False unat_gt_0 [of m] by (auto simp: chunk_of_def word_le_nat_alt)
      have sub: "unat (maxlen - m) = unat maxlen - unat m" by (rule unat_sub_u64 [OF mm(1)])
      have "unat (maxlen - m) < unat maxlen" using sub pos mm(1) by simp
      from less.hyps [OF this c(3), of "buf @ take (unat m) r"] obtain iter' where
        "fill_loop chunk iter1 (maxlen - m) (buf @ take (unat m) r)
           = Some (SPARKEY_SUCCESS, (buf @ take (unat m) r) @ take (unat (maxlen - m)) (drop (unat m) r), iter')"
        "left (drop (unat (maxlen - m)) (drop (unat m) r)) iter'" by blast
      moreover have "take (unat m) r @ take (unat (maxlen - m)) (drop (unat m) r) = take (unat maxlen) r"
        unfolding sub using mm(1) by (metis le_add_diff_inverse take_add)
      moreover have "drop (unat (maxlen - m)) (drop (unat m) r) = drop (unat maxlen) r"
        unfolding sub using mm(1) by simp
      moreover have "fill_loop chunk iter maxlen buf = fill_loop chunk iter1 (maxlen - m) (buf @ take (unat m) r)"
        using True c(1) False mm(3,4) by (simp add: fill_loop.simps [of chunk iter])
      ultimately show ?thesis by auto
    qed
  qed
qed

end

text \<open>\<open>active\<close> for a reader that satisfies \<open>reader_ok\<close>, with the value not touched, or with the key delivered or skipped.\<close>

definition key_left ::
  "codec_lib \<Rightarrow> sparkey_logreader \<Rightarrow> log_entry \<Rightarrow> log_entry list \<Rightarrow> bytes \<Rightarrow> bytes \<Rightarrow> sparkey_logiter \<Rightarrow> bool" where
  "key_left lib log e es rv rk iter \<longleftrightarrow> reader_ok lib log \<and> active lib log iter e es rk rv"

definition value_left ::
  "codec_lib \<Rightarrow> sparkey_logreader \<Rightarrow> log_entry \<Rightarrow> log_entry list \<Rightarrow> bytes \<Rightarrow> sparkey_logiter \<Rightarrow> bool" where
  "value_left lib log e es rv iter \<longleftrightarrow> reader_ok lib log \<and> (\<exists>rk. active lib log iter e es rk rv)"

interpretation key_source: chunk_source "\<lambda>iter maxlen. sparkey_logiter_keychunk lib iter log maxlen"
    "key_left lib log e es rv" for lib log e es rv
  by unfold_locales (metis key_left_def keychunk_active)

interpretation value_source: chunk_source "\<lambda>iter maxlen. sparkey_logiter_valuechunk lib iter log maxlen"
    "value_left lib log e es" for lib log e es
  by unfold_locales (metis value_left_def valuechunk_active)

lemma fill_key_active:
  assumes "reader_ok lib log" "active lib log iter e es rk rv"
  obtains iter' where "sparkey_logiter_fill_key lib iter log maxlen = Some (SPARKEY_SUCCESS, take (unat maxlen) rk, iter')"
    "active lib log iter' e es (drop (unat maxlen) rk) rv"
  using key_source.fill_loop_left [of lib log e es rv rk iter maxlen "[]"] assms that
  by (auto simp: sparkey_logiter_fill_key_def key_left_def)

lemma fill_value_active:
  assumes "reader_ok lib log" "active lib log iter e es rk rv"
  obtains iter' rk' where "sparkey_logiter_fill_value lib iter log maxlen = Some (SPARKEY_SUCCESS, take (unat maxlen) rv, iter')"
    "active lib log iter' e es rk' (drop (unat maxlen) rv)"
  using value_source.fill_loop_left [of lib log e es rv iter maxlen "[]"] assms that
  by (auto simp: sparkey_logiter_fill_value_def value_left_def)

section \<open>Comparing keys\<close>

text \<open>The order \<open>keycmp\<close> computes: by the first byte that differs, a proper prefix comes first.\<close>

fun key_compare :: "bytes \<Rightarrow> bytes \<Rightarrow> int" where
  "key_compare [] [] = 0"
| "key_compare [] (b # bs) = - 1"
| "key_compare (a # as) [] = 1"
| "key_compare (a # as) (b # bs) = (if a = b then key_compare as bs else int (unat a) - int (unat b))"

lemma key_compare_eq_0: "key_compare x y = 0 \<longleftrightarrow> x = y"
  by (induction x y rule: key_compare.induct) (auto simp: word_uint_eq_iff)

lemma memcmp_nonzero:
  "length x = length y \<Longrightarrow> memcmp x y \<noteq> 0 \<Longrightarrow> key_compare (x @ x') (y @ y') = memcmp x y"
  by (induction x y rule: list_induct2) (auto split: if_splits)

lemma memcmp_zero:
  "length x = length y \<Longrightarrow> memcmp x y = 0 \<Longrightarrow> x = y \<and> key_compare (x @ x') (y @ y') = key_compare x' y'"
  by (induction x y rule: list_induct2) (auto split: if_splits simp: word_uint_eq_iff)

text \<open>One side of the comparison: a chunk in hand, and \<open>r\<close> left in the iterator behind it.\<close>

definition cmp_side ::
  "codec_lib \<Rightarrow> sparkey_logreader \<Rightarrow> log_entry \<Rightarrow> log_entry list \<Rightarrow> bytes \<Rightarrow> u64 \<Rightarrow> bytes \<Rightarrow> sparkey_logiter
     \<Rightarrow> bytes \<Rightarrow> bool" where
  "cmp_side lib log e es rv len mem iter k \<longleftrightarrow>
     (\<exists>r. unat len \<le> length mem \<and> k = take (unat len) mem @ r \<and> active lib log iter e es r rv
        \<and> (len = 0 \<longrightarrow> r = []))"

lemma cmp_side_start:
  assumes ok: "reader_ok lib log" and a: "active lib log iter e es rk rv"
  obtains m mem iter' where "sparkey_logiter_keychunk lib iter log (push_bit 30 1) = Some (SPARKEY_SUCCESS, m, mem, iter')"
    "cmp_side lib log e es rv m mem iter' rk"
proof -
  obtain m mem iter' where c: "sparkey_logiter_keychunk lib iter log (push_bit 30 1) = Some (SPARKEY_SUCCESS, m, mem, iter')"
    "chunk_of (push_bit 30 1) rk m mem" "active lib log iter' e es (drop (unat m) rk) rv"
    by (rule keychunk_active [OF ok a])
  have "push_bit 30 1 > (0 :: u64)" by (simp add: push_bit_eq_mult)
  then have "m = 0 \<longrightarrow> rk = []" using c(2) by (auto simp: chunk_of_def)
  then have "cmp_side lib log e es rv m mem iter' rk"
    using c(2,3) unfolding cmp_side_def chunk_of_def by (intro exI [of _ "drop (unat m) rk"]) auto
  then show thesis using that c(1) by blast
qed

lemma cmp_side_next:
  assumes ok: "reader_ok lib log" and sd: "cmp_side lib log e es rv len mem iter k" and c: "c \<le> len"
  obtains len' mem' iter' where
    "(if len - c = 0 then sparkey_logiter_keychunk lib iter log (push_bit 30 1)
      else Some (SPARKEY_SUCCESS, len - c, drop (unat c) mem, iter)) = Some (SPARKEY_SUCCESS, len', mem', iter')"
    "cmp_side lib log e es rv len' mem' iter' (drop (unat c) k)"
proof -
  from sd obtain r where r: "unat len \<le> length mem" "k = take (unat len) mem @ r" "active lib log iter e es r rv"
    by (auto simp: cmp_side_def)
  have cl: "unat c \<le> unat len" using c by (simp add: word_le_nat_alt)
  have sub: "unat (len - c) = unat len - unat c" by (rule unat_sub_u64 [OF cl])
  show thesis
  proof (cases "len - c = 0")
    case True
    then have "unat c = unat len" using sub cl by simp
    then have "drop (unat c) k = r" using r by simp
    then show thesis using cmp_side_start [OF ok r(3)] that True by auto
  next
    case False
    have "drop (unat c) k = take (unat (len - c)) (drop (unat c) mem) @ r"
      using r cl by (simp add: sub drop_take)
    then have "cmp_side lib log e es rv (len - c) (drop (unat c) mem) iter (drop (unat c) k)"
      unfolding cmp_side_def using r False cl by (auto simp: sub)
    then show thesis using that False by simp
  qed
qed

lemma cmp_side_lengths:
  assumes "cmp_side lib log e es rv len mem iter k"
  shows "unat len \<le> length mem" "unat len \<le> length k" "take (unat len) k = take (unat len) mem" "len = 0 \<longleftrightarrow> k = []"
  using assms unat_gt_0 [of len] by (auto simp: cmp_side_def)

lemma keycmp_loop_compare:
  assumes ok: "reader_ok lib log"
    and "cmp_side lib log e1 es1 rv1 l1 m1 i1 k1" "cmp_side lib log e2 es2 rv2 l2 m2 i2 k2"
  shows "\<exists>i1' i2' r1 r2. keycmp_loop lib log l1 m1 i1 l2 m2 i2 = Some (SPARKEY_SUCCESS, key_compare k1 k2, i1', i2')
    \<and> active lib log i1' e1 es1 r1 rv1 \<and> active lib log i2' e2 es2 r2 rv2"
  using assms(2,3)
proof (induction "length k1" arbitrary: l1 m1 i1 k1 l2 m2 i2 k2 rule: less_induct)
  case less
  note s1 = cmp_side_lengths [OF less.prems(1)] and s2 = cmp_side_lengths [OF less.prems(2)]
  obtain r1 r2 where a: "active lib log i1 e1 es1 r1 rv1" "active lib log i2 e2 es2 r2 rv2"
    using less.prems by (auto simp: cmp_side_def)
  show ?case
  proof (cases "k1 = [] \<or> k2 = []")
    case True
    then show ?thesis
      using s1(4) s2(4) a by (cases k1; cases k2) (auto simp: keycmp_loop.simps)
  next
    case False
    let ?c = "min64 l1 l2"
    have c: "?c \<le> l1" "?c \<le> l2" "0 < unat ?c"
      using False s1(4) s2(4) unat_gt_0 by (auto simp: word_le_nat_alt min64_min)
    have cl: "unat ?c \<le> unat l1" "unat ?c \<le> unat l2" using c by (simp_all add: word_le_nat_alt)
    let ?x = "take (unat ?c) m1" and ?y = "take (unat ?c) m2"
    have xy: "?x = take (unat ?c) k1" "?y = take (unat ?c) k2"
      using s1(3) s2(3) cl by (metis min.absorb1 take_take)+
    have len: "length ?x = length ?y" using s1(1) s2(1) cl by simp
    have k: "k1 = ?x @ drop (unat ?c) k1" "k2 = ?y @ drop (unat ?c) k2" unfolding xy by simp_all
    have nz: "l1 \<noteq> 0" "l2 \<noteq> 0" "\<not> (length m1 < unat ?c \<or> length m2 < unat ?c)"
      using False s1 s2 cl by auto
    show ?thesis
    proof (cases "memcmp ?x ?y = 0")
      case v: False
      have "key_compare k1 k2 = memcmp ?x ?y"
        using memcmp_nonzero [OF len v, of "drop (unat ?c) k1" "drop (unat ?c) k2"] k by simp
      then show ?thesis using nz v a by (subst keycmp_loop.simps) (auto simp: Let_def)
    next
      case v: True
      obtain l1' m1' i1' where n1: "(if l1 - ?c = 0 then sparkey_logiter_keychunk lib i1 log (push_bit 30 1)
          else Some (SPARKEY_SUCCESS, l1 - ?c, drop (unat ?c) m1, i1)) = Some (SPARKEY_SUCCESS, l1', m1', i1')"
        "cmp_side lib log e1 es1 rv1 l1' m1' i1' (drop (unat ?c) k1)"
        by (rule cmp_side_next [OF ok less.prems(1) c(1)])
      obtain l2' m2' i2' where n2: "(if l2 - ?c = 0 then sparkey_logiter_keychunk lib i2 log (push_bit 30 1)
          else Some (SPARKEY_SUCCESS, l2 - ?c, drop (unat ?c) m2, i2)) = Some (SPARKEY_SUCCESS, l2', m2', i2')"
        "cmp_side lib log e2 es2 rv2 l2' m2' i2' (drop (unat ?c) k2)"
        by (rule cmp_side_next [OF ok less.prems(2) c(2)])
      have step: "keycmp_loop lib log l1 m1 i1 l2 m2 i2 = keycmp_loop lib log l1' m1' i1' l2' m2' i2'"
        by (subst keycmp_loop.simps) (simp only: Let_def nz v n1(1) n2(1) if_False simp_thms rethrow_Success prod.case)
      have "length (drop (unat ?c) k1) < length k1" using False c(3) by simp
      from less.hyps [OF this n1(2) n2(2)] memcmp_zero [OF len v, of "drop (unat ?c) k1" "drop (unat ?c) k2"] k step
      show ?thesis by auto
    qed
  qed
qed

lemma keycmp_compare:
  assumes ok: "reader_ok lib log" and a: "active lib log i1 e1 es1 k1 rv1" "active lib log i2 e2 es2 k2 rv2"
  obtains i1' i2' r1 r2 where
    "sparkey_logiter_keycmp lib i1 i2 log = Some (SPARKEY_SUCCESS, key_compare k1 k2, i1', i2')"
    "active lib log i1' e1 es1 r1 rv1" "active lib log i2' e2 es2 r2 rv2"
proof -
  obtain l1 m1 j1 where 1: "sparkey_logiter_keychunk lib i1 log (push_bit 30 1) = Some (SPARKEY_SUCCESS, l1, m1, j1)"
    "cmp_side lib log e1 es1 rv1 l1 m1 j1 k1"
    by (rule cmp_side_start [OF ok a(1)])
  obtain l2 m2 j2 where 2: "sparkey_logiter_keychunk lib i2 log (push_bit 30 1) = Some (SPARKEY_SUCCESS, l2, m2, j2)"
    "cmp_side lib log e2 es2 rv2 l2 m2 j2 k2"
    by (rule cmp_side_start [OF ok a(2)])
  have "sparkey_logiter_keycmp lib i1 i2 log = keycmp_loop lib log l1 m1 j1 l2 m2 j2"
    using 1(1) 2(1) by (simp add: sparkey_logiter_keycmp_def)
  then show thesis using keycmp_loop_compare [OF ok 1(2) 2(2)] that by auto
qed

section \<open>Seeking, skipping and resetting\<close>

lemma seek_group:
  assumes ok: "reader_ok lib log" and it: "iter_at lib log iter cur rest" and ga: "group_at lib log p g bl rg"
  obtains iter' where "sparkey_logiter_seek lib iter log p = Some (SPARKEY_SUCCESS, iter')"
    "in_group lib log iter' 0 (g @ concat (map fst rg))" "it_state iter' = SPARKEY_ITER_NEW"
proof -
  obtain b bt where bl: "bl = b # bt" using ga by (cases bl) (auto dest!: group_at_simps(2) simp: group_layout_def)
  have at: "blocks_at lib log p (b # bt @ concat (map snd rg))" and lay: "group_layout log (g, b # bt)"
    using group_at_simps [OF ga] by (simp_all add: bl)
  have "p \<noteq> lh_data_end (lr_header log)"
    using blocks_at_Nil_iff [OF ok at] by auto
  moreover obtain iter1 where sk: "seekblock lib iter log p = Some (SPARKEY_SUCCESS, iter1)"
    "at_block lib log iter1 p b (bt @ concat (map snd rg))"
    by (rule seekblock_at [OF ok it at])
  ultimately have run: "sparkey_logiter_seek lib iter log p
      = Some (SPARKEY_SUCCESS, iter1\<lparr>it_entry_count := - 1, it_state := SPARKEY_ITER_NEW\<rparr>)"
    using iter_at_open [OF ok it] by (simp add: sparkey_logiter_seek_def)
  let ?iter = "iter1\<lparr>it_entry_count := - 1, it_state := SPARKEY_ITER_NEW\<rparr>"
  have p: "it_block_position ?iter = p" "it_block_offset ?iter = 0"
    and it': "iter_at lib log ?iter b (bt @ concat (map snd rg))"
    using sk(2) by (simp_all add: at_block_def)
  have "take (unat (it_block_len ?iter)) (it_compression_buf ?iter) = b"
    using it' p(2) by (simp add: iter_at_def)
  then have "in_block lib log ?iter g bl rg 0 []"
    unfolding in_block_def using ga it' lay p bl by (auto simp: group_layout_def)
  then have "in_group lib log ?iter 0 (g @ concat (map fst rg))" by (auto simp: in_group_def)
  then show thesis using that [OF run] by simp
qed

lemma logiter_skip_before:
  assumes ok: "reader_ok lib log" and "before lib log iter es" "n \<le> length es"
  shows "\<exists>iter'. sparkey_logiter_skip lib iter log (int n) = Some (SPARKEY_SUCCESS, iter')
    \<and> before lib log iter' (drop n es)"
  using assms(2,3)
proof (induction n arbitrary: iter es)
  case 0
  then show ?case by (simp add: sparkey_logiter_skip.simps)
next
  case (Suc n)
  then obtain e es' where es: "es = e # es'" by (cases es) auto
  obtain iter1 where n1: "sparkey_logiter_next lib iter log = Some (SPARKEY_SUCCESS, iter1)"
    "active lib log iter1 e es' (entry_key e) (entry_value e)"
    by (rule logiter_next_entry [OF ok Suc.prems(1) [unfolded es]])
  from Suc.IH [OF active_before [OF n1(2)]] Suc.prems(2) es obtain iter' where
    "sparkey_logiter_skip lib iter1 log (int n) = Some (SPARKEY_SUCCESS, iter')" "before lib log iter' (drop n es')"
    by auto
  then show ?case using n1(1) es by (simp add: sparkey_logiter_skip.simps [of lib iter])
qed

text \<open>What the hash reader does: seek to a block, pass the entries in front, and read the entry.\<close>

lemma seek_entry:
  assumes ok: "reader_ok lib log" and it: "iter_at lib log iter cur rest" and e: "entry_at lib log p idx e es"
  obtains iter1 iter2 iter3 where "sparkey_logiter_seek lib iter log p = Some (SPARKEY_SUCCESS, iter1)"
    "sparkey_logiter_skip lib iter1 log (int idx) = Some (SPARKEY_SUCCESS, iter2)"
    "sparkey_logiter_next lib iter2 log = Some (SPARKEY_SUCCESS, iter3)"
    "active lib log iter3 e es (entry_key e) (entry_value e)"
proof -
  from e obtain g bl rg where ga: "group_at lib log p g bl rg" and i: "idx < length g" "g ! idx = e"
    and es: "es = drop (Suc idx) g @ concat (map fst rg)"
    by (auto simp: entry_at_def)
  obtain iter1 where 1: "sparkey_logiter_seek lib iter log p = Some (SPARKEY_SUCCESS, iter1)"
    "in_group lib log iter1 0 (g @ concat (map fst rg))" "it_state iter1 = SPARKEY_ITER_NEW"
    by (rule seek_group [OF ok it ga])
  have "before lib log iter1 (g @ concat (map fst rg))" using 1(2,3) by (auto simp: before_def reading_def)
  from logiter_skip_before [OF ok this, of idx] i obtain iter2 where
    2: "sparkey_logiter_skip lib iter1 log (int idx) = Some (SPARKEY_SUCCESS, iter2)"
    "before lib log iter2 (drop idx (g @ concat (map fst rg)))" by auto
  have "drop idx (g @ concat (map fst rg)) = e # es"
    using i es by (simp add: Cons_nth_drop_Suc [symmetric])
  then obtain iter3 where "sparkey_logiter_next lib iter2 log = Some (SPARKEY_SUCCESS, iter3)"
    "active lib log iter3 e es (entry_key e) (entry_value e)"
    using logiter_next_entry [OF ok, of iter2 e es] 2(2) by metis
  then show thesis using that 1(1) 2(1) by blast
qed

text \<open>\<open>reset\<close> goes back to the first byte of the current entry's key, from wherever the iterator is.\<close>

lemma seekblock_entry_count:
  "seekblock lib iter log p = Some (rc, iter') \<Longrightarrow> it_entry_count iter' = it_entry_count iter"
  by (auto simp: seekblock_def Let_def bind_eq_Some_conv split: if_splits prod.splits)

lemma body_rewind:
  assumes lay: "group_layout log (g, b # bt)" and i: "idx < length g" "g ! idx = e"
    and off: "off = length (encode_entries (take idx g)) + length (entry_head e)"
  shows "drop off b @ concat bt = entry_body e @ encode_entries (drop (Suc idx) g)" "off \<le> length b"
    "off + length (entry_body e) = length (encode_entries (take (Suc idx) g))"
    "drop off (encode_entries (take (Suc idx) g)) = entry_body e"
proof -
  note sp = group_split [OF lay i(1), unfolded i(2)]
  have "drop (length (entry_head e)) (drop (length (encode_entries (take idx g))) b @ concat bt)
      = entry_body e @ encode_entries (drop (Suc idx) g)"
    unfolding sp(3) by (simp add: encode_entry_def)
  moreover have "length (entry_head e) \<le> length (drop (length (encode_entries (take idx g))) b)"
    using sp(1) by simp
  ultimately show "drop off b @ concat bt = entry_body e @ encode_entries (drop (Suc idx) g)"
    unfolding off by (simp add: add.commute)
  show "off \<le> length b" using off sp(1) by simp
  show "off + length (entry_body e) = length (encode_entries (take (Suc idx) g))"
    "drop off (encode_entries (take (Suc idx) g)) = entry_body e"
    using i off by (simp_all add: encode_entries_take_Suc encode_entry_def)
qed

lemma reset_body:
  assumes ok: "reader_ok lib log" and bd: "body_at lib log iter idx e es r"
  obtains iter1 where "seekblock lib iter log (it_entry_block_position iter) = Some (SPARKEY_SUCCESS, iter1)"
    "body_at lib log (iter1\<lparr>it_block_offset := it_entry_block_offset iter\<rparr>) idx e es (entry_body e)" "same_entry iter iter1"
proof -
  obtain cur rest where it: "iter_at lib log iter cur rest" using body_iter_at [OF bd] by blast
  from bd obtain g bl rg where ga: "group_at lib log (it_entry_block_position iter) g bl rg"
    and i: "idx < length g" "g ! idx = e" and es: "es = drop (Suc idx) g @ concat (map fst rg)"
    and off: "unat (it_entry_block_offset iter) = length (encode_entries (take idx g)) + length (entry_head e)"
    and st: "if Suc idx < length g
        then it_block_position iter = it_entry_block_position iter \<and> in_block lib log iter g bl rg (Suc idx) r
        else tail_of lib log iter rg r"
    by (auto simp: body_at_def)
  obtain b bt where bl: "bl = b # bt" using ga by (cases bl) (auto dest!: group_at_simps(2) simp: group_layout_def)
  have at: "blocks_at lib log (it_entry_block_position iter) (b # bt @ concat (map snd rg))" and lay: "group_layout log (g, b # bt)"
    and lays: "anchored lib log rg"
    using group_at_simps [OF ga] by (simp_all add: bl)
  obtain iter1 where sk: "seekblock lib iter log (it_entry_block_position iter) = Some (SPARKEY_SUCCESS, iter1)"
    "at_block lib log iter1 (it_entry_block_position iter) b (bt @ concat (map snd rg))" "same_entry iter iter1"
    by (rule seekblock_at [OF ok it at])
  let ?iter = "iter1\<lparr>it_block_offset := it_entry_block_offset iter\<rparr>"
  note rw = body_rewind [OF lay i off]
  have it1: "iter_at lib log iter1 b (bt @ concat (map snd rg))" and o1: "it_block_offset iter1 = 0"
    and p1: "it_block_position iter1 = it_entry_block_position iter"
    using sk(2) by (simp_all add: at_block_def)
  have it': "iter_at lib log ?iter (drop (unat (it_entry_block_offset iter)) b) (bt @ concat (map snd rg))"
    using iter_at_advance(1) [OF it1 rw(2)] o1 by simp
  have bf: "take (unat (it_block_len iter1)) (it_compression_buf iter1) = b" using it1 o1 by (simp add: iter_at_def)
  have ebp: "it_entry_block_position ?iter = it_entry_block_position iter" "it_entry_block_offset ?iter = it_entry_block_offset iter"
    using sk(3) by (simp_all add: same_entry_def)
  have st': "if Suc idx < length g
      then it_block_position ?iter = it_entry_block_position ?iter \<and> in_block lib log ?iter g bl rg (Suc idx) (entry_body e)
      else tail_of lib log ?iter rg (entry_body e)"
  proof (cases "Suc idx < length g")
    case True
    then have "it_entry_count iter = of_nat (Suc idx) - 1" using st by (simp add: in_block_def)
    then have "it_entry_count ?iter = of_nat (Suc idx) - 1" using seekblock_entry_count [OF sk(1)] by simp
    then have "in_block lib log ?iter g bl rg (Suc idx) (entry_body e)"
      unfolding in_block_def using ga it' bf True rw(3,4) p1 bl by auto
    then show ?thesis using True p1 ebp by simp
  next
    case False
    then have "tail_of lib log ?iter rg (entry_body e)"
      unfolding tail_of_def using lays it' rw(1) by auto
    then show ?thesis using False by simp
  qed
  have "body_at lib log ?iter idx e es (entry_body e)"
    unfolding body_at_def ebp using ga i es off st' [unfolded ebp] by blast
  then show thesis using that sk by blast
qed

lemma logiter_reset_active:
  assumes ok: "reader_ok lib log" and a: "active lib log iter e es rk rv"
  obtains iter' where "sparkey_logiter_reset lib iter log = Some (SPARKEY_SUCCESS, iter')"
    "active lib log iter' e es (entry_key e) (entry_value e)"
proof -
  from a obtain idx where bd: "body_at lib log iter idx e es (rk @ rv)" by (auto simp: active_def)
  obtain iter1 where sk: "seekblock lib iter log (it_entry_block_position iter) = Some (SPARKEY_SUCCESS, iter1)"
    "body_at lib log (iter1\<lparr>it_block_offset := it_entry_block_offset iter\<rparr>) idx e es (entry_body e)" "same_entry iter iter1"
    by (rule reset_body [OF ok bd])
  let ?iter = "iter1\<lparr>it_key_remaining := it_keylen iter1, it_value_remaining := it_valuelen iter1,
      it_block_offset := it_entry_block_offset iter1\<rparr>"
  have run: "sparkey_logiter_reset lib iter log = Some (SPARKEY_SUCCESS, ?iter)"
    using sk(1) active_state [OF a] by (simp add: sparkey_logiter_reset_def)
  have eq: "?iter = (iter1\<lparr>it_block_offset := it_entry_block_offset iter\<rparr>)
      \<lparr>it_key_remaining := it_keylen iter1, it_value_remaining := it_valuelen iter1\<rparr>"
    using sk(3) by (simp add: same_entry_def)
  have "body_at lib log ?iter idx e es (entry_key e @ entry_value e)"
    unfolding eq using sk(2) by (simp add: entry_body_def)
  then have "active lib log ?iter e es (entry_key e) (entry_value e)"
    using a sk(3) unfolding active_def by (auto simp: same_entry_def)
  then show thesis using that run by blast
qed

end
