(* ===== verification/LogLayout.thy ===== *)
theory LogLayout
  imports LogChunks
begin

text \<open>
  The groups of a log file are determined by its bytes, so that an entry has one address only: its block
  and its index in the block.
\<close>

section \<open>Decoding is unique\<close>

lemma encode_entry_inject:
  assumes ok: "entry_ok e" "entry_ok e'" and eq: "encode_entry e @ x = encode_entry e' @ y"
  shows "e = e'" "x = y"
proof -
  have len: "length (entry_key e) < 2 ^ 63" "length (entry_value e) < 2 ^ 63"
    "length (entry_key e') < 2 ^ 63" "length (entry_value e') < 2 ^ 63"
    using ok by (simp_all add: entry_ok_def encode_entry_def entry_body_def)
  have 1: "write_vlq (fst (entry_nums e)) @ (write_vlq (snd (entry_nums e)) @ entry_body e @ x)
      = write_vlq (fst (entry_nums e')) @ (write_vlq (snd (entry_nums e')) @ entry_body e' @ y)"
    using eq by (simp add: encode_entry_def entry_head_def)
  note f = write_vlq_inject [OF 1, THEN conjunct1] and r = write_vlq_inject [OF 1, THEN conjunct2]
  note s = write_vlq_inject [OF r, THEN conjunct1] and b = write_vlq_inject [OF r, THEN conjunct2]
  have un: "unat (of_nat n + 1 :: u64) = n + 1" "unat (of_nat n :: u64) = n" if "n < 2 ^ 63" for n
    using that by (simp_all add: unat_add_u64 unat_of_nat_u64)
  have lens: "is_put e = is_put e' \<and> length (entry_key e) = length (entry_key e') \<and> length (entry_value e) = length (entry_value e')"
  proof (cases e; cases e')
    fix k v k' v'
    assume e: "e = PutEntry k v" "e' = PutEntry k' v'"
    then have "(of_nat (length k) + 1 :: u64) = of_nat (length k') + 1" "(of_nat (length v) :: u64) = of_nat (length v')"
      using f s by simp_all
    then have "length k + 1 = length k' + 1" "length v = length v'" using un len e by (metis entry_key.simps(1), metis entry_value.simps(1))
    then show ?thesis using e by simp
  next
    fix k v k'
    assume e: "e = PutEntry k v" "e' = DeleteEntry k'"
    then have "(of_nat (length k) + 1 :: u64) = 0" using f by simp
    then have "length k + 1 = 0" using un(1) len(1) e by (metis entry_key.simps(1) unat_0)
    then show ?thesis by simp
  next
    fix k k' v'
    assume e: "e = DeleteEntry k" "e' = PutEntry k' v'"
    then have "(of_nat (length k') + 1 :: u64) = 0" using f by simp
    then have "length k' + 1 = 0" using un(1) len(3) e by (metis entry_key.simps(1) unat_0)
    then show ?thesis by simp
  next
    fix k k'
    assume e: "e = DeleteEntry k" "e' = DeleteEntry k'"
    then have "(of_nat (length k) :: u64) = of_nat (length k')" using s by simp
    then have "length k = length k'" using un(2) len(1,3) e by (metis entry_key.simps(2))
    then show ?thesis using e by simp
  qed
  then show "e = e'" "x = y"
    using b by (cases e; cases e'; auto simp: entry_body_def)+
qed

text \<open>Entries that spell a prefix of the bytes of other entries are a prefix of these.\<close>

lemma encode_entries_prefix:
  assumes "\<forall>e \<in> set es. entry_ok e" "\<forall>e \<in> set fs. entry_ok e" "encode_entries fs = encode_entries es @ x"
  obtains gs where "fs = es @ gs" "encode_entries gs = x"
  using assms
proof (induction es arbitrary: fs thesis)
  case Nil
  then show ?case by simp
next
  case (Cons e es)
  obtain f fs' where fs: "fs = f # fs'" using Cons.prems(4) by (cases fs) simp_all
  have eq: "encode_entry f @ encode_entries fs' = encode_entry e @ (encode_entries es @ x)"
    using Cons.prems(4) unfolding fs by simp
  have ok: "entry_ok f" "entry_ok e" using Cons.prems(2,3) fs by simp_all
  note i = encode_entry_inject [OF ok eq]
  show ?case
    by (rule Cons.IH [of fs']) (use Cons.prems(1-3) fs i in simp_all)
qed

lemma encode_entries_inject:
  "\<forall>e \<in> set es. entry_ok e \<Longrightarrow> \<forall>e \<in> set fs. entry_ok e \<Longrightarrow> encode_entries es = encode_entries fs \<Longrightarrow> es = fs"
  by (rule encode_entries_prefix [of es fs "[]"]) auto

section \<open>Groups are unique\<close>

lemma group_prefix_same:
  assumes g: "group_layout log (g, bl)" and g': "group_layout log (g', bl @ x)" and ne: "[] \<notin> set x"
  shows "g = g' \<and> x = []"
proof -
  have e: "concat bl = encode_entries g" "concat bl @ concat x = encode_entries g'" "bl \<noteq> []"
    and ok: "\<forall>e \<in> set g. entry_ok e" "\<forall>e \<in> set g'. entry_ok e"
    and hd: "length (encode_entries (butlast g')) + length (entry_head (last g')) \<le> length (hd bl)"
    using g g' by (auto simp: group_layout_def)
  obtain gs where gs: "g' = g @ gs" "encode_entries gs = concat x"
    by (rule encode_entries_prefix [OF ok, of "concat x"]) (use e in simp_all)
  have "gs = []"
  proof (rule ccontr)
    assume "gs \<noteq> []"
    then have "butlast g' = g @ butlast gs" using gs(1) by (simp add: butlast_append)
    then have "length (encode_entries g) + 2 \<le> length (hd bl)"
      using hd length_entry_head(1) [of "last g'"] by simp
    moreover have "length (hd bl) \<le> length (concat bl)" using e(3) by (cases bl) simp_all
    ultimately show False using e(1) by simp
  qed
  moreover have "x = []" using calculation gs(2) ne by (cases x) auto
  ultimately show ?thesis using gs(1) by simp
qed

lemma groups_unique:
  assumes "\<forall>x \<in> set gl. group_layout log x" "\<forall>x \<in> set gl'. group_layout log x"
    and "concat (map snd gl) = concat (map snd gl')" "[] \<notin> set (concat (map snd gl))"
  shows "gl = gl'"
  using assms
proof (induction gl arbitrary: gl')
  case Nil
  show ?case
  proof (cases gl')
    case (Cons x xs)
    then have "snd x \<noteq> []" using Nil.prems(2) by (cases x) (auto simp: group_layout_def)
    then show ?thesis using Nil.prems(3) Cons by simp
  qed simp
next
  case (Cons x gl)
  obtain g bl where x: "x = (g, bl)" by (cases x)
  have "bl \<noteq> []" using Cons.prems(1) x by (simp add: group_layout_def)
  then obtain x' gl1 where gl': "gl' = x' # gl1" using Cons.prems(3) x by (cases gl') auto
  obtain g' bl' where x': "x' = (g', bl')" by (cases x')
  have lay: "group_layout log (g, bl)" "group_layout log (g', bl')" using Cons.prems(1,2) x x' gl' by simp_all
  have eq: "bl @ concat (map snd gl) = bl' @ concat (map snd gl1)" using Cons.prems(3) x x' gl' by simp
  have ne: "[] \<notin> set bl" using Cons.prems(4) unfolding x by simp
  have ne': "[] \<notin> set bl'" using Cons.prems(4) unfolding Cons.prems(3) gl' x' by simp
  have "x = x'"
  proof (cases "length bl \<le> length bl'")
    case True
    then obtain z where z: "bl' = bl @ z" using eq by (metis append_eq_append_conv_if append_take_drop_id)
    then have "[] \<notin> set z" using ne ne' by simp
    then show ?thesis using group_prefix_same [OF lay(1), of g' z] lay(2) z x x' by simp
  next
    case False
    then obtain z where z: "bl = bl' @ z" using eq by (metis append_eq_append_conv_if append_take_drop_id nat_le_linear)
    then have "[] \<notin> set z" using ne ne' by simp
    then show ?thesis using group_prefix_same [OF lay(2), of g z] lay(1) z x x' by simp
  qed
  moreover have "concat (map snd gl) = concat (map snd gl1)" using eq calculation x x' by simp
  ultimately show ?case using Cons.IH [of gl1] Cons.prems(1,2,4) gl' by simp
qed

section \<open>Addresses are unique\<close>

lemma group_suffix_unique:
  assumes "gl @ (g, bl) # rg = gl' @ (g', bl') # rg'" "idx < length g" "idx' < length g'"
    and "drop (Suc idx) g @ concat (map fst rg) = drop (Suc idx') g' @ concat (map fst rg')"
    and ne: "\<forall>x \<in> set (gl @ (g, bl) # rg). fst x \<noteq> []"
  shows "rg = rg' \<and> g = g' \<and> bl = bl' \<and> idx = idx'"
proof -
  have no: False if "gla @ (ga, bla) # rga = glb @ (gb, blb) # rgb" "idxb < length gb"
    "drop (Suc idxa) ga @ concat (map fst rga) = drop (Suc idxb) gb @ concat (map fst rgb)" "length gla < length glb"
    for gla ga bla rga glb gb blb rgb idxa idxb
  proof -
    from that(1,4) obtain z where "glb = gla @ (ga, bla) # z" "rga = z @ (gb, blb) # rgb"
      by (auto simp: append_eq_append_conv2 Cons_eq_append_conv append_eq_Cons_conv)
    then have "length (drop (Suc idxa) ga @ concat (map fst rga)) \<ge> length gb + length (concat (map fst rgb))" by simp
    then show False unfolding that(3) using that(2) by simp
  qed
  have "\<not> length gl < length gl'" using no [OF assms(1,3,4)] by blast
  moreover have "\<not> length gl' < length gl" using no [OF assms(1) [symmetric] assms(2) assms(4) [symmetric]] by blast
  ultimately have "length gl = length gl'" by simp
  then have same: "gl = gl'" "(g, bl) = (g', bl')" "rg = rg'" using assms(1) by simp_all
  then have "length g - Suc idx = length g' - Suc idx'" using assms(4) by (metis Pair_inject append_same_eq length_drop)
  then show ?thesis using same assms(2,3) by auto
qed

lemma entry_at_unique:
  assumes ok: "reader_ok lib log" and e: "entry_at lib log p idx e es" "entry_at lib log p' idx' e es"
    and z: "rtype log = SPARKEY_COMPRESSION_NONE \<longrightarrow> idx = 0 \<and> idx' = 0"
  shows "p = p' \<and> idx = idx'"
proof -
  obtain g bl rg where a: "group_at lib log p g bl rg" "idx < length g" "g ! idx = e" "es = drop (Suc idx) g @ concat (map fst rg)"
    using e(1) by (auto simp: entry_at_def)
  obtain g' bl' rg' where b: "group_at lib log p' g' bl' rg'" "idx' < length g'" "g' ! idx' = e"
    "es = drop (Suc idx') g' @ concat (map fst rg')"
    using e(2) by (auto simp: entry_at_def)
  note ga = group_at_simps [OF a(1)] and gb = group_at_simps [OF b(1)]
  have pos: "p = p'" if "drop (unat p) (lr_data log) = drop (unat p') (lr_data log)"
  proof -
    have "length (lr_data log) - unat p = length (lr_data log) - unat p'" using that by (metis length_drop)
    moreover have "unat p \<le> length (lr_data log)" "unat p' \<le> length (lr_data log)"
      using ga(1) gb(1) by (simp_all add: blocks_at_def)
    ultimately show ?thesis by (simp add: word_unat_eq_iff)
  qed
  show ?thesis
  proof (cases "sparkey_compressors lib (rtype log)")
    case None
    then have i: "idx = 0" "idx' = 0" using z reader_ok_None [OF ok] by simp_all
    have plain: "rgx = [] \<and> drop (unat q) (lr_data log) = encode_entries gx"
      if "group_at lib log q gx blx rgx" for q gx blx rgx
    proof -
      note gx = group_at_simps [OF that]
      have ne: "blx \<noteq> []" "concat blx = encode_entries gx" using gx(2) by (simp_all add: group_layout_def)
      then have bl: "blx = [drop (unat q) (lr_data log)]" "concat (map snd rgx) = []"
        using gx(1) None by (cases blx; auto simp: blocks_at_def split: if_splits)+
      moreover have "rgx = []" using bl(2) gx(4) by (cases rgx) (auto simp: group_layout_def)
      ultimately show ?thesis using ne(2) by simp
    qed
    have "g = e # es" "g' = e # es"
      using a(2-4) b(2-4) i plain [OF a(1)] plain [OF b(1)] by (cases g; cases g'; simp)+
    then have "drop (unat p) (lr_data log) = drop (unat p') (lr_data log)" using plain [OF a(1)] plain [OF b(1)] by simp
    then show ?thesis using pos i by simp
  next
    case (Some c)
    obtain gl where gl: "\<forall>x \<in> set gl. group_layout log x"
      "blocks_at lib log (ucast LOG_HEADER_SIZE) (concat (map snd (gl @ (g, bl) # rg)))"
      using a(1) Some by (auto simp: group_at_def anchored_def)
    obtain gl' where gl': "\<forall>x \<in> set gl'. group_layout log x"
      "blocks_at lib log (ucast LOG_HEADER_SIZE) (concat (map snd (gl' @ (g', bl') # rg')))"
      using b(1) Some by (auto simp: group_at_def anchored_def)
    have "gl @ (g, bl) # rg = gl' @ (g', bl') # rg'"
    proof (rule groups_unique)
      show "\<forall>x \<in> set (gl @ (g, bl) # rg). group_layout log x" using gl(1) ga(2,4) by auto
      show "\<forall>x \<in> set (gl' @ (g', bl') # rg'). group_layout log x" using gl'(1) gb(2,4) by auto
      show "concat (map snd (gl @ (g, bl) # rg)) = concat (map snd (gl' @ (g', bl') # rg'))"
        by (rule blocks_at_unique [OF ok gl(2) gl'(2)])
      show "[] \<notin> set (concat (map snd (gl @ (g, bl) # rg)))" using gl(2) Some by (auto simp: blocks_at_def)
    qed
    moreover have "\<forall>x \<in> set (gl @ (g, bl) # rg). fst x \<noteq> []"
      using gl(1) ga(2,4) by (auto simp: group_layout_def)
    ultimately have same: "rg = rg' \<and> g = g' \<and> bl = bl' \<and> idx = idx'"
      using group_suffix_unique [OF _ a(2) b(2) trans [OF a(4) [symmetric] b(4)]] by blast
    have "drop (unat p) (lr_data log) = drop (unat p') (lr_data log)"
      using ga(1) gb(1) Some same by (simp add: blocks_at_def)
    then show ?thesis using pos same by simp
  qed
qed

end
