(* ===== verification/HashIndex.thy ===== *)
theory HashIndex
  imports HashSlots LogLayout
begin

text \<open>
  What the entries of an index mean: an address packs the position of a block of the log and the index of
  an entry in it, and an index represents a map from keys to the addresses of their entries.
\<close>

section \<open>Addresses\<close>

abbreviation block_bits :: "sparkey_hashheader \<Rightarrow> nat" where
  "block_bits h \<equiv> unat (hh_entry_block_bits h)"

definition address :: "sparkey_hashheader \<Rightarrow> u64 \<Rightarrow> nat \<Rightarrow> u64" where
  "address h pos idx = push_bit (block_bits h) pos OR of_nat idx"

text \<open>The header of the index has room for every address of the log.\<close>

definition addresses_ok :: "sparkey_hashheader \<Rightarrow> sparkey_logreader \<Rightarrow> bool" where
  "addresses_ok h log \<longleftrightarrow>
     block_bits h \<le> 31 \<and> hh_entry_block_bitmask h = block_bitmask (hh_entry_block_bits h)
     \<and> unat (lh_data_end (lr_header log)) * 2 ^ block_bits h < 2 ^ 64
     \<and> (hh_address_size h = 4 \<longrightarrow> unat (lh_data_end (lr_header log)) * 2 ^ block_bits h \<le> 2 ^ 32)
     \<and> (sparkey_uses_compressor (rtype log) \<longrightarrow> unat (lh_max_entries_per_block (lr_header log)) \<le> 2 ^ block_bits h)"

lemma unat_push_bit_u64:
  fixes x :: u64
  assumes "unat x * 2 ^ b < 2 ^ 64"
  shows "unat (push_bit b x) = unat x * 2 ^ b"
  unfolding unsigned_push_bit_eq using assms by (simp add: push_bit_eq_mult take_bit_nat_eq_self)

lemma push_or_unat:
  fixes x :: u64
  assumes x: "(unat x + 1) * 2 ^ b \<le> 2 ^ 64" and i: "i < 2 ^ b"
  shows "unat (push_bit b x OR of_nat i) = unat x * 2 ^ b + i"
proof -
  have lt: "unat x * 2 ^ b + i < 2 ^ 64" using assms by simp
  have p: "unat (push_bit b x) = unat x * 2 ^ b" by (rule unat_push_bit_u64) (use lt in linarith)
  have u: "unat (of_nat i :: u64) = i" by (rule unat_of_nat_u64) (use lt in linarith)
  have "\<not> bit (of_nat i :: u64) n" if "b \<le> n" for n
  proof -
    have "i < 2 ^ n" using i that by (meson less_le_trans one_le_numeral power_increasing)
    then have "\<not> bit i n" by (simp add: bit_iff_odd)
    then show ?thesis by (simp add: bit_simps)
  qed
  then have "push_bit b x + of_nat i = push_bit b x OR of_nat i"
    by (intro disjunctive_add) (auto simp: bit_push_bit_iff)
  then have "unat (push_bit b x OR of_nat i) = unat (push_bit b x + of_nat i)" by simp
  also have "\<dots> = unat x * 2 ^ b + i" using p u lt by (simp add: unat_add_u64)
  finally show ?thesis .
qed

lemma address_decode:
  assumes ok: "addresses_ok h log" and pos: "0 < unat pos" "pos < lh_data_end (lr_header log)" and i: "idx < 2 ^ block_bits h"
  shows "drop_bit (block_bits h) (address h pos idx) = pos" "entry_index h (address h pos idx) = int idx"
    "address h pos idx \<noteq> 0" "hh_address_size h = 4 \<Longrightarrow> unat (address h pos idx) < 2 ^ 32"
proof -
  let ?b = "block_bits h" let ?p = "address h pos idx" let ?e = "unat (lh_data_end (lr_header log))"
  have e: "?e * 2 ^ ?b < 2 ^ 64" and b: "?b \<le> 31" and m: "hh_entry_block_bitmask h = block_bitmask (hh_entry_block_bits h)"
    using ok by (simp_all add: addresses_ok_def)
  have "unat pos + 1 \<le> ?e" using pos(2) by (simp add: word_less_nat_alt)
  then have le: "(unat pos + 1) * 2 ^ ?b \<le> ?e * 2 ^ ?b" by (rule mult_le_mono1)
  have u: "unat ?p = unat pos * 2 ^ ?b + idx"
    unfolding address_def by (rule push_or_unat) (use le e i in simp_all)
  show "drop_bit ?b ?p = pos"
    unfolding u64_eq_iff_unat unat_drop_bit_eq u using i by (simp add: drop_bit_eq_div)
  show "?p \<noteq> 0" using u pos(1) by (auto simp: u64_eq_iff_unat)
  show "unat ?p < 2 ^ 32" if "hh_address_size h = 4"
  proof -
    have "?e * 2 ^ ?b \<le> 2 ^ 32" using ok that by (simp add: addresses_ok_def)
    then show ?thesis using u le i by simp
  qed
  have mask: "block_bitmask (hh_entry_block_bits h) = mask ?b"
    by (simp add: block_bitmask_def mask_eq_exp_minus_1)
  have "unat (ucast ?p AND block_bitmask (hh_entry_block_bits h) :: u32) = unat ?p mod 2 ^ ?b"
  proof -
    have "unat (ucast ?p AND mask ?b :: u32) = unat (ucast ?p :: u32) mod 2 ^ ?b"
      unfolding take_bit_eq_mask [symmetric] unsigned_take_bit_eq by (rule take_bit_eq_mod)
    also have "\<dots> = (unat ?p mod 2 ^ 32) mod 2 ^ ?b"
      by (simp add: unsigned_ucast_eq take_bit_eq_mod unsigned_take_bit_eq)
    also have "\<dots> = unat ?p mod 2 ^ ?b" using b by (intro mod_mod_cancel le_imp_power_dvd) simp
    finally show ?thesis unfolding mask .
  qed
  then have un: "unat (ucast ?p AND hh_entry_block_bitmask h :: u32) = idx" using i u m by simp
  have "idx < 2 ^ 31" using i b by (meson less_le_trans one_le_numeral power_increasing)
  then show "entry_index h ?p = int idx"
    using sint_unat_u32 [of "ucast ?p AND hh_entry_block_bitmask h"] un by (simp add: entry_index_def)
qed

text \<open>The address of the current entry, from the fields of the iterator.\<close>

lemma current_address:
  assumes ok: "addresses_ok h log" and bd: "body_at lib log iter idx e es r" and c: "it_entry_count iter = of_nat idx"
    and z: "rtype log = SPARKEY_COMPRESSION_NONE \<Longrightarrow> idx = 0" and r: "reader_ok lib log"
  shows "idx < 2 ^ block_bits h"
    "push_bit (block_bits h) (it_entry_block_position iter) OR scast (it_entry_count iter)
       = address h (it_entry_block_position iter) idx"
proof -
  show i: "idx < 2 ^ block_bits h"
  proof (cases "sparkey_uses_compressor (rtype log)")
    case True
    then show ?thesis using body_index [OF bd True] ok by (auto simp: addresses_ok_def)
  next
    case False
    then have "rtype log = SPARKEY_COMPRESSION_NONE"
      using reader_ok_None [OF r] uses_compressor_iff [of "rtype log" lib] by auto
    then show ?thesis using z by simp
  qed
  have "block_bits h \<le> 31" using ok by (simp add: addresses_ok_def)
  then have i31: "idx < 2 ^ 31" using i by (meson less_le_trans one_le_numeral power_increasing)
  then have "unat (of_nat idx :: u32) = idx" by (simp add: unat_of_nat)
  then have "sint (of_nat idx :: u32) = int idx" using sint_unat_u32 [of "of_nat idx"] i31 by simp
  then have "(scast (of_nat idx :: u32) :: u64) = of_nat idx" by (metis of_int_of_nat_eq scast_eq)
  then show "push_bit (block_bits h) (it_entry_block_position iter) OR scast (it_entry_count iter)
       = address h (it_entry_block_position iter) idx" by (simp add: c address_def)
qed

section \<open>Keys\<close>

definition key_hash :: "sparkey_hashheader \<Rightarrow> bytes \<Rightarrow> u64 option" where
  "key_hash h k = alg_hash (hh_hash_algorithm h) k (hh_hash_seed h)"

text \<open>\<open>p\<close> is the address of an entry of the log that puts the key \<open>k\<close>.\<close>

definition indexed :: "codec_lib \<Rightarrow> sparkey_logreader \<Rightarrow> sparkey_hashheader \<Rightarrow> bytes \<Rightarrow> u64 \<Rightarrow> bool" where
  "indexed lib log h k p \<longleftrightarrow>
     (\<exists>pos idx v es. p = address h pos idx \<and> idx < 2 ^ block_bits h \<and> 84 \<le> unat pos
        \<and> pos < lh_data_end (lr_header log) \<and> entry_at lib log pos idx (PutEntry k v) es
        \<and> (rtype log = SPARKEY_COMPRESSION_NONE \<longrightarrow> idx = 0))
     \<and> (\<exists>a. key_hash h k = Some a \<and> item_fits h (a, p))"

lemma indexed_nonzero: "addresses_ok h log \<Longrightarrow> indexed lib log h k p \<Longrightarrow> p \<noteq> 0"
  using address_decode(3) by (fastforce simp: indexed_def)

text \<open>Moving an iterator to the entry at an address, as lookups do.\<close>

lemma seek_indexed:
  assumes ok: "reader_ok lib log" and ad: "addresses_ok h log" and ix: "indexed lib log h k p"
    and it: "iter_at lib log iter cur rest"
  obtains iter1 iter2 iter3 v es where
    "sparkey_logiter_seek lib iter log (drop_bit (block_bits h) p) = Some (SPARKEY_SUCCESS, iter1)"
    "sparkey_logiter_skip lib iter1 log (entry_index h p) = Some (SPARKEY_SUCCESS, iter2)"
    "sparkey_logiter_next lib iter2 log = Some (SPARKEY_SUCCESS, iter3)"
    "active lib log iter3 (PutEntry k v) es k v"
    "84 \<le> unat (drop_bit (block_bits h) p)" "drop_bit (block_bits h) p < lh_data_end (lr_header log)"
proof -
  from ix obtain pos idx v es where p: "p = address h pos idx" "idx < 2 ^ block_bits h" "84 \<le> unat pos"
    "pos < lh_data_end (lr_header log)" and e: "entry_at lib log pos idx (PutEntry k v) es"
    by (auto simp: indexed_def)
  have dec: "drop_bit (block_bits h) p = pos" "entry_index h p = int idx"
    using address_decode(1,2) [OF ad _ p(4,2)] p(1,3) by simp_all
  obtain iter1 iter2 iter3 where "sparkey_logiter_seek lib iter log pos = Some (SPARKEY_SUCCESS, iter1)"
    "sparkey_logiter_skip lib iter1 log (int idx) = Some (SPARKEY_SUCCESS, iter2)"
    "sparkey_logiter_next lib iter2 log = Some (SPARKEY_SUCCESS, iter3)"
    "active lib log iter3 (PutEntry k v) es (entry_key (PutEntry k v)) (entry_value (PutEntry k v))"
    by (rule seek_entry [OF ok it e])
  then show thesis using that dec p(3,4) by simp
qed

text \<open>The comparison with the key of another entry.\<close>

definition iters_on ::
  "codec_lib \<Rightarrow> sparkey_logreader \<Rightarrow> log_entry \<Rightarrow> log_entry list \<Rightarrow> iters \<Rightarrow> bool" where
  "iters_on lib log e es its \<longleftrightarrow>
     (\<exists>rk rv. active lib log (fst its) e es rk rv) \<and> (\<exists>cur rest. iter_at lib log (snd its) cur rest)"

lemma active_iter_at: "active lib log iter e es rk rv \<Longrightarrow> \<exists>cur rest. iter_at lib log iter cur rest"
  by (auto simp: active_def dest: body_iter_at)

lemma same_key_indexed:
  assumes ok: "reader_ok lib log" and ad: "addresses_ok h log" and ix: "indexed lib log h k p"
    and its: "iters_on lib log e es its"
  obtains its' vlen where
    "same_key lib log its (drop_bit (block_bits h) p) (entry_index h p)
       = Some (SPARKEY_SUCCESS, if entry_key e = k then Some (of_nat (length k), vlen) else None, its')"
    "iters_on lib log e es its'"
proof -
  obtain iter ra_iter where i: "its = (iter, ra_iter)" by (cases its)
  from its obtain rk rv cur rest where a: "active lib log iter e es rk rv" and ra: "iter_at lib log ra_iter cur rest"
    by (auto simp: iters_on_def i)
  obtain ra1 ra2 ra3 v es2 where s: "sparkey_logiter_seek lib ra_iter log (drop_bit (block_bits h) p) = Some (SPARKEY_SUCCESS, ra1)"
    "sparkey_logiter_skip lib ra1 log (entry_index h p) = Some (SPARKEY_SUCCESS, ra2)"
    "sparkey_logiter_next lib ra2 log = Some (SPARKEY_SUCCESS, ra3)" and a3: "active lib log ra3 (PutEntry k v) es2 k v"
    by (rule seek_indexed [OF ok ad ix ra])
  have ty: "it_type ra3 = SPARKEY_ENTRY_PUT" "it_keylen ra3 = of_nat (length k)"
    and kl: "it_keylen iter = of_nat (length (entry_key e))"
    using a3 a by (simp_all add: active_def)
  show thesis
  proof (cases "it_keylen iter = it_keylen ra3")
    case False
    then have "entry_key e \<noteq> k" using kl ty by auto
    then have "same_key lib log its (drop_bit (block_bits h) p) (entry_index h p)
       = Some (SPARKEY_SUCCESS, if entry_key e = k then Some (of_nat (length k), 0) else None, iter, ra3)"
      using s ty(1) False by (simp add: same_key_def i)
    then show thesis
      by (rule that) (use a active_iter_at [OF a3] in \<open>auto simp: iters_on_def\<close>)
  next
    case True
    obtain iter1 where r: "sparkey_logiter_reset lib iter log = Some (SPARKEY_SUCCESS, iter1)"
      "active lib log iter1 e es (entry_key e) (entry_value e)"
      by (rule logiter_reset_active [OF ok a])
    obtain j1 j2 r1 r2 where c: "sparkey_logiter_keycmp lib iter1 ra3 log
        = Some (SPARKEY_SUCCESS, key_compare (entry_key e) k, j1, j2)"
      "active lib log j1 e es r1 (entry_value e)" "active lib log j2 (PutEntry k v) es2 r2 v"
      by (rule keycmp_compare [OF ok r(2) a3])
    have "same_key lib log its (drop_bit (block_bits h) p) (entry_index h p)
       = Some (SPARKEY_SUCCESS, if entry_key e = k then Some (of_nat (length k), it_valuelen ra3) else None, j1, j2)"
      using s ty True r(1) c(1) key_compare_eq_0 [of "entry_key e" k] by (simp add: same_key_def i Let_def)
    then show thesis
      by (rule that) (use c(2) active_iter_at [OF c(3)] in \<open>auto simp: iters_on_def\<close>)
  qed
qed

end
