(* ===== verification/HashIndexOps.thy ===== *)
theory HashIndexOps
  imports HashIndex
begin

text \<open>
  The operations of the index on the map it represents: putting a key sets its address, deleting a key
  removes it, and both keep the invariant of the table.
\<close>

section \<open>The map an index represents\<close>

definition item_of :: "sparkey_hashheader \<Rightarrow> (bytes \<rightharpoonup> u64) \<Rightarrow> bytes \<Rightarrow> u64 \<times> u64" where
  "item_of h M k = (the (key_hash h k), the (M k))"

definition index_rep ::
  "codec_lib \<Rightarrow> sparkey_logreader \<Rightarrow> sparkey_hashheader \<Rightarrow> bytes \<Rightarrow> (bytes \<rightharpoonup> u64) \<Rightarrow> bool" where
  "index_rep lib log h t M \<longleftrightarrow>
     table_ok h t \<and> addresses_ok h log \<and> rh_inv (wanted h) (slots h t) \<and> (\<exists>i. at_rest (wanted h) (slots h t) i)
     \<and> finite (dom M) \<and> items (slots h t) = image_mset (item_of h M) (mset_set (dom M))
     \<and> (\<forall>k p. M k = Some p \<longrightarrow> indexed lib log h k p)"

text \<open>
  The fields of the header that the operations on the table leave alone: all the meaning of the table
  depends on, and the limits of the log.
\<close>

definition same_index :: "sparkey_hashheader \<Rightarrow> sparkey_hashheader \<Rightarrow> bool" where
  "same_index h h' \<longleftrightarrow>
     hh_hash_capacity h' = hh_hash_capacity h \<and> hh_hash_size h' = hh_hash_size h \<and> hh_address_size h' = hh_address_size h
     \<and> hh_hash_algorithm h' = hh_hash_algorithm h \<and> hh_hash_seed h' = hh_hash_seed h
     \<and> hh_entry_block_bits h' = hh_entry_block_bits h \<and> hh_entry_block_bitmask h' = hh_entry_block_bitmask h
     \<and> hh_num_puts h' = hh_num_puts h \<and> hh_max_key_len h' = hh_max_key_len h \<and> hh_max_value_len h' = hh_max_value_len h"

lemma same_index_refl: "same_index h h"
  and same_index_added: "same_index h (added_entry h)"
  and same_index_replaced: "same_index h (replaced_entry h kl vl)"
  and same_index_deleted: "same_index h (deleted_entry h kl vl)"
  and same_index_garbage: "same_index h (h\<lparr>hh_garbage_size := g\<rparr>)"
  by (simp_all add: same_index_def added_entry_def replaced_entry_def deleted_entry_def Let_def)

lemma same_index_trans: "same_index h h1 \<Longrightarrow> same_index h1 h2 \<Longrightarrow> same_index h h2"
  by (simp add: same_index_def)

lemma same_index_simps:
  assumes "same_index h h'"
  shows "index_rep lib log h' t M = index_rep lib log h t M" "hh_hash_capacity h' = hh_hash_capacity h"
    "slot_size h' = slot_size h" "key_hash h' = key_hash h" "index_shape h' = index_shape h"
    "indexed lib log h' = indexed lib log h" "hh_entry_block_bits h' = hh_entry_block_bits h"
    "addresses_ok h' log = addresses_ok h log" "item_fits h' = item_fits h"
    "hh_hash_seed h' = hh_hash_seed h" "hh_hash_algorithm h' = hh_hash_algorithm h"
    "slots h' = slots h" "wanted h' = wanted h" "table_ok h' = table_ok h"
proof -
  show s: "slot_size h' = slot_size h" "index_shape h' = index_shape h" "addresses_ok h' log = addresses_ok h log"
    "key_hash h' = key_hash h" "hh_hash_capacity h' = hh_hash_capacity h"
    "hh_entry_block_bits h' = hh_entry_block_bits h" "hh_hash_seed h' = hh_hash_seed h"
    "hh_hash_algorithm h' = hh_hash_algorithm h"
    and f: "item_fits h' = item_fits h"
    using assms by (auto simp: same_index_def slot_size_def index_shape_def addresses_ok_def key_hash_def item_fits_def)
  have v: "slot_value h' = slot_value h" using assms by (intro ext) (simp add: slot_value_def same_index_def)
  show sl: "slots h' = slots h" unfolding slots_def slot_at_def s(1,5) v ..
  show w: "wanted h' = wanted h" by (intro ext) (simp add: wanted_def s)
  show "table_ok h' = table_ok h" by (intro ext) (simp add: table_ok_def s)
  have a: "address h' = address h" by (intro ext) (simp add: address_def s)
  show ix: "indexed lib log h' = indexed lib log h" by (intro ext) (simp add: indexed_def s f a)
  show "index_rep lib log h' t M = index_rep lib log h t M"
    unfolding index_rep_def table_ok_def item_of_def s sl w ix ..
qed

lemma index_rep_item:
  assumes "index_rep lib log h t M" "s < capacity h" "slots h t ! s = Some x"
  obtains k where "k \<in> dom M" "x = item_of h M k" "indexed lib log h k (snd x)"
proof -
  have "x \<in># items (slots h t)" using assms(2,3) unfolding set_items by (metis length_slots nth_mem)
  then obtain k where "k \<in> dom M" "x = item_of h M k" using assms(1) by (auto simp: index_rep_def)
  moreover have "indexed lib log h k (the (M k))" using calculation(1) assms(1) by (auto simp: index_rep_def)
  ultimately show thesis using that by (simp add: item_of_def)
qed

lemma items_with_key:
  assumes "finite (dom M)" "k \<in> dom M"
  shows "image_mset (item_of h M) (mset_set (dom M)) = add_mset (item_of h M k) (image_mset (item_of h M) (mset_set (dom M - {k})))"
proof -
  have "mset_set (dom M) = add_mset k (mset_set (dom M - {k}))"
    using mset_set.insert_remove [OF assms(1), of k] assms(2) by (simp add: insert_absorb)
  then show ?thesis by simp
qed

lemma items_without_key:
  "image_mset (item_of h (M(k := x))) (mset_set (dom M - {k})) = image_mset (item_of h M) (mset_set (dom M - {k}))"
proof (rule image_mset_cong)
  fix k2
  assume "k2 \<in># mset_set (dom M - {k})"
  then have "k2 \<noteq> k" by (cases "finite (dom M - {k})") auto
  then show "item_of h (M(k := x)) k2 = item_of h M k2" by (simp add: item_of_def)
qed

text \<open>The three ways the table changes.\<close>

lemma index_rep_add:
  assumes r: "index_rep lib log h t M" and k: "M k = None" "key_hash h k = Some a" "indexed lib log h k p"
    and t': "table_ok h t'" "rh_inv (wanted h) (slots h t')" "\<exists>i. at_rest (wanted h) (slots h t') i"
      "items (slots h t') = add_mset (a, p) (items (slots h t))"
  shows "index_rep lib log h t' (M(k \<mapsto> p))"
proof -
  have fin: "finite (dom M)" and k': "k \<notin> dom M" using r k by (auto simp: index_rep_def)
  have "items (slots h t') = image_mset (item_of h (M(k \<mapsto> p))) (mset_set (dom (M(k \<mapsto> p))))"
    using t'(4) r items_without_key [of h M k "Some p"] fin k' k(2)
    by (simp add: index_rep_def item_of_def)
  then show ?thesis using r t' k(3) by (simp add: index_rep_def)
qed

lemma index_rep_replace:
  assumes r: "index_rep lib log h t M" and k: "M k = Some p0" "key_hash h k = Some a" "indexed lib log h k p"
    and t': "table_ok h t'" "rh_inv (wanted h) (slots h t')" "\<exists>i. at_rest (wanted h) (slots h t') i"
      "add_mset (a, p0) (items (slots h t')) = add_mset (a, p) (items (slots h t))"
  shows "index_rep lib log h t' (M(k \<mapsto> p))"
proof -
  have fin: "finite (dom M)" and k': "k \<in> dom M" using r k by (auto simp: index_rep_def)
  note i = items_with_key [OF fin k', of h]
  have "items (slots h t) = add_mset (a, p0) (image_mset (item_of h M) (mset_set (dom M - {k})))"
    using r i k(1,2) by (simp add: index_rep_def item_of_def)
  then have it: "items (slots h t') = add_mset (a, p) (image_mset (item_of h M) (mset_set (dom M - {k})))"
    using t'(4) by simp
  have fin': "finite (dom (M(k \<mapsto> p)))" "k \<in> dom (M(k \<mapsto> p))" "dom (M(k \<mapsto> p)) - {k} = dom M - {k}" using fin by auto
  have "image_mset (item_of h (M(k \<mapsto> p))) (mset_set (dom (M(k \<mapsto> p)))) = items (slots h t')"
    using items_with_key [OF fin'(1,2), of h] it k(2) items_without_key [of h M k "Some p"]
    unfolding fin'(3) by (simp add: item_of_def)
  then show ?thesis using r t' k(3) by (simp add: index_rep_def)
qed

lemma index_rep_remove:
  assumes r: "index_rep lib log h t M" and k: "M k = Some p0" "key_hash h k = Some a"
    and t': "table_ok h t'" "rh_inv (wanted h) (slots h t')" "\<exists>i. at_rest (wanted h) (slots h t') i"
      "add_mset (a, p0) (items (slots h t')) = items (slots h t)"
  shows "index_rep lib log h t' (M(k := None))"
proof -
  have fin: "finite (dom M)" and k': "k \<in> dom M" using r k by (auto simp: index_rep_def)
  have "items (slots h t) = add_mset (a, p0) (image_mset (item_of h M) (mset_set (dom M - {k})))"
    using r items_with_key [OF fin k', of h] k(1,2) by (simp add: index_rep_def item_of_def)
  then have "items (slots h t') = image_mset (item_of h M) (mset_set (dom M - {k}))" using t'(4) by simp
  then have "items (slots h t') = image_mset (item_of h (M(k := None))) (mset_set (dom (M(k := None))))"
    using items_without_key [of h M k None] by simp
  then show ?thesis using r t' fin by (simp add: index_rep_def)
qed

section \<open>Comparing a key with a slot\<close>

text \<open>The item of the key in the table, as the searches look for it.\<close>

definition is_key :: "sparkey_hashheader \<Rightarrow> (bytes \<rightharpoonup> u64) \<Rightarrow> bytes \<Rightarrow> u64 \<times> u64 \<Rightarrow> bool" where
  "is_key h M k x \<longleftrightarrow> k \<in> dom M \<and> x = item_of h M k"

lemma find_key_iff:
  assumes r: "index_rep lib log h t M" and k: "key_hash h k = Some a"
  shows "rh_find (wanted h) (is_key h M k) (slots h t) (unat (a mod hh_hash_capacity h)) 0 = None \<longleftrightarrow> M k = None"
proof
  have inv: "rh_inv (wanted h) (slots h t)" and shape: "index_shape h" using r by (auto simp: index_rep_def table_ok_def)
  let ?s = "unat (a mod hh_hash_capacity h)"
  have s: "?s < length (slots h t)" using wanted_less [OF shape, of "(a, 0)"] by (simp add: wanted_def)
  assume none: "rh_find (wanted h) (is_key h M k) (slots h t) ?s 0 = None"
  show "M k = None"
  proof (rule ccontr)
    assume "M k \<noteq> None"
    then have "k \<in> dom M" by auto
    then have "item_of h M k \<in># items (slots h t)" using r by (auto simp: index_rep_def)
    moreover have "wanted h (item_of h M k) = ?s" using k by (simp add: wanted_def item_of_def)
    ultimately have "\<not> is_key h M k (item_of h M k)" by (rule rh_find_None [OF inv none s])
    then show False using \<open>k \<in> dom M\<close> by (simp add: is_key_def)
  qed
next
  assume "M k = None"
  then show "rh_find (wanted h) (is_key h M k) (slots h t) (unat (a mod hh_hash_capacity h)) 0 = None"
    using rh_find_Some [of "wanted h" "is_key h M k" "slots h t"] by (metis domIff is_key_def not_Some_eq)
qed

text \<open>What \<open>same_key\<close> finds out about a full slot.\<close>

lemma same_key_slot:
  assumes ok: "reader_ok lib log" and r: "index_rep lib log h t M"
    and s: "s < capacity h" "slots h t ! s = Some x" and its: "iters_on lib log e es its"
  obtains its' vlen where "same_key lib log its (drop_bit (block_bits h) (snd x)) (entry_index h (snd x))
      = Some (SPARKEY_SUCCESS, if is_key h M (entry_key e) x then Some (of_nat (length (entry_key e)), vlen) else None, its')"
    "iters_on lib log e es its'"
proof -
  have ad: "addresses_ok h log" using r by (simp add: index_rep_def)
  show thesis
  proof (cases "is_key h M (entry_key e) x")
    case True
    then have "indexed lib log h (entry_key e) (snd x)"
      using r by (auto simp: is_key_def item_of_def index_rep_def)
    then obtain its' vlen where "same_key lib log its (drop_bit (block_bits h) (snd x)) (entry_index h (snd x))
      = Some (SPARKEY_SUCCESS, if entry_key e = entry_key e then Some (of_nat (length (entry_key e)), vlen) else None, its')"
      "iters_on lib log e es its'"
      by (rule same_key_indexed [OF ok ad _ its])
    then show thesis using that True by simp
  next
    case False
    obtain k where k: "k \<in> dom M" "x = item_of h M k" "indexed lib log h k (snd x)"
      by (rule index_rep_item [OF r s])
    then have "entry_key e \<noteq> k" using False by (auto simp: is_key_def)
    moreover obtain its' vlen where "same_key lib log its (drop_bit (block_bits h) (snd x)) (entry_index h (snd x))
      = Some (SPARKEY_SUCCESS, if entry_key e = k then Some (of_nat (length k), vlen) else None, its')"
      "iters_on lib log e es its'"
      by (rule same_key_indexed [OF ok ad k(3) its])
    ultimately show thesis using that False by simp
  qed
qed

lemma is_key_hash: "is_key h M k x \<Longrightarrow> key_hash h k = Some a \<Longrightarrow> fst x = a"
  by (simp add: is_key_def item_of_def)

section \<open>Putting\<close>

text \<open>The comparison at a full slot is a test for the key.\<close>

lemma put_compare_slot:
  assumes ok: "reader_ok lib log" and r: "index_rep lib log h t M" and k: "key_hash h (entry_key e) = Some a"
    and s: "s < capacity h" "slots h t ! s = Some x" and its: "iters_on lib log e es its"
  obtains its' vlen where "put_compare lib h (Some (its, log)) True a x
      = Some (SPARKEY_SUCCESS, if is_key h M (entry_key e) x then Some (of_nat (length (entry_key e)), vlen) else None, Some (its', log))"
    "iters_on lib log e es its'"
proof (cases "a = fst x")
  case True
  obtain its' vlen where "same_key lib log its (drop_bit (block_bits h) (snd x)) (entry_index h (snd x))
      = Some (SPARKEY_SUCCESS, if is_key h M (entry_key e) x then Some (of_nat (length (entry_key e)), vlen) else None, its')"
    "iters_on lib log e es its'"
    by (rule same_key_slot [OF ok r s its])
  then show thesis using that True by (simp add: put_compare_def)
next
  case False
  then have "\<not> is_key h M (entry_key e) x" using is_key_hash [OF _ k, of M x] by auto
  then show thesis using that [of 0 its] False its by (simp add: put_compare_def)
qed

text \<open>A round at the slot that holds the key.\<close>

lemma hash_put_loop_found:
  assumes t: "table_ok h t" and s: "s < capacity h" "slots h t ! s = Some (a2, p2)"
    and c: "put_compare lib h refs might a (a2, p2) = Some (SPARKEY_SUCCESS, Some (kl, vl), refs')"
  shows "hash_put_loop lib t h refs might (of_nat s) (of_nat s * slot_size h) d a p =
    Option.bind (write_slot h t (of_nat s * slot_size h) a p) (\<lambda>t. Some (SPARKEY_SUCCESS, t, replaced_entry h kl vl, refs'))"
proof -
  note full = byte_store.peek_full [OF t _ s(2), simplified, OF s(1)]
  note c' = c [unfolded put_compare_def fst_conv snd_conv]
  show ?thesis
    by (subst hash_put_loop.simps)
      (simp only: full(1,2) c' Let_def option.case Option.bind.simps prod.case rethrow_Success if_False split: if_split)
qed

text \<open>The key is in the table: the loop gets to its slot and overwrites it.\<close>

lemma hash_put_present:
  assumes ok: "reader_ok lib log" and r: "index_rep lib log h t M" and k: "key_hash h (entry_key e) = Some a"
    and "rh_find (wanted h) (is_key h M (entry_key e)) (slots h t) s d = Some i"
    and "s < capacity h" "d \<le> capacity h" "iters_on lib log e es its"
  shows "\<exists>its' kl vl. hash_put_loop lib t h (Some (its, log)) True (of_nat s) (of_nat s * slot_size h) (of_nat d) a p
      = Option.bind (write_slot h t (of_nat i * slot_size h) a p)
          (\<lambda>t. Some (SPARKEY_SUCCESS, t, replaced_entry h kl vl, Some (its', log)))
    \<and> iters_on lib log e es its'"
  using assms(4-)
proof (induction "Suc (capacity h) - d" arbitrary: s d its rule: less_induct)
  case less
  have t: "table_ok h t" using r by (simp add: index_rep_def)
  obtain x where x: "slots h t ! s = Some x"
    using less.prems(1,2) by (cases "slots h t ! s") (simp_all add: rh_find_empty)
  obtain a2 p2 where x2: "x = (a2, p2)" by (cases x)
  obtain its1 vlen where c: "put_compare lib h (Some (its, log)) True a x
      = Some (SPARKEY_SUCCESS, if is_key h M (entry_key e) x then Some (of_nat (length (entry_key e)), vlen) else None, Some (its1, log))"
    and its1: "iters_on lib log e es its1"
    by (rule put_compare_slot [OF ok r k less.prems(2) x less.prems(4)])
  have dl: "displacement (wanted h) (slots h t) s x < capacity h"
    unfolding x2 by (rule displacement_less [OF t less.prems(2)])
  note find = less.prems(1) [unfolded rh_find_full [of s "slots h t", simplified, OF less.prems(2,3) x]]
  show ?case
  proof (cases "is_key h M (entry_key e) x")
    case True
    then have "i = s" using find by simp
    moreover note hash_put_loop_found [OF t less.prems(2) x [unfolded x2] c [unfolded if_P [OF True], unfolded x2]]
    ultimately show ?thesis using its1 by (intro exI conjI) simp_all
  next
    case False
    let ?j = "succ_slot (capacity h) s"
    have go: "\<not> displacement (wanted h) (slots h t) s x < d"
      "rh_find (wanted h) (is_key h M (entry_key e)) (slots h t) ?j (Suc d) = Some i"
      using find False by (simp_all split: if_splits)
    have "hash_put_loop lib t h (Some (its, log)) True (of_nat s) (of_nat s * slot_size h) (of_nat d) a p
        = hash_put_loop lib t h (Some (its1, log)) True (of_nat ?j) (of_nat ?j * slot_size h) (of_nat (Suc d)) a p"
      using hash_put_loop_full [OF t less.prems(2) x [unfolded x2] less.prems(3) _ refl refl] c False go(1) x2 by simp
    moreover have "Suc (capacity h) - Suc d < Suc (capacity h) - d" "?j < capacity h" "Suc d \<le> capacity h"
      using go(1) dl less.prems(2,3) by auto
    moreover note less.hyps [OF this(1) go(2) this(2,3) its1]
    ultimately show ?thesis by simp
  qed
qed

text \<open>
  The key is not in the table: every comparison fails, so the loop does what it does when it compares
  nothing.
\<close>

lemma hash_put_absent:
  assumes ok: "reader_ok lib log" and r: "index_rep lib log h t M" and k: "key_hash h (entry_key e) = Some a"
    and "rh_find (wanted h) (is_key h M (entry_key e)) (slots h t) s d = None"
    and "s < capacity h" "d \<le> capacity h" "iters_on lib log e es its"
  shows "\<exists>its'. hash_put_loop lib t h (Some (its, log)) True (of_nat s) (of_nat s * slot_size h) (of_nat d) a p
      = hash_put_loop lib t h (Some (its', log)) False (of_nat s) (of_nat s * slot_size h) (of_nat d) a p
    \<and> iters_on lib log e es its'"
  using assms(4-)
proof (induction "Suc (capacity h) - d" arbitrary: s d its rule: less_induct)
  case less
  have t: "table_ok h t" using r by (simp add: index_rep_def)
  show ?case
  proof (cases "slots h t ! s")
    case None
    show ?thesis using less.prems(4) by (intro exI [of _ its]) (simp add: hash_put_loop_empty [OF t less.prems(2) None])
  next
    case (Some x)
    obtain a2 p2 where x2: "x = (a2, p2)" by (cases x)
    obtain its1 vlen where c: "put_compare lib h (Some (its, log)) True a x
        = Some (SPARKEY_SUCCESS, if is_key h M (entry_key e) x then Some (of_nat (length (entry_key e)), vlen) else None, Some (its1, log))"
      and its1: "iters_on lib log e es its1"
      by (rule put_compare_slot [OF ok r k less.prems(2) Some less.prems(4)])
    have dl: "displacement (wanted h) (slots h t) s x < capacity h"
      unfolding x2 by (rule displacement_less [OF t less.prems(2)])
    note find = less.prems(1) [unfolded rh_find_full [of s "slots h t", simplified, OF less.prems(2,3) Some]]
    have nk: "\<not> is_key h M (entry_key e) x" using find by auto
    note full = hash_put_loop_full [OF t less.prems(2) Some [unfolded x2] less.prems(3) _ refl refl]
    note cmp = full [OF c [unfolded if_not_P [OF nk], unfolded x2]]
    show ?thesis
    proof (cases "displacement (wanted h) (slots h t) s x < d")
      case True
      then show ?thesis
        using its1 x2 by (intro exI [of _ its1]) (simp add: cmp full [OF put_compare_idle])
    next
      case False
      let ?j = "succ_slot (capacity h) s"
      have "rh_find (wanted h) (is_key h M (entry_key e)) (slots h t) ?j (Suc d) = None"
        using find nk False by simp
      moreover have "Suc (capacity h) - Suc d < Suc (capacity h) - d" "?j < capacity h" "Suc d \<le> capacity h"
        using False dl less.prems(2,3) by auto
      ultimately obtain its' where
        "hash_put_loop lib t h (Some (its1, log)) True (of_nat ?j) (of_nat ?j * slot_size h) (of_nat (Suc d)) a p
          = hash_put_loop lib t h (Some (its', log)) False (of_nat ?j) (of_nat ?j * slot_size h) (of_nat (Suc d)) a p"
        "iters_on lib log e es its'"
        using less.hyps [OF _ _ _ _ its1] by blast
      then show ?thesis
        using False x2 by (intro exI [of _ its']) (simp add: cmp full [OF put_compare_idle])
    qed
  qed
qed

lemma index_rep_size: "index_rep lib log h t M \<Longrightarrow> size (items (slots h t)) = card (dom M)"
  by (simp add: index_rep_def)

text \<open>\<open>hash_put\<close> sets the address of the key.\<close>

lemma hash_put_rep:
  assumes ok: "reader_ok lib log" and r: "index_rep lib log h t M"
    and k: "key_hash h (entry_key e) = Some a" "indexed lib log h (entry_key e) p" "iters_on lib log e es its"
    and room: "M (entry_key e) = None \<Longrightarrow> card (dom M) < capacity h"
  obtains t' h' its' where
    "hash_put lib (a mod hh_hash_capacity h) a t h (Some (its, log)) p = Some (SPARKEY_SUCCESS, t', h', Some (its', log))"
    "index_rep lib log h t' (M(entry_key e \<mapsto> p))" "same_index h h'" "iters_on lib log e es its'"
    "hh_num_entries h' = (if M (entry_key e) = None then hh_num_entries h + 1 else hh_num_entries h)"
proof -
  let ?k = "entry_key e" let ?s = "unat (a mod hh_hash_capacity h)"
  have t: "table_ok h t" and inv: "rh_inv (wanted h) (slots h t)" and shape: "index_shape h" and ad: "addresses_ok h log"
    using r by (auto simp: index_rep_def table_ok_def)
  have s: "?s < capacity h" using wanted_less [OF shape, of "(a, 0)"] by (simp add: wanted_def)
  have fits: "item_fits h (a, p)" "p \<noteq> 0" using k indexed_nonzero [OF ad k(2)] by (auto simp: indexed_def)
  have put: "hash_put lib (a mod hh_hash_capacity h) a t h (Some (its, log)) p
    = hash_put_loop lib t h (Some (its, log)) True (of_nat ?s) (of_nat ?s * slot_size h) (of_nat 0) a p"
    by (simp add: hash_put_def)
  show thesis
  proof (cases "rh_find (wanted h) (is_key h M ?k) (slots h t) ?s 0")
    case None
    then have M: "M ?k = None" using find_key_iff [OF r k(1)] by simp
    obtain its' where its': "iters_on lib log e es its'"
      "hash_put lib (a mod hh_hash_capacity h) a t h (Some (its, log)) p
        = hash_put_loop lib t h (Some (its', log)) False (of_nat ?s) (of_nat ?s * slot_size h) (of_nat 0) a p"
      using hash_put_absent [OF ok r k(1) None s _ k(3), of p] put by auto
    obtain i where i: "i < capacity h" "slots h t ! i = None"
      using empty_slot_exists [of "slots h t"] room [OF M] index_rep_size [OF r] by auto
    have "carried (wanted h) (slots h t) ?s 0 (a, p)" using s by (intro carried_start) (simp_all add: wanted_def)
    from hash_put_walk [OF t inv this fits i] obtain t' where
      "hash_put lib (a mod hh_hash_capacity h) a t h (Some (its, log)) p = Some (SPARKEY_SUCCESS, t', added_entry h, Some (its', log))"
      "table_ok h t'" "rh_inv (wanted h) (slots h t')" "\<exists>i. at_rest (wanted h) (slots h t') i"
      "items (slots h t') = add_mset (a, p) (items (slots h t))"
      unfolding its'(2) by blast
    then show thesis
      using that [of t' "added_entry h" its'] index_rep_add [OF r M k(1,2)] its'(1) M same_index_added
      by (simp add: added_entry_def)
  next
    case (Some i)
    then have M: "M ?k \<noteq> None" using find_key_iff [OF r k(1)] by auto
    then obtain p0 where p0: "M ?k = Some p0" by auto
    obtain y where y: "i < capacity h" "slots h t ! i = Some y" "is_key h M ?k y" using rh_find_Some [OF Some] by auto
    have ya: "y = (a, p0)" using y(3) p0 k(1) by (simp add: is_key_def item_of_def)
    obtain t' where t': "write_slot h t (of_nat i * slot_size h) a p = Some t'" "table_ok h t'"
      "slots h t' = (slots h t)[i := Some (a, p)]"
      using byte_store.poke_view [OF t _ fits(1), of i] y(1) fits(2) by auto
    have "wanted h (a, p) = wanted h y" by (simp add: ya wanted_def)
    note rep = rh_replace [OF inv _ y(2) this]
    have "rh_inv (wanted h) (slots h t')" "\<exists>i. at_rest (wanted h) (slots h t') i"
      using rep y(1) t'(3) r by (auto simp: index_rep_def)
    moreover have "add_mset (a, p0) (items (slots h t')) = add_mset (a, p) (items (slots h t))"
      using items_update [of i "slots h t" "Some (a, p)"] y(1,2) ya t'(3) by simp
    ultimately have rep': "index_rep lib log h t' (M(?k \<mapsto> p))"
      by (rule index_rep_replace [OF r p0 k(1,2) t'(2)])
    obtain its' kl vl where "hash_put lib (a mod hh_hash_capacity h) a t h (Some (its, log)) p
        = Some (SPARKEY_SUCCESS, t', replaced_entry h kl vl, Some (its', log))" "iters_on lib log e es its'"
      using hash_put_present [OF ok r k(1) Some s _ k(3), of p] put t'(1) by auto
    then show thesis using that rep' same_index_replaced M by (simp add: replaced_entry_def)
  qed
qed

section \<open>Deleting\<close>

text \<open>The comparison \<open>hash_delete\<close> makes is the one of \<open>hash_put\<close>.\<close>

definition delete_compare ::
  "codec_lib \<Rightarrow> sparkey_hashheader \<Rightarrow> sparkey_logreader \<Rightarrow> iters \<Rightarrow> u64 \<Rightarrow> u64 \<times> u64 \<Rightarrow> ((u64 \<times> u64) option \<times> iters) result" where
  "delete_compare lib h log its a x2 =
     (if a = fst x2 then same_key lib log its (drop_bit (block_bits h) (snd x2)) (entry_index h (snd x2))
      else Some (SPARKEY_SUCCESS, None, its))"

lemma delete_compare_slot:
  assumes ok: "reader_ok lib log" and r: "index_rep lib log h t M" and k: "key_hash h (entry_key e) = Some a"
    and s: "s < capacity h" "slots h t ! s = Some x" and its: "iters_on lib log e es its"
  obtains its' vlen where "delete_compare lib h log its a x
      = Some (SPARKEY_SUCCESS, if is_key h M (entry_key e) x then Some (of_nat (length (entry_key e)), vlen) else None, its')"
    "iters_on lib log e es its'"
proof (cases "a = fst x")
  case True
  obtain its' vlen where "same_key lib log its (drop_bit (block_bits h) (snd x)) (entry_index h (snd x))
      = Some (SPARKEY_SUCCESS, if is_key h M (entry_key e) x then Some (of_nat (length (entry_key e)), vlen) else None, its')"
    "iters_on lib log e es its'"
    by (rule same_key_slot [OF ok r s its])
  then show thesis using that True by (simp add: delete_compare_def)
next
  case False
  then have "\<not> is_key h M (entry_key e) x" using is_key_hash [OF _ k, of M x] by auto
  then show thesis using that [of 0 its] False its by (simp add: delete_compare_def)
qed

text \<open>The positions in the table are those of entries, so the check of the range passes.\<close>

lemma index_rep_range:
  assumes ok: "reader_ok lib log" and r: "index_rep lib log h t M" and s: "s < capacity h" "slots h t ! s = Some x"
  shows "\<not> drop_bit (block_bits h) (snd x) < ucast (lh_header_size (lr_header log))"
    "\<not> drop_bit (block_bits h) (snd x) \<ge> lh_data_end (lr_header log)"
proof -
  obtain k where k: "indexed lib log h k (snd x)" by (rule index_rep_item [OF r s])
  then obtain pos idx where p: "snd x = address h pos idx" "idx < 2 ^ block_bits h" "84 \<le> unat pos" "pos < lh_data_end (lr_header log)"
    by (auto simp: indexed_def)
  have ad: "addresses_ok h log" using r by (simp add: index_rep_def)
  have dec: "drop_bit (block_bits h) (snd x) = pos" using address_decode(1) [OF ad _ p(4,2)] p(1,3) by simp
  have "lh_header_size (lr_header log) = 84" using ok by (simp add: reader_ok_def LOG_HEADER_SIZE_def)
  then show "\<not> drop_bit (block_bits h) (snd x) < ucast (lh_header_size (lr_header log))"
    "\<not> drop_bit (block_bits h) (snd x) \<ge> lh_data_end (lr_header log)"
    using dec p(3,4) by (simp_all add: word_less_nat_alt not_le)
qed

lemma hash_delete_loop_full:
  assumes t: "table_ok h t" and s: "s < capacity h" "slots h t ! s = Some x" and d: "d \<le> capacity h"
    and range: "\<not> drop_bit (block_bits h) (snd x) < ucast (lh_header_size (lr_header log))"
      "\<not> drop_bit (block_bits h) (snd x) \<ge> lh_data_end (lr_header log)"
    and c: "delete_compare lib h log its a x = Some (SPARKEY_SUCCESS, found, its')"
    and j: "j = succ_slot (capacity h) s"
  shows "hash_delete_loop lib log a t h its (of_nat s) (of_nat s * slot_size h) (of_nat d) =
    (case found of
       Some (kl, vl) \<Rightarrow>
         Option.bind (delete_shift h t (of_nat s)) (\<lambda>(t, slot).
         Option.bind (write_slot h t (slot * slot_size h) 0 0) (\<lambda>t.
         Some (SPARKEY_SUCCESS, t, deleted_entry h kl vl, its')))
     | None \<Rightarrow>
         if displacement (wanted h) (slots h t) s x < d then Some (SPARKEY_SUCCESS, t, h, its')
         else hash_delete_loop lib log a t h its' (of_nat j) (of_nat j * slot_size h) (of_nat (Suc d)))"
proof -
  obtain a2 p2 where x: "x = (a2, p2)" by (cases x)
  have shape: "index_shape h" using t by (simp add: table_ok_def)
  note full = byte_store.peek_full [OF t _ s(2) [unfolded x], simplified, OF s(1)]
  note nx = next_slot_loop [OF shape s(1)]
  note cmp = displacement_compare [OF t s(1) d, of a2 p2]
  note c' = c [unfolded delete_compare_def x fst_conv snd_conv]
  note range' = range [unfolded x snd_conv]
  show ?thesis
    unfolding x j
    by (subst hash_delete_loop.simps)
      (use full(1,2) range' nx in \<open>auto simp: c' cmp Let_def add.commute split: option.splits if_splits\<close>)
qed

text \<open>The loop stops at the slot of the key and moves the entries behind it up, or finds no such slot.\<close>

lemma hash_delete_walk:
  assumes ok: "reader_ok lib log" and r: "index_rep lib log h t M" and k: "key_hash h (entry_key e) = Some a"
    and "s < capacity h" "d \<le> capacity h" "iters_on lib log e es its"
  shows "\<exists>its' kl vl. hash_delete_loop lib log a t h its (of_nat s) (of_nat s * slot_size h) (of_nat d)
      = (case rh_find (wanted h) (is_key h M (entry_key e)) (slots h t) s d of
           Some i \<Rightarrow>
             Option.bind (delete_shift h t (of_nat i)) (\<lambda>(t, slot).
             Option.bind (write_slot h t (slot * slot_size h) 0 0) (\<lambda>t.
             Some (SPARKEY_SUCCESS, t, deleted_entry h kl vl, its')))
         | None \<Rightarrow> Some (SPARKEY_SUCCESS, t, h, its'))
    \<and> iters_on lib log e es its'"
  using assms(4-)
proof (induction "Suc (capacity h) - d" arbitrary: s d its rule: less_induct)
  case less
  have t: "table_ok h t" using r by (simp add: index_rep_def)
  show ?case
  proof (cases "slots h t ! s")
    case None
    obtain a2 where "read_slot h t (of_nat s * slot_size h) = Some (a2, 0)"
      using byte_store.peek_empty [OF t _ None] less.prems(1) by auto
    then have "hash_delete_loop lib log a t h its (of_nat s) (of_nat s * slot_size h) (of_nat d) = Some (SPARKEY_SUCCESS, t, h, its)"
      by (subst hash_delete_loop.simps) simp
    then show ?thesis using None less.prems by (intro exI [of _ its]) (simp add: rh_find_empty)
  next
    case (Some x)
    obtain its1 vlen where c: "delete_compare lib h log its a x
        = Some (SPARKEY_SUCCESS, if is_key h M (entry_key e) x then Some (of_nat (length (entry_key e)), vlen) else None, its1)"
      and its1: "iters_on lib log e es its1"
      by (rule delete_compare_slot [OF ok r k less.prems(1) Some less.prems(3)])
    note step = hash_delete_loop_full [OF t less.prems(1) Some less.prems(2) index_rep_range [OF ok r less.prems(1) Some] c refl]
    note find = rh_find_full [of s "slots h t", simplified, OF less.prems(1,2) Some]
    have dl: "displacement (wanted h) (slots h t) s x < capacity h"
      using displacement_less [OF t less.prems(1), of x] by simp
    let ?j = "succ_slot (capacity h) s"
    show ?thesis
    proof (cases "is_key h M (entry_key e) x \<or> displacement (wanted h) (slots h t) s x < d")
      case True
      then show ?thesis
        using its1
        by (intro exI [of _ its1] exI [of _ "of_nat (length (entry_key e))"] exI [of _ vlen]) (auto simp: step find)
    next
      case False
      then have "Suc (capacity h) - Suc d < Suc (capacity h) - d" "?j < capacity h" "Suc d \<le> capacity h"
        using dl less.prems(1,2) by auto
      from less.hyps [OF this its1] False show ?thesis unfolding step find by simp
    qed
  qed
qed

text \<open>\<open>hash_delete\<close> removes the key.\<close>

lemma hash_delete_rep:
  assumes ok: "reader_ok lib log" and r: "index_rep lib log h t M"
    and k: "key_hash h (entry_key e) = Some a" "iters_on lib log e es its"
  obtains t' h' its' where
    "hash_delete lib (a mod hh_hash_capacity h) a t h its log = Some (SPARKEY_SUCCESS, t', h', its')"
    "index_rep lib log h t' (M(entry_key e := None))" "same_index h h'" "iters_on lib log e es its'"
    "hh_num_entries h' = (if M (entry_key e) = None then hh_num_entries h else hh_num_entries h - 1)"
proof -
  let ?k = "entry_key e" let ?s = "unat (a mod hh_hash_capacity h)"
  have t: "table_ok h t" and inv: "rh_inv (wanted h) (slots h t)" and shape: "index_shape h"
    using r by (auto simp: index_rep_def table_ok_def)
  have s: "?s < capacity h" using wanted_less [OF shape, of "(a, 0)"] by (simp add: wanted_def)
  have eq: "hash_delete lib (a mod hh_hash_capacity h) a t h its log
      = hash_delete_loop lib log a t h its (of_nat ?s) (of_nat ?s * slot_size h) (of_nat 0)"
    by (simp add: hash_delete_def)
  obtain its' kl vl where del: "hash_delete lib (a mod hh_hash_capacity h) a t h its log
      = (case rh_find (wanted h) (is_key h M ?k) (slots h t) ?s 0 of
           Some i \<Rightarrow>
             Option.bind (delete_shift h t (of_nat i)) (\<lambda>(t, slot).
             Option.bind (write_slot h t (slot * slot_size h) 0 0) (\<lambda>t.
             Some (SPARKEY_SUCCESS, t, deleted_entry h kl vl, its')))
         | None \<Rightarrow> Some (SPARKEY_SUCCESS, t, h, its'))" "iters_on lib log e es its'"
    using hash_delete_walk [OF ok r k(1) s _ k(2), of 0] unfolding eq by blast
  show thesis
  proof (cases "rh_find (wanted h) (is_key h M ?k) (slots h t) ?s 0")
    case None
    then have M: "M ?k = None" using find_key_iff [OF r k(1)] by simp
    then have "index_rep lib log h t (M(?k := None))" using r by (simp add: fun_upd_idem)
    moreover have "hash_delete lib (a mod hh_hash_capacity h) a t h its log = Some (SPARKEY_SUCCESS, t, h, its')"
      unfolding del(1) None by simp
    ultimately show thesis using that [OF _ _ same_index_refl del(2)] M by simp
  next
    case (Some i)
    then obtain p0 where p0: "M ?k = Some p0" using find_key_iff [OF r k(1)] by (cases "M ?k") simp_all
    obtain y where y: "i < capacity h" "slots h t ! i = Some y" "is_key h M ?k y" using rh_find_Some [OF Some] by auto
    have ya: "y = (a, p0)" using y(3) p0 k(1) by (simp add: is_key_def item_of_def)
    obtain j where j: "at_rest (wanted h) (slots h t) j" using r by (auto simp: index_rep_def)
    from delete_shift_walk [OF t inv j y(1,2)] obtain t1 s1 y1 where sh: "delete_shift h t (of_nat i) = Some (t1, of_nat s1)"
      "s1 < capacity h" "slots h t1 ! s1 = Some y1" "table_ok h t1" "rh_inv (wanted h) (slots h t1)"
      "\<forall>z. slots h t1 ! succ_slot (capacity h) s1 = Some z \<longrightarrow> wanted h z = succ_slot (capacity h) s1"
      "add_mset y (items (slots h t1)) = add_mset y1 (items (slots h t))" by blast
    obtain t2 where t2: "write_slot h t1 (of_nat s1 * slot_size h) 0 0 = Some t2" "table_ok h t2"
      "rh_inv (wanted h) (slots h t2)" "add_mset y1 (items (slots h t2)) = items (slots h t1)" "at_rest (wanted h) (slots h t2) s1"
      by (rule byte_store.poke_clear [OF sh(4,5) _ sh(3)]) (use sh(2,6) in auto)
    have it: "add_mset (a, p0) (items (slots h t2)) = items (slots h t)"
      using sh(7) unfolding t2(4) [symmetric] ya add_mset_commute [of "(a, p0)" y1] by simp
    have rest: "\<exists>i. at_rest (wanted h) (slots h t2) i" using t2(5) by blast
    have "index_rep lib log h t2 (M(?k := None))" by (rule index_rep_remove [OF r p0 k(1) t2(2,3) rest it])
    moreover have "hash_delete lib (a mod hh_hash_capacity h) a t h its log
        = Some (SPARKEY_SUCCESS, t2, deleted_entry h kl vl, its')"
      unfolding del(1) Some by (simp add: sh(1) t2(1))
    moreover have "hh_num_entries (deleted_entry h kl vl) = hh_num_entries h - 1" by (simp add: deleted_entry_def Let_def)
    ultimately show thesis using that [OF _ _ same_index_deleted del(2)] p0 by simp
  qed
qed

end
