(* ===== verification/Buf.thy ===== *)
theory Buf
  imports Endian
begin

text \<open>
  \<open>src/src/buf.c\<close>: the write buffer in front of a file descriptor. The locale \<open>byte_sink\<close> is the
  contract its clients rely on: adding bytes appends them to a logical byte stream, however they are
  split between memory and file.
\<close>

section \<open>Definitions\<close>

text \<open>
  The memory between \<open>start\<close> and \<open>cur\<close> holds \<open>buf_data\<close>; \<open>buf_cap\<close> is \<open>end - start\<close>. The bytes from
  \<open>cur\<close> on are never read.
\<close>

record sparkey_buf =
  buf_data :: bytes
  buf_cap :: nat

definition buf_init :: "os \<Rightarrow> nat \<Rightarrow> (sparkey_returncode + sparkey_buf) \<times> os" where
  "buf_init os sz =
     (case os_malloc os of
        (ok, os') \<Rightarrow>
          if \<not> ok then (Inl SPARKEY_INTERNAL_ERROR, os')
          else (Inr \<lparr>buf_data = [], buf_cap = sz\<rparr>, os'))"

definition buf_close :: "sparkey_buf \<Rightarrow> sparkey_buf" where
  "buf_close buf = \<lparr>buf_data = [], buf_cap = 0\<rparr>"

definition buf_size :: "sparkey_buf \<Rightarrow> nat" where
  "buf_size buf = buf_cap buf"

definition buf_remaining :: "sparkey_buf \<Rightarrow> nat" where
  "buf_remaining buf = buf_cap buf - length (buf_data buf)"

definition buf_used :: "sparkey_buf \<Rightarrow> nat" where
  "buf_used buf = length (buf_data buf)"

definition buf_flushfile :: "os \<Rightarrow> fd \<Rightarrow> sparkey_buf \<Rightarrow> (os \<times> fd \<times> sparkey_buf) result" where
  "buf_flushfile os fd buf =
     (case write_full os fd (buf_data buf) of
        (rc, os', fd') \<Rightarrow>
          if rc \<noteq> SPARKEY_SUCCESS then Some (rc, os', fd', buf)
          else Some (SPARKEY_SUCCESS, os', fd', buf\<lparr>buf_data := []\<rparr>))"

text \<open>
  The loop of \<open>buf_add\<close> ends because every flush empties the buffer; with a buffer of size zero it
  would run forever, so it is defined as a partial function.
\<close>

partial_function (option) buf_add ::
  "os \<Rightarrow> fd \<Rightarrow> sparkey_buf \<Rightarrow> bytes \<Rightarrow> (os \<times> fd \<times> sparkey_buf) result" where
  "buf_add os fd buf data =
     (if buf_remaining buf \<ge> length data
      then Some (SPARKEY_SUCCESS, os, fd, buf\<lparr>buf_data := buf_data buf @ data\<rparr>)
      else
        rethrow
          (buf_flushfile os fd (buf\<lparr>buf_data := buf_data buf @ take (buf_remaining buf) data\<rparr>)) id
          (\<lambda>(os', fd', buf'). buf_add os' fd' buf' (drop (buf_remaining buf) data)))"

definition buf_ok :: "sparkey_buf \<Rightarrow> bool" where
  "buf_ok buf \<longleftrightarrow> 0 < buf_cap buf \<and> length (buf_data buf) \<le> buf_cap buf"

section \<open>The sink contract\<close>

text \<open>\<open>rep d s\<close>: the sink state \<open>s\<close> stands for the byte stream \<open>d\<close>.\<close>

locale byte_sink =
  fixes add :: "'s \<Rightarrow> bytes \<Rightarrow> 's result"
    and rep :: "bytes \<Rightarrow> 's \<Rightarrow> bool"
  assumes add_appends: "rep d s \<Longrightarrow> \<exists>s'. add s x = Some (SPARKEY_SUCCESS, s') \<and> rep (d @ x) s'"
begin

text \<open>The shape of \<open>log_add\<close>: four additions, each behind a \<open>RETHROW\<close>.\<close>

lemma add_four:
  assumes "rep d s"
  obtains s' where
    "rethrow (add s d1) e1 (\<lambda>s1. rethrow (add s1 d2) e2 (\<lambda>s2.
       rethrow (add s2 d3) e3 (\<lambda>s3. rethrow (add s3 d4) e4 k))) = k s'"
    "rep (d @ d1 @ d2 @ d3 @ d4) s'"
proof -
  obtain s1 where 1: "add s d1 = Some (SPARKEY_SUCCESS, s1)" "rep (d @ d1) s1"
    using add_appends [OF assms] by blast
  obtain s2 where 2: "add s1 d2 = Some (SPARKEY_SUCCESS, s2)" "rep ((d @ d1) @ d2) s2"
    using add_appends [OF 1(2)] by blast
  obtain s3 where 3: "add s2 d3 = Some (SPARKEY_SUCCESS, s3)" "rep (((d @ d1) @ d2) @ d3) s3"
    using add_appends [OF 2(2)] by blast
  obtain s4 where 4: "add s3 d4 = Some (SPARKEY_SUCCESS, s4)" "rep ((((d @ d1) @ d2) @ d3) @ d4) s4"
    using add_appends [OF 3(2)] by blast
  show thesis
    by (rule that [of s4]) (use 1 2 3 4 in simp_all)
qed

end

section \<open>Flushing and adding\<close>

lemma buf_flushfile_success:
  assumes "fd_ok os fd" "buf_flushfile os fd buf = Some (SPARKEY_SUCCESS, os', fd', buf')"
  obtains ws where "os' = (io_put os fd (buf_data buf))\<lparr>os_writes := ws\<rparr>"
    "fd' = fd_advance fd (length (buf_data buf))" "buf' = buf\<lparr>buf_data := []\<rparr>"
proof -
  from assms(2) have w: "write_full os fd (buf_data buf) = (SPARKEY_SUCCESS, os', fd')"
    and b: "buf' = buf\<lparr>buf_data := []\<rparr>"
    by (auto simp: buf_flushfile_def split: prod.splits if_splits)
  have "wrote os fd (buf_data buf) (SPARKEY_SUCCESS, os', fd')"
    using write_full_wrote [OF assms(1), of "buf_data buf"] w by simp
  then show thesis by (rule wrote_success) (rule that [OF _ _ b])
qed

lemma buf_flushfile_calm:
  assumes "fd_ok os fd" "os_calm os"
  obtains ws where
    "buf_flushfile os fd buf
       = Some (SPARKEY_SUCCESS, (io_put os fd (buf_data buf))\<lparr>os_writes := ws\<rparr>,
           fd_advance fd (length (buf_data buf)), buf\<lparr>buf_data := []\<rparr>)"
    "list_all write_retryable ws"
proof -
  obtain ws where "write_full os fd (buf_data buf)
       = (SPARKEY_SUCCESS, (io_put os fd (buf_data buf))\<lparr>os_writes := ws\<rparr>,
          fd_advance fd (length (buf_data buf)))" "list_all write_retryable ws"
    using write_full_calm [OF assms] by metis
  then show thesis by (intro that [of ws]) (simp_all add: buf_flushfile_def)
qed

text \<open>
  The exact effect of a successful \<open>buf_add\<close>: a prefix \<open>out\<close> of the buffered bytes followed by the new
  ones has been written to the file, and the rest is in the buffer.
\<close>

definition spilled :: "os \<Rightarrow> fd \<Rightarrow> sparkey_buf \<Rightarrow> bytes \<Rightarrow> os \<times> fd \<times> sparkey_buf \<Rightarrow> bool" where
  "spilled os fd buf data s' \<longleftrightarrow>
     (\<exists>out ws. buf_data buf @ data = out @ buf_data (snd (snd s'))
        \<and> fst s' = (io_put os fd out)\<lparr>os_writes := ws\<rparr>
        \<and> fst (snd s') = fd_advance fd (length out)
        \<and> buf_cap (snd (snd s')) = buf_cap buf
        \<and> length (buf_data (snd (snd s'))) \<le> buf_cap buf)"

lemma spilled_step:
  assumes ok: "fd_ok os fd"
    and out1: "out1 = buf_data buf @ d1"
    and rest: "spilled ((io_put os fd out1)\<lparr>os_writes := ws\<rparr>) (fd_advance fd (length out1))
                 (buf\<lparr>buf_data := []\<rparr>) d2 s'"
  shows "spilled os fd buf (d1 @ d2) s'"
proof -
  from rest obtain out ws' where
    "d2 = out @ buf_data (snd (snd s'))"
    "fst s' = (io_put (io_put os fd out1) (fd_advance fd (length out1)) out)\<lparr>os_writes := ws'\<rparr>"
    "fst (snd s') = fd_advance fd (length out1 + length out)"
    "buf_cap (snd (snd s')) = buf_cap buf" "length (buf_data (snd (snd s'))) \<le> buf_cap buf"
    by (auto simp: spilled_def io_put_writes_update)
  then show ?thesis
    unfolding spilled_def io_put_io_put [OF ok]
    by (intro exI [of _ "out1 @ out"] exI [of _ ws']) (simp add: out1)
qed

lemma buf_add_calm:
  assumes "fd_ok os fd" "os_calm os" "buf_ok buf"
  shows "\<exists>s'. buf_add os fd buf data = Some (SPARKEY_SUCCESS, s') \<and> spilled os fd buf data s'
    \<and> os_calm (fst s')"
  using assms
proof (induction "length (buf_data buf) + length data" arbitrary: os fd buf data rule: less_induct)
  case less
  let ?r = "buf_remaining buf"
  show ?case
  proof (cases "?r \<ge> length data")
    case True
    then have "buf_add os fd buf data = Some (SPARKEY_SUCCESS, os, fd, buf\<lparr>buf_data := buf_data buf @ data\<rparr>)"
      by (simp add: buf_add.simps)
    moreover have "spilled os fd buf data (os, fd, buf\<lparr>buf_data := buf_data buf @ data\<rparr>)"
      unfolding spilled_def using True less.prems(1,3)
      by (intro exI [of _ "[]"] exI [of _ "os_writes os"]) (auto simp: buf_remaining_def buf_ok_def)
    ultimately show ?thesis using less.prems(2) by simp
  next
    case False
    let ?buf1 = "buf\<lparr>buf_data := buf_data buf @ take ?r data\<rparr>"
    let ?out = "buf_data buf @ take ?r data"
    obtain ws where fl: "buf_flushfile os fd ?buf1 = Some (SPARKEY_SUCCESS,
         (io_put os fd ?out)\<lparr>os_writes := ws\<rparr>, fd_advance fd (length ?out), buf\<lparr>buf_data := []\<rparr>)"
      and ws: "list_all write_retryable ws"
      by (rule buf_flushfile_calm [OF less.prems(1,2), of ?buf1]) simp
    let ?os = "(io_put os fd ?out)\<lparr>os_writes := ws\<rparr>" and ?fd = "fd_advance fd (length ?out)"
    have ok: "fd_ok ?os ?fd" using fd_ok_io_put [OF less.prems(1), of ?out] by simp
    have shorter: "length (buf_data (buf\<lparr>buf_data := []\<rparr>)) + length (drop ?r data)
        < length (buf_data buf) + length data"
      using False less.prems(3) by (auto simp: buf_ok_def buf_remaining_def)
    obtain s' where s': "buf_add ?os ?fd (buf\<lparr>buf_data := []\<rparr>) (drop ?r data) = Some (SPARKEY_SUCCESS, s')"
      "spilled ?os ?fd (buf\<lparr>buf_data := []\<rparr>) (drop ?r data) s'" "os_calm (fst s')"
      using less.hyps [OF shorter ok] ws less.prems(3) by (auto simp: os_calm_def buf_ok_def)
    have "buf_add os fd buf data = Some (SPARKEY_SUCCESS, s')"
      using False fl s'(1) by (simp add: buf_add.simps [of os fd buf])
    moreover have "spilled os fd buf (take ?r data @ drop ?r data) s'"
      using spilled_step [OF less.prems(1) refl s'(2)] .
    ultimately show ?thesis using s'(3) by simp
  qed
qed

section \<open>The file buffer is a sink\<close>

definition sink_add :: "os \<times> fd \<times> sparkey_buf \<Rightarrow> bytes \<Rightarrow> (os \<times> fd \<times> sparkey_buf) result" where
  "sink_add s d = (case s of (os, fd, buf) \<Rightarrow> buf_add os fd buf d)"

text \<open>The bytes in front of the descriptor's offset, followed by the buffered ones.\<close>

definition sink_stream :: "os \<times> fd \<times> sparkey_buf \<Rightarrow> bytes" where
  "sink_stream s = (case s of (os, fd, buf) \<Rightarrow> take (fd_off fd) (fd_content os fd) @ buf_data buf)"

definition sink_inv :: "os \<times> fd \<times> sparkey_buf \<Rightarrow> bool" where
  "sink_inv s = (case s of (os, fd, buf) \<Rightarrow> fd_ok os fd \<and> os_calm os \<and> buf_ok buf)"

lemma spilled_stream:
  assumes "fd_ok os fd" "spilled os fd buf data (os', fd', buf')"
  shows "sink_stream (os', fd', buf') = sink_stream (os, fd, buf) @ data" "fd_ok os' fd'"
proof -
  from assms(2) obtain out ws where o: "buf_data buf @ data = out @ buf_data buf'"
    "os' = (io_put os fd out)\<lparr>os_writes := ws\<rparr>" "fd' = fd_advance fd (length out)"
    by (auto simp: spilled_def)
  have "take (fd_off fd + length out) (splice_at (fd_content os fd) (fd_off fd) out)
      = take (fd_off fd) (fd_content os fd) @ out"
    using assms(1) by (simp add: splice_at_def fd_ok_def min_absorb2)
  then show "sink_stream (os', fd', buf') = sink_stream (os, fd, buf) @ data"
    using o fd_content_io_put [OF assms(1), of out] by (simp add: sink_stream_def)
  show "fd_ok os' fd'" using fd_ok_io_put [OF assms(1), of out] o by simp
qed

text \<open>Bytes of the file behind the end of the stream are not touched.\<close>

lemma fd_content_ino: "fd_ino fd' = fd_ino fd \<Longrightarrow> fd_content os fd' = fd_content os fd"
  by (simp add: fd_content_def)

lemma drop_splice_at: "off + length bs \<le> n \<Longrightarrow> off \<le> length c \<Longrightarrow> drop n (splice_at c off bs) = drop n c"
  by (simp add: splice_at_def min_absorb2)

lemma spilled_tail:
  assumes "fd_ok os fd" "spilled os fd buf data (os', fd', buf')"
  shows "drop (length (sink_stream (os, fd, buf) @ data)) (fd_content os' fd')
    = drop (length (sink_stream (os, fd, buf) @ data)) (fd_content os fd)"
proof -
  from assms(2) obtain out ws where o: "buf_data buf @ data = out @ buf_data buf'"
    "os' = (io_put os fd out)\<lparr>os_writes := ws\<rparr>" "fd' = fd_advance fd (length out)"
    by (auto simp: spilled_def)
  have "length out \<le> length (buf_data buf @ data)" unfolding o(1) by simp
  then have "fd_off fd + length out \<le> length (sink_stream (os, fd, buf) @ data)"
    using assms(1) by (simp add: sink_stream_def fd_ok_def min_absorb2)
  then show ?thesis
    using o assms(1) fd_content_io_put [OF assms(1), of out]
    by (simp add: fd_content_ino [of "fd_advance fd (length out)" fd] drop_splice_at fd_ok_def)
qed

definition sink_rep :: "os \<Rightarrow> bytes \<Rightarrow> os \<times> fd \<times> sparkey_buf \<Rightarrow> bool" where
  "sink_rep os0 d s \<longleftrightarrow>
     sink_inv s \<and> sink_stream s = d \<and> (\<exists>i. fd_ino (fst (snd s)) = Some i \<and> os_frame i os0 (fst s))
     \<and> drop (length d) (fd_content (fst s) (fst (snd s))) = drop (length d) (fd_content os0 (fst (snd s)))"

lemma sink_add_rep:
  assumes "sink_rep os0 d (os, fd, buf)"
  obtains os' fd' buf' where "buf_add os fd buf x = Some (SPARKEY_SUCCESS, os', fd', buf')"
    "sink_rep os0 (d @ x) (os', fd', buf')" "fd_ino fd' = fd_ino fd"
proof -
  from assms obtain i where ok: "fd_ok os fd" "os_calm os" "buf_ok buf"
    and i: "fd_ino fd = Some i" "os_frame i os0 os" and d: "sink_stream (os, fd, buf) = d"
    and tl: "drop (length d) (fd_content os fd) = drop (length d) (fd_content os0 fd)"
    by (auto simp: sink_rep_def sink_inv_def)
  obtain os' fd' buf' where r: "buf_add os fd buf x = Some (SPARKEY_SUCCESS, os', fd', buf')"
    "spilled os fd buf x (os', fd', buf')" "os_calm os'"
    using buf_add_calm [OF ok] by (metis fst_conv prod_cases3)
  note st = spilled_stream [OF ok(1) r(2)]
  have "buf_ok buf'" "fd_ino fd' = fd_ino fd" "os_frame i os0 os'"
    using r(2) ok(3) i os_frame_trans [OF i(2) os_frame_io_put [OF i(1)]]
    by (auto simp: spilled_def buf_ok_def)
  moreover have "drop (length (d @ x)) (fd_content os' fd') = drop (length (d @ x)) (fd_content os0 fd')"
    using spilled_tail [OF ok(1) r(2)] d arg_cong [OF tl, of "drop (length x)"] fd_content_ino [OF calculation(2), of os0]
    by (simp add: add.commute)
  ultimately show thesis
    using that [OF r(1)] st r(3) d i by (simp add: sink_rep_def sink_inv_def)
qed

interpretation file_sink: byte_sink sink_add "sink_rep os0" for os0
proof
  fix d s x
  assume "sink_rep os0 d s"
  then show "\<exists>s'. sink_add s x = Some (SPARKEY_SUCCESS, s') \<and> sink_rep os0 (d @ x) s'"
    by (cases s) (auto simp: sink_add_def elim: sink_add_rep [where x = x])
qed

section \<open>Properties\<close>

text \<open>
  C34: \<open>buf_add\<close> terminates and appends the data to the logical stream (file contents up to the offset,
  then the buffer), for data of any size, short writes included; the buffer never exceeds its capacity.
\<close>

theorem buf_add_appends:
  assumes "fd_ok os fd" "os_calm os" "buf_ok buf"
  shows "\<exists>os' fd' buf'. buf_add os fd buf data = Some (SPARKEY_SUCCESS, os', fd', buf')
    \<and> sink_stream (os', fd', buf') = sink_stream (os, fd, buf) @ data
    \<and> fd_ok os' fd' \<and> buf_ok buf'"
proof -
  obtain i where "fd_ino fd = Some i" using assms(1) by (auto simp: fd_ok_def split: option.splits)
  then have "sink_rep os (sink_stream (os, fd, buf)) (os, fd, buf)"
    using assms os_frame_refl by (simp add: sink_rep_def sink_inv_def)
  then obtain s' where "sink_add (os, fd, buf) data = Some (SPARKEY_SUCCESS, s')"
    "sink_rep os (sink_stream (os, fd, buf) @ data) s'"
    using file_sink.add_appends by blast
  then show ?thesis
    by (cases s') (auto simp: sink_add_def sink_rep_def sink_inv_def)
qed

theorem buf_add_appends_witness:
  "\<exists>os' fd' buf'. buf_add (fresh_os\<lparr>os_store := [[9]], os_writes := [WErr EINTR, WOk 1]\<rparr>)
        \<lparr>fd_ino = Some 0, fd_off = 1\<rparr> \<lparr>buf_data = [1], buf_cap = 2\<rparr> [2, 3, 4, 5]
      = Some (SPARKEY_SUCCESS, os', fd', buf')
    \<and> sink_stream (os', fd', buf') =
        sink_stream (fresh_os\<lparr>os_store := [[9]], os_writes := [WErr EINTR, WOk 1]\<rparr>,
          \<lparr>fd_ino = Some 0, fd_off = 1\<rparr>, \<lparr>buf_data = [1], buf_cap = 2\<rparr>) @ [2, 3, 4, 5]
    \<and> fd_ok os' fd' \<and> buf_ok buf'"
  by (rule buf_add_appends)
    (simp_all add: fd_ok_def fd_content_def fresh_os_def os_calm_def write_retryable_def buf_ok_def)

end
