(* ===== verification/LogWriter.thy ===== *)
theory LogWriter
  imports Vlq Buf LogFormat
begin

text \<open>
  \<open>src/src/logwriter.c\<close>: creating a log, appending to one, adding put and delete entries with or
  without block compression, flushing and closing.
\<close>

section \<open>The writer\<close>

definition MAGIC_VALUE_LOGWRITER :: u32 where
  "MAGIC_VALUE_LOGWRITER = 0x2866211b"

text \<open>
  \<open>struct sparkey_logwriter\<close>. \<open>lw_compressed\<close> says whether the scratch buffer for compressed blocks is
  allocated; its contents never outlive one call. \<open>lw_entry_count\<close> is a C \<open>int\<close>.
\<close>

record sparkey_logwriter =
  lw_open_status :: u32
  lw_header :: sparkey_logheader
  lw_fd :: fd
  lw_block_buf :: sparkey_buf
  lw_max_compressed_size :: u32
  lw_compressed :: bool
  lw_file_buf :: sparkey_buf
  lw_flushed :: bool
  lw_entry_count :: u32

definition assert_writer_open :: "sparkey_logwriter \<Rightarrow> sparkey_returncode" where
  "assert_writer_open log =
     (if lw_open_status log \<noteq> MAGIC_VALUE_LOGWRITER then SPARKEY_LOG_CLOSED else SPARKEY_SUCCESS)"

section \<open>Opening\<close>

text \<open>
  \<open>junk\<close> is what \<open>malloc\<close> returns: a writer with arbitrary contents. \<open>compression_block_size\<close> is a C
  \<open>int\<close>. The file buffer has one megabyte.
\<close>

definition sparkey_logwriter_create ::
  "codec_lib \<Rightarrow> sparkey_logwriter \<Rightarrow> os \<Rightarrow> string \<Rightarrow> sparkey_compression_type \<Rightarrow> u32
     \<Rightarrow> (sparkey_returncode + sparkey_logwriter) \<times> os" where
  "sparkey_logwriter_create lib junk os filename compression_type compression_block_size =
     try_os (malloc_or_fail os) (\<lambda>_ os.
     try_os
       (if sparkey_uses_compressor compression_type then
          if sint compression_block_size < 10 then (Inl SPARKEY_INVALID_COMPRESSION_BLOCK_SIZE, os)
          else
            try_os (malloc_or_fail os) (\<lambda>_ os.
            (Inr (junk\<lparr>lw_max_compressed_size :=
                         max_compressed_size (the (sparkey_compressors lib compression_type))
                           compression_block_size,
                       lw_compressed := True\<rparr>, compression_block_size), os))
        else (Inr (junk\<lparr>lw_compressed := False\<rparr>, 0), os)) (\<lambda>(l, compression_block_size) os.
     try_os
       (case os_remove os filename of
          (Inl e, os) \<Rightarrow>
            (if e \<noteq> ENOENT then Inl (sparkey_remove_returncode e) else Inr (), os)
        | (Inr _, os) \<Rightarrow> (Inr (), os)) (\<lambda>_ os.
     try_os
       (case os_create os filename of
          (Inl e, os) \<Rightarrow> (Inl (sparkey_create_returncode e), os)
        | (Inr fd, os) \<Rightarrow> (Inr fd, os)) (\<lambda>fd os.
     try_os (rand32 os, os) (\<lambda>file_identifier os.
     let header = (lw_header l)
           \<lparr>lh_compression_block_size := compression_block_size,
            lh_compression_type := compression_type,
            lh_file_identifier := file_identifier,
            lh_data_end := ucast LOG_HEADER_SIZE,
            lh_major_version := LOG_MAJOR_VERSION,
            lh_minor_version := LOG_MINOR_VERSION,
            lh_put_size := 0,
            lh_delete_size := 0,
            lh_num_puts := 0,
            lh_num_deletes := 0,
            lh_max_entries_per_block := 0,
            lh_max_key_len := 0,
            lh_max_value_len := 0\<rparr>
     in case write_logheader os fd header of
          (rc, os, fd) \<Rightarrow>
            if rc \<noteq> SPARKEY_SUCCESS then (Inl rc, os)
            else if fd_off fd \<noteq> unat LOG_HEADER_SIZE then (Inl SPARKEY_INTERNAL_ERROR, os)
            else
              try_os (buf_init os (1024 * 1024)) (\<lambda>file_buf os.
              try_os (buf_init os (unat compression_block_size)) (\<lambda>block_buf os.
              (Inr (l\<lparr>lw_fd := fd, lw_header := header, lw_file_buf := file_buf,
                      lw_block_buf := block_buf, lw_entry_count := 0,
                      lw_open_status := MAGIC_VALUE_LOGWRITER\<rparr>), os)))))))) "

text \<open>
  Appending keeps the header of the file and seeks behind its data. Unlike in \<open>create\<close>, the result of
  the allocation of \<open>compressed\<close> is not checked.
\<close>

definition sparkey_logwriter_append ::
  "codec_lib \<Rightarrow> sparkey_logwriter \<Rightarrow> os \<Rightarrow> string \<Rightarrow> (sparkey_returncode + sparkey_logwriter) \<times> os" where
  "sparkey_logwriter_append lib junk os filename =
     try_os (malloc_or_fail os) (\<lambda>_ os.
     try_os (sparkey_load_logheader os filename, os) (\<lambda>header os.
     if lh_major_version header \<noteq> LOG_MAJOR_VERSION then (Inl SPARKEY_WRONG_LOG_MAJOR_VERSION, os)
     else if lh_minor_version header \<noteq> LOG_MINOR_VERSION then
       (Inl SPARKEY_UNSUPPORTED_LOG_MINOR_VERSION, os)
     else
       try_os
         (if sparkey_uses_compressor (lh_compression_type header) then
            if lh_compression_block_size header < 10 then
              (Inl SPARKEY_INVALID_COMPRESSION_BLOCK_SIZE, os)
            else
              (case os_malloc os of
                 (ok, os) \<Rightarrow>
                   (Inr (junk\<lparr>lw_header := header,
                              lw_max_compressed_size :=
                                max_compressed_size (the (sparkey_compressors lib (lh_compression_type header)))
                                  (lh_compression_block_size header),
                              lw_compressed := ok\<rparr>), os))
          else
              (Inr (junk\<lparr>lw_header := header\<lparr>lh_compression_block_size := 0\<rparr>,
                         lw_compressed := False\<rparr>), os)) (\<lambda>log os.
       case os_open_write os filename of
         Inl e \<Rightarrow> (Inl (sparkey_create_returncode e), os)
       | Inr fd \<Rightarrow>
           try_os (buf_init os (1024 * 1024)) (\<lambda>file_buf os.
           try_os (buf_init os (unat (lh_compression_block_size (lw_header log)))) (\<lambda>block_buf os.
           (Inr (log\<lparr>lw_fd := fd_seek fd (unat (lh_data_end (lw_header log))),
                     lw_file_buf := file_buf, lw_block_buf := block_buf, lw_entry_count := 0,
                     lw_open_status := MAGIC_VALUE_LOGWRITER\<rparr>), os))))))"

section \<open>Adding entries\<close>

text \<open>\<open>buf_add(&log->file_buf, log->fd, ...)\<close> and \<open>buf_flushfile(&log->file_buf, log->fd)\<close>.\<close>

definition file_buf_update ::
  "sparkey_logwriter \<Rightarrow> (os \<times> fd \<times> sparkey_buf) result \<Rightarrow> (os \<times> sparkey_logwriter) result" where
  "file_buf_update log r =
     map_option (\<lambda>(rc, os, fd, buf). (rc, os, log\<lparr>lw_fd := fd, lw_file_buf := buf\<rparr>)) r"

definition file_buf_add :: "os \<times> sparkey_logwriter \<Rightarrow> bytes \<Rightarrow> (os \<times> sparkey_logwriter) result" where
  "file_buf_add s data =
     (case s of (os, log) \<Rightarrow> file_buf_update log (buf_add os (lw_fd log) (lw_file_buf log) data))"

definition flush_compressed :: "codec_lib \<Rightarrow> os \<times> sparkey_logwriter \<Rightarrow> (os \<times> sparkey_logwriter) result" where
  "flush_compressed lib s =
     (case s of (os, log) \<Rightarrow>
        let log = log\<lparr>lw_flushed := True\<rparr>;
            log = (if sint (lw_entry_count log) > sint (lh_max_entries_per_block (lw_header log))
                   then log\<lparr>lw_header := (lw_header log)\<lparr>lh_max_entries_per_block := lw_entry_count log\<rparr>\<rparr>
                   else log);
            log = log\<lparr>lw_entry_count := 0\<rparr>
        in case sparkey_compressors lib (lh_compression_type (lw_header log)) of
             None \<Rightarrow> None
           | Some c \<Rightarrow>
               if \<not> lw_compressed log then None
               else
                 (case compress c (buf_data (lw_block_buf log)) (lw_max_compressed_size log) of
                    (ret, compressed, compressed_size) \<Rightarrow>
                      if ret \<noteq> SPARKEY_SUCCESS then Some (ret, os, log)
                      else if length compressed < unat compressed_size then None
                      else
                        rethrow (file_buf_add (os, log) (write_vlq (ucast compressed_size))) id (\<lambda>s.
                        rethrow (file_buf_add s (take (unat compressed_size) compressed)) id (\<lambda>(os, log).
                        Some (SPARKEY_SUCCESS, os,
                              log\<lparr>lw_block_buf := (lw_block_buf log)\<lparr>buf_data := []\<rparr>\<rparr>)))))"

partial_function (option) compressed_add ::
  "codec_lib \<Rightarrow> os \<times> sparkey_logwriter \<Rightarrow> bytes \<Rightarrow> (os \<times> sparkey_logwriter) result" where
  "compressed_add lib s data =
     (let block_buf = lw_block_buf (snd s); remaining = buf_remaining block_buf in
      if remaining \<ge> length data
      then Some (SPARKEY_SUCCESS, fst s,
                 (snd s)\<lparr>lw_block_buf := block_buf\<lparr>buf_data := buf_data block_buf @ data\<rparr>\<rparr>)
      else
        rethrow
          (flush_compressed lib
             (fst s, (snd s)\<lparr>lw_block_buf :=
                        block_buf\<lparr>buf_data := buf_data block_buf @ take remaining data\<rparr>\<rparr>)) id
          (\<lambda>s'. compressed_add lib s' (drop remaining data)))"

text \<open>
  \<open>log_add\<close>; the lengths of the two data arguments are the lengths of the lists. The first component of
  the result is the output argument \<open>datasize\<close>.
\<close>

definition log_add ::
  "codec_lib \<Rightarrow> os \<times> sparkey_logwriter \<Rightarrow> u64 \<Rightarrow> u64 \<Rightarrow> bytes \<Rightarrow> bytes
     \<Rightarrow> (u64 \<times> os \<times> sparkey_logwriter) result" where
  "log_add lib s num1 num2 data1 data2 =
     (let buf1 = write_vlq num1;
          buf2 = write_vlq num2;
          written1 = of_nat (length buf1);
          written2 = of_nat (length buf2);
          len1 = of_nat (length data1);
          len2 = of_nat (length data2);
          datasize = written1 + written2 + len1 + len2
      in if sparkey_uses_compressor (lh_compression_type (lw_header (snd s))) then
           let remaining = of_nat (buf_remaining (lw_block_buf (snd s)));
               fits_in_one = written1 + written2 + len1 + len2 \<le> of_nat (buf_size (lw_block_buf (snd s)));
               doesnt_fit_this = written1 + written2 + len1 + len2 > of_nat (buf_remaining (lw_block_buf (snd s)))
           in
           rethrow
             (if remaining < written1 + written2 \<or> (fits_in_one \<and> doesnt_fit_this)
              then flush_compressed lib s else Some (SPARKEY_SUCCESS, s)) (Pair datasize) (\<lambda>(os, log).
           let log = log\<lparr>lw_entry_count := lw_entry_count log + 1, lw_flushed := False\<rparr> in
           rethrow (compressed_add lib (os, log) buf1) (Pair datasize) (\<lambda>s.
           rethrow (compressed_add lib s buf2) (Pair datasize) (\<lambda>s.
           rethrow (compressed_add lib s data1) (Pair datasize) (\<lambda>s.
           rethrow (compressed_add lib s data2) (Pair datasize) (\<lambda>s.
           rethrow
             (if lw_flushed (snd s) \<and> buf_used (lw_block_buf (snd s)) > 0
              then flush_compressed lib s else Some (SPARKEY_SUCCESS, s)) (Pair datasize) (\<lambda>s.
           Some (SPARKEY_SUCCESS, datasize, s)))))))
         else
           rethrow (file_buf_add s buf1) (Pair datasize) (\<lambda>s.
           rethrow (file_buf_add s buf2) (Pair datasize) (\<lambda>s.
           rethrow (file_buf_add s data1) (Pair datasize) (\<lambda>s.
           rethrow (file_buf_add s data2) (Pair datasize) (\<lambda>s.
           Some (SPARKEY_SUCCESS, datasize, s))))))"

definition sparkey_logwriter_put ::
  "codec_lib \<Rightarrow> os \<times> sparkey_logwriter \<Rightarrow> bytes \<Rightarrow> bytes \<Rightarrow> (os \<times> sparkey_logwriter) result" where
  "sparkey_logwriter_put lib s key value =
     (let keylen = of_nat (length key); valuelen = of_nat (length value) in
      if assert_writer_open (snd s) \<noteq> SPARKEY_SUCCESS then Some (assert_writer_open (snd s), s)
      else
        rethrow (log_add lib s (keylen + 1) valuelen key value) snd (\<lambda>(datasize, os, log).
        let header = lw_header log;
            header = header\<lparr>lh_num_puts := lh_num_puts header + 1,
                            lh_put_size := lh_put_size header + datasize\<rparr>;
            header = (if keylen > lh_max_key_len header then header\<lparr>lh_max_key_len := keylen\<rparr> else header);
            header = (if valuelen > lh_max_value_len header then header\<lparr>lh_max_value_len := valuelen\<rparr> else header)
        in Some (SPARKEY_SUCCESS, os, log\<lparr>lw_header := header\<rparr>)))"

definition sparkey_logwriter_delete ::
  "codec_lib \<Rightarrow> os \<times> sparkey_logwriter \<Rightarrow> bytes \<Rightarrow> (os \<times> sparkey_logwriter) result" where
  "sparkey_logwriter_delete lib s key =
     (let keylen = of_nat (length key) in
      if assert_writer_open (snd s) \<noteq> SPARKEY_SUCCESS then Some (assert_writer_open (snd s), s)
      else
        rethrow (log_add lib s 0 keylen [] key) snd (\<lambda>(datasize, os, log).
        Some (SPARKEY_SUCCESS, os,
              log\<lparr>lw_header := (lw_header log)\<lparr>lh_num_deletes := lh_num_deletes (lw_header log) + 1,
                                lh_delete_size := lh_delete_size (lw_header log) + datasize\<rparr>\<rparr>)))"

section \<open>Flushing and closing\<close>

definition sparkey_logwriter_flush ::
  "codec_lib \<Rightarrow> os \<times> sparkey_logwriter \<Rightarrow> (os \<times> sparkey_logwriter) result" where
  "sparkey_logwriter_flush lib s =
     (if assert_writer_open (snd s) \<noteq> SPARKEY_SUCCESS then Some (assert_writer_open (snd s), s)
      else
        rethrow
          (if buf_used (lw_block_buf (snd s)) > 0 then flush_compressed lib s
           else Some (SPARKEY_SUCCESS, s)) id (\<lambda>s.
        rethrow
          (if buf_used (lw_file_buf (snd s)) > 0
           then file_buf_update (snd s) (buf_flushfile (fst s) (lw_fd (snd s)) (lw_file_buf (snd s)))
           else Some (SPARKEY_SUCCESS, s)) id (\<lambda>(os, log).
        let pos = fd_off (lw_fd log);
            header = (lw_header log)\<lparr>lh_data_end := of_nat pos\<rparr>
        in case write_logheader os (fd_seek (lw_fd log) 0) header of
             (rc, os, fd) \<Rightarrow>
               if rc \<noteq> SPARKEY_SUCCESS then Some (rc, os, log\<lparr>lw_header := header, lw_fd := fd\<rparr>)
               else Some (SPARKEY_SUCCESS, os, log\<lparr>lw_header := header, lw_fd := fd_seek fd pos\<rparr>))))"

text \<open>
  Closing flushes first; the writer is freed only after a successful flush, and \<open>*log\<close> becomes \<open>NULL\<close>
  (the \<open>None\<close> in the state). Closing a writer that is not open does nothing.
\<close>

definition sparkey_logwriter_close ::
  "codec_lib \<Rightarrow> os \<times> sparkey_logwriter \<Rightarrow> (os \<times> sparkey_logwriter option) result" where
  "sparkey_logwriter_close lib s =
     (if lw_open_status (snd s) \<noteq> MAGIC_VALUE_LOGWRITER then Some (SPARKEY_SUCCESS, fst s, Some (snd s))
      else
        rethrow (sparkey_logwriter_flush lib s) (\<lambda>(os, log). (os, Some log)) (\<lambda>(os, log).
        Some (SPARKEY_SUCCESS, os, None)))"

end
