(* ===== verification/LogWriterCorrect.thy ===== *)
theory LogWriterCorrect
  imports LogWriter
begin

text \<open>
  Correctness of the log writer. Both buffers of a writer satisfy the \<open>byte_sink\<close> contract;
  \<open>writer_inv\<close> ties a writer to the abstract layout of \<open>LogFormat\<close>, \<open>log_add\<close> refines \<open>layout_step\<close>,
  and \<open>writer_log\<close> adds the header's counters. Flushing produces a log file for the entries added.
\<close>

section \<open>The file buffer of a writer is a sink\<close>

definition writer_rep :: "os \<Rightarrow> sparkey_logwriter \<Rightarrow> bytes \<Rightarrow> os \<times> sparkey_logwriter \<Rightarrow> bool" where
  "writer_rep os0 base d s \<longleftrightarrow>
     sink_rep os0 d (fst s, lw_fd (snd s), lw_file_buf (snd s))
     \<and> fd_ino (lw_fd (snd s)) = fd_ino (lw_fd base)
     \<and> (\<exists>fd buf. snd s = base\<lparr>lw_fd := fd, lw_file_buf := buf\<rparr>)"

lemma file_buf_add_rep:
  assumes "writer_rep os0 base d s"
  obtains s' where "file_buf_add s x = Some (SPARKEY_SUCCESS, s')" "writer_rep os0 base (d @ x) s'"
proof -
  obtain os log where s: "s = (os, log)" by fastforce
  from assms obtain fd buf where log: "log = base\<lparr>lw_fd := fd, lw_file_buf := buf\<rparr>"
    and rep: "sink_rep os0 d (os, lw_fd log, lw_file_buf log)" and ino: "fd_ino (lw_fd log) = fd_ino (lw_fd base)"
    by (auto simp: writer_rep_def s)
  obtain os' fd' buf' where r: "buf_add os (lw_fd log) (lw_file_buf log) x = Some (SPARKEY_SUCCESS, os', fd', buf')"
    "sink_rep os0 (d @ x) (os', fd', buf')" "fd_ino fd' = fd_ino (lw_fd log)"
    by (rule sink_add_rep [OF rep, where x = x])
  have "file_buf_add s x = Some (SPARKEY_SUCCESS, os', log\<lparr>lw_fd := fd', lw_file_buf := buf'\<rparr>)"
    by (simp add: file_buf_add_def file_buf_update_def s r(1))
  moreover have "writer_rep os0 base (d @ x) (os', log\<lparr>lw_fd := fd', lw_file_buf := buf'\<rparr>)"
    using r(2,3) ino log by (auto simp: writer_rep_def)
  ultimately show thesis by (rule that)
qed

interpretation writer_sink: byte_sink file_buf_add "writer_rep os0 base" for os0 base
  by unfold_locales (metis file_buf_add_rep)

section \<open>The block buffer of a writer is a sink\<close>

text \<open>A writer that has a compressor, with the buffers \<open>create\<close> or \<open>append\<close> gave it.\<close>

definition block_writer :: "codec_lib \<Rightarrow> sparkey_compressor \<Rightarrow> sparkey_logwriter \<Rightarrow> bool" where
  "block_writer lib c log \<longleftrightarrow>
     sparkey_compressors lib (lh_compression_type (lw_header log)) = Some c
     \<and> compressor_ok c (lh_compression_block_size (lw_header log))
     \<and> lw_max_compressed_size log = max_compressed_size c (lh_compression_block_size (lw_header log))
     \<and> lw_compressed log
     \<and> buf_cap (lw_block_buf log) = unat (lh_compression_block_size (lw_header log))
     \<and> 10 \<le> unat (lh_compression_block_size (lw_header log))
     \<and> unat (lh_compression_block_size (lw_header log)) < 2 ^ 31"

text \<open>How a flushed block counts towards \<open>max_entries_per_block\<close>.\<close>

definition note_entries :: "sparkey_logheader \<Rightarrow> u32 \<Rightarrow> sparkey_logheader" where
  "note_entries h n =
     (if sint n > sint (lh_max_entries_per_block h) then h\<lparr>lh_max_entries_per_block := n\<rparr> else h)"

lemma note_entries_frame [simp]:
  "lh_compression_type (note_entries h n) = lh_compression_type h"
  "lh_compression_block_size (note_entries h n) = lh_compression_block_size h"
  by (simp_all add: note_entries_def)

lemma note_entries_zero [simp]:
  "0 \<le> sint (lh_max_entries_per_block h) \<Longrightarrow> note_entries (note_entries h n) 0 = note_entries h n"
  "0 \<le> sint (lh_max_entries_per_block h) \<Longrightarrow> note_entries h 0 = h"
  by (simp_all add: note_entries_def)

lemma flush_compressed_rep:
  assumes w: "block_writer lib c log"
    and rep: "sink_rep os0 W (os, lw_fd log, lw_file_buf log)"
    and b: "buf_data (lw_block_buf log) = b" "length b \<le> unat (lh_compression_block_size (lw_header log))"
  obtains os' fd' fbuf' where
    "flush_compressed lib (os, log) = Some (SPARKEY_SUCCESS, os',
       log\<lparr>lw_header := note_entries (lw_header log) (lw_entry_count log), lw_fd := fd',
           lw_block_buf := (lw_block_buf log)\<lparr>buf_data := []\<rparr>, lw_file_buf := fbuf',
           lw_flushed := True, lw_entry_count := 0\<rparr>)"
    "sink_rep os0 (W @ block_frame c (lh_compression_block_size (lw_header log)) b) (os', fd', fbuf')"
    "fd_ino fd' = fd_ino (lw_fd log)"
proof -
  let ?n = "lh_compression_block_size (lw_header log)"
  let ?out = "block_out c ?n b"
  let ?log = "log\<lparr>lw_flushed := True,
                  lw_header := note_entries (lw_header log) (lw_entry_count log), lw_entry_count := 0\<rparr>"
  note cm = compressor_ok_block_out [of c ?n b, OF _ b(2)]
  have cc: "compress c b (max_compressed_size c ?n) = (SPARKEY_SUCCESS, ?out, of_nat (length ?out))"
    and len: "length ?out < 2 ^ 32"
    using w cm by (simp_all add: block_writer_def)
  have un: "unat (of_nat (length ?out) :: u32) = length ?out"
    and uc: "ucast (of_nat (length ?out) :: u32) = (of_nat (length ?out) :: u64)"
    using len by (simp_all add: unat_of_nat u64_eq_iff_unat)
  have "writer_rep os0 ?log W (os, ?log)"
    using rep by (auto simp: writer_rep_def intro!: exI [of _ "lw_fd log"] exI [of _ "lw_file_buf log"])
  then obtain s1 where s1: "file_buf_add (os, ?log) (write_vlq (of_nat (length ?out))) = Some (SPARKEY_SUCCESS, s1)"
    "writer_rep os0 ?log (W @ write_vlq (of_nat (length ?out))) s1"
    by (rule file_buf_add_rep)
  obtain s2 where s2: "file_buf_add s1 ?out = Some (SPARKEY_SUCCESS, s2)"
    "writer_rep os0 ?log ((W @ write_vlq (of_nat (length ?out))) @ ?out) s2"
    by (rule file_buf_add_rep [OF s1(2)])
  obtain os2 fd2 buf2 where s2': "s2 = (os2, ?log\<lparr>lw_fd := fd2, lw_file_buf := buf2\<rparr>)"
    using s2(2) by (cases s2) (auto simp: writer_rep_def)
  have "flush_compressed lib (os, log) = Some (SPARKEY_SUCCESS, os2,
       log\<lparr>lw_header := note_entries (lw_header log) (lw_entry_count log), lw_fd := fd2,
           lw_block_buf := (lw_block_buf log)\<lparr>buf_data := []\<rparr>, lw_file_buf := buf2,
           lw_flushed := True, lw_entry_count := 0\<rparr>)"
    using w s1(1) s2(1) unfolding block_writer_def
    by (simp add: flush_compressed_def Let_def note_entries_def b(1) cc un uc s2' split: if_splits)
  then show thesis
    by (rule that) (use s2(2) in \<open>simp_all add: s2' writer_rep_def block_frame_def\<close>)
qed

text \<open>
  While an entry is added the writer has flushed some full blocks behind the stream \<open>W\<close> and keeps the
  rest in the block buffer; \<open>base\<close> is the writer at the start.
\<close>

definition block_progress :: "sparkey_logwriter \<Rightarrow> bytes list \<Rightarrow> bytes \<Rightarrow> fd \<Rightarrow> sparkey_buf \<Rightarrow> sparkey_logwriter" where
  "block_progress base blocks r fd fbuf =
     base\<lparr>lw_header := (if blocks = [] then lw_header base
                         else note_entries (lw_header base) (lw_entry_count base)),
          lw_fd := fd, lw_block_buf := (lw_block_buf base)\<lparr>buf_data := r\<rparr>, lw_file_buf := fbuf,
          lw_flushed := (if blocks = [] then lw_flushed base else True),
          lw_entry_count := (if blocks = [] then lw_entry_count base else 0)\<rparr>"

definition block_state ::
  "codec_lib \<Rightarrow> sparkey_compressor \<Rightarrow> os \<Rightarrow> bytes \<Rightarrow> sparkey_logwriter \<Rightarrow> bytes list \<Rightarrow> bytes
     \<Rightarrow> os \<times> sparkey_logwriter \<Rightarrow> bool" where
  "block_state lib c os0 W base blocks r s \<longleftrightarrow>
     block_writer lib c base \<and> 0 \<le> sint (lh_max_entries_per_block (lw_header base))
     \<and> (\<forall>b \<in> set blocks. length b = unat (lh_compression_block_size (lw_header base)))
     \<and> length r \<le> unat (lh_compression_block_size (lw_header base))
     \<and> (\<exists>fd fbuf. snd s = block_progress base blocks r fd fbuf
        \<and> sink_rep os0 (W @ blocks_bytes c (lh_compression_block_size (lw_header base)) blocks) (fst s, fd, fbuf)
        \<and> fd_ino fd = fd_ino (lw_fd base))"

definition block_rep ::
  "codec_lib \<Rightarrow> sparkey_compressor \<Rightarrow> os \<Rightarrow> bytes \<Rightarrow> sparkey_logwriter \<Rightarrow> bytes \<Rightarrow> os \<times> sparkey_logwriter \<Rightarrow> bool" where
  "block_rep lib c os0 W base d s \<longleftrightarrow>
     (\<exists>blocks r. d = concat blocks @ r \<and> (r = [] \<longrightarrow> blocks = []) \<and> block_state lib c os0 W base blocks r s)"

lemma block_progress_simps [simp]:
  "buf_data (lw_block_buf (block_progress base blocks r fd fbuf)) = r"
  "buf_cap (lw_block_buf (block_progress base blocks r fd fbuf)) = buf_cap (lw_block_buf base)"
  "lw_fd (block_progress base blocks r fd fbuf) = fd"
  "lw_file_buf (block_progress base blocks r fd fbuf) = fbuf"
  "lh_compression_block_size (lw_header (block_progress base blocks r fd fbuf))
     = lh_compression_block_size (lw_header base)"
  "block_writer lib c (block_progress base blocks r fd fbuf) = block_writer lib c base"
  "(block_progress base blocks r fd fbuf)\<lparr>lw_block_buf := (lw_block_buf base)\<lparr>buf_data := r'\<rparr>\<rparr>
     = block_progress base blocks r' fd fbuf"
  "lw_block_buf (block_progress base blocks r fd fbuf) = (lw_block_buf base)\<lparr>buf_data := r\<rparr>"
  by (simp_all add: block_progress_def block_writer_def)

lemma block_progress_start:
  "block_progress base [] (buf_data (lw_block_buf base)) (lw_fd base) (lw_file_buf base) = base"
  by (simp add: block_progress_def)

lemma block_progress_flush:
  assumes "0 \<le> sint (lh_max_entries_per_block (lw_header base))"
  shows "(block_progress base blocks r fd fbuf)
      \<lparr>lw_header := note_entries (lw_header (block_progress base blocks r fd fbuf))
                      (lw_entry_count (block_progress base blocks r fd fbuf)), lw_fd := fd',
       lw_block_buf := (lw_block_buf (block_progress base blocks r fd fbuf))\<lparr>buf_data := []\<rparr>,
       lw_file_buf := fbuf', lw_flushed := True, lw_entry_count := 0\<rparr>
    = block_progress base (blocks @ [b]) [] fd' fbuf'"
  using assms by (simp add: block_progress_def)

lemma block_state_flush:
  assumes "block_state lib c os0 W base blocks r (os, log)"
    and "length r' \<le> unat (lh_compression_block_size (lw_header base))"
  obtains os' log' fd' fbuf' where
    "flush_compressed lib (os, log\<lparr>lw_block_buf := (lw_block_buf base)\<lparr>buf_data := r'\<rparr>\<rparr>)
       = Some (SPARKEY_SUCCESS, os', log')"
    "log' = block_progress base (blocks @ [r']) [] fd' fbuf'"
    "sink_rep os0 (W @ blocks_bytes c (lh_compression_block_size (lw_header base)) (blocks @ [r'])) (os', fd', fbuf')"
    "fd_ino fd' = fd_ino (lw_fd base)"
proof -
  from assms(1) obtain fd fbuf where
    w: "block_writer lib c base" "0 \<le> sint (lh_max_entries_per_block (lw_header base))"
    and log: "log = block_progress base blocks r fd fbuf"
    and rep: "sink_rep os0 (W @ blocks_bytes c (lh_compression_block_size (lw_header base)) blocks) (os, fd, fbuf)"
    and ino: "fd_ino fd = fd_ino (lw_fd base)"
    by (auto simp: block_state_def)
  let ?log = "block_progress base blocks r' fd fbuf"
  have "block_writer lib c ?log" using w(1) by simp
  moreover have "sink_rep os0 (W @ blocks_bytes c (lh_compression_block_size (lw_header base)) blocks)
      (os, lw_fd ?log, lw_file_buf ?log)" using rep by simp
  ultimately obtain os' fd' fbuf' where
    fl: "flush_compressed lib (os, ?log) = Some (SPARKEY_SUCCESS, os',
       ?log\<lparr>lw_header := note_entries (lw_header ?log) (lw_entry_count ?log), lw_fd := fd',
           lw_block_buf := (lw_block_buf ?log)\<lparr>buf_data := []\<rparr>, lw_file_buf := fbuf',
           lw_flushed := True, lw_entry_count := 0\<rparr>)"
    "sink_rep os0 ((W @ blocks_bytes c (lh_compression_block_size (lw_header base)) blocks)
        @ block_frame c (lh_compression_block_size (lw_header ?log)) r') (os', fd', fbuf')"
    "fd_ino fd' = fd_ino (lw_fd ?log)"
    by (rule flush_compressed_rep [where b = r']) (use assms(2) in simp_all)
  note eq = fl(1) [unfolded block_progress_flush [OF w(2), where b = r']]
  show thesis
    by (rule that [of os' "block_progress base (blocks @ [r']) [] fd' fbuf'" fd' fbuf'])
      (use eq fl(2,3) ino log in simp_all)
qed

lemma block_state_remaining:
  assumes "block_state lib c os0 W base blocks r s"
  shows "buf_remaining (lw_block_buf (snd s)) = unat (lh_compression_block_size (lw_header base)) - length r"
    "lw_block_buf (snd s) = (lw_block_buf base)\<lparr>buf_data := r\<rparr>"
  using assms by (auto simp: block_state_def buf_remaining_def block_writer_def)

lemma block_state_buffer:
  assumes "block_state lib c os0 W base blocks r (os, log)"
    and "length r' \<le> unat (lh_compression_block_size (lw_header base))"
  shows "block_state lib c os0 W base blocks r' (os, log\<lparr>lw_block_buf := (lw_block_buf base)\<lparr>buf_data := r'\<rparr>\<rparr>)"
  using assms unfolding block_state_def fst_conv snd_conv by (metis block_progress_simps(7))

lemma compressed_add_state:
  assumes "block_state lib c os0 W base blocks r (os, log)"
  shows "\<exists>blocks' r' s'. compressed_add lib (os, log) x = Some (SPARKEY_SUCCESS, s')
    \<and> block_state lib c os0 W base blocks' r' s' \<and> concat blocks' @ r' = concat blocks @ r @ x
    \<and> (r' = [] \<longrightarrow> x = [] \<and> r = [] \<and> blocks' = blocks)"
  using assms
proof (induction "length x + length r" arbitrary: x blocks r os log rule: less_induct)
  case less
  let ?n = "unat (lh_compression_block_size (lw_header base))"
  note rem = block_state_remaining [OF less.prems]
  have rn: "length r \<le> ?n" "0 < ?n" and full: "\<forall>b \<in> set blocks. length b = ?n"
    using less.prems by (simp_all add: block_state_def block_writer_def)
  show ?case
  proof (cases "length x \<le> ?n - length r")
    case True
    let ?log = "log\<lparr>lw_block_buf := (lw_block_buf base)\<lparr>buf_data := r @ x\<rparr>\<rparr>"
    have "compressed_add lib (os, log) x = Some (SPARKEY_SUCCESS, os, ?log)"
      using True rem by (simp add: compressed_add.simps Let_def)
    moreover have "block_state lib c os0 W base blocks (r @ x) (os, ?log)"
      by (rule block_state_buffer [OF less.prems]) (use True rn in simp)
    ultimately show ?thesis by (metis append_assoc append_is_Nil_conv)
  next
    case False
    let ?k = "?n - length r"
    let ?b = "r @ take ?k x"
    have lb: "length ?b = ?n" using False rn by simp
    obtain os' log' fd' fbuf' where fl:
      "flush_compressed lib (os, log\<lparr>lw_block_buf := (lw_block_buf base)\<lparr>buf_data := ?b\<rparr>\<rparr>)
         = Some (SPARKEY_SUCCESS, os', log')"
      "log' = block_progress base (blocks @ [?b]) [] fd' fbuf'"
      "sink_rep os0 (W @ blocks_bytes c (lh_compression_block_size (lw_header base)) (blocks @ [?b])) (os', fd', fbuf')"
      "fd_ino fd' = fd_ino (lw_fd base)"
      by (rule block_state_flush [OF less.prems, of ?b]) (use lb in simp_all)
    have st: "block_state lib c os0 W base (blocks @ [?b]) [] (os', log')"
      using less.prems fl full lb unfolding block_state_def by auto
    have step: "compressed_add lib (os, log) x = compressed_add lib (os', log') (drop ?k x)"
      using False rem fl(1) by (simp add: compressed_add.simps [of lib "(os, log)" x] Let_def)
    have shorter: "length (drop ?k x) + length ([] :: bytes) < length x + length r"
      using False rn by auto
    obtain blocks' r' s' where "compressed_add lib (os', log') (drop ?k x) = Some (SPARKEY_SUCCESS, s')"
      "block_state lib c os0 W base blocks' r' s'"
      "concat blocks' @ r' = concat (blocks @ [?b]) @ [] @ drop ?k x"
      "r' = [] \<longrightarrow> drop ?k x = []"
      using less.hyps [OF shorter st] by blast
    then show ?thesis
      unfolding step using False by (intro exI [of _ blocks'] exI [of _ r'] exI [of _ s']) auto
  qed
qed

interpretation block_sink: byte_sink "compressed_add lib" "block_rep lib c os0 W base" for lib c os0 W base
proof
  fix d s x
  assume "block_rep lib c os0 W base d s"
  then obtain blocks r where d: "d = concat blocks @ r" "r = [] \<longrightarrow> blocks = []"
    "block_state lib c os0 W base blocks r (fst s, snd s)"
    by (auto simp: block_rep_def)
  from compressed_add_state [OF d(3), of x] obtain blocks' r' s' where
    "compressed_add lib s x = Some (SPARKEY_SUCCESS, s')" "block_state lib c os0 W base blocks' r' s'"
    "concat blocks' @ r' = d @ x" "r' = [] \<longrightarrow> blocks' = []"
    using d(1,2) by auto
  then show "\<exists>s'. compressed_add lib s x = Some (SPARKEY_SUCCESS, s') \<and> block_rep lib c os0 W base (d @ x) s'"
    unfolding block_rep_def by metis
qed

section \<open>Writers and layouts\<close>

text \<open>
  \<open>writer_inv lib os0 l (os, log)\<close>: the open writer \<open>log\<close> stands for the layout \<open>l\<close> (the finished groups
  are in the stream behind a header, the entries of the current group are in the block buffer), and
  nothing but its own file differs from \<open>os0\<close>.
\<close>

definition writer_inv ::
  "codec_lib \<Rightarrow> os \<Rightarrow> log_entry list list \<times> log_entry list \<Rightarrow> os \<times> sparkey_logwriter \<Rightarrow> bool" where
  "writer_inv lib os0 l s \<longleftrightarrow>
     (let log = snd s; h = lw_header log; bs = unat (lh_compression_block_size h) in
      lw_open_status log = MAGIC_VALUE_LOGWRITER
      \<and> (\<exists>hdr. length hdr = 84 \<and>
           sink_rep os0 (hdr @ log_data lib h (fst l)) (fst s, lw_fd log, lw_file_buf log))
      \<and> buf_data (lw_block_buf log) = encode_entries (snd l)
      \<and> (case sparkey_compressors lib (lh_compression_type h) of
           None \<Rightarrow> snd l = []
         | Some c \<Rightarrow>
             block_writer lib c log \<and> layout_ok bs l
             \<and> lw_entry_count log = of_nat (length (snd l))
             \<and> unat (lh_max_entries_per_block h) < 2 ^ 31
             \<and> (\<forall>g \<in> set (fst l). length g \<le> unat (lh_max_entries_per_block h))))"

text \<open>What adding an entry keeps of the writer: its file, and all of the header but one counter.\<close>

definition writer_kept :: "sparkey_logwriter \<Rightarrow> sparkey_logwriter \<Rightarrow> bool" where
  "writer_kept log log' \<longleftrightarrow>
     fd_ino (lw_fd log') = fd_ino (lw_fd log)
     \<and> (\<exists>m. lw_header log' = (lw_header log)\<lparr>lh_max_entries_per_block := m\<rparr>)
     \<and> lh_max_entries_per_block (lw_header log) \<le> lh_max_entries_per_block (lw_header log')
     \<and> (\<not> sparkey_uses_compressor (lh_compression_type (lw_header log))
         \<longrightarrow> lh_max_entries_per_block (lw_header log') = lh_max_entries_per_block (lw_header log))"

lemma writer_kept_trans:
  assumes "writer_kept a b" "writer_kept b c"
  shows "writer_kept a c"
proof -
  obtain m n where "lw_header b = (lw_header a)\<lparr>lh_max_entries_per_block := m\<rparr>"
    "lw_header c = (lw_header b)\<lparr>lh_max_entries_per_block := n\<rparr>"
    using assms unfolding writer_kept_def by blast
  then have h: "lw_header b = (lw_header a)\<lparr>lh_max_entries_per_block := m\<rparr>"
    "lw_header c = (lw_header a)\<lparr>lh_max_entries_per_block := n\<rparr>" by simp_all
  have ty: "lh_compression_type (lw_header b) = lh_compression_type (lw_header a)" unfolding h(1) by simp
  have ino: "fd_ino (lw_fd c) = fd_ino (lw_fd a)" using assms unfolding writer_kept_def by presburger
  have le: "lh_max_entries_per_block (lw_header a) \<le> lh_max_entries_per_block (lw_header c)"
    using assms unfolding writer_kept_def by (blast intro: order_trans)
  have "\<not> sparkey_uses_compressor (lh_compression_type (lw_header a))
      \<longrightarrow> lh_max_entries_per_block (lw_header c) = lh_max_entries_per_block (lw_header a)"
    using assms unfolding writer_kept_def ty by presburger
  with ino le exI [of "\<lambda>n. lw_header c = (lw_header a)\<lparr>lh_max_entries_per_block := n\<rparr>", OF h(2)]
  show ?thesis unfolding writer_kept_def by blast
qed

lemma sint_max_entries:
  "unat (lh_max_entries_per_block h) < 2 ^ 31 \<Longrightarrow> 0 \<le> sint (lh_max_entries_per_block h)"
  by (simp add: sint_unat_u32)

lemma note_entries_max:
  assumes "unat (lh_max_entries_per_block h) < 2 ^ 31" "n < 2 ^ 31"
  shows "unat (lh_max_entries_per_block (note_entries h (of_nat n)))
    = max (unat (lh_max_entries_per_block h)) n"
  using assms by (simp add: note_entries_def sint_less_u32 unat_of_nat max_def)

lemma note_entries_keeps: "\<exists>m. note_entries h n = h\<lparr>lh_max_entries_per_block := m\<rparr>"
  by (auto simp: note_entries_def intro: exI [of _ "lh_max_entries_per_block h"])

lemma note_entries_grows:
  assumes "unat (lh_max_entries_per_block h) < 2 ^ 31" "n < 2 ^ 31"
  shows "lh_max_entries_per_block h \<le> lh_max_entries_per_block (note_entries h (of_nat n))"
  using note_entries_max [OF assms] by (simp add: word_le_nat_alt)

lemma writer_kept_note:
  assumes "fd_ino (lw_fd log') = fd_ino (lw_fd log)" "lw_header log' = note_entries (lw_header log) (of_nat n)"
    and "unat (lh_max_entries_per_block (lw_header log)) < 2 ^ 31" "n < 2 ^ 31"
    and "sparkey_compressors lib (lh_compression_type (lw_header log)) = Some c"
  shows "writer_kept log log'"
  using assms note_entries_keeps [of "lw_header log" "of_nat n"] note_entries_grows [OF assms(3,4)]
    uses_compressor_iff [of "lh_compression_type (lw_header log)" lib]
  by (simp add: writer_kept_def)

lemma writer_kept_same:
  "fd_ino (lw_fd log') = fd_ino (lw_fd log) \<Longrightarrow> lw_header log' = lw_header log \<Longrightarrow> writer_kept log log'"
  by (auto simp: writer_kept_def intro: exI [of _ "lh_max_entries_per_block (lw_header log)"])

lemma writer_inv_flush:
  assumes inv: "writer_inv lib os0 (gs, cur) (os, log)" and cur: "cur \<noteq> []"
  obtains os' log' where "flush_compressed lib (os, log) = Some (SPARKEY_SUCCESS, os', log')"
    "writer_inv lib os0 (gs @ [cur], []) (os', log')" "writer_kept log log'"
proof -
  let ?h = "lw_header log" let ?n = "lh_compression_block_size ?h"
  from inv cur obtain c hdr where c: "sparkey_compressors lib (lh_compression_type ?h) = Some c"
    and st: "lw_open_status log = MAGIC_VALUE_LOGWRITER" "block_writer lib c log" "layout_ok (unat ?n) (gs, cur)"
      "lw_entry_count log = of_nat (length cur)" "buf_data (lw_block_buf log) = encode_entries cur"
    and mx: "unat (lh_max_entries_per_block ?h) < 2 ^ 31" "\<forall>g \<in> set gs. length g \<le> unat (lh_max_entries_per_block ?h)"
    and rep: "length hdr = 84" "sink_rep os0 (hdr @ log_data lib ?h gs) (os, lw_fd log, lw_file_buf log)"
    by (auto simp: writer_inv_def Let_def split: option.splits)
  have fits: "length (encode_entries cur) \<le> unat ?n" using st(3) by (simp add: layout_ok_def)
  then have small: "length cur < 2 ^ 31"
    using two_entries_le [of cur] st(2) by (simp add: block_writer_def)
  obtain os' fd' fbuf' where fl: "flush_compressed lib (os, log) = Some (SPARKEY_SUCCESS, os',
       log\<lparr>lw_header := note_entries ?h (lw_entry_count log), lw_fd := fd',
           lw_block_buf := (lw_block_buf log)\<lparr>buf_data := []\<rparr>, lw_file_buf := fbuf',
           lw_flushed := True, lw_entry_count := 0\<rparr>)"
    "sink_rep os0 ((hdr @ log_data lib ?h gs) @ block_frame c ?n (encode_entries cur)) (os', fd', fbuf')"
    "fd_ino fd' = fd_ino (lw_fd log)"
    by (rule flush_compressed_rep [OF st(2) rep(2) st(5) fits])
  let ?log = "log\<lparr>lw_header := note_entries ?h (lw_entry_count log), lw_fd := fd',
           lw_block_buf := (lw_block_buf log)\<lparr>buf_data := []\<rparr>, lw_file_buf := fbuf',
           lw_flushed := True, lw_entry_count := 0\<rparr>"
  have data: "log_data lib (lw_header ?log) (gs @ [cur]) = log_data lib ?h gs @ block_frame c ?n (encode_entries cur)"
    using c cur fits by (simp add: log_data_def group_blocks_single)
  have "layout_ok (unat ?n) (gs @ [cur], [])"
    using st(3) group_ok_fits [OF cur fits] by (simp add: layout_ok_def)
  moreover have "block_writer lib c ?log" using st(2) by (simp add: block_writer_def)
  moreover have "\<forall>g \<in> set (gs @ [cur]). length g \<le> unat (lh_max_entries_per_block (lw_header ?log))"
    "unat (lh_max_entries_per_block (lw_header ?log)) < 2 ^ 31"
    using mx small by (auto simp: st(4) note_entries_max)
  ultimately have "writer_inv lib os0 (gs @ [cur], []) (os', ?log)"
    unfolding writer_inv_def Let_def using st c fl(2) rep(1) data by (auto intro!: exI [of _ hdr])
  moreover have "writer_kept log ?log"
    by (rule writer_kept_note [OF _ _ mx(1) small c]) (simp_all add: fl(3) st(4))
  ultimately show thesis using that fl(1) by blast
qed

text \<open>The part of \<open>log_add\<close> behind the decision to start a new block.\<close>

definition add_tail ::
  "codec_lib \<Rightarrow> u64 \<Rightarrow> bytes \<Rightarrow> bytes \<Rightarrow> bytes \<Rightarrow> bytes \<Rightarrow> os \<times> sparkey_logwriter
     \<Rightarrow> (u64 \<times> os \<times> sparkey_logwriter) result" where
  "add_tail lib datasize buf1 buf2 data1 data2 s =
     rethrow (compressed_add lib s buf1) (Pair datasize) (\<lambda>s.
     rethrow (compressed_add lib s buf2) (Pair datasize) (\<lambda>s.
     rethrow (compressed_add lib s data1) (Pair datasize) (\<lambda>s.
     rethrow (compressed_add lib s data2) (Pair datasize) (\<lambda>s.
     rethrow
       (if lw_flushed (snd s) \<and> buf_used (lw_block_buf (snd s)) > 0
        then flush_compressed lib s else Some (SPARKEY_SUCCESS, s)) (Pair datasize) (\<lambda>s.
     Some (SPARKEY_SUCCESS, datasize, s))))))"

lemma add_tail_blocks:
  assumes base: "block_writer lib c base" "0 \<le> sint (lh_max_entries_per_block (lw_header base))"
      "\<not> lw_flushed base" "length (buf_data (lw_block_buf base)) \<le> unat (lh_compression_block_size (lw_header base))"
    and rep: "sink_rep os0 W (os, lw_fd base, lw_file_buf base)"
    and d: "d = buf_data (lw_block_buf base) @ buf1 @ buf2 @ data1 @ data2" "buf1 \<noteq> []"
  obtains (fits) os' log' where
    "add_tail lib ds buf1 buf2 data1 data2 (os, base) = Some (SPARKEY_SUCCESS, ds, os', log')"
    "length d \<le> unat (lh_compression_block_size (lw_header base))"
    "block_state lib c os0 W base [] d (os', log')"
  | (spills) os' fd' fbuf' where
    "add_tail lib ds buf1 buf2 data1 data2 (os, base) =
       Some (SPARKEY_SUCCESS, ds, os', block_progress base (chop (unat (lh_compression_block_size (lw_header base))) d) [] fd' fbuf')"
    "unat (lh_compression_block_size (lw_header base)) < length d"
    "sink_rep os0 (W @ blocks_bytes c (lh_compression_block_size (lw_header base))
        (chop (unat (lh_compression_block_size (lw_header base))) d)) (os', fd', fbuf')"
    "fd_ino fd' = fd_ino (lw_fd base)"
proof -
  let ?n = "lh_compression_block_size (lw_header base)"
  have "block_state lib c os0 W base [] (buf_data (lw_block_buf base)) (os, base)"
    using base rep block_progress_start [of base] unfolding block_state_def by (auto intro!: exI)
  then have "block_rep lib c os0 W base (buf_data (lw_block_buf base)) (os, base)"
    unfolding block_rep_def by (intro exI [of _ "[]"] exI [of _ "buf_data (lw_block_buf base)"]) simp
  then obtain s' where run: "add_tail lib ds buf1 buf2 data1 data2 (os, base) =
      rethrow
       (if lw_flushed (snd s') \<and> buf_used (lw_block_buf (snd s')) > 0
        then flush_compressed lib s' else Some (SPARKEY_SUCCESS, s')) (Pair ds) (\<lambda>s.
       Some (SPARKEY_SUCCESS, ds, s))"
    and "block_rep lib c os0 W base d s'"
    unfolding add_tail_def d(1) by (rule block_sink.add_four)
  then obtain blocks r where br: "d = concat blocks @ r" "r = [] \<longrightarrow> blocks = []"
    "block_state lib c os0 W base blocks r (fst s', snd s')"
    unfolding block_rep_def by auto
  then have full: "\<forall>b \<in> set blocks. length b = unat ?n" "length r \<le> unat ?n"
    and flags: "lw_flushed (snd s') \<longleftrightarrow> blocks \<noteq> []" "buf_used (lw_block_buf (snd s')) = length r"
    using base(3) by (auto simp: block_state_def block_progress_def buf_used_def)
  have rne: "r \<noteq> []" using br d by auto
  show thesis
  proof (cases "blocks = []")
    case True
    then show thesis
      using fits [of "fst s'" "snd s'"] run flags br full by simp
  next
    case False
    have log: "(snd s')\<lparr>lw_block_buf := (lw_block_buf base)\<lparr>buf_data := r\<rparr>\<rparr> = snd s'"
      using br(3) by (auto simp: block_state_def)
    have ch: "chop (unat ?n) d = blocks @ [r]"
      unfolding br(1) using full rne base(1) by (intro chop_append_full) (auto simp: block_writer_def)
    obtain os' log' fd' fbuf' where fl: "flush_compressed lib s' = Some (SPARKEY_SUCCESS, os', log')"
      "log' = block_progress base (blocks @ [r]) [] fd' fbuf'"
      "sink_rep os0 (W @ blocks_bytes c ?n (blocks @ [r])) (os', fd', fbuf')" "fd_ino fd' = fd_ino (lw_fd base)"
      by (rule block_state_flush [OF br(3) full(2)]) (simp add: log)
    have "unat ?n < length d"
    proof -
      obtain b bs where "blocks = b # bs" using False by (cases blocks) auto
      then show ?thesis using full(1) rne br(1) by simp
    qed
    then show thesis
      using spills [of os' fd' fbuf'] run flags False rne fl ch by simp
  qed
qed

lemma writer_inv_add:
  assumes inv: "writer_inv lib os0 (gs, cur) (os, log)"
    and c: "sparkey_compressors lib (lh_compression_type (lw_header log)) = Some c"
    and head: "length (encode_entries cur) + length (entry_head e) \<le> unat (lh_compression_block_size (lw_header log))"
    and parts: "buf1 @ buf2 = entry_head e" "buf1 \<noteq> []" "data1 @ data2 = entry_body e"
  obtains os' log' where
    "add_tail lib ds buf1 buf2 data1 data2
       (os, log\<lparr>lw_entry_count := lw_entry_count log + 1, lw_flushed := False\<rparr>)
       = Some (SPARKEY_SUCCESS, ds, os', log')"
    "writer_inv lib os0
       (if unat (lh_compression_block_size (lw_header log)) < length (encode_entries (cur @ [e]))
        then (gs @ [cur @ [e]], []) else (gs, cur @ [e])) (os', log')"
    "writer_kept log log'"
proof -
  let ?h = "lw_header log" let ?n = "lh_compression_block_size ?h"
  let ?base = "log\<lparr>lw_entry_count := lw_entry_count log + 1, lw_flushed := False\<rparr>"
  let ?d = "encode_entries (cur @ [e])"
  from inv c obtain hdr where
    st: "lw_open_status log = MAGIC_VALUE_LOGWRITER" "block_writer lib c log" "layout_ok (unat ?n) (gs, cur)"
      "lw_entry_count log = of_nat (length cur)" "buf_data (lw_block_buf log) = encode_entries cur"
    and mx: "unat (lh_max_entries_per_block ?h) < 2 ^ 31" "\<forall>g \<in> set gs. length g \<le> unat (lh_max_entries_per_block ?h)"
    and rep: "length hdr = 84" "sink_rep os0 (hdr @ log_data lib ?h gs) (os, lw_fd log, lw_file_buf log)"
    by (auto simp: writer_inv_def Let_def)
  have small: "Suc (length cur) < 2 ^ 31"
    using two_entries_le [of cur] length_entry_head(1) [of e] head st(2) by (simp add: block_writer_def)
  have base: "block_writer lib c ?base" "0 \<le> sint (lh_max_entries_per_block (lw_header ?base))"
      "\<not> lw_flushed ?base" "length (buf_data (lw_block_buf ?base)) \<le> unat (lh_compression_block_size (lw_header ?base))"
    using st head sint_max_entries [OF mx(1)] by (simp_all add: block_writer_def)
  have rep': "sink_rep os0 (hdr @ log_data lib ?h gs) (os, lw_fd ?base, lw_file_buf ?base)"
    using rep by simp
  have d: "?d = buf_data (lw_block_buf ?base) @ buf1 @ buf2 @ data1 @ data2"
    using parts st(5) by (simp add: encode_entry_def flip: append_assoc)
  show thesis
  proof (rule add_tail_blocks [OF base rep' d parts(2), where ds = ds])
    fix os' log'
    assume run: "add_tail lib ds buf1 buf2 data1 data2 (os, ?base) = Some (SPARKEY_SUCCESS, ds, os', log')"
      and le: "length ?d \<le> unat (lh_compression_block_size (lw_header ?base))"
      and bst: "block_state lib c os0 (hdr @ log_data lib ?h gs) ?base [] ?d (os', log')"
    from bst obtain fd fbuf where log': "log' = block_progress ?base [] ?d fd fbuf"
      and sk: "sink_rep os0 (hdr @ log_data lib ?h gs) (os', fd, fbuf)" "fd_ino fd = fd_ino (lw_fd log)"
      by (auto simp: block_state_def)
    have kept: "writer_kept log log'"
      by (rule writer_kept_same) (simp_all add: sk(2) log' block_progress_def)
    have "writer_inv lib os0 (gs, cur @ [e]) (os', log')"
      unfolding writer_inv_def Let_def using st mx rep(1) sk le c
      by (auto simp: log' block_progress_def block_writer_def layout_ok_def intro!: exI [of _ hdr])
    then show thesis using that [OF run _ kept] le by simp
  next
    fix os' fd' fbuf'
    let ?log = "block_progress ?base (chop (unat (lh_compression_block_size (lw_header ?base))) ?d) [] fd' fbuf'"
    assume run: "add_tail lib ds buf1 buf2 data1 data2 (os, ?base) = Some (SPARKEY_SUCCESS, ds, os', ?log)"
      and gt: "unat (lh_compression_block_size (lw_header ?base)) < length ?d"
      and sk: "sink_rep os0 ((hdr @ log_data lib ?h gs) @ blocks_bytes c (lh_compression_block_size (lw_header ?base))
        (chop (unat (lh_compression_block_size (lw_header ?base))) ?d)) (os', fd', fbuf')"
      and ino: "fd_ino fd' = fd_ino (lw_fd ?base)"
    have ne: "chop (unat ?n) ?d \<noteq> []" using concat_chop [of "unat ?n" ?d] by (metis concat.simps(1) encode_entries_Nil_iff snoc_eq_iff_butlast)
    have hd: "lw_header ?log = note_entries ?h (of_nat (Suc (length cur)))"
      using ne st(4) by (simp add: block_progress_def add.commute)
    have kept: "writer_kept log ?log"
      by (rule writer_kept_note [OF _ hd mx(1) small c]) (use ino in simp)
    have data: "log_data lib (lw_header ?log) (gs @ [cur @ [e]])
        = log_data lib ?h gs @ blocks_bytes c ?n (chop (unat ?n) ?d)"
      unfolding hd using c by (simp add: log_data_def group_blocks_def)
    have "group_ok (unat ?n) (cur @ [e])" using head by (simp add: group_ok_def)
    then have lay: "layout_ok (unat ?n) (gs @ [cur @ [e]], [])" using st(3) by (simp add: layout_ok_def)
    have mx': "unat (lh_max_entries_per_block (lw_header ?log)) = max (unat (lh_max_entries_per_block ?h)) (Suc (length cur))"
      unfolding hd by (rule note_entries_max [OF mx(1) small])
    have "writer_inv lib os0 (gs @ [cur @ [e]], []) (os', ?log)"
      unfolding writer_inv_def Let_def fst_conv snd_conv data
      using st mx rep(1) sk lay c ne mx' small
      by (auto simp: hd block_progress_def block_writer_def intro!: exI [of _ hdr])
    then show thesis using that [OF run _ kept] gt by simp
  qed
qed

text \<open>The arguments \<open>put\<close> and \<open>delete\<close> pass to \<open>log_add\<close> for an entry.\<close>

fun entry_data :: "log_entry \<Rightarrow> bytes \<times> bytes" where
  "entry_data (PutEntry k v) = (k, v)"
| "entry_data (DeleteEntry k) = ([], k)"

definition log_add_entry ::
  "codec_lib \<Rightarrow> os \<times> sparkey_logwriter \<Rightarrow> log_entry \<Rightarrow> (u64 \<times> os \<times> sparkey_logwriter) result" where
  "log_add_entry lib s e =
     log_add lib s (fst (entry_nums e)) (snd (entry_nums e)) (fst (entry_data e)) (snd (entry_data e))"

lemma entry_data_body: "fst (entry_data e) @ snd (entry_data e) = entry_body e"
  by (cases e) (simp_all add: entry_body_def)

text \<open>Entries the writer can take: the size of the entry is below \<open>2^63\<close>, and its two leading numbers fit a block.\<close>

definition entry_fits :: "sparkey_logheader \<Rightarrow> log_entry \<Rightarrow> bool" where
  "entry_fits h e \<longleftrightarrow> entry_ok e
     \<and> (sparkey_uses_compressor (lh_compression_type h)
         \<longrightarrow> length (entry_head e) \<le> unat (lh_compression_block_size h))"

lemma datasize_encode:
  assumes "entry_ok e" "fst (entry_data e) = d1" "snd (entry_data e) = d2"
  shows "of_nat (length (write_vlq (fst (entry_nums e)))) + of_nat (length (write_vlq (snd (entry_nums e))))
      + of_nat (length d1) + of_nat (length d2) = (of_nat (length (encode_entry e)) :: u64)"
proof -
  have "length (encode_entry e) = length (write_vlq (fst (entry_nums e)))
      + length (write_vlq (snd (entry_nums e))) + length d1 + length d2"
    using arg_cong [OF entry_data_body [of e], of length] assms(2,3)
    by (simp add: encode_entry_def entry_head_def)
  then show ?thesis by simp
qed

lemma log_add_compressed:
  assumes inv: "writer_inv lib os0 (gs, cur) (os, log)" and e: "entry_fits (lw_header log) e"
    and c: "sparkey_compressors lib (lh_compression_type (lw_header log)) = Some c"
  obtains os' log' where
    "log_add_entry lib (os, log) e = Some (SPARKEY_SUCCESS, of_nat (length (encode_entry e)), os', log')"
    "writer_inv lib os0 (layout_add (unat (lh_compression_block_size (lw_header log))) (gs, cur) e) (os', log')"
    "writer_kept log log'"
proof -
  let ?n = "unat (lh_compression_block_size (lw_header log))"
  let ?buf1 = "write_vlq (fst (entry_nums e))" let ?buf2 = "write_vlq (snd (entry_nums e))"
  let ?d1 = "fst (entry_data e)" let ?d2 = "snd (entry_data e)"
  let ?ds = "of_nat (length (encode_entry e)) :: u64"
  have uses: "sparkey_uses_compressor (lh_compression_type (lw_header log))"
    using c uses_compressor_iff by blast
  have head: "length (entry_head e) \<le> ?n" and ok: "length (encode_entry e) < 2 ^ 63"
    using e uses by (auto simp: entry_fits_def entry_ok_def)
  have cap: "buf_cap (lw_block_buf log) = ?n" "?n < 2 ^ 31" "length (encode_entries cur) \<le> ?n"
    "buf_data (lw_block_buf log) = encode_entries cur"
    using inv c by (auto simp: writer_inv_def block_writer_def layout_ok_def Let_def)
  let ?rem = "of_nat (buf_remaining (lw_block_buf log)) :: u64"
  have rem: "buf_remaining (lw_block_buf log) = layout_room ?n cur"
    using cap by (simp add: buf_remaining_def layout_room_def)
  have room: "layout_room ?n cur < 2 ^ 31" using cap by (simp add: layout_room_def)
  have h12: "of_nat (length ?buf1) + of_nat (length ?buf2) = (of_nat (length (entry_head e)) :: u64)"
    by (simp add: entry_head_def)
  have brk: "(?rem < of_nat (length ?buf1) + of_nat (length ?buf2)
      \<or> (?ds \<le> of_nat (buf_size (lw_block_buf log)) \<and> ?rem < ?ds)) \<longleftrightarrow> layout_break ?n cur e"
    unfolding h12 rem layout_break_def using ok room cap length_entry_head(2) [of e]
    by (simp add: word_less_nat_alt word_le_nat_alt unat_of_nat_u64 buf_size_def)
  let ?t = "add_tail lib ?ds ?buf1 ?buf2 ?d1 ?d2"
  have run: "log_add_entry lib (os, log) e =
      rethrow (if layout_break ?n cur e then flush_compressed lib (os, log) else Some (SPARKEY_SUCCESS, os, log))
        (Pair ?ds) (\<lambda>(os, log). ?t (os, log\<lparr>lw_entry_count := lw_entry_count log + 1, lw_flushed := False\<rparr>))"
    unfolding log_add_entry_def log_add_def Let_def add_tail_def snd_conv brk [symmetric]
      datasize_encode [OF e [unfolded entry_fits_def, THEN conjunct1] refl refl]
    using uses by simp
  have parts: "?buf1 @ ?buf2 = entry_head e" "?buf1 \<noteq> []" "?d1 @ ?d2 = entry_body e"
    by (simp_all add: entry_head_def entry_data_body)
  show thesis
  proof (cases "layout_break ?n cur e")
    case True
    then have ne: "cur \<noteq> []" using head by (auto simp: layout_break_def layout_room_def)
    obtain os1 log1 where 1: "flush_compressed lib (os, log) = Some (SPARKEY_SUCCESS, os1, log1)"
      "writer_inv lib os0 (gs @ [cur], []) (os1, log1)" "writer_kept log log1"
      by (rule writer_inv_flush [OF inv ne])
    have same: "lh_compression_type (lw_header log1) = lh_compression_type (lw_header log)"
      "lh_compression_block_size (lw_header log1) = lh_compression_block_size (lw_header log)"
      using 1(3) by (auto simp: writer_kept_def)
    obtain os2 log2 where 2: "?t (os1, log1\<lparr>lw_entry_count := lw_entry_count log1 + 1, lw_flushed := False\<rparr>)
        = Some (SPARKEY_SUCCESS, ?ds, os2, log2)"
      "writer_inv lib os0 (if ?n < length (encode_entries ([] @ [e])) then ((gs @ [cur]) @ [[] @ [e]], [])
         else (gs @ [cur], [] @ [e])) (os2, log2)" "writer_kept log1 log2"
      by (rule writer_inv_add [OF 1(2) _ _ parts, where c = c and ds = ?ds]) (use c head same in simp_all)
    show thesis
      by (rule that [of os2 log2])
        (use True run 1 2 writer_kept_trans in \<open>auto simp: layout_add.simps Let_def\<close>)
  next
    case False
    then have "length (encode_entries cur) + length (entry_head e) \<le> ?n"
      using cap(3) by (auto simp: layout_break_def layout_room_def)
    then obtain os2 log2 where 2: "?t (os, log\<lparr>lw_entry_count := lw_entry_count log + 1, lw_flushed := False\<rparr>)
        = Some (SPARKEY_SUCCESS, ?ds, os2, log2)"
      "writer_inv lib os0 (if ?n < length (encode_entries (cur @ [e])) then (gs @ [cur @ [e]], [])
         else (gs, cur @ [e])) (os2, log2)" "writer_kept log log2"
      by (rule writer_inv_add [OF inv c _ parts, where ds = ?ds])
    show thesis
      by (rule that [of os2 log2]) (use False run 2 in \<open>auto simp: layout_add.simps Let_def\<close>)
  qed
qed

lemma log_add_plain:
  assumes inv: "writer_inv lib os0 (gs, cur) (os, log)" and e: "entry_fits (lw_header log) e"
    and c: "sparkey_compressors lib (lh_compression_type (lw_header log)) = None"
  obtains os' log' where
    "log_add_entry lib (os, log) e = Some (SPARKEY_SUCCESS, of_nat (length (encode_entry e)), os', log')"
    "writer_inv lib os0 (gs @ [[e]], []) (os', log')"
    "writer_kept log log'"
proof -
  let ?buf1 = "write_vlq (fst (entry_nums e))" let ?buf2 = "write_vlq (snd (entry_nums e))"
  let ?d1 = "fst (entry_data e)" let ?d2 = "snd (entry_data e)"
  let ?ds = "of_nat (length (encode_entry e)) :: u64"
  have uses: "\<not> sparkey_uses_compressor (lh_compression_type (lw_header log))"
    using c uses_compressor_iff [of _ lib] by simp
  from inv c obtain hdr where
    st: "lw_open_status log = MAGIC_VALUE_LOGWRITER" "cur = []" "buf_data (lw_block_buf log) = []"
    and rep: "length hdr = 84" "sink_rep os0 (hdr @ log_data lib (lw_header log) gs) (os, lw_fd log, lw_file_buf log)"
    by (auto simp: writer_inv_def Let_def)
  have "writer_rep os0 log (hdr @ log_data lib (lw_header log) gs) (os, log)"
    using rep by (auto simp: writer_rep_def intro!: exI [of _ "lw_fd log"] exI [of _ "lw_file_buf log"])
  then obtain s' where run: "log_add_entry lib (os, log) e = Some (SPARKEY_SUCCESS, ?ds, s')"
    and w: "writer_rep os0 log ((hdr @ log_data lib (lw_header log) gs) @ ?buf1 @ ?buf2 @ ?d1 @ ?d2) s'"
    unfolding log_add_entry_def log_add_def Let_def snd_conv if_not_P [OF uses]
      datasize_encode [OF e [unfolded entry_fits_def, THEN conjunct1] refl refl]
    by (rule writer_sink.add_four)
  obtain os' fd' fbuf' where s': "s' = (os', log\<lparr>lw_fd := fd', lw_file_buf := fbuf'\<rparr>)"
    using w by (cases s') (auto simp: writer_rep_def)
  have "?buf1 @ ?buf2 @ ?d1 @ ?d2 = encode_entry e"
    using entry_data_body [of e] by (simp add: encode_entry_def entry_head_def)
  then have "writer_inv lib os0 (gs @ [[e]], []) s'"
    using w st c rep(1) by (auto simp: s' writer_inv_def writer_rep_def Let_def log_data_def intro!: exI [of _ hdr])
  moreover have "writer_kept log (snd s')"
    by (rule writer_kept_same) (use w in \<open>auto simp: s' writer_rep_def\<close>)
  ultimately show thesis using that run s' by simp
qed

lemma log_add_refines:
  assumes inv: "writer_inv lib os0 l (os, log)" and e: "entry_fits (lw_header log) e"
  obtains os' log' where
    "log_add_entry lib (os, log) e = Some (SPARKEY_SUCCESS, of_nat (length (encode_entry e)), os', log')"
    "writer_inv lib os0 (layout_step (lw_header log) l e) (os', log')" "writer_kept log log'"
proof (cases "sparkey_compressors lib (lh_compression_type (lw_header log))")
  case None
  then have "layout_step (lw_header log) l e = (fst l @ [[e]], [])"
    using uses_compressor_iff [of _ lib] by (auto simp: layout_step_def)
  then show thesis
    using log_add_plain [of lib os0 "fst l" "snd l", OF _ e None] inv that by auto
next
  case (Some c)
  then have "layout_step (lw_header log) l e = layout_add (unat (lh_compression_block_size (lw_header log))) (fst l, snd l) e"
    using uses_compressor_iff [of _ lib] by (auto simp: layout_step_def)
  then show thesis
    using log_add_compressed [of lib os0 "fst l" "snd l", OF _ e Some] inv that by auto
qed

section \<open>Put and delete\<close>

text \<open>The writer stands for the entries \<open>es\<close>, of which the first groups are \<open>g0\<close>.\<close>

definition writer_log ::
  "codec_lib \<Rightarrow> log_entry list list \<Rightarrow> os \<Rightarrow> log_entry list \<Rightarrow> os \<times> sparkey_logwriter \<Rightarrow> bool" where
  "writer_log lib g0 os0 es s \<longleftrightarrow>
     (\<exists>l. writer_inv lib os0 l s \<and> take (length g0) (fst l) = g0 \<and> concat (fst l) @ snd l = es)
     \<and> header_counts (lw_header (snd s)) es"

text \<open>What no operation on an open writer changes.\<close>

definition same_log :: "sparkey_logwriter \<Rightarrow> sparkey_logwriter \<Rightarrow> bool" where
  "same_log log log' \<longleftrightarrow>
     fd_ino (lw_fd log') = fd_ino (lw_fd log)
     \<and> lh_compression_type (lw_header log') = lh_compression_type (lw_header log)
     \<and> lh_compression_block_size (lw_header log') = lh_compression_block_size (lw_header log)
     \<and> lh_file_identifier (lw_header log') = lh_file_identifier (lw_header log)
     \<and> lh_major_version (lw_header log') = lh_major_version (lw_header log)
     \<and> lh_minor_version (lw_header log') = lh_minor_version (lw_header log)
     \<and> lh_max_entries_per_block (lw_header log) \<le> lh_max_entries_per_block (lw_header log')
     \<and> (\<not> sparkey_uses_compressor (lh_compression_type (lw_header log))
         \<longrightarrow> lh_max_entries_per_block (lw_header log') = lh_max_entries_per_block (lw_header log))"

lemma same_log_refl [simp]: "same_log log log"
  by (simp add: same_log_def)

lemma same_log_trans: "same_log a b \<Longrightarrow> same_log b c \<Longrightarrow> same_log a c"
  by (auto simp: same_log_def intro: order_trans)

lemma layout_step_entries:
  assumes "\<not> sparkey_uses_compressor (lh_compression_type h) \<Longrightarrow> snd l = []"
  shows "concat (fst (layout_step h l e)) @ snd (layout_step h l e) = (concat (fst l) @ snd l) @ [e]"
  using assms layout_add_entries [of "unat (lh_compression_block_size h)" l e] by (auto simp: layout_step_def)

lemma layout_step_groups:
  assumes "take n (fst l) = g0" "length g0 = n"
  shows "take n (fst (layout_step h l e)) = g0"
proof -
  have "n \<le> length (fst l)" using assms by (metis length_take min.absorb_iff2 nle_le)
  then show ?thesis using assms by (cases l) (auto simp: layout_step_def layout_add.simps Let_def)
qed

text \<open>The invariant looks at the compression parameters and the block counter of the header only.\<close>

lemma writer_inv_header:
  assumes "writer_inv lib os0 l (os, log)"
    and "lh_compression_type h = lh_compression_type (lw_header log)"
    and "lh_compression_block_size h = lh_compression_block_size (lw_header log)"
    and "lh_max_entries_per_block h = lh_max_entries_per_block (lw_header log)"
  shows "writer_inv lib os0 l (os, log\<lparr>lw_header := h\<rparr>)"
  using assms by (simp add: writer_inv_def log_data_def block_writer_def Let_def cong: option.case_cong)

lemma writer_inv_open:
  "writer_inv lib os0 l (os, log) \<Longrightarrow> assert_writer_open log = SPARKEY_SUCCESS"
  by (simp add: writer_inv_def assert_writer_open_def Let_def)

text \<open>The state behind \<open>log_add\<close>: once the counters are brought up to date, the writer stands for \<open>es\<close>.\<close>

definition recounted :: "codec_lib \<Rightarrow> log_entry list list \<Rightarrow> os \<Rightarrow> log_entry list \<Rightarrow> os \<times> sparkey_logwriter \<Rightarrow> bool" where
  "recounted lib g0 os0 es s \<longleftrightarrow>
     (\<forall>h. lh_compression_type h = lh_compression_type (lw_header (snd s))
        \<and> lh_compression_block_size h = lh_compression_block_size (lw_header (snd s))
        \<and> lh_max_entries_per_block h = lh_max_entries_per_block (lw_header (snd s))
        \<and> header_counts h es \<longrightarrow> writer_log lib g0 os0 es (fst s, (snd s)\<lparr>lw_header := h\<rparr>))"

lemma recountedD:
  assumes "recounted lib g0 os0 es (os, log)"
    and "lh_compression_type h = lh_compression_type (lw_header log)"
    and "lh_compression_block_size h = lh_compression_block_size (lw_header log)"
    and "lh_max_entries_per_block h = lh_max_entries_per_block (lw_header log)"
    and "header_counts h es"
  shows "writer_log lib g0 os0 es (os, log\<lparr>lw_header := h\<rparr>)"
  using assms by (simp add: recounted_def)

text \<open>Both entry points are \<open>log_add\<close> followed by an update of the counters.\<close>

lemma writer_log_add:
  assumes w: "writer_log lib g0 os0 es (os, log)" and e: "entry_fits (lw_header log) e"
  obtains os' log' where
    "log_add_entry lib (os, log) e = Some (SPARKEY_SUCCESS, of_nat (length (encode_entry e)), os', log')"
    "header_counts (lw_header log') es" "writer_kept log log'"
    "recounted lib g0 os0 (es @ [e]) (os', log')"
proof -
  from w obtain l where inv: "writer_inv lib os0 l (os, log)" and es: "concat (fst l) @ snd l = es"
    and cnt: "header_counts (lw_header log) es" and g0: "take (length g0) (fst l) = g0"
    by (auto simp: writer_log_def)
  have "snd l = []" if "\<not> sparkey_uses_compressor (lh_compression_type (lw_header log))"
    using inv that uses_compressor_iff [of _ lib] by (auto simp: writer_inv_def Let_def split: option.splits)
  note ent = layout_step_entries [of "lw_header log" l e, OF this]
  obtain os' log' where run:
    "log_add_entry lib (os, log) e = Some (SPARKEY_SUCCESS, of_nat (length (encode_entry e)), os', log')"
    "writer_inv lib os0 (layout_step (lw_header log) l e) (os', log')" "writer_kept log log'"
    by (rule log_add_refines [OF inv e])
  have "header_counts (lw_header log') es" using cnt run(3) by (auto simp: writer_kept_def header_counts_def)
  moreover have "recounted lib g0 os0 (es @ [e]) (os', log')"
    unfolding recounted_def writer_log_def using writer_inv_header [OF run(2)] ent es layout_step_groups [OF g0 refl]
    by (auto intro!: exI [of _ "fst (layout_step (lw_header log) l e)"] exI [of _ "snd (layout_step (lw_header log) l e)"])
  ultimately show thesis using that run by blast
qed

lemma entry_ok_lengths:
  assumes "entry_ok e"
  shows "length (entry_key e) < 2 ^ 63" "length (entry_value e) < 2 ^ 63"
  using assms by (simp_all add: entry_ok_def encode_entry_def entry_body_def)

lemma logwriter_put_log:
  assumes w: "writer_log lib g0 os0 es (os, log)" and e: "entry_fits (lw_header log) (PutEntry k v)"
  obtains os' log' where "sparkey_logwriter_put lib (os, log) k v = Some (SPARKEY_SUCCESS, os', log')"
    "writer_log lib g0 os0 (es @ [PutEntry k v]) (os', log')" "same_log log log'"
proof -
  let ?e = "PutEntry k v"
  obtain os' log' where
    run: "log_add_entry lib (os, log) ?e = Some (SPARKEY_SUCCESS, of_nat (length (encode_entry ?e)), os', log')"
    and cnt: "header_counts (lw_header log') es" and kept: "writer_kept log log'"
    and fin: "recounted lib g0 os0 (es @ [?e]) (os', log')"
    by (rule writer_log_add [OF w e])
  have len: "length k < 2 ^ 63" "length v < 2 ^ 63"
    using e entry_ok_lengths [of ?e] by (simp_all add: entry_fits_def)
  have op: "assert_writer_open log = SPARKEY_SUCCESS" using w writer_inv_open by (auto simp: writer_log_def)
  let ?h0 = "(lw_header log')\<lparr>lh_num_puts := lh_num_puts (lw_header log') + 1,
      lh_put_size := lh_put_size (lw_header log') + of_nat (length (encode_entry ?e))\<rparr>"
  let ?h1 = "if of_nat (length k) > lh_max_key_len ?h0 then ?h0\<lparr>lh_max_key_len := of_nat (length k)\<rparr> else ?h0"
  let ?h = "if of_nat (length v) > lh_max_value_len ?h1 then ?h1\<lparr>lh_max_value_len := of_nat (length v)\<rparr> else ?h1"
  have put: "sparkey_logwriter_put lib (os, log) k v = Some (SPARKEY_SUCCESS, os', log'\<lparr>lw_header := ?h\<rparr>)"
    using run op by (simp add: sparkey_logwriter_put_def log_add_entry_def Let_def)
  have h1: "lh_num_puts ?h = lh_num_puts (lw_header log') + 1"
    "lh_put_size ?h = lh_put_size (lw_header log') + of_nat (length (encode_entry ?e))"
    "lh_num_deletes ?h = lh_num_deletes (lw_header log')" "lh_delete_size ?h = lh_delete_size (lw_header log')"
    by simp_all
  have h2: "unat (lh_max_key_len ?h) = max (length k) (unat (lh_max_key_len (lw_header log')))"
    "unat (lh_max_value_len ?h) = max (length v) (unat (lh_max_value_len (lw_header log')))"
    using len by (auto simp: word_less_nat_alt unat_of_nat_u64)
  have "header_counts ?h (es @ [?e])"
    using cnt unfolding header_counts_def h1 h2 by simp
  then have "writer_log lib g0 os0 (es @ [?e]) (os', log'\<lparr>lw_header := ?h\<rparr>)"
    by (intro recountedD [OF fin]) simp_all
  moreover have "same_log log (log'\<lparr>lw_header := ?h\<rparr>)" using kept by (auto simp: same_log_def writer_kept_def)
  ultimately show thesis using that put by blast
qed

lemma logwriter_delete_log:
  assumes w: "writer_log lib g0 os0 es (os, log)" and e: "entry_fits (lw_header log) (DeleteEntry k)"
  obtains os' log' where "sparkey_logwriter_delete lib (os, log) k = Some (SPARKEY_SUCCESS, os', log')"
    "writer_log lib g0 os0 (es @ [DeleteEntry k]) (os', log')" "same_log log log'"
proof -
  let ?e = "DeleteEntry k"
  obtain os' log' where
    run: "log_add_entry lib (os, log) ?e = Some (SPARKEY_SUCCESS, of_nat (length (encode_entry ?e)), os', log')"
    and cnt: "header_counts (lw_header log') es" and kept: "writer_kept log log'"
    and fin: "recounted lib g0 os0 (es @ [?e]) (os', log')"
    by (rule writer_log_add [OF w e])
  have op: "assert_writer_open log = SPARKEY_SUCCESS" using w writer_inv_open by (auto simp: writer_log_def)
  let ?h = "(lw_header log')\<lparr>lh_num_deletes := lh_num_deletes (lw_header log') + 1,
      lh_delete_size := lh_delete_size (lw_header log') + of_nat (length (encode_entry ?e))\<rparr>"
  have del: "sparkey_logwriter_delete lib (os, log) k = Some (SPARKEY_SUCCESS, os', log'\<lparr>lw_header := ?h\<rparr>)"
    using run op by (simp add: sparkey_logwriter_delete_def log_add_entry_def Let_def)
  have "header_counts ?h (es @ [?e])" using cnt by (simp add: header_counts_def)
  then have "writer_log lib g0 os0 (es @ [?e]) (os', log'\<lparr>lw_header := ?h\<rparr>)"
    by (intro recountedD [OF fin]) simp_all
  moreover have "same_log log (log'\<lparr>lw_header := ?h\<rparr>)" using kept by (auto simp: same_log_def writer_kept_def)
  ultimately show thesis using that del by blast
qed

end
