(* ===== verification/LogWriterFile.thy ===== *)
theory LogWriterFile
  imports LogWriterCorrect
begin

text \<open>
  Correctness of the log writer's files: what flush, close, create and append do to the file, and
  the properties of whole writing sessions.
\<close>

section \<open>Flushing\<close>

lemma file_flush_rep:
  assumes "sink_rep os0 d (os, fd, buf)"
  obtains os' fd' where
    "buf_flushfile os fd buf = Some (SPARKEY_SUCCESS, os', fd', buf\<lparr>buf_data := []\<rparr>)"
    "sink_rep os0 d (os', fd', buf\<lparr>buf_data := []\<rparr>)" "fd_ino fd' = fd_ino fd"
proof -
  from assms obtain i where ok: "fd_ok os fd" "os_calm os" "buf_ok buf"
    and i: "fd_ino fd = Some i" "os_frame i os0 os" and d: "sink_stream (os, fd, buf) = d"
    and tl: "drop (length d) (fd_content os fd) = drop (length d) (fd_content os0 fd)"
    by (auto simp: sink_rep_def sink_inv_def)
  obtain ws where fl: "buf_flushfile os fd buf = Some (SPARKEY_SUCCESS,
       (io_put os fd (buf_data buf))\<lparr>os_writes := ws\<rparr>, fd_advance fd (length (buf_data buf)), buf\<lparr>buf_data := []\<rparr>)"
    "list_all write_retryable ws"
    by (rule buf_flushfile_calm [OF ok(1,2), of buf])
  let ?os = "(io_put os fd (buf_data buf))\<lparr>os_writes := ws\<rparr>" let ?fd = "fd_advance fd (length (buf_data buf))"
  have sp: "spilled os fd buf [] (?os, ?fd, buf\<lparr>buf_data := []\<rparr>)"
    by (auto simp: spilled_def)
  note st = spilled_stream [OF ok(1) sp]
  have "drop (length d) (fd_content ?os ?fd) = drop (length d) (fd_content os0 ?fd)"
    using spilled_tail [OF ok(1) sp] tl d fd_content_ino [of ?fd fd os0] by simp
  then have "sink_rep os0 d (?os, ?fd, buf\<lparr>buf_data := []\<rparr>)"
    using st ok(3) d i os_frame_trans [OF i(2) os_frame_io_put [OF i(1)]] fl(2)
    by (auto simp: sink_rep_def sink_inv_def buf_ok_def os_calm_def)
  then show thesis using that fl(1) by simp
qed

text \<open>With an empty buffer the stream is the file up to the offset.\<close>

lemma sink_rep_empty:
  assumes "sink_rep os0 d (os, fd, buf)" "buf_data buf = []"
  shows "take (fd_off fd) (fd_content os fd) = d" "fd_off fd = length d" "fd_ok os fd" "os_calm os"
  using assms by (auto simp: sink_rep_def sink_inv_def sink_stream_def fd_ok_def)

lemma sink_rep_content:
  assumes "sink_rep os0 d (os, fd, buf)" "buf_data buf = []"
  shows "fd_content os fd = d @ drop (length d) (fd_content os0 fd)"
proof -
  have "take (length d) (fd_content os fd) = d" using sink_rep_empty(1,2) [OF assms] by simp
  moreover have "drop (length d) (fd_content os fd) = drop (length d) (fd_content os0 fd)"
    using assms(1) by (simp add: sink_rep_def)
  ultimately show ?thesis using append_take_drop_id [of "length d" "fd_content os fd"] by simp
qed

text \<open>Rewriting the header leaves the data behind it alone.\<close>

lemma header_rewrite:
  assumes rep: "sink_rep os0 (hdr @ D) (os, fd, buf)" "buf_data buf = []" and hdr: "length hdr = 84"
  obtains os' fd1 where "write_logheader os (fd_seek fd 0) h = (SPARKEY_SUCCESS, os', fd1)"
    "sink_rep os0 (logheader_bytes h @ D) (os', fd_seek fd1 (fd_off fd), buf)" "fd_ino fd1 = fd_ino fd"
proof -
  note e = sink_rep_empty [OF rep]
  from rep(1) obtain i where i: "fd_ino fd = Some i" "os_frame i os0 os" and b: "buf_ok buf"
    by (auto simp: sink_rep_def sink_inv_def)
  have ok0: "fd_ok os (fd_seek fd 0)" using e(3) by (simp add: fd_ok_def)
  from write_logheader_completes [OF ok0 e(4), of h] obtain ws where ws: "list_all write_retryable ws"
    and w: "write_logheader os (fd_seek fd 0) h = (SPARKEY_SUCCESS,
       (io_put os (fd_seek fd 0) (logheader_bytes h))\<lparr>os_writes := ws\<rparr>, fd_advance (fd_seek fd 0) 84)"
    by (auto simp: completes_def)
  let ?os = "(io_put os (fd_seek fd 0) (logheader_bytes h))\<lparr>os_writes := ws\<rparr>"
  let ?fd = "fd_seek (fd_advance (fd_seek fd 0) 84) (fd_off fd)"
  have c: "fd_content ?os ?fd = logheader_bytes h @ drop 84 (fd_content os fd)"
    using fd_content_io_put [OF ok0, of "logheader_bytes h"] by (simp add: splice_at_def)
  have split: "take (fd_off fd) (fd_content os fd) = hdr @ D" "fd_off fd = 84 + length D"
    using e(1,2) hdr by simp_all
  have "drop 84 (take (fd_off fd) (fd_content os fd)) = D" using split(1) hdr by simp
  then have dd: "take (length D) (drop 84 (fd_content os fd)) = D"
    by (simp add: drop_take split(2))
  have "fd_off fd \<le> length (fd_content os fd)" using e(3) by (simp add: fd_ok_def)
  then have "fd_ok ?os ?fd" "sink_stream (?os, ?fd, buf) = logheader_bytes h @ D"
    using e(3) c split(2) dd rep(2) by (auto simp: fd_ok_def sink_stream_def split: option.splits)
  moreover have "os_frame i os0 ?os"
    using os_frame_trans [OF i(2) os_frame_io_put [of "fd_seek fd 0"]] i(1) by simp
  moreover have "drop (length (logheader_bytes h @ D)) (fd_content ?os ?fd)
      = drop (length (logheader_bytes h @ D)) (fd_content os0 ?fd)"
  proof -
    have "drop (84 + length D) (fd_content os fd) = drop (84 + length D) (fd_content os0 fd)"
      using rep(1) hdr by (simp add: sink_rep_def)
    then show ?thesis using c fd_content_ino [of ?fd fd os0] by (simp add: add.commute)
  qed
  ultimately have "sink_rep os0 (logheader_bytes h @ D) (?os, ?fd, buf)"
    using ws b i(1) by (simp add: sink_rep_def sink_inv_def os_calm_def)
  then show thesis using that w by simp
qed

text \<open>Emptying the block buffer finishes the current group.\<close>

lemma block_buf_flush:
  assumes inv: "writer_inv lib os0 l (os, log)"
  obtains os' log' where
    "(if buf_used (lw_block_buf log) > 0 then flush_compressed lib (os, log) else Some (SPARKEY_SUCCESS, os, log))
       = Some (SPARKEY_SUCCESS, os', log')"
    "writer_inv lib os0 (layout_flush l, []) (os', log')" "writer_kept log log'"
proof (cases "snd l = []")
  case True
  then have "buf_used (lw_block_buf log) = 0" "(layout_flush l, []) = l"
    using inv by (simp_all add: writer_inv_def buf_used_def layout_flush_def Let_def prod_eq_iff)
  moreover have "writer_kept log log" by (rule writer_kept_same) simp_all
  ultimately show thesis using that inv by simp
next
  case False
  have "buf_used (lw_block_buf log) > 0"
    using inv False by (simp add: writer_inv_def buf_used_def Let_def)
  moreover have "writer_inv lib os0 (fst l, snd l) (os, log)" using inv by simp
  ultimately show thesis
    using that writer_inv_flush [of lib os0 "fst l" "snd l" os log, OF _ False] False
    by (auto simp: layout_flush_def)
qed

lemma file_buf_flush:
  assumes inv: "writer_inv lib os0 l (os, log)"
  obtains os' fd' where
    "(if buf_used (lw_file_buf log) > 0
      then file_buf_update log (buf_flushfile os (lw_fd log) (lw_file_buf log)) else Some (SPARKEY_SUCCESS, os, log))
       = Some (SPARKEY_SUCCESS, os', log\<lparr>lw_fd := fd', lw_file_buf := (lw_file_buf log)\<lparr>buf_data := []\<rparr>\<rparr>)"
    "writer_inv lib os0 l (os', log\<lparr>lw_fd := fd', lw_file_buf := (lw_file_buf log)\<lparr>buf_data := []\<rparr>\<rparr>)"
    "fd_ino fd' = fd_ino (lw_fd log)"
proof (cases "buf_used (lw_file_buf log) > 0")
  case True
  from inv obtain hdr where rep: "length hdr = 84"
    "sink_rep os0 (hdr @ log_data lib (lw_header log) (fst l)) (os, lw_fd log, lw_file_buf log)"
    by (auto simp: writer_inv_def Let_def)
  obtain os' fd' where fl: "buf_flushfile os (lw_fd log) (lw_file_buf log)
      = Some (SPARKEY_SUCCESS, os', fd', (lw_file_buf log)\<lparr>buf_data := []\<rparr>)"
    "sink_rep os0 (hdr @ log_data lib (lw_header log) (fst l)) (os', fd', (lw_file_buf log)\<lparr>buf_data := []\<rparr>)"
    "fd_ino fd' = fd_ino (lw_fd log)"
    by (rule file_flush_rep [OF rep(2)])
  have "writer_inv lib os0 l (os', log\<lparr>lw_fd := fd', lw_file_buf := (lw_file_buf log)\<lparr>buf_data := []\<rparr>\<rparr>)"
    using inv fl(2) rep(1) by (auto simp: writer_inv_def block_writer_def Let_def cong: option.case_cong)
  then show thesis using that True fl(1,3) by (simp add: file_buf_update_def)
next
  case False
  then have "log\<lparr>lw_fd := lw_fd log, lw_file_buf := (lw_file_buf log)\<lparr>buf_data := []\<rparr>\<rparr> = log"
    by (simp add: buf_used_def)
  then show thesis using that [of os "lw_fd log"] inv False by simp
qed

lemma writer_inv_rewritten:
  assumes inv: "writer_inv lib os0 l (os, log)"
    and rep: "sink_rep os0 (logheader_bytes h' @ log_data lib h' (fst l)) (os', fd', lw_file_buf log)"
    and same: "lh_compression_type h' = lh_compression_type (lw_header log)"
      "lh_compression_block_size h' = lh_compression_block_size (lw_header log)"
      "lh_max_entries_per_block h' = lh_max_entries_per_block (lw_header log)"
  shows "writer_inv lib os0 l (os', log\<lparr>lw_header := h', lw_fd := fd'\<rparr>)"
proof -
  have "\<exists>hdr. length hdr = 84 \<and> sink_rep os0 (hdr @ log_data lib h' (fst l)) (os', fd', lw_file_buf log)"
    using rep by (intro exI [of _ "logheader_bytes h'"]) simp
  then show ?thesis
    using inv same by (simp add: writer_inv_def block_writer_def Let_def cong: option.case_cong)
qed

lemma writer_inv_log_file:
  assumes inv: "writer_inv lib os0 (gs, []) (os, log)"
    and rep: "sink_rep os0 (logheader_bytes (lw_header log) @ log_data lib (lw_header log) gs) (os, lw_fd log, lw_file_buf log)"
      "buf_data (lw_file_buf log) = []"
    and h: "lh_data_end (lw_header log) = of_nat (84 + length (log_data lib (lw_header log) gs))"
      "header_counts (lw_header log) (concat gs)"
  shows "log_file lib (lw_header log) gs (fd_content os (lw_fd log))"
proof -
  have "\<exists>junk. fd_content os (lw_fd log) = logheader_bytes (lw_header log) @ log_data lib (lw_header log) gs @ junk"
    using append_take_drop_id [of "fd_off (lw_fd log)" "fd_content os (lw_fd log)"]
    unfolding sink_rep_empty(1) [OF rep] by (metis append_assoc)
  then show ?thesis
    using inv h by (auto simp: log_file_def writer_inv_def block_writer_def layout_ok_def Let_def split: option.splits)
qed

lemma logwriter_flush_file:
  assumes w: "writer_log lib g0 os0 es (os, log)"
  obtains os' log' gs where "sparkey_logwriter_flush lib (os, log) = Some (SPARKEY_SUCCESS, os', log')"
    "writer_log lib g0 os0 es (os', log')" "same_log log log'"
    "concat gs = es" "log_file lib (lw_header log') gs (fd_content os' (lw_fd log'))" "take (length g0) gs = g0"
    "fd_content os' (lw_fd log') = logheader_bytes (lw_header log') @ log_data lib (lw_header log') gs
       @ drop (84 + length (log_data lib (lw_header log') gs)) (fd_content os0 (lw_fd log'))"
proof -
  from w obtain l where inv: "writer_inv lib os0 l (os, log)" and es: "concat (fst l) @ snd l = es"
    and cnt: "header_counts (lw_header log) es" and g0: "take (length g0) (fst l) = g0" by (auto simp: writer_log_def)
  have op: "assert_writer_open log = SPARKEY_SUCCESS" by (rule writer_inv_open [OF inv])
  let ?gs = "layout_flush l"
  have gs: "concat ?gs = es" using es by (auto simp: layout_flush_def)
  have "length g0 \<le> length (fst l)" using g0 by (metis length_take min.absorb_iff2 nle_le)
  then have g1: "take (length g0) ?gs = g0" using g0 by (simp add: layout_flush_def)
  obtain os1 log1 where 1: "(if buf_used (lw_block_buf log) > 0 then flush_compressed lib (os, log)
        else Some (SPARKEY_SUCCESS, os, log)) = Some (SPARKEY_SUCCESS, os1, log1)"
    "writer_inv lib os0 (?gs, []) (os1, log1)" "writer_kept log log1"
    by (rule block_buf_flush [OF inv])
  obtain os2 fd2 where 2: "(if buf_used (lw_file_buf log1) > 0
      then file_buf_update log1 (buf_flushfile os1 (lw_fd log1) (lw_file_buf log1)) else Some (SPARKEY_SUCCESS, os1, log1))
       = Some (SPARKEY_SUCCESS, os2, log1\<lparr>lw_fd := fd2, lw_file_buf := (lw_file_buf log1)\<lparr>buf_data := []\<rparr>\<rparr>)"
    "writer_inv lib os0 (?gs, []) (os2, log1\<lparr>lw_fd := fd2, lw_file_buf := (lw_file_buf log1)\<lparr>buf_data := []\<rparr>\<rparr>)"
    "fd_ino fd2 = fd_ino (lw_fd log1)"
    by (rule file_buf_flush [OF 1(2)])
  let ?log2 = "log1\<lparr>lw_fd := fd2, lw_file_buf := (lw_file_buf log1)\<lparr>buf_data := []\<rparr>\<rparr>"
  let ?D = "log_data lib (lw_header log1) ?gs"
  let ?h = "(lw_header log1)\<lparr>lh_data_end := of_nat (fd_off fd2)\<rparr>"
  from 2(2) obtain hdr where rep: "length hdr = 84"
    "sink_rep os0 (hdr @ ?D) (os2, fd2, (lw_file_buf log1)\<lparr>buf_data := []\<rparr>)"
    by (auto simp: writer_inv_def Let_def)
  obtain os3 fd3 where 3: "write_logheader os2 (fd_seek fd2 0) ?h = (SPARKEY_SUCCESS, os3, fd3)"
    "sink_rep os0 (logheader_bytes ?h @ ?D) (os3, fd_seek fd3 (fd_off fd2), (lw_file_buf log1)\<lparr>buf_data := []\<rparr>)"
    "fd_ino fd3 = fd_ino fd2"
    by (rule header_rewrite [OF rep(2) _ rep(1), of ?h]) simp
  let ?log3 = "?log2\<lparr>lw_header := ?h, lw_fd := fd_seek fd3 (fd_off fd2)\<rparr>"
  have run: "sparkey_logwriter_flush lib (os, log) = Some (SPARKEY_SUCCESS, os3, ?log3)"
    unfolding sparkey_logwriter_flush_def snd_conv fst_conv 1(1) rethrow_Success 2(1) Let_def
    using op 3(1) by simp
  have D: "log_data lib ?h ?gs = ?D" by (simp add: log_data_def cong: option.case_cong)
  have cnt': "header_counts ?h es" using cnt 1(3) by (auto simp: header_counts_def writer_kept_def)
  have inv3: "writer_inv lib os0 (?gs, []) (os3, ?log3)"
    by (rule writer_inv_rewritten [OF 2(2), where fd' = "fd_seek fd3 (fd_off fd2)" and h' = ?h])
      (use 3(2) D in simp_all)
  have pos: "fd_off fd2 = 84 + length ?D" using sink_rep_empty(2) [OF rep(2)] rep(1) by simp
  have "log_file lib (lw_header ?log3) ?gs (fd_content os3 (lw_fd ?log3))"
    by (rule writer_inv_log_file [OF inv3]) (use 3(2) D pos cnt' gs in simp_all)
  moreover have "fd_content os3 (lw_fd ?log3) = logheader_bytes (lw_header ?log3) @ log_data lib (lw_header ?log3) ?gs
       @ drop (84 + length (log_data lib (lw_header ?log3) ?gs)) (fd_content os0 (lw_fd ?log3))"
    using sink_rep_content [OF 3(2)] D by simp
  moreover have "same_log log ?log3" using 1(3) 2(3) 3(3) by (auto simp: same_log_def writer_kept_def)
  moreover have "writer_log lib g0 os0 es (os3, ?log3)"
    using inv3 cnt' gs g1 unfolding writer_log_def by (auto intro!: exI [of _ ?gs])
  ultimately show thesis using that [OF run _ _ gs _ g1] by simp
qed

section \<open>Creating and appending\<close>

text \<open>A machine on which the calls that open \<open>filename\<close> for writing succeed.\<close>

definition os_ready :: "os \<Rightarrow> string \<Rightarrow> bool" where
  "os_ready os filename \<longleftrightarrow>
     os_calm os \<and> os_mallocs os = [] \<and> os_open_err os filename = None \<and> os_remove_err os filename = None
     \<and> os_urandom os \<noteq> None"

lemma malloc_or_fail_ready [simp]: "os_mallocs os = [] \<Longrightarrow> malloc_or_fail os = (Inr (), os)"
  by (simp add: malloc_or_fail_def os_malloc_def)

lemma buf_init_ready [simp]:
  "os_mallocs os = [] \<Longrightarrow> buf_init os n = (Inr \<lparr>buf_data = [], buf_cap = n\<rparr>, os)"
  by (simp add: buf_init_def os_malloc_def)

text \<open>Removing and creating the file: the name now refers to a new, empty inode.\<close>

definition fresh_file :: "os \<Rightarrow> string \<Rightarrow> os" where
  "fresh_file os filename =
     os\<lparr>os_names := (os_names os)(filename \<mapsto> length (os_store os)), os_store := os_store os @ [[]]\<rparr>"

lemma remove_and_create:
  assumes "os_open_err os filename = None" "os_remove_err os filename = None"
  obtains os1 where
    "os_remove os filename = (Inl ENOENT, os1) \<or> os_remove os filename = (Inr (), os1)"
    "os_create os1 filename = (Inr \<lparr>fd_ino = Some (length (os_store os)), fd_off = 0\<rparr>, fresh_file os filename)"
    "os_mallocs os1 = os_mallocs os"
proof (cases "os_names os filename")
  case None
  then show thesis
    using that [of os] assms by (simp add: os_remove_def os_create_def fresh_file_def)
next
  case (Some i)
  then show thesis
    using that [of "os\<lparr>os_names := (os_names os)(filename := None)\<rparr>"] assms
    by (simp add: os_remove_def os_create_def fresh_file_def)
qed

lemma fresh_file_simps [simp]:
  "os_mallocs (fresh_file os name) = os_mallocs os" "os_urandom (fresh_file os name) = os_urandom os"
  "os_calm (fresh_file os name) = os_calm os"
  "fd_ok (fresh_file os name) \<lparr>fd_ino = Some (length (os_store os)), fd_off = 0\<rparr>"
  by (simp_all add: fresh_file_def os_calm_def fd_ok_def fd_content_def)

text \<open>The header of a new log.\<close>

definition new_header ::
  "sparkey_logheader \<Rightarrow> sparkey_compression_type \<Rightarrow> u32 \<Rightarrow> u32 \<Rightarrow> sparkey_logheader" where
  "new_header h t n ident =
     h\<lparr>lh_compression_block_size := n, lh_compression_type := t, lh_file_identifier := ident,
       lh_data_end := ucast LOG_HEADER_SIZE, lh_major_version := LOG_MAJOR_VERSION,
       lh_minor_version := LOG_MINOR_VERSION, lh_put_size := 0, lh_delete_size := 0, lh_num_puts := 0,
       lh_num_deletes := 0, lh_max_entries_per_block := 0, lh_max_key_len := 0, lh_max_value_len := 0\<rparr>"

lemma sint_ge_10:
  fixes n :: u32
  assumes "\<not> sint n < 10"
  shows "10 \<le> unat n" "unat n < 2 ^ 31"
proof -
  have lt: "unat n < 2 ^ 31"
  proof (rule ccontr)
    assume "\<not> unat n < 2 ^ 31"
    then have u: "2 ^ 31 \<le> uint n" by (metis not_less of_nat_le_iff of_nat_numeral of_nat_power uint_nat)
    have "sint (word_of_int (uint n) :: u32) = (uint n + 2 ^ 31) mod 2 ^ 32 - 2 ^ 31"
      by (simp only: int_word_sint) simp
    moreover have "(uint n + 2 ^ 31) mod 2 ^ 32 = uint n + 2 ^ 31 - 2 ^ 32"
      using u uint_bounded [of n] mod_add_self2 [of "uint n - 2 ^ 31" "2 ^ 32"] by (simp add: add.commute)
    ultimately show False using assms uint_bounded [of n] by simp
  qed
  then show "unat n < 2 ^ 31" .
  show "10 \<le> unat n"
    using assms sint_less_u32 [OF lt, of 10] by simp
qed

text \<open>\<open>create\<close> when every call succeeds.\<close>

lemma logwriter_create_run:
  assumes ready: "os_ready os filename"
    and n: "sparkey_uses_compressor t \<Longrightarrow> \<not> sint n < 10"
  obtains os' log ident ws where
    "sparkey_logwriter_create lib junk os filename t n = (Inr log, os')"
    "os_urandom os = Some ident"
    "lw_header log = new_header (lw_header junk) t (if sparkey_uses_compressor t then n else 0) ident"
    "os' = (fresh_file os filename)\<lparr>os_store := os_store os @ [logheader_bytes (lw_header log)], os_writes := ws\<rparr>"
    "list_all write_retryable ws"
    "lw_fd log = \<lparr>fd_ino = Some (length (os_store os)), fd_off = 84\<rparr>"
    "lw_file_buf log = \<lparr>buf_data = [], buf_cap = 1024 * 1024\<rparr>"
    "lw_block_buf log = \<lparr>buf_data = [], buf_cap = unat (if sparkey_uses_compressor t then n else 0)\<rparr>"
    "lw_entry_count log = 0" "lw_open_status log = MAGIC_VALUE_LOGWRITER"
    "sparkey_uses_compressor t \<longrightarrow> lw_compressed log
       \<and> lw_max_compressed_size log = max_compressed_size (the (sparkey_compressors lib t)) n"
proof -
  let ?u = "sparkey_uses_compressor t" let ?n = "if ?u then n else 0"
  let ?fd = "\<lparr>fd_ino = Some (length (os_store os)), fd_off = 0\<rparr>"
  from ready obtain ident where ident: "os_urandom os = Some ident" and calm: "os_calm os"
    and m: "os_mallocs os = []" and err: "os_open_err os filename = None" "os_remove_err os filename = None"
    by (auto simp: os_ready_def)
  obtain os1 where rm: "os_remove os filename = (Inl ENOENT, os1) \<or> os_remove os filename = (Inr (), os1)"
    and cr: "os_create os1 filename = (Inr ?fd, fresh_file os filename)" and m1: "os_mallocs os1 = []"
    by (rule remove_and_create [OF err]) (use m in simp)
  let ?l = "if ?u then junk\<lparr>lw_max_compressed_size := max_compressed_size (the (sparkey_compressors lib t)) n,
              lw_compressed := True\<rparr> else junk\<lparr>lw_compressed := False\<rparr>"
  let ?h = "new_header (lw_header junk) t ?n ident"
  have "completes (fresh_file os filename) ?fd (logheader_bytes ?h) (write_logheader (fresh_file os filename) ?fd ?h)"
    by (rule write_logheader_completes) (use calm in simp_all)
  then obtain ws where ws: "list_all write_retryable ws" and wr: "write_logheader (fresh_file os filename) ?fd ?h
      = (SPARKEY_SUCCESS, (io_put (fresh_file os filename) ?fd (logheader_bytes ?h))\<lparr>os_writes := ws\<rparr>,
         fd_advance ?fd 84)"
    by (auto simp: completes_def)
  let ?os' = "(io_put (fresh_file os filename) ?fd (logheader_bytes ?h))\<lparr>os_writes := ws\<rparr>"
  let ?log = "?l\<lparr>lw_fd := fd_advance ?fd 84, lw_header := ?h, lw_file_buf := \<lparr>buf_data = [], buf_cap = 1024 * 1024\<rparr>,
      lw_block_buf := \<lparr>buf_data = [], buf_cap = unat ?n\<rparr>, lw_entry_count := 0,
      lw_open_status := MAGIC_VALUE_LOGWRITER\<rparr>"
  have lh: "lw_header ?l = lw_header junk" by simp
  have run: "sparkey_logwriter_create lib junk os filename t n = (Inr ?log, ?os')"
    using rm cr wr [unfolded new_header_def] ident m m1 n unfolding new_header_def
    by (cases ?u) (auto simp: sparkey_logwriter_create_def rand32_def Let_def LOG_HEADER_SIZE_def)
  have "?os' = (fresh_file os filename)\<lparr>os_store := os_store os @ [logheader_bytes ?h], os_writes := ws\<rparr>"
    by (simp add: io_put_def fresh_file_def file_write_def splice_at_def)
  then show thesis
    by (intro that [OF run ident _ _ ws]) (simp_all add: fd_advance_def)
qed

lemma header_counts_new [simp]: "header_counts (new_header h t n ident) []"
  by (simp add: header_counts_def new_header_def)

lemma logwriter_create_log:
  assumes "codec_ok lib" "os_ready os filename" and n: "sparkey_uses_compressor t \<Longrightarrow> \<not> sint n < 10"
  obtains os' log where
    "sparkey_logwriter_create lib junk os filename t n = (Inr log, os')"
    "writer_log lib [] os' [] (os', log)"
    "header_versions (lw_header log) \<longleftrightarrow> t \<le> SPARKEY_COMPRESSION_ZSTD"
    "lh_compression_type (lw_header log) = t"
    "lh_compression_block_size (lw_header log) = (if sparkey_uses_compressor t then n else 0)"
    "fd_ino (lw_fd log) = Some (length (os_store os))"
    "os_names os' = (os_names os)(filename \<mapsto> length (os_store os))"
    "os_store os' = os_store os @ [logheader_bytes (lw_header log)]"
    "os_open_err os' = os_open_err os" "os_mallocs os' = os_mallocs os" "os_mmap_ok os' = os_mmap_ok os"
proof -
  let ?u = "sparkey_uses_compressor t"
  obtain os' log ident ws where run: "sparkey_logwriter_create lib junk os filename t n = (Inr log, os')"
    and h: "lw_header log = new_header (lw_header junk) t (if ?u then n else 0) ident"
    and os': "os' = (fresh_file os filename)\<lparr>os_store := os_store os @ [logheader_bytes (lw_header log)], os_writes := ws\<rparr>"
    and ws: "list_all write_retryable ws"
    and fd: "lw_fd log = \<lparr>fd_ino = Some (length (os_store os)), fd_off = 84\<rparr>"
    and bufs: "lw_file_buf log = \<lparr>buf_data = [], buf_cap = 1024 * 1024\<rparr>"
      "lw_block_buf log = \<lparr>buf_data = [], buf_cap = unat (if ?u then n else 0)\<rparr>"
    and st: "lw_entry_count log = 0" "lw_open_status log = MAGIC_VALUE_LOGWRITER"
    and cm: "?u \<longrightarrow> lw_compressed log
       \<and> lw_max_compressed_size log = max_compressed_size (the (sparkey_compressors lib t)) n"
    by (rule logwriter_create_run [OF assms(2) n, where lib = lib and junk = junk]) blast+
  have ty: "lh_compression_type (lw_header log) = t" "lh_compression_block_size (lw_header log) = (if ?u then n else 0)"
    "lh_max_entries_per_block (lw_header log) = 0"
    by (simp_all add: h new_header_def)
  have rep: "sink_rep os' (logheader_bytes (lw_header log) @ log_data lib (lw_header log) []) (os', lw_fd log, lw_file_buf log)"
    using ws os_frame_refl by (simp add: sink_rep_def sink_inv_def fd_ok_def fd_content_def os' fd bufs os_calm_def
        buf_ok_def sink_stream_def log_data_def log_blocks_def split: option.splits)
  have comp: "block_writer lib c log" if c: "sparkey_compressors lib t = Some c" for c
  proof -
    have u: "?u" using c uses_compressor_iff by blast
    note nn = sint_ge_10 [OF n [OF u]]
    have "compressor_ok c n"
      by (rule sparkey_compressors_ok [OF assms(1) c]) (use nn in \<open>simp add: word_less_nat_alt\<close>)
    then show ?thesis using u c nn cm bufs by (simp add: block_writer_def ty)
  qed
  have "writer_inv lib os' ([], []) (os', log)"
    unfolding writer_inv_def Let_def using rep st bufs comp ty
    by (auto simp: layout_ok_def split: option.splits intro!: exI [of _ "logheader_bytes (lw_header log)"])
  then have "writer_log lib [] os' [] (os', log)"
    unfolding writer_log_def by (auto simp: h intro!: exI [of _ "[]"])
  then show thesis
    by (rule that [OF run]) (simp_all add: ty fd os' fresh_file_def header_versions_def h new_header_def)
qed

lemma logwriter_append_log:
  assumes logf: "log_file lib h gs (os_store os ! i)" and load: "sparkey_load_logheader os filename = Inr h"
    and os: "os_names os filename = Some i" "i < length (os_store os)" "os_ready os filename"
    and len: "84 + length (log_data lib h gs) < 2 ^ 64"
  obtains log where "sparkey_logwriter_append lib junk os filename = (Inr log, os)"
    "writer_log lib gs os (concat gs) (os, log)" "fd_ino (lw_fd log) = Some i"
    "lw_header log = (if sparkey_uses_compressor (lh_compression_type h) then h
       else h\<lparr>lh_compression_block_size := 0\<rparr>)"
proof -
  let ?u = "sparkey_uses_compressor (lh_compression_type h)"
  let ?h = "if ?u then h else h\<lparr>lh_compression_block_size := 0\<rparr>"
  let ?fd = "fd_seek \<lparr>fd_ino = Some i, fd_off = 0\<rparr> (unat (lh_data_end h))"
  have m: "os_mallocs os = []" and err: "os_open_err os filename = None" and calm: "os_calm os"
    using os(3) by (simp_all add: os_ready_def)
  have cons: "logheader_consistent h" using load_logheader_inv [OF load] by blast
  have big: "\<not> lh_compression_block_size h < 10" if "?u"
    using logf that uses_compressor_iff [of _ lib]
    by (auto simp: log_file_def word_less_nat_alt split: option.splits)
  define log where "log = (if ?u then junk\<lparr>lw_header := h,
        lw_max_compressed_size := max_compressed_size (the (sparkey_compressors lib (lh_compression_type h)))
          (lh_compression_block_size h), lw_compressed := True\<rparr>
      else junk\<lparr>lw_header := h\<lparr>lh_compression_block_size := 0\<rparr>, lw_compressed := False\<rparr>)
      \<lparr>lw_fd := ?fd, lw_file_buf := \<lparr>buf_data = [], buf_cap = 1024 * 1024\<rparr>,
       lw_block_buf := \<lparr>buf_data = [], buf_cap = unat (lh_compression_block_size ?h)\<rparr>, lw_entry_count := 0,
       lw_open_status := MAGIC_VALUE_LOGWRITER\<rparr>"
  have run: "sparkey_logwriter_append lib junk os filename = (Inr log, os)"
    using m err load cons os(1) big
    by (simp add: sparkey_logwriter_append_def logheader_consistent_def log_def os_malloc_def os_open_write_def)
  have fld: "lw_header log = ?h" "lw_fd log = ?fd" "lw_entry_count log = 0" "lw_open_status log = MAGIC_VALUE_LOGWRITER"
    "lw_file_buf log = \<lparr>buf_data = [], buf_cap = 1024 * 1024\<rparr>"
    "lw_block_buf log = \<lparr>buf_data = [], buf_cap = unat (lh_compression_block_size ?h)\<rparr>"
    "?u \<longrightarrow> lw_compressed log \<and> lw_max_compressed_size log
       = max_compressed_size (the (sparkey_compressors lib (lh_compression_type h))) (lh_compression_block_size h)"
    by (simp_all add: log_def)
  have D: "log_data lib ?h gs = log_data lib h gs"
    using uses_compressor_iff [of "lh_compression_type h" lib] by (auto simp: log_data_def split: option.splits)
  obtain j where c: "os_store os ! i = logheader_bytes h @ log_data lib h gs @ j"
    and de: "unat (lh_data_end h) = 84 + length (log_data lib h gs)"
    using logf len by (auto simp: log_file_def u64_arith)
  have rep: "sink_rep os (logheader_bytes h @ log_data lib ?h gs) (os, lw_fd log, lw_file_buf log)"
    using os calm os_frame_refl c de D
    by (simp add: sink_rep_def sink_inv_def fd_ok_def fd_content_def fld buf_ok_def sink_stream_def)
  have comp: "block_writer lib cm log \<and> layout_ok (unat (lh_compression_block_size ?h)) (gs, [])"
    if cm: "sparkey_compressors lib (lh_compression_type h) = Some cm" for cm
  proof -
    have "?u" using cm uses_compressor_iff by blast
    then show ?thesis using logf cm fld by (simp add: block_writer_def log_file_def layout_ok_def)
  qed
  have mx: "unat (lh_max_entries_per_block h) < 2 ^ 31 \<and> (\<forall>g \<in> set gs. length g \<le> unat (lh_max_entries_per_block h))"
    if "sparkey_compressors lib (lh_compression_type h) = Some cm" for cm
    using logf that by (simp add: log_file_def)
  have "writer_inv lib os (gs, []) (os, log)"
    unfolding writer_inv_def Let_def using rep fld comp mx
    by (auto split: option.splits intro!: exI [of _ "logheader_bytes h"])
  moreover have "header_counts ?h (concat gs)" using logf by (simp add: log_file_def header_counts_def)
  ultimately have "writer_log lib gs os (concat gs) (os, log)"
    unfolding writer_log_def snd_conv fld(1) by (auto intro!: exI [of _ gs])
  then show thesis using that [OF run] fld by simp
qed

section \<open>Writing sessions\<close>

text \<open>A client that adds entries one after the other and closes the writer.\<close>

fun write_entry :: "codec_lib \<Rightarrow> os \<times> sparkey_logwriter \<Rightarrow> log_entry \<Rightarrow> (os \<times> sparkey_logwriter) result" where
  "write_entry lib s (PutEntry k v) = sparkey_logwriter_put lib s k v"
| "write_entry lib s (DeleteEntry k) = sparkey_logwriter_delete lib s k"

primrec write_entries ::
  "codec_lib \<Rightarrow> os \<times> sparkey_logwriter \<Rightarrow> log_entry list \<Rightarrow> (os \<times> sparkey_logwriter) result" where
  "write_entries lib s [] = Some (SPARKEY_SUCCESS, s)"
| "write_entries lib s (e # es) = rethrow (write_entry lib s e) id (\<lambda>s. write_entries lib s es)"

lemma write_entries_append:
  "write_entries lib s (xs @ ys) = rethrow (write_entries lib s xs) id (\<lambda>s. write_entries lib s ys)"
proof (induction xs arbitrary: s)
  case (Cons x xs)
  then show ?case by (cases "write_entry lib s x") (auto simp: rethrow_def)
qed (simp add: rethrow_def)

definition write_session ::
  "codec_lib \<Rightarrow> (sparkey_returncode + sparkey_logwriter) \<times> os \<Rightarrow> log_entry list
     \<Rightarrow> (os \<times> sparkey_logwriter option) result" where
  "write_session lib opened es =
     (case opened of
        (Inl rc, os) \<Rightarrow> Some (rc, os, None)
      | (Inr log, os) \<Rightarrow>
          rethrow (write_entries lib (os, log) es) (\<lambda>(os, log). (os, Some log)) (sparkey_logwriter_close lib))"

lemma write_entry_log:
  assumes "writer_log lib g0 os0 es (os, log)" "entry_fits (lw_header log) e"
  obtains os' log' where "write_entry lib (os, log) e = Some (SPARKEY_SUCCESS, os', log')"
    "writer_log lib g0 os0 (es @ [e]) (os', log')" "same_log log log'"
proof (cases e)
  case (PutEntry k v)
  then show thesis using logwriter_put_log [of lib g0 os0 es os log k v] assms that by auto
next
  case (DeleteEntry k)
  then show thesis using logwriter_delete_log [of lib g0 os0 es os log k] assms that by auto
qed

lemma entry_fits_same: "same_log log log' \<Longrightarrow> entry_fits (lw_header log') e = entry_fits (lw_header log) e"
  by (simp add: same_log_def entry_fits_def)

lemma write_entries_log:
  assumes "writer_log lib g0 os0 es0 (os, log)" "\<forall>e \<in> set es. entry_fits (lw_header log) e"
  shows "\<exists>os' log'. write_entries lib (os, log) es = Some (SPARKEY_SUCCESS, os', log')
    \<and> writer_log lib g0 os0 (es0 @ es) (os', log') \<and> same_log log log'"
  using assms
proof (induction es arbitrary: es0 os log)
  case (Cons e es)
  obtain os1 log1 where 1: "write_entry lib (os, log) e = Some (SPARKEY_SUCCESS, os1, log1)"
    "writer_log lib g0 os0 (es0 @ [e]) (os1, log1)" "same_log log log1"
    by (rule write_entry_log [OF Cons.prems(1)]) (use Cons.prems(2) in auto)
  from Cons.IH [OF 1(2)] Cons.prems(2) entry_fits_same [OF 1(3)] obtain os2 log2 where
    "write_entries lib (os1, log1) es = Some (SPARKEY_SUCCESS, os2, log2)"
    "writer_log lib g0 os0 (es0 @ e # es) (os2, log2)" "same_log log1 log2"
    by auto
  then show ?case using 1 same_log_trans by auto
qed simp

lemma write_session_log:
  assumes w: "writer_log lib g0 os0 es0 (os, log)" and es: "\<forall>e \<in> set es. entry_fits (lw_header log) e"
    and i: "fd_ino (lw_fd log) = Some i"
  obtains os' h gs where "write_session lib (Inr log, os) es = Some (SPARKEY_SUCCESS, os', None)"
    "concat gs = es0 @ es" "log_file lib h gs (os_store os' ! i)" "os_frame i os0 os'"
    "lh_compression_type h = lh_compression_type (lw_header log)"
    "lh_compression_block_size h = lh_compression_block_size (lw_header log)"
    "lh_file_identifier h = lh_file_identifier (lw_header log)"
    "header_versions h = header_versions (lw_header log)" "take (length g0) gs = g0"
    "lh_max_entries_per_block (lw_header log) \<le> lh_max_entries_per_block h" "os_calm os'"
    "\<not> sparkey_uses_compressor (lh_compression_type (lw_header log)) \<longrightarrow>
      lh_max_entries_per_block h = lh_max_entries_per_block (lw_header log)"
    "os_store os' ! i = logheader_bytes h @ log_data lib h gs @ drop (84 + length (log_data lib h gs)) (os_store os0 ! i)"
proof -
  obtain os1 log1 where 1: "write_entries lib (os, log) es = Some (SPARKEY_SUCCESS, os1, log1)"
    "writer_log lib g0 os0 (es0 @ es) (os1, log1)" "same_log log log1"
    using write_entries_log [OF w es] by blast
  obtain os2 log2 gs where 2: "sparkey_logwriter_flush lib (os1, log1) = Some (SPARKEY_SUCCESS, os2, log2)"
    "writer_log lib g0 os0 (es0 @ es) (os2, log2)" "same_log log1 log2"
    "concat gs = es0 @ es" "log_file lib (lw_header log2) gs (fd_content os2 (lw_fd log2))" "take (length g0) gs = g0"
    "fd_content os2 (lw_fd log2) = logheader_bytes (lw_header log2) @ log_data lib (lw_header log2) gs
       @ drop (84 + length (log_data lib (lw_header log2) gs)) (fd_content os0 (lw_fd log2))"
    by (rule logwriter_flush_file [OF 1(2)])
  have "lw_open_status log1 = MAGIC_VALUE_LOGWRITER"
    using 1(2) by (auto simp: writer_log_def writer_inv_def Let_def)
  then have run: "write_session lib (Inr log, os) es = Some (SPARKEY_SUCCESS, os2, None)"
    using 1(1) 2(1) by (simp add: write_session_def sparkey_logwriter_close_def)
  have same: "same_log log log2" by (rule same_log_trans [OF 1(3) 2(3)])
  have ino: "fd_ino (lw_fd log2) = Some i" using same i by (simp add: same_log_def)
  have "os_frame i os0 os2" "os_calm os2"
    using 2(2) ino by (auto simp: writer_log_def writer_inv_def sink_rep_def sink_inv_def Let_def)
  then show thesis
    by (intro that [OF run 2(4), of "lw_header log2"]) (use 2(5-7) ino same in
      \<open>auto simp: fd_content_def same_log_def header_versions_def\<close>)
qed

text \<open>A whole session on a new log.\<close>

lemma create_session:
  assumes "codec_ok lib" "os_ready os filename" "t \<le> SPARKEY_COMPRESSION_ZSTD"
    and "sparkey_uses_compressor t \<Longrightarrow> \<not> sint n < 10"
    and "\<forall>e \<in> set es. entry_ok e \<and> (sparkey_uses_compressor t \<longrightarrow> length (entry_head e) \<le> unat n)"
  obtains os' h gs c where
    "write_session lib (sparkey_logwriter_create lib junk os filename t n) es = Some (SPARKEY_SUCCESS, os', None)"
    "concat gs = es" "os_content os' filename = Some c" "log_file lib h gs c" "header_versions h" "lh_compression_type h = t"
    "take (length (os_store os)) (os_store os') = os_store os"
    "os_names os' = (os_names os)(filename \<mapsto> length (os_store os))"
    "os_open_err os' = os_open_err os" "os_mallocs os' = os_mallocs os" "os_mmap_ok os' = os_mmap_ok os"
    "c = logheader_bytes h @ log_data lib h gs"
proof -
  obtain os1 log where cr: "sparkey_logwriter_create lib junk os filename t n = (Inr log, os1)"
    and w: "writer_log lib [] os1 [] (os1, log)" and hv: "header_versions (lw_header log) \<longleftrightarrow> t \<le> SPARKEY_COMPRESSION_ZSTD"
    and ty: "lh_compression_type (lw_header log) = t"
      "lh_compression_block_size (lw_header log) = (if sparkey_uses_compressor t then n else 0)"
    and ino: "fd_ino (lw_fd log) = Some (length (os_store os))"
    and fs: "os_names os1 = (os_names os)(filename \<mapsto> length (os_store os))"
      "os_store os1 = os_store os @ [logheader_bytes (lw_header log)]"
    and same: "os_open_err os1 = os_open_err os" "os_mallocs os1 = os_mallocs os" "os_mmap_ok os1 = os_mmap_ok os"
    by (rule logwriter_create_log [OF assms(1,2,4), where junk = junk])
  have fits: "\<forall>e \<in> set es. entry_fits (lw_header log) e" using assms(5) by (simp add: entry_fits_def ty)
  obtain os' h gs where run: "write_session lib (Inr log, os1) es = Some (SPARKEY_SUCCESS, os', None)"
    "concat gs = [] @ es" "log_file lib h gs (os_store os' ! length (os_store os))"
    and fr: "os_frame (length (os_store os)) os1 os'"
    and h: "lh_compression_type h = lh_compression_type (lw_header log)"
      "header_versions h = header_versions (lw_header log)" "take (length ([] :: log_entry list list)) gs = []"
      "lh_max_entries_per_block (lw_header log) \<le> lh_max_entries_per_block h" "os_calm os'"
      "os_store os' ! length (os_store os) = logheader_bytes h @ log_data lib h gs
         @ drop (84 + length (log_data lib h gs)) (os_store os1 ! length (os_store os))"
    by (rule write_session_log [OF w fits ino])
  have kept: "take (length (os_store os)) (os_store os') = os_store os" "os_names os' = os_names os1"
    "os_open_err os' = os_open_err os" "os_mallocs os' = os_mallocs os" "os_mmap_ok os' = os_mmap_ok os"
    using fr fs(2) same by (auto simp: os_frame_def)
  then have "os_content os' filename = Some (os_store os' ! length (os_store os))"
    using fs(1) by (simp add: os_content_def)
  moreover have "os_store os' ! length (os_store os) = logheader_bytes h @ log_data lib h gs" using h(6) fs(2) by simp
  ultimately show thesis
    using that [OF _ _ _ run(3)] run(1,2) h(1,2) ty hv assms(3) fs(1) cr kept by simp
qed

section \<open>Concrete writers and logs\<close>

definition blank_header :: sparkey_logheader where
  "blank_header =
     \<lparr>lh_major_version = 0, lh_minor_version = 0, lh_file_identifier = 0, lh_num_puts = 0,
      lh_num_deletes = 0, lh_data_end = 0, lh_max_key_len = 0, lh_max_value_len = 0,
      lh_delete_size = 0, lh_compression_type = 0, lh_compression_block_size = 0, lh_put_size = 0,
      lh_header_size = LOG_HEADER_SIZE, lh_max_entries_per_block = 0\<rparr>"

definition blank_writer :: sparkey_logwriter where
  "blank_writer =
     \<lparr>lw_open_status = 0, lw_header = blank_header, lw_fd = \<lparr>fd_ino = None, fd_off = 0\<rparr>,
      lw_block_buf = \<lparr>buf_data = [], buf_cap = 0\<rparr>, lw_max_compressed_size = 0, lw_compressed = False,
      lw_file_buf = \<lparr>buf_data = [], buf_cap = 0\<rparr>, lw_flushed = False, lw_entry_count = 0\<rparr>"

definition empty_log_header :: sparkey_logheader where
  "empty_log_header = new_header blank_header SPARKEY_COMPRESSION_NONE 0 7"

definition empty_log_os :: "string \<Rightarrow> os" where
  "empty_log_os name = fresh_os\<lparr>os_names := [name \<mapsto> 0], os_store := [logheader_bytes empty_log_header]\<rparr>"

lemma log_data_empty [simp]: "log_data lib h [] = []"
  by (simp add: log_data_def log_blocks_def split: option.splits)

lemma empty_log_file: "log_file store_lib empty_log_header [] (os_store (empty_log_os name) ! 0)"
  by (simp add: log_file_def empty_log_os_def) (simp add: empty_log_header_def new_header_def header_counts_def
      LOG_HEADER_SIZE_def sparkey_compressors_def)

lemma empty_log_load: "sparkey_load_logheader (empty_log_os name) name = Inr empty_log_header"
  by (rule load_logheader_bytes [of _ _ _ "[]"])
    (simp_all add: os_open_read_def os_content_def empty_log_os_def fresh_os_def,
     simp add: logheader_consistent_def empty_log_header_def new_header_def blank_header_def LOG_HEADER_SIZE_def)

lemma entry_ok_small: "length (entry_body e) < 2 ^ 62 \<Longrightarrow> entry_ok e"
  using length_entry_head(2) [of e] by (simp add: entry_ok_def encode_entry_def)

text \<open>A session that appends to a log: the groups of the old log stay, and new ones follow.\<close>

lemma append_session:
  assumes "log_file lib h gs (os_store os ! i)" "sparkey_load_logheader os filename = Inr h"
    and "os_names os filename = Some i" "i < length (os_store os)" "os_ready os filename"
    and "84 + length (log_data lib h gs) < 2 ^ 64" "\<forall>e \<in> set es. entry_fits h e"
  obtains os' h' gn where "write_session lib (sparkey_logwriter_append lib junk os filename) es
      = Some (SPARKEY_SUCCESS, os', None)"
    "concat gn = es" "log_file lib h' (gs @ gn) (os_store os' ! i)" "os_frame i os os'"
    "lh_file_identifier h' = lh_file_identifier h" "lh_compression_type h' = lh_compression_type h"
    "lh_compression_block_size h' = (if sparkey_uses_compressor (lh_compression_type h) then lh_compression_block_size h else 0)"
    "lh_max_entries_per_block h \<le> lh_max_entries_per_block h'" "os_calm os'"
    "header_versions h' = header_versions h"
    "\<not> sparkey_uses_compressor (lh_compression_type h) \<longrightarrow> lh_max_entries_per_block h' = lh_max_entries_per_block h"
    "os_store os' ! i = logheader_bytes h' @ log_data lib h' (gs @ gn) @ drop (84 + length (log_data lib h' (gs @ gn))) (os_store os ! i)"
proof -
  obtain log where ap: "sparkey_logwriter_append lib junk os filename = (Inr log, os)"
    and w: "writer_log lib gs os (concat gs) (os, log)" "fd_ino (lw_fd log) = Some i"
    and h: "lw_header log = (if sparkey_uses_compressor (lh_compression_type h) then h
       else h\<lparr>lh_compression_block_size := 0\<rparr>)"
    by (rule logwriter_append_log [OF assms(1-6), where junk = junk])
  have fits: "\<forall>e \<in> set es. entry_fits (lw_header log) e" using assms(7) by (simp add: entry_fits_def h)
  obtain os' h' gs' where s: "write_session lib (Inr log, os) es = Some (SPARKEY_SUCCESS, os', None)"
    "concat gs' = concat gs @ es" "log_file lib h' gs' (os_store os' ! i)" "os_frame i os os'"
    "lh_compression_type h' = lh_compression_type (lw_header log)"
    "lh_compression_block_size h' = lh_compression_block_size (lw_header log)"
    "lh_file_identifier h' = lh_file_identifier (lw_header log)"
    "header_versions h' = header_versions (lw_header log)" "take (length gs) gs' = gs"
    "lh_max_entries_per_block (lw_header log) \<le> lh_max_entries_per_block h'" "os_calm os'"
    "\<not> sparkey_uses_compressor (lh_compression_type (lw_header log)) \<longrightarrow>
      lh_max_entries_per_block h' = lh_max_entries_per_block (lw_header log)"
    "os_store os' ! i = logheader_bytes h' @ log_data lib h' gs' @ drop (84 + length (log_data lib h' gs')) (os_store os ! i)"
    by (rule write_session_log [OF w(1) fits w(2)])
  have gs': "gs' = gs @ drop (length gs) gs'" using s(9) by (metis append_take_drop_id)
  then have "concat (drop (length gs) gs') = es" using s(2) by (metis concat_append same_append_eq)
  moreover have "header_versions h' = header_versions h" using s(8) h by (simp add: header_versions_def)
  ultimately show thesis using that [of os' "drop (length gs) gs'" h'] ap s gs' h by (auto split: if_splits)
qed

section \<open>Properties\<close>

text \<open>
  C12: a session that creates a log, adds entries (puts and deletes in any order, with or without
  compression) and closes it ends successfully, and leaves a file in the documented format: the
  header, then the encoded entries, cut into compressed blocks so that every entry's two leading
  numbers are in the first block of its group; the header counts the entries and ends at the data.
  No other file changes.
\<close>

theorem create_session_file:
  assumes "codec_ok lib" "os_ready os filename" "t \<le> SPARKEY_COMPRESSION_ZSTD"
    and "sparkey_uses_compressor t \<Longrightarrow> \<not> sint n < 10"
    and "\<forall>e \<in> set es. entry_ok e \<and> (sparkey_uses_compressor t \<longrightarrow> length (entry_head e) \<le> unat n)"
  shows "\<exists>os' h gs c. write_session lib (sparkey_logwriter_create lib junk os filename t n) es
      = Some (SPARKEY_SUCCESS, os', None)
    \<and> concat gs = es \<and> os_content os' filename = Some c \<and> log_file lib h gs c
    \<and> header_versions h \<and> lh_compression_type h = t
    \<and> take (length (os_store os)) (os_store os') = os_store os
    \<and> os_names os' = (os_names os)(filename \<mapsto> length (os_store os))"
proof -
  obtain os' h gs c where "write_session lib (sparkey_logwriter_create lib junk os filename t n) es
      = Some (SPARKEY_SUCCESS, os', None)" "concat gs = es" "os_content os' filename = Some c" "log_file lib h gs c"
    "header_versions h" "lh_compression_type h = t" "take (length (os_store os)) (os_store os') = os_store os"
    "os_names os' = (os_names os)(filename \<mapsto> length (os_store os))"
    by (rule create_session [OF assms, where junk = junk])
  then show ?thesis by blast
qed

theorem create_session_file_witness:
  "\<exists>os' h gs c. write_session store_lib (sparkey_logwriter_create store_lib blank_writer fresh_os ''a.spl'' 2 32)
        [PutEntry [1, 2] [3], DeleteEntry [1, 2]] = Some (SPARKEY_SUCCESS, os', None)
    \<and> concat gs = [PutEntry [1, 2] [3], DeleteEntry [1, 2]] \<and> os_content os' ''a.spl'' = Some c \<and> log_file store_lib h gs c
    \<and> header_versions h \<and> lh_compression_type h = 2
    \<and> take (length (os_store fresh_os)) (os_store os') = os_store fresh_os
    \<and> os_names os' = (os_names fresh_os)(''a.spl'' \<mapsto> length (os_store fresh_os))"
  by (rule create_session_file)
    (simp_all add: store_lib_codec_ok os_ready_def fresh_os_def os_calm_def entry_ok_small entry_body_def
      order_trans [OF length_entry_head(2)])

text \<open>
  C13: reopening a log with \<open>append\<close>, adding entries and closing it leaves a log file that holds the old
  entries followed by the new ones, with the file identifier unchanged; nothing but that file changes, and bytes
  of it that the longer log does not reach stay as they were.
\<close>

theorem append_session_file:
  assumes "log_file lib h gs (os_store os ! i)" "sparkey_load_logheader os filename = Inr h"
    and "os_names os filename = Some i" "i < length (os_store os)" "os_ready os filename"
    and "84 + length (log_data lib h gs) < 2 ^ 64" "\<forall>e \<in> set es. entry_fits h e"
  shows "\<exists>os' h' gn. write_session lib (sparkey_logwriter_append lib junk os filename) es
      = Some (SPARKEY_SUCCESS, os', None)
    \<and> concat gn = es \<and> log_file lib h' (gs @ gn) (os_store os' ! i)
    \<and> lh_file_identifier h' = lh_file_identifier h \<and> lh_compression_type h' = lh_compression_type h
    \<and> os_store os' ! i = logheader_bytes h' @ log_data lib h' (gs @ gn)
        @ drop (84 + length (log_data lib h' (gs @ gn))) (os_store os ! i)
    \<and> os_frame i os os'"
proof -
  obtain os' h' gn where "write_session lib (sparkey_logwriter_append lib junk os filename) es
      = Some (SPARKEY_SUCCESS, os', None)"
    "concat gn = es" "log_file lib h' (gs @ gn) (os_store os' ! i)" "os_frame i os os'"
    "lh_file_identifier h' = lh_file_identifier h" "lh_compression_type h' = lh_compression_type h"
    "lh_compression_block_size h' = (if sparkey_uses_compressor (lh_compression_type h) then lh_compression_block_size h else 0)"
    "lh_max_entries_per_block h \<le> lh_max_entries_per_block h'" "os_calm os'"
    "header_versions h' = header_versions h"
    "\<not> sparkey_uses_compressor (lh_compression_type h) \<longrightarrow> lh_max_entries_per_block h' = lh_max_entries_per_block h"
    "os_store os' ! i = logheader_bytes h' @ log_data lib h' (gs @ gn) @ drop (84 + length (log_data lib h' (gs @ gn))) (os_store os ! i)"
    by (rule append_session [OF assms, where junk = junk])
  then show ?thesis by blast
qed

theorem append_session_file_witness:
  "\<exists>os' h' gn. write_session store_lib (sparkey_logwriter_append store_lib blank_writer (empty_log_os ''a.spl'') ''a.spl'')
        [DeleteEntry [7]] = Some (SPARKEY_SUCCESS, os', None)
    \<and> concat gn = [DeleteEntry [7]] \<and> log_file store_lib h' ([] @ gn) (os_store os' ! 0)
    \<and> lh_file_identifier h' = lh_file_identifier empty_log_header
    \<and> lh_compression_type h' = lh_compression_type empty_log_header
    \<and> os_store os' ! 0 = logheader_bytes h' @ log_data store_lib h' ([] @ gn)
        @ drop (84 + length (log_data store_lib h' ([] @ gn))) (os_store (empty_log_os ''a.spl'') ! 0)
    \<and> os_frame 0 (empty_log_os ''a.spl'') os'"
  by (rule append_session_file)
    (simp_all add: empty_log_file empty_log_load, simp_all add: empty_log_os_def fresh_os_def os_ready_def os_calm_def
      log_data_empty entry_fits_def entry_ok_small entry_body_def empty_log_header_def new_header_def
      sparkey_uses_compressor_def)

text \<open>
  After a writer is no longer open, \<open>put\<close>, \<open>delete\<close> and \<open>flush\<close> return \<open>SPARKEY_LOG_CLOSED\<close> and change
  neither the writer nor any file, and \<open>close\<close> is a no-op.
\<close>

theorem closed_writer_refuses:
  assumes "lw_open_status log \<noteq> MAGIC_VALUE_LOGWRITER"
  shows "sparkey_logwriter_put lib (os, log) k v = Some (SPARKEY_LOG_CLOSED, os, log)
    \<and> sparkey_logwriter_delete lib (os, log) k = Some (SPARKEY_LOG_CLOSED, os, log)
    \<and> sparkey_logwriter_flush lib (os, log) = Some (SPARKEY_LOG_CLOSED, os, log)
    \<and> sparkey_logwriter_close lib (os, log) = Some (SPARKEY_SUCCESS, os, Some log)"
  using assms
  by (simp add: sparkey_logwriter_put_def sparkey_logwriter_delete_def sparkey_logwriter_flush_def
      sparkey_logwriter_close_def assert_writer_open_def Let_def)

theorem closed_writer_refuses_witness:
  "sparkey_logwriter_put store_lib (fresh_os, blank_writer) [1] [2] = Some (SPARKEY_LOG_CLOSED, fresh_os, blank_writer)
    \<and> sparkey_logwriter_delete store_lib (fresh_os, blank_writer) [1] = Some (SPARKEY_LOG_CLOSED, fresh_os, blank_writer)
    \<and> sparkey_logwriter_flush store_lib (fresh_os, blank_writer) = Some (SPARKEY_LOG_CLOSED, fresh_os, blank_writer)
    \<and> sparkey_logwriter_close store_lib (fresh_os, blank_writer) = Some (SPARKEY_SUCCESS, fresh_os, Some blank_writer)"
  by (rule closed_writer_refuses) (simp add: blank_writer_def MAGIC_VALUE_LOGWRITER_def)

end
