(* ===== verification/LogReadBack.thy ===== *)
theory LogReadBack
  imports LogChunks LogWriterFile
begin

text \<open>
  Reading a whole log file: opening it, creating an iterator and reading its entries one after the
  other yields the entries the file was written for.
\<close>

section \<open>The groups of a log file, as a reader sees them\<close>

text \<open>Without compression all entries are one group in one block.\<close>

definition read_groups ::
  "codec_lib \<Rightarrow> sparkey_logheader \<Rightarrow> log_entry list list \<Rightarrow> (log_entry list \<times> bytes list) list" where
  "read_groups lib h gs =
     (case sparkey_compressors lib (lh_compression_type h) of
        Some c \<Rightarrow> map (\<lambda>g. (g, group_blocks (unat (lh_compression_block_size h)) g)) gs
      | None \<Rightarrow> if concat gs = [] then [] else [(concat gs, [encode_entries (concat gs)])])"

lemma chop_hd:
  assumes "xs \<noteq> []" "0 < bs"
  shows "chop bs xs \<noteq> [] \<and> hd (chop bs xs) = take bs xs"
  by (subst (1 2) chop.simps) (use assms in auto)

lemma group_blocks_layout:
  assumes g: "group_ok bs g" and bs: "0 < bs" and ok: "\<forall>e \<in> set g. entry_ok e"
    and max: "length g \<le> unat (lh_max_entries_per_block (lr_header log))"
  shows "group_layout log (g, group_blocks bs g)"
proof -
  have ne: "encode_entries g \<noteq> []" "g \<noteq> []" using g by (auto simp: group_ok_def)
  note c = chop_hd [OF ne(1) bs]
  have "encode_entries g = encode_entries (butlast g) @ encode_entry (last g)"
    using ne(2) by (metis append_butlast_last_id append_Nil2 encode_entries_simps)
  then have "length (encode_entries (butlast g)) + length (entry_head (last g)) \<le> length (encode_entries g)"
    by (simp add: encode_entry_def)
  then show ?thesis
    using c g ne ok max by (simp add: group_layout_def group_blocks_def group_ok_def)
qed

lemma plain_layout:
  assumes "es \<noteq> []" "\<forall>e \<in> set es. entry_ok e" "\<not> sparkey_uses_compressor (rtype log)"
  shows "group_layout log (es, [encode_entries es])"
proof -
  have "encode_entries es = encode_entries (butlast es) @ encode_entry (last es)"
    using assms(1) by (metis append_butlast_last_id append_Nil2 encode_entries_simps)
  then have "length (encode_entries (butlast es)) + length (entry_head (last es)) \<le> length (encode_entries es)"
    by (simp add: encode_entry_def)
  then show ?thesis using assms by (simp add: group_layout_def)
qed

lemma read_groups_layout:
  assumes "log_file lib h gs c" "\<forall>e \<in> set (concat gs). entry_ok e"
    and log: "lh_compression_type (lr_header log) = lh_compression_type h"
      "lh_max_entries_per_block (lr_header log) = lh_max_entries_per_block h"
  shows "\<forall>x \<in> set (read_groups lib h gs). group_layout log x" "concat (map fst (read_groups lib h gs)) = concat gs"
proof -
  show "\<forall>x \<in> set (read_groups lib h gs). group_layout log x"
  proof (cases "sparkey_compressors lib (lh_compression_type h)")
    case None
    then show ?thesis
      using assms(2) log plain_layout [of "concat gs"] uses_compressor_iff [of "rtype log" lib] by (auto simp: read_groups_def)
  next
    case (Some cm)
    then show ?thesis
      using assms(1,2) log group_blocks_layout [of "unat (lh_compression_block_size h)" _ log]
      by (auto simp: read_groups_def log_file_def)
  qed
  show "concat (map fst (read_groups lib h gs)) = concat gs"
    by (auto simp: read_groups_def comp_def split: option.splits)
qed

section \<open>Opening a log file\<close>

text \<open>
  A log the loader accepts: the size fits, and there are not more puts or deletes than bytes. The second
  condition holds for every log without compression, but a compressed log can break it.
\<close>

definition log_loadable :: "codec_lib \<Rightarrow> sparkey_logheader \<Rightarrow> log_entry list list \<Rightarrow> bytes \<Rightarrow> bool" where
  "log_loadable lib h gs c \<longleftrightarrow>
     header_versions h \<and> length c < 2 ^ 63
     \<and> length (filter is_put (concat gs)) \<le> 84 + length (log_data lib h gs)
     \<and> length (filter (Not \<circ> is_put) (concat gs)) \<le> 84 + length (log_data lib h gs)"

lemma logheader_bytes_size [simp]: "logheader_bytes (h\<lparr>lh_header_size := n\<rparr>) = logheader_bytes h"
  by (simp add: logheader_bytes_def)

lemma log_file_end:
  assumes logf: "log_file lib h gs c" and len: "length c < 2 ^ 63"
  shows "unat (lh_data_end h) = 84 + length (log_data lib h gs)" "84 + length (log_data lib h gs) \<le> length c"
    "take (84 + length (log_data lib h gs)) c = logheader_bytes h @ log_data lib h gs"
proof -
  obtain j where c: "c = logheader_bytes h @ log_data lib h gs @ j" using logf by (auto simp: log_file_def)
  then show le: "84 + length (log_data lib h gs) \<le> length c"
    and "take (84 + length (log_data lib h gs)) c = logheader_bytes h @ log_data lib h gs" by simp_all
  show "unat (lh_data_end h) = 84 + length (log_data lib h gs)"
    using logf le len unat_of_nat_u64 [of "84 + length (log_data lib h gs)"] by (simp add: log_file_def)
qed

lemma log_file_load:
  assumes logf: "log_file lib h gs c" and ld: "log_loadable lib h gs c" and op: "os_open_read os name = Inr c"
  shows "sparkey_load_logheader os name = Inr (h\<lparr>lh_header_size := LOG_HEADER_SIZE\<rparr>)"
proof -
  obtain j where c: "c = logheader_bytes h @ log_data lib h gs @ j" using logf by (auto simp: log_file_def)
  have len: "length c < 2 ^ 63" using ld by (simp add: log_loadable_def)
  note de = log_file_end(1,2) [OF logf len]
  have np: "unat (lh_num_puts h) = length (filter is_put (concat gs))"
    "unat (lh_num_deletes h) = length (filter (Not \<circ> is_put) (concat gs))"
    using logf ld de(2) by (auto simp: log_file_def log_loadable_def header_counts_def intro!: unat_of_nat_u64)
  have "logheader_consistent (h\<lparr>lh_header_size := LOG_HEADER_SIZE\<rparr>)"
    using ld de(1) np by (auto simp: logheader_consistent_def log_loadable_def header_versions_def word_le_nat_alt)
  then show ?thesis
    by (rule load_logheader_bytes [rotated]) (simp add: op c)
qed

lemma open_log_file:
  assumes logf: "log_file lib h gs c" and ld: "log_loadable lib h gs c" and op: "os_open_read os name = Inr c"
    and mm: "os_mmap_ok os"
  obtains log where "sparkey_logreader_open_noalloc os junk name = Inr log" "reader_ok lib log"
    "lr_header log = h\<lparr>lh_header_size := LOG_HEADER_SIZE\<rparr>" "lr_data log = logheader_bytes h @ log_data lib h gs"
proof -
  have len: "length c < 2 ^ 63" using ld by (simp add: log_loadable_def)
  note de = log_file_end [OF logf len]
  have cont: "os_content os name = Some c"
    using op by (auto simp: os_open_read_def split: option.splits)
  have small: "\<not> lh_data_end h > of_nat (length c)"
    using de(1,2) len by (simp add: word_less_nat_alt unat_of_nat_u64)
  let ?h = "h\<lparr>lh_header_size := LOG_HEADER_SIZE\<rparr>"
  let ?log = "junk\<lparr>lr_header := ?h, lr_data_len := lh_data_end h, lr_fd := \<lparr>fd_ino = os_names os name, fd_off = 0\<rparr>,
      lr_data := take (unat (lh_data_end h)) c, lr_open_status := MAGIC_VALUE_LOGREADER\<rparr>"
  have run: "sparkey_logreader_open_noalloc os junk name = Inr ?log"
    using log_file_load [OF logf ld op] op mm small cont by (simp add: sparkey_logreader_open_noalloc_def Let_def)
  have data: "take (unat (lh_data_end h)) c = logheader_bytes h @ log_data lib h gs" using de by simp
  have "lh_compression_type h \<le> SPARKEY_COMPRESSION_ZSTD" using ld by (simp add: log_loadable_def header_versions_def)
  moreover have "lh_data_end h = of_nat (84 + length (log_data lib h gs))"
    using de(1) of_nat_unat_u64 [of "lh_data_end h"] by simp
  moreover have "\<forall>cm. sparkey_compressors lib (lh_compression_type h) = Some cm \<longrightarrow> compressor_ok cm (lh_compression_block_size h)"
    using logf by (auto simp: log_file_def)
  moreover have "length (logheader_bytes h @ log_data lib h gs) < 2 ^ 63"
    using de(2) len by simp
  ultimately have "reader_ok lib ?log"
    unfolding reader_ok_def data by simp
  then show thesis using that [OF run] data by simp
qed

text \<open>The blocks behind the header.\<close>

lemma log_file_blocks:
  assumes logf: "log_file lib h gs c" and ok: "\<forall>e \<in> set (concat gs). entry_ok e"
    and log: "lr_header log = h\<lparr>lh_header_size := LOG_HEADER_SIZE\<rparr>" "lr_data log = logheader_bytes h @ log_data lib h gs"
  shows "blocks_at lib log (ucast LOG_HEADER_SIZE) (concat (map snd (read_groups lib h gs)))"
proof (cases "sparkey_compressors lib (lh_compression_type h)")
  case None
  then show ?thesis
    by (auto simp: blocks_at_def log LOG_HEADER_SIZE_def read_groups_def log_data_def)
next
  case (Some cm)
  have bs: "0 < unat (lh_compression_block_size h)" using logf Some by (auto simp: log_file_def)
  have cc: "concat (map snd (read_groups lib h gs)) = log_blocks (unat (lh_compression_block_size h)) gs"
    using Some by (simp add: read_groups_def log_blocks_def comp_def)
  have "\<forall>b \<in> set (log_blocks (unat (lh_compression_block_size h)) gs). b \<noteq> [] \<and> length b \<le> unat (lh_compression_block_size h)"
    using chop_blocks [OF bs] by (auto simp: log_blocks_def group_blocks_def)
  then show ?thesis
    using Some unfolding cc by (simp add: blocks_at_def log LOG_HEADER_SIZE_def log_data_def)
qed

lemma logiter_create_before:
  assumes ok: "reader_ok lib log" and os: "os_mallocs os = []"
    and bl: "blocks_at lib log (ucast LOG_HEADER_SIZE) (concat (map snd rg))" and lay: "\<forall>x \<in> set rg. group_layout log x"
  obtains iter where "sparkey_logiter_create junk os log = (Inr iter, os)" "before lib log iter (concat (map fst rg))"
proof -
  let ?u = "sparkey_uses_compressor (rtype log)" let ?n = "unat (rsize log)"
  have m: "malloc_or_fail os = (Inr (), os)" using os by (simp add: malloc_or_fail_def os_malloc_def)
  let ?iter = "(if ?u then junk\<lparr>it_compression_buf_allocated := True, it_compression_buf :=
          take ?n (it_compression_buf junk) @ replicate (?n - length (it_compression_buf junk)) 0\<rparr>
        else junk\<lparr>it_compression_buf_allocated := False\<rparr>)
      \<lparr>it_open_status := MAGIC_VALUE_LOGITER, it_file_identifier := lh_file_identifier (lr_header log),
       it_block_position := 0, it_next_block_position := ucast LOG_HEADER_SIZE, it_block_offset := 0,
       it_block_len := 0, it_state := SPARKEY_ITER_NEW\<rparr>"
  have hs: "lh_header_size (lr_header log) = LOG_HEADER_SIZE" and op: "assert_log_open log = SPARKEY_SUCCESS"
    using ok by (simp_all add: reader_ok_def assert_log_open_def)
  have run: "sparkey_logiter_create junk os log = (Inr ?iter, os)"
    using op m hs by (simp add: sparkey_logiter_create_def Let_def)
  have buf: "length (take ?n b @ replicate (?n - length b) 0) = ?n" for b :: bytes
    by (simp add: min_def)
  have "iter_at lib log ?iter [] (concat (map snd rg))"
    using bl buf unfolding iter_at_def by simp
  then have "tail_of lib log ?iter rg []"
    unfolding tail_of_def anchored_def using lay bl by (auto intro!: exI [of _ "[]"])
  then have "before lib log ?iter (concat (map fst rg))" by (auto simp: before_def reading_def)
  then show thesis using that run by blast
qed

section \<open>Reading all entries\<close>

text \<open>A client that reads a log from end to end; each key and value is fetched with the fill functions.\<close>

definition current_entry :: "sparkey_logiter \<Rightarrow> bytes \<Rightarrow> bytes \<Rightarrow> log_entry" where
  "current_entry iter k v =
     (if sparkey_logiter_type iter = SPARKEY_ENTRY_PUT then PutEntry k v else DeleteEntry k)"

partial_function (option) read_entries ::
  "codec_lib \<Rightarrow> sparkey_logiter \<Rightarrow> sparkey_logreader \<Rightarrow> (log_entry list \<times> sparkey_logiter) result" where
  "read_entries lib iter log =
     rethrow (sparkey_logiter_next lib iter log) (\<lambda>iter. ([], iter)) (\<lambda>iter.
     if sparkey_logiter_state iter \<noteq> SPARKEY_ITER_ACTIVE then Some (SPARKEY_SUCCESS, [], iter)
     else
       rethrow (sparkey_logiter_fill_key lib iter log (sparkey_logiter_keylen iter)) (\<lambda>(k, iter). ([], iter)) (\<lambda>(k, iter).
       rethrow (sparkey_logiter_fill_value lib iter log (sparkey_logiter_valuelen iter)) (\<lambda>(v, iter). ([], iter)) (\<lambda>(v, iter).
       rethrow (read_entries lib iter log) id (\<lambda>(es, iter'). Some (SPARKEY_SUCCESS, current_entry iter k v # es, iter')))))"

lemma active_current_entry:
  assumes "active lib log iter e es rk rv"
  shows "current_entry iter (entry_key e) (entry_value e) = e"
  using assms by (cases e) (simp_all add: active_def current_entry_def sparkey_logiter_type_def)

lemma read_entries_all:
  assumes ok: "reader_ok lib log" and "before lib log iter es"
  shows "\<exists>iter'. read_entries lib iter log = Some (SPARKEY_SUCCESS, es, iter') \<and> it_state iter' = SPARKEY_ITER_CLOSED"
  using assms(2)
proof (induction es arbitrary: iter)
  case Nil
  obtain iter' where "sparkey_logiter_next lib iter log = Some (SPARKEY_SUCCESS, iter')"
    "it_state iter' = SPARKEY_ITER_CLOSED"
    by (rule logiter_next_end [OF ok Nil])
  then show ?case by (subst read_entries.simps) (simp add: sparkey_logiter_state_def)
next
  case (Cons e es)
  obtain iter1 where 1: "sparkey_logiter_next lib iter log = Some (SPARKEY_SUCCESS, iter1)"
    "active lib log iter1 e es (entry_key e) (entry_value e)"
    by (rule logiter_next_entry [OF ok Cons.prems])
  have len: "unat (it_keylen iter1) = length (entry_key e)"
    using active_lengths(1) [OF 1(2)] 1(2) by (simp add: active_def)
  obtain iter2 where 2: "sparkey_logiter_fill_key lib iter1 log (it_keylen iter1)
      = Some (SPARKEY_SUCCESS, take (unat (it_keylen iter1)) (entry_key e), iter2)"
    "active lib log iter2 e es (drop (unat (it_keylen iter1)) (entry_key e)) (entry_value e)"
    by (rule fill_key_active [OF ok 1(2)])
  have len2: "unat (it_valuelen iter2) = length (entry_value e)"
    using active_lengths(2) [OF 2(2)] 2(2) by (simp add: active_def)
  obtain iter3 rk' where 3: "sparkey_logiter_fill_value lib iter2 log (it_valuelen iter2)
      = Some (SPARKEY_SUCCESS, take (unat (it_valuelen iter2)) (entry_value e), iter3)"
    "active lib log iter3 e es rk' (drop (unat (it_valuelen iter2)) (entry_value e))"
    by (rule fill_value_active [OF ok 2(2)])
  from Cons.IH [OF active_before [OF 3(2)]] obtain iter' where
    "read_entries lib iter3 log = Some (SPARKEY_SUCCESS, es, iter')" "it_state iter' = SPARKEY_ITER_CLOSED" by blast
  then show ?case
    using 1(1) 2(1) 3(1) len len2 active_state [OF 1(2)] active_current_entry [OF 3(2)]
    by (subst read_entries.simps)
      (simp add: sparkey_logiter_state_def sparkey_logiter_keylen_def sparkey_logiter_valuelen_def)
qed

text \<open>Opening a log by name, making an iterator and reading everything.\<close>

definition read_log ::
  "codec_lib \<Rightarrow> sparkey_logreader \<Rightarrow> sparkey_logiter \<Rightarrow> os \<Rightarrow> string \<Rightarrow> (sparkey_returncode \<times> log_entry list) option" where
  "read_log lib junkr junki os name =
     (case sparkey_logreader_open junkr os name of
        (Inl rc, os) \<Rightarrow> Some (rc, [])
      | (Inr log, os) \<Rightarrow>
          (case sparkey_logiter_create junki os log of
             (Inl rc, os) \<Rightarrow> Some (rc, [])
           | (Inr iter, os) \<Rightarrow> map_option (\<lambda>(rc, es, iter). (rc, es)) (read_entries lib iter log)))"

lemma read_log_file:
  assumes logf: "log_file lib h gs c" and ld: "log_loadable lib h gs c" and op: "os_open_read os name = Inr c"
    and mm: "os_mmap_ok os" "os_mallocs os = []" and eok: "\<forall>e \<in> set (concat gs). entry_ok e"
  shows "read_log lib junkr junki os name = Some (SPARKEY_SUCCESS, concat gs)"
proof -
  obtain log where o: "sparkey_logreader_open_noalloc os junkr name = Inr log" and ok: "reader_ok lib log"
    and log: "lr_header log = h\<lparr>lh_header_size := LOG_HEADER_SIZE\<rparr>" "lr_data log = logheader_bytes h @ log_data lib h gs"
    by (rule open_log_file [OF logf ld op mm(1)])
  note bl = log_file_blocks [OF logf eok log] and lay = read_groups_layout [OF logf eok, of log]
  obtain iter where it: "sparkey_logiter_create junki os log = (Inr iter, os)"
    "before lib log iter (concat (map fst (read_groups lib h gs)))"
    by (rule logiter_create_before [OF ok mm(2) bl lay(1)]) (simp_all add: log)
  obtain iter' where "read_entries lib iter log = Some (SPARKEY_SUCCESS, concat gs, iter')"
    using read_entries_all [OF ok it(2)] lay(2) log by auto
  then show ?thesis
    using o it(1) mm(2)
    by (simp add: read_log_def sparkey_logreader_open_def correct_endian_platform_def malloc_or_fail_def os_malloc_def)
qed


text \<open>The two ways a written log can be loaded.\<close>

lemma log_loadable_entries:
  assumes logf: "log_file lib h gs c" and hv: "header_versions h" and len: "length c < 2 ^ 63"
    and small: "sparkey_uses_compressor (lh_compression_type h) \<Longrightarrow> length (concat gs) \<le> unat (lh_data_end h)"
  shows "log_loadable lib h gs c"
proof -
  have "length (concat gs) \<le> 84 + length (log_data lib h gs)"
  proof (cases "sparkey_uses_compressor (lh_compression_type h)")
    case True
    then show ?thesis using small log_file_end(1) [OF logf len] by simp
  next
    case False
    then have "sparkey_compressors lib (lh_compression_type h) = None"
      using uses_compressor_iff by (metis not_Some_eq)
    then show ?thesis using two_entries_le [of "concat gs"] by (simp add: log_data_def)
  qed
  then have "length (filter P (concat gs)) \<le> 84 + length (log_data lib h gs)" for P
    using length_filter_le [of P "concat gs"] by linarith
  then show ?thesis using hv len by (simp add: log_loadable_def)
qed

text \<open>The same from the counts of the header.\<close>

lemma log_loadable_counts:
  assumes logf: "log_file lib h gs c" and hv: "header_versions h" and len: "length c < 2 ^ 63"
    and small: "sparkey_uses_compressor (lh_compression_type h) \<Longrightarrow> length (concat gs) < 2 ^ 64
        \<and> lh_num_puts h \<le> lh_data_end h \<and> lh_num_deletes h \<le> lh_data_end h"
  shows "log_loadable lib h gs c"
proof (cases "sparkey_uses_compressor (lh_compression_type h)")
  case True
  have "length (filter P (concat gs)) < 2 ^ 64" for P
    using small [OF True] length_filter_le [of P "concat gs"] by linarith
  then have "unat (lh_num_puts h) = length (filter is_put (concat gs))"
    "unat (lh_num_deletes h) = length (filter (Not \<circ> is_put) (concat gs))"
    using logf by (simp_all add: log_file_def header_counts_def unat_of_nat_u64 del: filter_concat)
  then show ?thesis
    using small [OF True] hv len log_file_end(1) [OF logf len] by (simp add: log_loadable_def word_le_nat_alt)
qed (rule log_loadable_entries [OF logf hv len], blast)

section \<open>A small log\<close>

text \<open>A log with two entries, a reader of it and an iterator on its first entry, for concrete runs.\<close>

definition blank_reader :: sparkey_logreader where
  "blank_reader =
     \<lparr>lr_open_status = 0, lr_header = blank_header, lr_fd = \<lparr>fd_ino = None, fd_off = 0\<rparr>, lr_data_len = 0, lr_data = []\<rparr>"

definition blank_iter :: sparkey_logiter where
  "blank_iter =
     \<lparr>it_open_status = 0, it_file_identifier = 0, it_block_position = 0, it_next_block_position = 0,
      it_block_offset = 0, it_block_len = 0, it_entry_count = 0, it_compression_buf_allocated = False,
      it_compression_buf = [], it_entry_block_position = 0, it_entry_block_offset = 0,
      it_type = SPARKEY_ENTRY_PUT, it_state = SPARKEY_ITER_NEW, it_keylen = 0, it_valuelen = 0,
      it_key_remaining = 0, it_value_remaining = 0\<rparr>"

definition small_log :: "log_entry list" where
  "small_log = [PutEntry [1, 2] [3], DeleteEntry [1, 2]]"

definition small_header :: sparkey_logheader where
  "small_header = empty_log_header
     \<lparr>lh_num_puts := 1, lh_num_deletes := 1, lh_data_end := of_nat (84 + length (encode_entries small_log)),
      lh_put_size := of_nat (length (encode_entry (PutEntry [1, 2] [3]))),
      lh_delete_size := of_nat (length (encode_entry (DeleteEntry [1, 2]))),
      lh_max_key_len := 2, lh_max_value_len := 1\<rparr>"

definition small_log_os :: os where
  "small_log_os = fresh_os\<lparr>os_names := [''a.spl'' \<mapsto> 0],
     os_store := [logheader_bytes small_header @ encode_entries small_log]\<rparr>"

lemma small_log_length: "length (encode_entries small_log) \<le> 45"
  using length_entry_head(2) [of "PutEntry [1, 2] [3]"] length_entry_head(2) [of "DeleteEntry [1, 2]"]
  by (simp add: small_log_def encode_entry_def entry_body_def)

lemma small_log_file:
  "log_file store_lib small_header [small_log] (os_store small_log_os ! 0)" "header_versions small_header"
  "\<forall>e \<in> set small_log. entry_ok e" "length (os_store small_log_os ! 0) < 2 ^ 63"
  "os_open_read small_log_os ''a.spl'' = Inr (os_store small_log_os ! 0)"
  "\<not> sparkey_uses_compressor (lh_compression_type small_header)"
proof -
  have t: "lh_compression_type small_header = SPARKEY_COMPRESSION_NONE"
    by (simp add: small_header_def empty_log_header_def new_header_def)
  then have d: "log_data lib small_header [small_log] = encode_entries small_log" for lib
    by (simp add: log_data_def sparkey_compressors_def)
  show "header_versions small_header"
    using t by (simp add: header_versions_def) (simp add: small_header_def empty_log_header_def new_header_def)
  show "\<forall>e \<in> set small_log. entry_ok e" by (simp add: small_log_def entry_ok_small entry_body_def)
  show "length (os_store small_log_os ! 0) < 2 ^ 63" using small_log_length by (simp add: small_log_os_def)
  show "os_open_read small_log_os ''a.spl'' = Inr (os_store small_log_os ! 0)"
    by (simp add: small_log_os_def os_open_read_def os_content_def fresh_os_def)
  show "\<not> sparkey_uses_compressor (lh_compression_type small_header)" by (simp add: t sparkey_uses_compressor_def)
  have "header_counts small_header small_log"
    by (simp add: header_counts_def small_log_def small_header_def)
  then show "log_file store_lib small_header [small_log] (os_store small_log_os ! 0)"
    using t by (simp add: log_file_def d small_log_os_def sparkey_compressors_def) (simp add: small_header_def)
qed

lemma small_log_loadable: "log_loadable store_lib small_header [small_log] (os_store small_log_os ! 0)"
  by (rule log_loadable_entries [OF small_log_file(1,2,4)]) (use small_log_file(6) in blast)

lemma small_reader:
  obtains log iter idx where
    "sparkey_logreader_open_noalloc small_log_os blank_reader ''a.spl'' = Inr log" "reader_ok store_lib log"
    "active store_lib log iter (PutEntry [1, 2] [3]) [DeleteEntry [1, 2]] [1, 2] [3]"
    "entry_at store_lib log (it_entry_block_position iter) idx (PutEntry [1, 2] [3]) [DeleteEntry [1, 2]]"
proof -
  have os: "os_mmap_ok small_log_os" "os_mallocs small_log_os = []" by (simp_all add: small_log_os_def fresh_os_def)
  have ok: "\<forall>e \<in> set (concat [small_log]). entry_ok e" using small_log_file(3) by simp
  obtain log where o: "sparkey_logreader_open_noalloc small_log_os blank_reader ''a.spl'' = Inr log"
    and r: "reader_ok store_lib log"
    and log: "lr_header log = small_header\<lparr>lh_header_size := LOG_HEADER_SIZE\<rparr>"
      "lr_data log = logheader_bytes small_header @ log_data store_lib small_header [small_log]"
    by (rule open_log_file [OF small_log_file(1) small_log_loadable small_log_file(5) os(1), where junk = blank_reader])
  note bl = log_file_blocks [OF small_log_file(1) ok log] and lay = read_groups_layout [OF small_log_file(1) ok, of log]
  obtain iter where "before store_lib log iter (concat (map fst (read_groups store_lib small_header [small_log])))"
    by (rule logiter_create_before [OF r os(2) bl lay(1), where junk = blank_iter]) (simp_all add: log)
  then have "before store_lib log iter [PutEntry [1, 2] [3], DeleteEntry [1, 2]]"
    using lay(2) log by (simp add: small_log_def)
  then obtain iter1 idx where
    a: "active store_lib log iter1 (PutEntry [1, 2] [3]) [DeleteEntry [1, 2]] [1, 2] [3]"
    "body_at store_lib log iter1 idx (PutEntry [1, 2] [3]) [DeleteEntry [1, 2]] (entry_body (PutEntry [1, 2] [3]))"
    by (rule logiter_next_entry [OF r]) simp
  then show thesis using that [OF o r a(1)] body_entry_at by blast
qed

section \<open>Refused headers\<close>

text \<open>A header that counts more puts or deletes than the log has bytes.\<close>

lemma load_logheader_too_many:
  assumes "os_open_read os name = Inr (logheader_bytes h @ rest)" "header_versions h" "84 \<le> unat (lh_data_end h)"
    and "lh_data_end h < lh_num_puts h \<or> lh_data_end h < lh_num_deletes h"
  shows "sparkey_load_logheader os name = Inl SPARKEY_LOG_HEADER_CORRUPT"
  using assms
  by (auto simp: sparkey_load_logheader_def logheader_bytes_def logheader_version0_def header_versions_def Let_def
      LOG_HEADER_SIZE_def LOG_MINOR_VERSION_def word_less_nat_alt)

section \<open>Logs of a codec that does not compress\<close>

text \<open>The data keep at least one byte for each byte of the entries, and add at most ten to each block.\<close>

lemma blocks_bytes_bounds:
  assumes "\<forall>b \<in> set bs. b \<noteq> [] \<and> length b \<le> length (block_out c n b) \<and> length (block_out c n b) \<le> length b"
  shows "length (concat bs) \<le> length (blocks_bytes c n bs) \<and> length (blocks_bytes c n bs) \<le> 11 * length (concat bs)"
  using assms
proof (induction bs)
  case (Cons b bs)
  have "length (block_frame c n b) \<le> 10 + length b" "length b \<le> length (block_frame c n b)"
    using Cons.prems length_write_vlq_le [of "of_nat (length (block_out c n b))"] by (simp_all add: block_frame_def)
  moreover have "1 \<le> length b" using Cons.prems by (cases b) auto
  moreover have "length (concat bs) \<le> length (blocks_bytes c n bs) \<and> length (blocks_bytes c n bs) \<le> 11 * length (concat bs)"
    using Cons by simp
  ultimately show ?case by simp
qed simp

lemma concat_log_blocks: "concat (log_blocks n gs) = encode_entries (concat gs)"
  by (induction gs) (simp_all add: log_blocks_def group_blocks_def)

lemma log_blocks_size:
  assumes "0 < n"
  shows "\<forall>b \<in> set (log_blocks n gs). b \<noteq> [] \<and> length b \<le> n"
  using chop_blocks [OF assms] by (auto simp: log_blocks_def group_blocks_def)

lemma store_block_out:
  assumes "sparkey_compressors store_lib t = Some c" "length b \<le> unat n" "n < 2 ^ 31"
  shows "block_out c n b = b"
proof -
  have u: "(ucast (ucast n :: u64) :: u32) = n" by (rule bit_word_eqI) (simp add: bit_simps)
  have "length b < 2 ^ 31" using assms(2,3) by (simp add: word_less_nat_alt)
  moreover have "(of_nat (length b) :: u64) \<le> ucast (ucast (ucast n :: u64) :: u32)"
    using assms(2) calculation by (simp add: word_le_nat_alt unat_of_nat_u64 u)
  ultimately show ?thesis
    using assms(1)
    by (auto simp: sparkey_compressors_def block_out_def store_lib_def sparkey_snappy_compress_def sparkey_zstd_compress_def
        sparkey_snappy_max_compressed_size_def sparkey_zstd_max_compressed_size_def u split: if_splits)
qed

lemma store_log_bounds:
  assumes "log_file store_lib h gs c"
  shows "length (log_data store_lib h gs) \<le> 11 * length (encode_entries (concat gs))"
proof (cases "sparkey_compressors store_lib (lh_compression_type h)")
  case (Some cm)
  let ?n = "lh_compression_block_size h" let ?bs = "log_blocks (unat ?n) gs"
  have n: "10 \<le> unat ?n" "?n < 2 ^ 31" using assms Some by (simp_all add: log_file_def word_less_nat_alt)
  have "b \<noteq> [] \<and> length b \<le> length (block_out cm ?n b) \<and> length (block_out cm ?n b) \<le> length b" if "b \<in> set ?bs" for b
  proof -
    have b: "b \<noteq> []" "length b \<le> unat ?n" using log_blocks_size [of "unat ?n" gs] n(1) that by auto
    then show ?thesis using store_block_out [OF Some b(2) n(2)] by simp
  qed
  then have "\<forall>b \<in> set ?bs. b \<noteq> [] \<and> length b \<le> length (block_out cm ?n b) \<and> length (block_out cm ?n b) \<le> length b" by blast
  from blocks_bytes_bounds [OF this] show ?thesis unfolding concat_log_blocks using Some by (simp add: log_data_def)
qed (simp add: log_data_def)

section \<open>Properties\<close>

text \<open>
  C2: writing and reading back. A session that creates a log, writes the entries \<open>es\<close> and closes it succeeds, even when
  the kernel writes less than asked, and the file is exactly the header and the data of groups of \<open>es\<close>. (With
  compression the block size is at least 10, and the head of every entry fits one block.) Opening that file,
  if it is shorter than \<open>2^63\<close> bytes, and iterating over it yields exactly \<open>es\<close>, in order, but for one case that is
  also exact: a compressed log whose header counts more puts or more deletes than the file has bytes is refused
  by the loader as corrupt.
\<close>

theorem session_roundtrip:
  assumes "codec_ok lib" "os_ready os filename" "os_mmap_ok os" "t \<le> SPARKEY_COMPRESSION_ZSTD"
    and "sparkey_uses_compressor t \<Longrightarrow> \<not> sint n < 10"
    and "\<forall>e \<in> set es. entry_ok e \<and> (sparkey_uses_compressor t \<longrightarrow> length (entry_head e) \<le> unat n)" "length es < 2 ^ 64"
  shows "\<exists>os' h gs. write_session lib (sparkey_logwriter_create lib junk os filename t n) es
      = Some (SPARKEY_SUCCESS, os', None)
    \<and> os_content os' filename = Some (logheader_bytes h @ log_data lib h gs)
    \<and> log_file lib h gs (logheader_bytes h @ log_data lib h gs) \<and> concat gs = es
    \<and> (length (logheader_bytes h @ log_data lib h gs) < 2 ^ 63 \<longrightarrow>
        read_log lib junkr junki os' filename
        = Some (if sparkey_uses_compressor t \<and> (lh_data_end h < lh_num_puts h \<or> lh_data_end h < lh_num_deletes h)
            then (SPARKEY_LOG_HEADER_CORRUPT, []) else (SPARKEY_SUCCESS, es)))"
proof -
  obtain os' h gs c where ws: "write_session lib (sparkey_logwriter_create lib junk os filename t n) es
      = Some (SPARKEY_SUCCESS, os', None)" and gs: "concat gs = es" and c: "os_content os' filename = Some c"
    and logf: "log_file lib h gs c" and h: "header_versions h" "lh_compression_type h = t"
    and os': "os_open_err os' = os_open_err os" "os_mallocs os' = os_mallocs os" "os_mmap_ok os' = os_mmap_ok os"
    and ceq: "c = logheader_bytes h @ log_data lib h gs"
    by (rule create_session [OF assms(1,2,4-6), where junk = junk]) blast
  let ?refused = "sparkey_uses_compressor t \<and> (lh_data_end h < lh_num_puts h \<or> lh_data_end h < lh_num_deletes h)"
  have rd: "os_open_read os' filename = Inr c" using c os'(1) assms(2) by (simp add: os_open_read_def os_ready_def)
  have env: "os_mmap_ok os'" "os_mallocs os' = []" using os' assms(2,3) by (simp_all add: os_ready_def)
  have "read_log lib junkr junki os' filename = Some (SPARKEY_SUCCESS, concat gs)" if len: "length c < 2 ^ 63" and "\<not> ?refused"
    by (rule read_log_file [OF logf log_loadable_counts [OF logf h(1) len] rd env])
      (use that(2) h(2) gs assms(6,7) in \<open>auto simp: not_less\<close>)
  moreover have "read_log lib junkr junki os' filename = Some (SPARKEY_LOG_HEADER_CORRUPT, [])" if len: "length c < 2 ^ 63" and ?refused
  proof -
    have "84 \<le> unat (lh_data_end h)" using log_file_end(1) [OF logf len] by simp
    then have "sparkey_load_logheader os' filename = Inl SPARKEY_LOG_HEADER_CORRUPT"
      by (rule load_logheader_too_many [OF rd [unfolded ceq] h(1)]) (use that(2) in blast)
    then show ?thesis
      using env by (simp add: read_log_def sparkey_logreader_open_def sparkey_logreader_open_noalloc_def
          correct_endian_platform_def malloc_or_fail_def os_malloc_def)
  qed
  ultimately show ?thesis
    using ws c logf gs unfolding ceq by (intro exI [of _ os'] exI [of _ h] exI [of _ gs]) simp
qed

theorem session_roundtrip_witness:
  "\<exists>os'. write_session store_lib (sparkey_logwriter_create store_lib blank_writer fresh_os ''a.spl'' 1 32)
        [PutEntry [1, 2] [3], DeleteEntry [1, 2]] = Some (SPARKEY_SUCCESS, os', None)
    \<and> read_log store_lib blank_reader blank_iter os' ''a.spl''
        = Some (SPARKEY_SUCCESS, [PutEntry [1, 2] [3], DeleteEntry [1, 2]])"
proof -
  let ?es = "[PutEntry [1, 2] [3], DeleteEntry [1, 2]]"
  have "\<exists>os' h gs. write_session store_lib (sparkey_logwriter_create store_lib blank_writer fresh_os ''a.spl'' 1 32) ?es
      = Some (SPARKEY_SUCCESS, os', None)
    \<and> os_content os' ''a.spl'' = Some (logheader_bytes h @ log_data store_lib h gs)
    \<and> log_file store_lib h gs (logheader_bytes h @ log_data store_lib h gs) \<and> concat gs = ?es
    \<and> (length (logheader_bytes h @ log_data store_lib h gs) < 2 ^ 63 \<longrightarrow>
        read_log store_lib blank_reader blank_iter os' ''a.spl''
        = Some (if sparkey_uses_compressor 1 \<and> (lh_data_end h < lh_num_puts h \<or> lh_data_end h < lh_num_deletes h)
            then (SPARKEY_LOG_HEADER_CORRUPT, []) else (SPARKEY_SUCCESS, ?es)))"
    by (rule session_roundtrip)
      (simp_all add: store_lib_codec_ok os_ready_def fresh_os_def os_calm_def entry_ok_small entry_body_def
        order_trans [OF length_entry_head(2)])
  then obtain os' h gs where w: "write_session store_lib (sparkey_logwriter_create store_lib blank_writer fresh_os ''a.spl'' 1 32) ?es
      = Some (SPARKEY_SUCCESS, os', None)"
    and f: "log_file store_lib h gs (logheader_bytes h @ log_data store_lib h gs)" "concat gs = ?es"
    and r: "length (logheader_bytes h @ log_data store_lib h gs) < 2 ^ 63 \<Longrightarrow>
        read_log store_lib blank_reader blank_iter os' ''a.spl''
        = Some (if sparkey_uses_compressor 1 \<and> (lh_data_end h < lh_num_puts h \<or> lh_data_end h < lh_num_deletes h)
            then (SPARKEY_LOG_HEADER_CORRUPT, []) else (SPARKEY_SUCCESS, ?es))"
    by blast
  have "length (encode_entries ?es) \<le> 45" using small_log_length by (simp add: small_log_def)
  then have len: "length (logheader_bytes h @ log_data store_lib h gs) < 2 ^ 63"
    using store_log_bounds [OF f(1)] f(2) by simp
  have "lh_num_puts h = 1" "lh_num_deletes h = 1" using f by (simp_all add: log_file_def header_counts_def)
  moreover have "84 \<le> unat (lh_data_end h)" using log_file_end(1) [OF f(1) len] by simp
  ultimately have "\<not> (lh_data_end h < lh_num_puts h \<or> lh_data_end h < lh_num_deletes h)"
    by (simp add: word_less_nat_alt)
  then show ?thesis using w r [OF len] by auto
qed

text \<open>
  C16: what any log file yields. Every file in the log format whose header the loader accepts is read
  without an error, the iteration ends, and the entries are those of the format, whether a block holds
  many entries or an entry spans many blocks.
\<close>

theorem log_file_readable:
  assumes "log_file lib h gs c" "header_versions h" "length c < 2 ^ 63"
    and "sparkey_uses_compressor (lh_compression_type h) \<Longrightarrow> length (concat gs) < 2 ^ 64
        \<and> lh_num_puts h \<le> lh_data_end h \<and> lh_num_deletes h \<le> lh_data_end h"
    and "os_open_read os name = Inr c" "os_mmap_ok os" "os_mallocs os = []" "\<forall>e \<in> set (concat gs). entry_ok e"
  shows "read_log lib junkr junki os name = Some (SPARKEY_SUCCESS, concat gs)"
  by (rule read_log_file [OF assms(1) log_loadable_counts [OF assms(1-4)] assms(5-8)])

theorem log_file_readable_witness:
  "read_log store_lib blank_reader blank_iter small_log_os ''a.spl'' = Some (SPARKEY_SUCCESS, concat [small_log])"
  by (rule log_file_readable [OF small_log_file(1,2,4) _ small_log_file(5)])
    (use small_log_file(3,6) in \<open>simp_all add: small_log_os_def fresh_os_def\<close>)

text \<open>
  \<open>sparkey_logiter_reset\<close> on an iterator that has read any part of the current entry brings it back to
  the start of that entry: the whole key and value can be read again, and the entries behind it are
  unchanged.
\<close>

theorem logiter_reset_rewinds:
  assumes "reader_ok lib log" "active lib log iter e es rk rv"
  shows "\<exists>iter'. sparkey_logiter_reset lib iter log = Some (SPARKEY_SUCCESS, iter')
    \<and> active lib log iter' e es (entry_key e) (entry_value e)"
  using logiter_reset_active [OF assms] by blast

theorem logiter_reset_rewinds_witness:
  "\<exists>log iter iter'. sparkey_logreader_open_noalloc small_log_os blank_reader ''a.spl'' = Inr log
    \<and> sparkey_logiter_reset store_lib iter log = Some (SPARKEY_SUCCESS, iter')
    \<and> active store_lib log iter' (PutEntry [1, 2] [3]) [DeleteEntry [1, 2]]
        (entry_key (PutEntry [1, 2] [3])) (entry_value (PutEntry [1, 2] [3]))"
proof -
  obtain log iter where "sparkey_logreader_open_noalloc small_log_os blank_reader ''a.spl'' = Inr log"
    "reader_ok store_lib log" "active store_lib log iter (PutEntry [1, 2] [3]) [DeleteEntry [1, 2]] [1, 2] [3]"
    by (rule small_reader)
  then show ?thesis using logiter_reset_rewinds by blast
qed

text \<open>
  C18: \<open>sparkey_logiter_keycmp\<close> compares what is left of the keys of two iterators of the same log as byte
  strings: 0 exactly for equal strings, the difference of the first bytes that differ, -1 or 1 when
  one is a prefix of the other. It terminates however the keys are cut into blocks, and both
  iterators stay on their entries.
\<close>

theorem logiter_keycmp_order:
  assumes "reader_ok lib log" "active lib log i1 e1 es1 k1 rv1" "active lib log i2 e2 es2 k2 rv2"
  shows "\<exists>i1' i2' r1 r2. sparkey_logiter_keycmp lib i1 i2 log = Some (SPARKEY_SUCCESS, key_compare k1 k2, i1', i2')
    \<and> (key_compare k1 k2 = 0 \<longleftrightarrow> k1 = k2)
    \<and> active lib log i1' e1 es1 r1 rv1 \<and> active lib log i2' e2 es2 r2 rv2"
proof -
  obtain i1' i2' r1 r2 where
    "sparkey_logiter_keycmp lib i1 i2 log = Some (SPARKEY_SUCCESS, key_compare k1 k2, i1', i2')"
    "active lib log i1' e1 es1 r1 rv1" "active lib log i2' e2 es2 r2 rv2"
    by (rule keycmp_compare [OF assms])
  then show ?thesis using key_compare_eq_0 by blast
qed

theorem logiter_keycmp_order_witness:
  "\<exists>log i1 i2 i1' i2'. sparkey_logreader_open_noalloc small_log_os blank_reader ''a.spl'' = Inr log
    \<and> active store_lib log i1 (PutEntry [1, 2] [3]) [DeleteEntry [1, 2]] [1, 2] [3]
    \<and> active store_lib log i2 (DeleteEntry [1, 2]) [] [1, 2] []
    \<and> sparkey_logiter_keycmp store_lib i1 i2 log = Some (SPARKEY_SUCCESS, 0, i1', i2')"
proof -
  obtain log i1 where r: "sparkey_logreader_open_noalloc small_log_os blank_reader ''a.spl'' = Inr log"
    "reader_ok store_lib log" and a: "active store_lib log i1 (PutEntry [1, 2] [3]) [DeleteEntry [1, 2]] [1, 2] [3]"
    by (rule small_reader)
  from logiter_next_entry [OF r(2) active_before [OF a]] obtain i2 where
    b: "active store_lib log i2 (DeleteEntry [1, 2]) [] [1, 2] []" by auto
  show ?thesis using logiter_keycmp_order [OF r(2) a b] r(1) a b by auto
qed

text \<open>
  C17: the position an iterator reports addresses its entry. From any state of another iterator of the
  log, seeking to the block of an entry, skipping its index in the block and stepping once is on
  that entry with its whole key and value unread. The index of a hash table is built on this.
\<close>

theorem logiter_seek_entry:
  assumes "reader_ok lib log" "iter_at lib log iter cur rest" "entry_at lib log p idx e es"
  shows "\<exists>iter1 iter2 iter3. sparkey_logiter_seek lib iter log p = Some (SPARKEY_SUCCESS, iter1)
    \<and> sparkey_logiter_skip lib iter1 log (int idx) = Some (SPARKEY_SUCCESS, iter2)
    \<and> sparkey_logiter_next lib iter2 log = Some (SPARKEY_SUCCESS, iter3)
    \<and> active lib log iter3 e es (entry_key e) (entry_value e)"
  using seek_entry [OF assms] by blast

theorem logiter_seek_entry_witness:
  "\<exists>log iter p idx iter1 iter2 iter3. sparkey_logreader_open_noalloc small_log_os blank_reader ''a.spl'' = Inr log
    \<and> sparkey_logiter_seek store_lib iter log p = Some (SPARKEY_SUCCESS, iter1)
    \<and> sparkey_logiter_skip store_lib iter1 log (int idx) = Some (SPARKEY_SUCCESS, iter2)
    \<and> sparkey_logiter_next store_lib iter2 log = Some (SPARKEY_SUCCESS, iter3)
    \<and> active store_lib log iter3 (PutEntry [1, 2] [3]) [DeleteEntry [1, 2]]
        (entry_key (PutEntry [1, 2] [3])) (entry_value (PutEntry [1, 2] [3]))"
proof -
  obtain log iter idx where r: "sparkey_logreader_open_noalloc small_log_os blank_reader ''a.spl'' = Inr log"
    "reader_ok store_lib log" and a: "active store_lib log iter (PutEntry [1, 2] [3]) [DeleteEntry [1, 2]] [1, 2] [3]"
    and e: "entry_at store_lib log (it_entry_block_position iter) idx (PutEntry [1, 2] [3]) [DeleteEntry [1, 2]]"
    by (rule small_reader)
  obtain cur rest where "iter_at store_lib log iter cur rest"
    using before_iter_at [OF active_before [OF a]] by blast
  from logiter_seek_entry [OF r(2) this e] r(1) show ?thesis by blast
qed

end
