(* ===== verification/HashLookup.thy ===== *)
theory HashLookup
  imports HashIndexOps LogReadBack
begin

text \<open>
  Lookups: \<open>sparkey_hash_get\<close> on an index that represents a map finds the entry the map names, and
  nothing when the key is not in the map.
\<close>

section \<open>Entries and their addresses\<close>

text \<open>The entry at an address, with the entries behind it.\<close>

definition stored ::
  "codec_lib \<Rightarrow> sparkey_logreader \<Rightarrow> sparkey_hashheader \<Rightarrow> log_entry \<Rightarrow> log_entry list \<Rightarrow> u64 \<Rightarrow> bool" where
  "stored lib log h e es p \<longleftrightarrow>
     (\<exists>pos idx. p = address h pos idx \<and> idx < 2 ^ block_bits h \<and> 84 \<le> unat pos
        \<and> pos < lh_data_end (lr_header log) \<and> entry_at lib log pos idx e es
        \<and> (rtype log = SPARKEY_COMPRESSION_NONE \<longrightarrow> idx = 0))"

lemma indexed_stored:
  "indexed lib log h k p \<longleftrightarrow>
     (\<exists>v es. stored lib log h (PutEntry k v) es p) \<and> (\<exists>a. key_hash h k = Some a \<and> item_fits h (a, p))"
  unfolding indexed_def stored_def by blast

lemma active_full_lengths:
  assumes "active lib log iter e es (entry_key e) (entry_value e)"
  shows "unat (it_keylen iter) = length (entry_key e)" "unat (it_valuelen iter) = length (entry_value e)"
  using active_lengths(1,2) [OF assms] assms by (simp_all add: active_def)

lemma active_unique:
  assumes ok: "reader_ok lib log" and a: "active lib log iter e es (entry_key e) (entry_value e)"
    and b: "active lib log iter e' es' (entry_key e') (entry_value e')"
  shows "e = e'" "es = es'"
proof -
  let ?m = "it_keylen iter" let ?n = "it_valuelen iter"
  have all: "xs = ys" if "take n xs = take n ys" "n = length xs" "n = length ys" for n and xs ys :: bytes
    using that by (metis order_refl take_all)
  have len: "unat ?m = length (entry_key e)" "unat ?m = length (entry_key e')"
    "unat ?n = length (entry_value e)" "unat ?n = length (entry_value e')"
    using active_full_lengths [OF a] active_full_lengths [OF b] by simp_all
  obtain i1 where "sparkey_logiter_fill_key lib iter log ?m = Some (SPARKEY_SUCCESS, take (unat ?m) (entry_key e), i1)"
    by (rule fill_key_active [OF ok a])
  moreover obtain i2 where "sparkey_logiter_fill_key lib iter log ?m = Some (SPARKEY_SUCCESS, take (unat ?m) (entry_key e'), i2)"
    by (rule fill_key_active [OF ok b])
  ultimately have k: "entry_key e = entry_key e'" by (intro all [OF _ len(1,2)]) simp
  obtain i1 where "sparkey_logiter_fill_value lib iter log ?n = Some (SPARKEY_SUCCESS, take (unat ?n) (entry_value e), i1)"
    by (rule fill_value_active [OF ok a])
  moreover obtain i2 where "sparkey_logiter_fill_value lib iter log ?n = Some (SPARKEY_SUCCESS, take (unat ?n) (entry_value e'), i2)"
    by (rule fill_value_active [OF ok b])
  ultimately have v: "entry_value e = entry_value e'" by (intro all [OF _ len(3,4)]) simp
  show "e = e'" using active_current_entry [OF a] active_current_entry [OF b] unfolding k v by (rule trans [OF sym])
  obtain i1 where "read_entries lib iter log = Some (SPARKEY_SUCCESS, es, i1)"
    using read_entries_all [OF ok active_before [OF a]] by blast
  moreover obtain i2 where "read_entries lib iter log = Some (SPARKEY_SUCCESS, es', i2)"
    using read_entries_all [OF ok active_before [OF b]] by blast
  ultimately show "es = es'" by simp
qed

text \<open>Moving an iterator to the entry at an address, as lookups do.\<close>

lemma seek_stored:
  assumes ok: "reader_ok lib log" and ad: "addresses_ok h log" and st: "stored lib log h e es p"
    and it: "iter_at lib log iter cur rest"
  obtains iter1 iter2 iter3 where
    "sparkey_logiter_seek lib iter log (drop_bit (block_bits h) p) = Some (SPARKEY_SUCCESS, iter1)"
    "sparkey_logiter_skip lib iter1 log (entry_index h p) = Some (SPARKEY_SUCCESS, iter2)"
    "sparkey_logiter_next lib iter2 log = Some (SPARKEY_SUCCESS, iter3)"
    "active lib log iter3 e es (entry_key e) (entry_value e)"
proof -
  from st obtain pos idx where p: "p = address h pos idx" "idx < 2 ^ block_bits h" "84 \<le> unat pos"
    "pos < lh_data_end (lr_header log)" and e: "entry_at lib log pos idx e es"
    by (auto simp: stored_def)
  have dec: "drop_bit (block_bits h) p = pos" "entry_index h p = int idx"
    using address_decode(1,2) [OF ad _ p(4,2)] p(1,3) by simp_all
  show thesis
    by (rule seek_entry [OF ok it e]) (rule that, simp_all add: dec)
qed

text \<open>An address is the address of one entry only.\<close>

lemma stored_unique:
  assumes ok: "reader_ok lib log" and ad: "addresses_ok h log" and it: "iter_at lib log iter cur rest"
    and st: "stored lib log h e es p" "stored lib log h e' es' p"
  shows "e = e'" "es = es'"
proof -
  obtain i1 i2 i3 where a: "sparkey_logiter_seek lib iter log (drop_bit (block_bits h) p) = Some (SPARKEY_SUCCESS, i1)"
    "sparkey_logiter_skip lib i1 log (entry_index h p) = Some (SPARKEY_SUCCESS, i2)"
    "sparkey_logiter_next lib i2 log = Some (SPARKEY_SUCCESS, i3)" "active lib log i3 e es (entry_key e) (entry_value e)"
    by (rule seek_stored [OF ok ad st(1) it])
  obtain j1 j2 j3 where b: "sparkey_logiter_seek lib iter log (drop_bit (block_bits h) p) = Some (SPARKEY_SUCCESS, j1)"
    "sparkey_logiter_skip lib j1 log (entry_index h p) = Some (SPARKEY_SUCCESS, j2)"
    "sparkey_logiter_next lib j2 log = Some (SPARKEY_SUCCESS, j3)" "active lib log j3 e' es' (entry_key e') (entry_value e')"
    by (rule seek_stored [OF ok ad st(2) it])
  have "i3 = j3" using a(1-3) b(1-3) by simp
  then show "e = e'" "es = es'" using active_unique [OF ok a(4)] b(4) by simp_all
qed

text \<open>An entry has one address only.\<close>

lemma stored_address:
  assumes ok: "reader_ok lib log" and "stored lib log h e es p" "stored lib log h e es q"
  shows "p = q"
  using assms(2,3) entry_at_unique [OF ok] unfolding stored_def by metis

section \<open>Comparing a key with the key of an entry\<close>

lemma get_compare_active:
  assumes ok: "reader_ok lib log" and len: "length key < 2 ^ 63"
    and "active lib log iter e es (drop (unat pos2) (entry_key e)) rv" "length (entry_key e) = length key"
    and "unat pos2 \<le> length key" "take (unat pos2) key = take (unat pos2) (entry_key e)"
  shows "\<exists>iter' rk. get_compare lib log key pos2 iter = Some (SPARKEY_SUCCESS, key = entry_key e, iter')
    \<and> active lib log iter' e es rk rv \<and> (key = entry_key e \<longrightarrow> rk = [])"
  using assms(3-)
proof (induction "length key - unat pos2" arbitrary: pos2 iter rule: less_induct)
  case less
  let ?k = "entry_key e" let ?n = "of_nat (length key) :: u64"
  have n: "unat ?n = length key" using len by (simp add: unat_of_nat_u64)
  show ?case
  proof (cases "pos2 < ?n")
    case False
    then have done_: "get_compare lib log key pos2 iter = Some (SPARKEY_SUCCESS, True, iter)"
      by (subst get_compare.simps) simp
    have "unat pos2 = length key" using False n less.prems(3) by (simp add: word_less_nat_alt)
    then have "take (unat pos2) key = key" "take (unat pos2) ?k = ?k" "drop (unat pos2) ?k = []" using less.prems(2) by simp_all
    moreover have "key = ?k" using less.prems(4) unfolding calculation(1,2) .
    ultimately show ?thesis
      using less.prems(1) done_ by (intro exI [of _ iter] exI [of _ "[]"]) simp
  next
    case True
    then have lt: "unat pos2 < length key" using n by (simp add: word_less_nat_alt)
    obtain m mem iter1 where c: "sparkey_logiter_keychunk lib iter log ?n = Some (SPARKEY_SUCCESS, m, mem, iter1)"
      "chunk_of ?n (drop (unat pos2) ?k) m mem" "active lib log iter1 e es (drop (unat m) (drop (unat pos2) ?k)) rv"
      by (rule keychunk_active [OF ok less.prems(1)])
    have "?n > 0" using lt n by (simp only: word_less_nat_alt unat_0)
    then have m: "unat m \<le> length key - unat pos2" "0 < unat m" "unat m \<le> length mem"
      "take (unat m) mem = take (unat m) (drop (unat pos2) ?k)"
      using c(2) lt less.prems(2) by (auto simp: chunk_of_def unat_gt_0)
    let ?x = "take (unat m) (drop (unat pos2) key)" and ?y = "take (unat m) mem"
    have lxy: "length ?x = length ?y" using m(1,3) by simp
    have step: "get_compare lib log key pos2 iter =
      (if memcmp ?x ?y \<noteq> 0 then Some (SPARKEY_SUCCESS, False, iter1) else get_compare lib log key (pos2 + m) iter1)"
      using True c(1) m(1,3) by (subst get_compare.simps) simp
    have sum: "unat (pos2 + m) = unat pos2 + unat m" using m(1) lt len by (simp add: unat_add_u64)
    show ?thesis
    proof (cases "memcmp ?x ?y = 0")
      case False
      have "?x \<noteq> ?y" using False key_compare_eq_0 [of ?x ?y] memcmp_nonzero [OF lxy False, of "[]" "[]"] by force
      then have "key \<noteq> ?k" unfolding m(4) by blast
      then show ?thesis
        using step False c(3) by (intro exI [of _ iter1] exI [of _ "drop (unat m) (drop (unat pos2) ?k)"]) simp
    next
      case True
      then have "?x = take (unat m) (drop (unat pos2) ?k)" using memcmp_zero [OF lxy] m(4) by simp
      then have "take (unat (pos2 + m)) key = take (unat (pos2 + m)) ?k"
        using less.prems(4) by (simp add: sum take_add)
      moreover have "active lib log iter1 e es (drop (unat (pos2 + m)) ?k) rv"
        using c(3) unfolding sum drop_drop by (simp only: add.commute)
      moreover have "length key - unat (pos2 + m) < length key - unat pos2" "unat (pos2 + m) \<le> length key"
        using m(1,2) lt by (simp_all add: sum)
      ultimately have "\<exists>iter' rk. get_compare lib log key (pos2 + m) iter1 = Some (SPARKEY_SUCCESS, key = ?k, iter')
          \<and> active lib log iter' e es rk rv \<and> (key = ?k \<longrightarrow> rk = [])"
        using less.hyps less.prems(2) by blast
      then show ?thesis unfolding step using True by simp
    qed
  qed
qed

lemma get_match_stored:
  assumes ok: "reader_ok lib log" and ad: "addresses_ok h log" and st: "stored lib log h (PutEntry k v) es p"
    and it: "iter_at lib log iter cur rest" and len: "length key < 2 ^ 63"
  obtains iter' rk where
    "get_match lib log key (drop_bit (block_bits h) p) (entry_index h p) iter = Some (SPARKEY_SUCCESS, key = k, iter')"
    "active lib log iter' (PutEntry k v) es rk v" "key = k \<longrightarrow> rk = []"
proof -
  obtain i1 i2 i3 where s: "sparkey_logiter_seek lib iter log (drop_bit (block_bits h) p) = Some (SPARKEY_SUCCESS, i1)"
    "sparkey_logiter_skip lib i1 log (entry_index h p) = Some (SPARKEY_SUCCESS, i2)"
    "sparkey_logiter_next lib i2 log = Some (SPARKEY_SUCCESS, i3)"
    "active lib log i3 (PutEntry k v) es (entry_key (PutEntry k v)) (entry_value (PutEntry k v))"
    by (rule seek_stored [OF ok ad st it])
  have ty: "it_type i3 = SPARKEY_ENTRY_PUT" "it_keylen i3 = of_nat (length k)" using s(4) by (simp_all add: active_def)
  have run: "get_match lib log key (drop_bit (block_bits h) p) (entry_index h p) iter =
    (if of_nat (length key) = it_keylen i3 then get_compare lib log key 0 i3 else Some (SPARKEY_SUCCESS, False, i3))"
    using s(1-3) ty by (simp add: get_match_def Let_def)
  show thesis
  proof (cases "length key = length k")
    case True
    then have "\<exists>iter' rk. get_compare lib log key 0 i3 = Some (SPARKEY_SUCCESS, key = k, iter')
        \<and> active lib log iter' (PutEntry k v) es rk v \<and> (key = k \<longrightarrow> rk = [])"
      using get_compare_active [OF ok len, of i3 "PutEntry k v" es 0 v] s(4) by simp
    then obtain iter' rk where "get_compare lib log key 0 i3 = Some (SPARKEY_SUCCESS, key = k, iter')"
      "active lib log iter' (PutEntry k v) es rk v" "key = k \<longrightarrow> rk = []" by blast
    then show thesis using that [of iter' rk] run ty True by simp
  next
    case False
    have "length k < 2 ^ 63" using active_lengths(3) [OF s(4)] by simp
    then have "unat (of_nat (length key) :: u64) \<noteq> unat (of_nat (length k) :: u64)"
      using False len by (simp add: unat_of_nat_u64)
    then have "of_nat (length key) \<noteq> it_keylen i3" using ty(2) by metis
    moreover have "key \<noteq> k" using False by auto
    ultimately show thesis using that [of i3 k] run s(4) by simp
  qed
qed

section \<open>Looking up a key\<close>

text \<open>An open reader whose table represents a map.\<close>

definition reads_index :: "codec_lib \<Rightarrow> sparkey_hashreader \<Rightarrow> (bytes \<rightharpoonup> u64) \<Rightarrow> bool" where
  "reads_index lib reader M \<longleftrightarrow>
     hr_open_status reader = MAGIC_VALUE_HASHREADER \<and> reader_ok lib (hr_log reader)
     \<and> index_rep lib (hr_log reader) (hr_header reader) (reader_table reader) M"

text \<open>What a lookup does at a full slot.\<close>

definition get_probe ::
  "codec_lib \<Rightarrow> sparkey_hashreader \<Rightarrow> bytes \<Rightarrow> u64 \<Rightarrow> u64 \<times> u64 \<Rightarrow> sparkey_logiter \<Rightarrow> (bool \<times> sparkey_logiter) result" where
  "get_probe lib reader key a x iter =
     (if a = fst x
      then get_match lib (hr_log reader) key (drop_bit (block_bits (hr_header reader)) (snd x))
             (entry_index (hr_header reader) (snd x)) iter
      else Some (SPARKEY_SUCCESS, False, iter))"

lemma hash_get_loop_full:
  assumes h: "h = hr_header reader" "t = reader_table reader" and t: "table_ok h t"
    and s: "s < capacity h" "slots h t ! s = Some x" and d: "d \<le> capacity h"
    and c: "get_probe lib reader key a x iter = Some (SPARKEY_SUCCESS, found, iter')"
    and j: "j = succ_slot (capacity h) s"
  shows "hash_get_loop lib reader key a (of_nat s) (of_nat s * slot_size h) (of_nat d) iter =
    (if found then Some (SPARKEY_SUCCESS, iter')
     else if displacement (wanted h) (slots h t) s x < d then Some (SPARKEY_SUCCESS, iter'\<lparr>it_state := SPARKEY_ITER_INVALID\<rparr>)
     else hash_get_loop lib reader key a (of_nat j) (of_nat j * slot_size h) (of_nat (Suc d)) iter')"
proof -
  obtain a2 p2 where x: "x = (a2, p2)" by (cases x)
  have shape: "index_shape h" using t by (simp add: table_ok_def)
  note full = byte_store.peek_full [OF t _ s(2) [unfolded x], simplified, OF s(1)]
  note nx = next_slot_loop [OF shape s(1)]
  note cmp = displacement_compare [OF t s(1) d, of a2 p2]
  note c' = c [unfolded get_probe_def x fst_conv snd_conv, folded h(1)]
  show ?thesis
    unfolding x j
    by (subst hash_get_loop.simps)
      (use full(1,2) nx in \<open>auto simp: h [symmetric] c' cmp Let_def add.commute split: if_splits\<close>)
qed

text \<open>The result of a lookup: the iterator is on the entry of the key, behind its key, or invalid.\<close>

definition lookup_result ::
  "codec_lib \<Rightarrow> sparkey_logreader \<Rightarrow> sparkey_hashheader \<Rightarrow> (bytes \<rightharpoonup> u64) \<Rightarrow> bytes \<Rightarrow> sparkey_logiter \<Rightarrow> bool" where
  "lookup_result lib log h M key iter \<longleftrightarrow>
     (case M key of
        Some p \<Rightarrow> \<exists>v es. stored lib log h (PutEntry key v) es p \<and> active lib log iter (PutEntry key v) es [] v
      | None \<Rightarrow> it_state iter = SPARKEY_ITER_INVALID \<and> (\<exists>cur rest. iter_at lib log iter cur rest))"

lemma get_probe_slot:
  assumes rd: "reads_index lib reader M" and k: "key_hash (hr_header reader) key = Some a" "length key < 2 ^ 63"
    and s: "s < capacity (hr_header reader)" "slots (hr_header reader) (reader_table reader) ! s = Some x"
    and it: "iter_at lib (hr_log reader) iter cur rest"
  obtains iter' cur' rest' where
    "get_probe lib reader key a x iter = Some (SPARKEY_SUCCESS, is_key (hr_header reader) M key x, iter')"
    "iter_at lib (hr_log reader) iter' cur' rest'"
    "is_key (hr_header reader) M key x \<longrightarrow> lookup_result lib (hr_log reader) (hr_header reader) M key iter'"
proof (cases "a = fst x")
  case False
  then have "\<not> is_key (hr_header reader) M key x" using is_key_hash [OF _ k(1), of M x] by auto
  then show thesis using that [of iter] False it by (simp add: get_probe_def)
next
  case True
  let ?h = "hr_header reader" let ?log = "hr_log reader"
  have ok: "reader_ok lib ?log" and r: "index_rep lib ?log ?h (reader_table reader) M" and ad: "addresses_ok ?h ?log"
    using rd by (auto simp: reads_index_def index_rep_def)
  obtain k' where k': "k' \<in> dom M" "x = item_of ?h M k'" "indexed lib ?log ?h k' (snd x)"
    by (rule index_rep_item [OF r s])
  then obtain v es where st: "stored lib ?log ?h (PutEntry k' v) es (snd x)" unfolding indexed_stored by blast
  obtain iter' rk where m: "get_match lib ?log key (drop_bit (block_bits ?h) (snd x)) (entry_index ?h (snd x)) iter
      = Some (SPARKEY_SUCCESS, key = k', iter')"
    "active lib ?log iter' (PutEntry k' v) es rk v" "key = k' \<longrightarrow> rk = []"
    by (rule get_match_stored [OF ok ad st it k(2)])
  have iff: "is_key ?h M key x \<longleftrightarrow> key = k'"
  proof
    assume "is_key ?h M key x"
    then have "k \<in> dom M \<Longrightarrow> stored lib ?log ?h (PutEntry key v') es' (snd x) \<Longrightarrow> key = k'" for k v' es'
      using stored_unique(1) [OF ok ad it st] by blast
    moreover have "indexed lib ?log ?h key (snd x)"
      using \<open>is_key ?h M key x\<close> r by (auto simp: is_key_def item_of_def index_rep_def)
    ultimately show "key = k'" using k'(1) unfolding indexed_stored by blast
  qed (use k' in \<open>simp add: is_key_def\<close>)
  obtain cur' rest' where it': "iter_at lib ?log iter' cur' rest'" using active_iter_at [OF m(2)] by blast
  have "lookup_result lib ?log ?h M key iter'" if "is_key ?h M key x"
  proof -
    have "key = k'" "M key = Some (snd x)" using that iff by (auto simp: is_key_def item_of_def)
    then show ?thesis using st m(2,3) unfolding lookup_result_def by fastforce
  qed
  moreover have "get_probe lib reader key a x iter = Some (SPARKEY_SUCCESS, is_key ?h M key x, iter')"
    using m(1) True iff by (simp add: get_probe_def)
  ultimately show thesis using that it' by blast
qed

lemma hash_get_walk:
  assumes rd: "reads_index lib reader M" and k: "key_hash (hr_header reader) key = Some a" "length key < 2 ^ 63"
    and h: "h = hr_header reader" "t = reader_table reader"
    and "s < capacity h" "d \<le> capacity h" "iter_at lib (hr_log reader) iter cur rest"
  shows "\<exists>iter'. hash_get_loop lib reader key a (of_nat s) (of_nat s * slot_size h) (of_nat d) iter = Some (SPARKEY_SUCCESS, iter')
    \<and> (if rh_find (wanted h) (is_key h M key) (slots h t) s d = None
       then it_state iter' = SPARKEY_ITER_INVALID \<and> (\<exists>cur rest. iter_at lib (hr_log reader) iter' cur rest)
       else lookup_result lib (hr_log reader) h M key iter')"
  using assms(6-)
proof (induction "Suc (capacity h) - d" arbitrary: s d iter cur rest rule: less_induct)
  case less
  have t: "table_ok h t" using rd h by (simp add: reads_index_def index_rep_def)
  have inv: "iter_at lib (hr_log reader) (i\<lparr>it_state := SPARKEY_ITER_INVALID\<rparr>) cur' rest'"
    if "iter_at lib (hr_log reader) i cur' rest'" for i cur' rest'
    using that by (simp add: iter_at_def)
  show ?case
  proof (cases "slots h t ! s")
    case None
    obtain a2 where "read_slot h t (of_nat s * slot_size h) = Some (a2, 0)"
      using byte_store.peek_empty [OF t _ None] less.prems(1) by auto
    then have "hash_get_loop lib reader key a (of_nat s) (of_nat s * slot_size h) (of_nat d) iter
        = Some (SPARKEY_SUCCESS, iter\<lparr>it_state := SPARKEY_ITER_INVALID\<rparr>)"
      unfolding h by (subst hash_get_loop.simps) simp
    moreover have "\<exists>cur rest. iter_at lib (hr_log reader) (iter\<lparr>it_state := SPARKEY_ITER_INVALID\<rparr>) cur rest"
      using inv [OF less.prems(3)] by blast
    ultimately show ?thesis using None less.prems(1) by (simp add: rh_find_empty)
  next
    case (Some x)
    obtain iter' cur' rest' where c: "get_probe lib reader key a x iter = Some (SPARKEY_SUCCESS, is_key h M key x, iter')"
      "iter_at lib (hr_log reader) iter' cur' rest'" "is_key h M key x \<longrightarrow> lookup_result lib (hr_log reader) h M key iter'"
      by (rule get_probe_slot [OF rd k _ _ less.prems(3), folded h, OF less.prems(1) Some])
    note step = hash_get_loop_full [OF h t less.prems(1) Some less.prems(2) c(1) refl]
    note find = rh_find_full [of s "slots h t", simplified, OF less.prems(1,2) Some]
    have dl: "displacement (wanted h) (slots h t) s x < capacity h" by (rule displacement_less [OF t less.prems(1)])
    consider "is_key h M key x" | "\<not> is_key h M key x" "displacement (wanted h) (slots h t) s x < d"
      | "\<not> is_key h M key x" "\<not> displacement (wanted h) (slots h t) s x < d" by blast
    then show ?thesis
    proof cases
      case 1
      then show ?thesis using c(3) by (intro exI [of _ iter']) (simp add: step find)
    next
      case 2
      have "\<exists>cur rest. iter_at lib (hr_log reader) (iter'\<lparr>it_state := SPARKEY_ITER_INVALID\<rparr>) cur rest"
        using inv [OF c(2)] by blast
      then show ?thesis
        using 2 by (intro exI [of _ "iter'\<lparr>it_state := SPARKEY_ITER_INVALID\<rparr>"]) (simp add: step find)
    next
      case 3
      let ?j = "succ_slot (capacity h) s"
      have "Suc (capacity h) - Suc d < Suc (capacity h) - d" "?j < capacity h" "Suc d \<le> capacity h"
        using 3 dl less.prems(1,2) by auto
      from less.hyps [OF this c(2)] 3 show ?thesis unfolding step find by simp
    qed
  qed
qed

text \<open>A lookup ends without an error, with the entry of the key or with an invalid iterator.\<close>

lemma hash_get_lookup:
  assumes rd: "reads_index lib reader M" and k: "key_hash (hr_header reader) key = Some a" "length key < 2 ^ 63"
    and it: "iter_at lib (hr_log reader) iter cur rest"
  obtains iter' where "sparkey_hash_get lib reader key iter = Some (SPARKEY_SUCCESS, iter')"
    "lookup_result lib (hr_log reader) (hr_header reader) M key iter'"
proof -
  let ?h = "hr_header reader" let ?s = "unat (a mod hh_hash_capacity ?h)"
  have r: "index_rep lib (hr_log reader) ?h (reader_table reader) M" and shape: "index_shape ?h"
    and op: "assert_reader_open reader = SPARKEY_SUCCESS"
    using rd by (auto simp: reads_index_def index_rep_def table_ok_def assert_reader_open_def)
  have s: "?s < capacity ?h" using wanted_less [OF shape, of "(a, 0)"] by (simp add: wanted_def)
  have run: "sparkey_hash_get lib reader key iter
      = hash_get_loop lib reader key a (of_nat ?s) (of_nat ?s * slot_size ?h) (of_nat 0) iter"
    using op k(1) capacity_pos [OF shape] by (simp add: sparkey_hash_get_def key_hash_def Let_def unat_gt_0)
  from hash_get_walk [OF rd k refl refl s _ it, of 0] obtain iter' where
    get: "sparkey_hash_get lib reader key iter = Some (SPARKEY_SUCCESS, iter')"
    and res: "if rh_find (wanted ?h) (is_key ?h M key) (slots ?h (reader_table reader)) ?s 0 = None
       then it_state iter' = SPARKEY_ITER_INVALID \<and> (\<exists>cur rest. iter_at lib (hr_log reader) iter' cur rest)
       else lookup_result lib (hr_log reader) ?h M key iter'"
    unfolding run by blast
  have "lookup_result lib (hr_log reader) ?h M key iter'"
    using res find_key_iff [OF r k(1)] by (cases "M key") (simp_all add: lookup_result_def)
  then show thesis using that get by blast
qed

end
