(* ===== verification/IndexBuild.thy ===== *)
theory IndexBuild
  imports HashBuild HashLookup
begin

text \<open>
  Building an index: going through the entries of a log, \<open>index_loop\<close> keeps a table that represents the
  map from every live key to the address of its last put.
\<close>

section \<open>The map of a log\<close>

definition apply_entry :: "(bytes \<rightharpoonup> bytes) \<Rightarrow> log_entry \<Rightarrow> (bytes \<rightharpoonup> bytes)" where
  "apply_entry m e = (case e of PutEntry k v \<Rightarrow> m(k \<mapsto> v) | DeleteEntry k \<Rightarrow> m(k := None))"

definition log_map :: "log_entry list \<Rightarrow> (bytes \<rightharpoonup> bytes)" where
  "log_map es = foldl apply_entry Map.empty es"

lemma log_map_simps [simp]: "log_map [] = Map.empty" "log_map (es @ [e]) = apply_entry (log_map es) e"
  by (simp_all add: log_map_def)

lemma dom_apply_entry: "dom (apply_entry m e) = (if is_put e then insert (entry_key e) (dom m) else dom m - {entry_key e})"
  by (cases e) (auto simp: apply_entry_def)

lemma log_map_behind:
  assumes "\<forall>e \<in> set d2. entry_key e \<noteq> k"
  shows "log_map (d1 @ PutEntry k v # d2) k = Some v"
  using assms
proof (induction d2 rule: rev_induct)
  case Nil
  then show ?case by (simp add: apply_entry_def)
next
  case (snoc e d2)
  then have "log_map (d1 @ PutEntry k v # d2) k = Some v" "entry_key e \<noteq> k" by simp_all
  then show ?case
    using log_map_simps(2) [of "d1 @ PutEntry k v # d2" e] by (cases e) (auto simp: apply_entry_def)
qed

lemma finite_log_map: "finite (dom (log_map es))"
  by (induction es rule: rev_induct) (simp_all add: dom_apply_entry)

lemma card_log_map: "card (dom (log_map es)) \<le> length (filter is_put es)"
proof (induction es rule: rev_induct)
  case (snoc e es)
  show ?case
  proof (cases "is_put e")
    case True
    then show ?thesis
      using snoc card_insert_le_m1 [of "Suc (length (filter is_put es))" "dom (log_map es)" "entry_key e"]
      by (simp add: dom_apply_entry)
  next
    case False
    have "card (dom (log_map es) - {entry_key e}) \<le> card (dom (log_map es))"
      by (rule card_mono [OF finite_log_map]) blast
    then show ?thesis using False snoc by (simp add: dom_apply_entry)
  qed
qed simp

section \<open>The hash of the current key\<close>

lemma key_hash_total:
  assumes "index_shape h" "length k < 2 ^ 31"
  obtains a where "key_hash h k = Some a" "hh_hash_size h = 4 \<longrightarrow> unat a < 2 ^ 32"
  using murmurhash32_total [OF assms(2), of "hh_hash_seed h"] murmurhash64_total [OF assms(2), of "hh_hash_seed h"] assms(1)
  by (auto simp: index_shape_def key_hash_def sparkey_get_hash_algorithm_def)

lemma iter_hash_active:
  assumes ok: "reader_ok lib log" and a: "active lib log iter e es (entry_key e) rv" and len: "length (entry_key e) < 2 ^ 31"
    and os: "os_mallocs os = []" and k: "key_hash h (entry_key e) = Some a"
  obtains iter' where "sparkey_iter_hash lib h os iter log = Some (a, os, iter')" "active lib log iter' e es [] rv"
proof -
  let ?k = "entry_key e"
  have alg: "alg_hash (hh_hash_algorithm h) ?k (hh_hash_seed h) = Some a" using k by (simp add: key_hash_def)
  obtain m mem iter1 where c: "sparkey_logiter_keychunk lib iter log key_chunk_max = Some (SPARKEY_SUCCESS, m, mem, iter1)"
    "chunk_of key_chunk_max ?k m mem" "active lib log iter1 e es (drop (unat m) ?k) rv"
    by (rule keychunk_active [OF ok a])
  have kl: "it_keylen iter1 = of_nat (length ?k)" using c(3) by (simp add: active_def)
  have un: "unat (of_nat (length ?k) :: u64) = length ?k" using len by (intro unat_of_nat_u64) simp
  have m: "unat m \<le> length ?k" "unat m \<le> length mem" "take (unat m) mem = take (unat m) ?k"
    using c(2) by (simp_all add: chunk_of_def)
  show thesis
  proof (cases "m = it_keylen iter1")
    case True
    then have um: "unat m = length ?k" using kl un by simp
    then have "take (unat m) mem = ?k" unfolding m(3) by simp
    then have "sparkey_iter_hash lib h os iter log = Some (a, os, iter1)"
      using c(1) True m(2) alg by (simp add: sparkey_iter_hash_def)
    then show thesis using that c(3) um by simp
  next
    case False
    obtain iter2 where f: "sparkey_logiter_fill_key lib iter1 log key_chunk_max
        = Some (SPARKEY_SUCCESS, take (unat key_chunk_max) (drop (unat m) ?k), iter2)"
      "active lib log iter2 e es (drop (unat key_chunk_max) (drop (unat m) ?k)) rv"
      by (rule fill_key_active [OF ok c(3)])
    have "unat key_chunk_max = 18446744071562067968" by (simp add: key_chunk_max_def)
    then have all: "length (drop (unat m) ?k) \<le> unat key_chunk_max" using len by simp
    note f' = f [unfolded take_all [OF all] drop_all [OF all]]
    have kl2: "it_keylen iter2 = of_nat (length ?k)" using f'(2) by (simp add: active_def)
    have sum: "m + of_nat (length (drop (unat m) ?k)) = it_keylen iter2"
      unfolding kl2 using m(1) of_nat_unat_u64 [of m] by (metis le_add_diff_inverse length_drop of_nat_add)
    have whole: "take (unat m) mem @ drop (unat m) ?k = ?k" unfolding m(3) by simp
    have "sparkey_iter_hash lib h os iter log = Some (a, os, iter2)"
      using c(1) False m(2) os f'(1) sum alg whole
      by (simp add: sparkey_iter_hash_def os_malloc_def)
    then show thesis using that f'(2) by simp
  qed
qed

section \<open>Indexing one entry\<close>

lemma entry_at_bounds:
  assumes ok: "reader_ok lib log" and e: "entry_at lib log p idx e es"
  shows "84 \<le> unat p" "p < lh_data_end (lr_header log)"
proof -
  from e obtain g bl rg where g: "group_at lib log p g bl rg" by (auto simp: entry_at_def)
  then have ga: "blocks_at lib log p (bl @ concat (map snd rg))" "bl \<noteq> []"
    using group_at_simps(1,2) [OF g] by (simp_all add: group_layout_def)
  then show "84 \<le> unat p" by (simp add: blocks_at_def)
  have de: "unat (lh_data_end (lr_header log)) = length (lr_data log)"
    using ok by (simp add: reader_ok_def unat_of_nat_u64)
  have "unat p \<noteq> length (lr_data log)"
    using ga by (cases bl) (auto simp: blocks_at_def split: option.splits)
  then show "p < lh_data_end (lr_header log)"
    using ga(1) de by (simp add: blocks_at_def word_less_nat_alt)
qed

lemma body_stored:
  assumes ok: "reader_ok lib log" and ad: "addresses_ok h log" and bd: "body_at lib log iter idx e es r"
    and c: "it_entry_count iter = of_nat idx" and z: "rtype log = SPARKEY_COMPRESSION_NONE \<Longrightarrow> idx = 0"
  shows "stored lib log h e es
    (push_bit (block_bits h) (it_entry_block_position iter) OR scast (it_entry_count iter))"
  unfolding stored_def
  using current_address [OF ad bd c z ok] entry_at_bounds [OF ok body_entry_at [OF bd]] body_entry_at [OF bd] z by blast

lemma stored_indexed:
  assumes ok: "reader_ok lib log" and ad: "addresses_ok h log" and shape: "index_shape h"
    and st: "stored lib log h (PutEntry k v) es p" and len: "length k < 2 ^ 31"
  shows "indexed lib log h k p"
proof -
  obtain a where a: "key_hash h k = Some a" "hh_hash_size h = 4 \<longrightarrow> unat a < 2 ^ 32"
    by (rule key_hash_total [OF shape len])
  have "hh_address_size h = 4 \<longrightarrow> unat p < 2 ^ 32"
    using st address_decode(4) [OF ad] by (fastforce simp: stored_def)
  then have "item_fits h (a, p)" using a(2) by (simp add: item_fits_def)
  then show ?thesis using st a(1) unfolding indexed_stored by blast
qed

text \<open>
  The state of the loop on the entry \<open>e\<close>: the iterator is on it, it has the address \<open>p\<close>, the table
  represents \<open>M\<close>.
\<close>

lemma index_entry_step:
  assumes ok: "reader_ok lib log" and r: "index_rep lib log h t M" and os: "os_mallocs os = []"
    and a: "active lib log iter e es (entry_key e) (entry_value e)"
    and bd: "body_at lib log iter idx e es (entry_body e)" "it_entry_count iter = of_nat idx"
      "rtype log = SPARKEY_COMPRESSION_NONE \<Longrightarrow> idx = 0" "it_entry_block_position iter = it_block_position iter"
    and ra: "iter_at lib log ra_iter cur rest" and len: "length (entry_key e) < 2 ^ 31"
    and room: "is_put e \<Longrightarrow> M (entry_key e) = None \<Longrightarrow> card (dom M) < capacity h"
  obtains t' h' its' p where
    "index_entry lib log (os, t, h, iter, ra_iter) = Some (SPARKEY_SUCCESS, os, t', h', its')"
    "stored lib log h e es p" "index_rep lib log h t' (if is_put e then M(entry_key e \<mapsto> p) else M(entry_key e := None))"
    "same_index h h'" "iters_on lib log e es its'"
    "hh_num_entries h' = hh_num_entries h + (if is_put e then (if M (entry_key e) = None then 1 else 0)
       else if M (entry_key e) = None then 0 else - 1)"
proof -
  let ?p = "push_bit (block_bits h) (it_entry_block_position iter) OR scast (it_entry_count iter) :: u64"
  have shape: "index_shape h" and ad: "addresses_ok h log" using r by (auto simp: index_rep_def table_ok_def)
  obtain k where k: "key_hash h (entry_key e) = Some k" by (rule key_hash_total [OF shape len])
  have st: "stored lib log h e es ?p" by (rule body_stored [OF ok ad bd(1-3)])
  obtain iter1 where hash: "sparkey_iter_hash lib h os iter log = Some (k, os, iter1)"
    and a1: "active lib log iter1 e es [] (entry_value e)"
    by (rule iter_hash_active [OF ok a len os k])
  have ty: "it_type iter1 = (if is_put e then SPARKEY_ENTRY_PUT else SPARKEY_ENTRY_DELETE)"
    using a1 by (simp add: active_def)
  have its: "iters_on lib log e es (iter1, ra_iter)" using a1 ra unfolding iters_on_def by auto
  show thesis
  proof (cases "is_put e")
    case True
    then have "indexed lib log h (entry_key e) ?p"
      using stored_indexed [OF ok ad shape _ len] st by (cases e) auto
    then obtain t' h' its' where put: "hash_put lib (k mod hh_hash_capacity h) k t h (Some ((iter1, ra_iter), log)) ?p
        = Some (SPARKEY_SUCCESS, t', h', Some (its', log))"
      and res: "index_rep lib log h t' (M(entry_key e \<mapsto> ?p))" "same_index h h'" "iters_on lib log e es its'"
        "hh_num_entries h' = (if M (entry_key e) = None then hh_num_entries h + 1 else hh_num_entries h)"
      by (rule hash_put_rep [OF ok r k _ its]) (use room True in auto)
    have "index_entry lib log (os, t, h, iter, ra_iter) = Some (SPARKEY_SUCCESS, os, t', h', its')"
      using hash ty True put bd(4) by (simp add: index_entry_def Let_def)
    then show thesis by (rule that [OF _ st]) (use res True in simp_all)
  next
    case False
    let ?g = "h\<lparr>hh_garbage_size := hh_garbage_size h + (1 + unsigned_vlq_size (it_keylen iter1) + it_keylen iter1)\<rparr>"
    note g = same_index_simps [OF same_index_garbage]
    obtain t' h' its' where del: "hash_delete lib (k mod hh_hash_capacity ?g) k t ?g (iter1, ra_iter) log
        = Some (SPARKEY_SUCCESS, t', h', its')"
      and res: "index_rep lib log ?g t' (M(entry_key e := None))" "same_index ?g h'" "iters_on lib log e es its'"
        "hh_num_entries h' = (if M (entry_key e) = None then hh_num_entries ?g else hh_num_entries ?g - 1)"
      by (rule hash_delete_rep [OF ok _ _ its, of ?g t M k]) (use r k g in auto)
    have "index_entry lib log (os, t, h, iter, ra_iter) = Some (SPARKEY_SUCCESS, os, t', h', its')"
      using hash ty False del by (simp add: index_entry_def Let_def)
    moreover have "same_index h h'" by (rule same_index_trans [OF same_index_garbage res(2)])
    ultimately show thesis
      using that [OF _ st] res(1,3,4) False g(1) by simp
  qed
qed

section \<open>Indexing a log\<close>

text \<open>
  The table after the entries \<open>ds\<close>, with \<open>es\<close> still to come: \<open>M\<close> has the live keys, each with the address of
  its last put.
\<close>

definition indexes ::
  "codec_lib \<Rightarrow> sparkey_logreader \<Rightarrow> sparkey_hashheader \<Rightarrow> log_entry list \<Rightarrow> log_entry list \<Rightarrow> (bytes \<rightharpoonup> u64) \<Rightarrow> bool" where
  "indexes lib log h ds es M \<longleftrightarrow>
     dom M = dom (log_map ds)
     \<and> (\<forall>k p. M k = Some p \<longrightarrow> (\<exists>d1 v d2. ds = d1 @ PutEntry k v # d2 \<and> (\<forall>e \<in> set d2. entry_key e \<noteq> k)
          \<and> stored lib log h (PutEntry k v) (d2 @ es) p))"

lemma indexes_value: "indexes lib log h ds es M \<Longrightarrow> M k = Some p \<Longrightarrow>
    \<exists>d. stored lib log h (PutEntry k (the (log_map ds k))) (d @ es) p"
  unfolding indexes_def using log_map_behind by (metis option.sel)

lemma indexes_None: "indexes lib log h ds es M \<Longrightarrow> M k = None \<longleftrightarrow> log_map ds k = None"
  unfolding indexes_def by (metis domIff)

lemma indexes_start: "indexes lib log h [] es Map.empty"
  by (simp add: indexes_def)

lemma indexes_entry:
  assumes ix: "indexes lib log h ds (e # es) M" and st: "stored lib log h e es p"
  shows "indexes lib log h (ds @ [e]) es (if is_put e then M(entry_key e \<mapsto> p) else M(entry_key e := None))"
proof -
  let ?M = "if is_put e then M(entry_key e \<mapsto> p) else M(entry_key e := None)"
  have "dom ?M = dom (log_map (ds @ [e]))" using ix by (auto simp: indexes_def dom_apply_entry)
  moreover have "\<exists>d1 v d2. ds @ [e] = d1 @ PutEntry k v # d2 \<and> (\<forall>e \<in> set d2. entry_key e \<noteq> k)
      \<and> stored lib log h (PutEntry k v) (d2 @ es) q" if q: "?M k = Some q" for k q
  proof (cases "k = entry_key e")
    case True
    then have "is_put e" "q = p" using q by (auto split: if_splits)
    then obtain v where "e = PutEntry k v" using True by (cases e) auto
    then show ?thesis
      using st \<open>q = p\<close> by (intro exI [of _ ds] exI [of _ v] exI [of _ "[]"]) simp
  next
    case False
    then have "M k = Some q" using q by (simp split: if_splits)
    then obtain d1 v d2 where d: "ds = d1 @ PutEntry k v # d2" "\<forall>e \<in> set d2. entry_key e \<noteq> k"
      "stored lib log h (PutEntry k v) (d2 @ e # es) q"
      using ix unfolding indexes_def by blast
    then show ?thesis
      using False by (intro exI [of _ d1] exI [of _ v] exI [of _ "d2 @ [e]"]) simp
  qed
  ultimately show ?thesis unfolding indexes_def by blast
qed

lemma same_index_stored:
  assumes "same_index h h'"
  shows "stored lib log h' = stored lib log h" "indexes lib log h' = indexes lib log h"
proof -
  show st: "stored lib log h' = stored lib log h"
    by (intro ext) (simp add: stored_def address_def same_index_simps [OF assms])
  show "indexes lib log h' = indexes lib log h" by (intro ext) (simp add: indexes_def st)
qed

lemma card_apply_entry:
  assumes "finite (dom m)"
  shows "of_nat (card (dom (apply_entry m e))) = (of_nat (card (dom m)) + (if is_put e then (if m (entry_key e) = None then 1 else 0)
       else if m (entry_key e) = None then 0 else - 1) :: u64)"
proof (cases "entry_key e \<in> dom m")
  case True
  then have "card (dom m) = Suc (card (dom m - {entry_key e}))" using assms by (metis card.remove)
  then show ?thesis using True by (auto simp: dom_apply_entry insert_absorb)
next
  case False
  then show ?thesis using assms by (auto simp: dom_apply_entry)
qed

text \<open>One round of the loop.\<close>

lemma index_loop_step:
  assumes ok: "reader_ok lib log" and os: "os_mallocs os = []"
    and rep: "index_rep lib log h t M" and ix: "indexes lib log h ds (e # es) M"
    and at: "before lib log iter (e # es)" "iter_at lib log ra_iter cur rest"
    and len: "length (entry_key e) < 2 ^ 31" and room: "is_put e \<Longrightarrow> M (entry_key e) = None \<Longrightarrow> card (dom M) < capacity h"
  obtains t' h' M' iter2 ra2 cur' rest' where
    "index_loop lib log (os, t, h, iter, ra_iter) = index_loop lib log (os, t', h', iter2, ra2)"
    "same_index h h'" "index_rep lib log h' t' M'" "indexes lib log h' (ds @ [e]) es M'"
    "before lib log iter2 es" "iter_at lib log ra2 cur' rest'"
    "hh_num_entries h = of_nat (card (dom (log_map ds))) \<Longrightarrow> hh_num_entries h' = of_nat (card (dom (log_map (ds @ [e]))))"
proof -
  obtain iter1 idx where n: "sparkey_logiter_next lib iter log = Some (SPARKEY_SUCCESS, iter1)"
    and a: "active lib log iter1 e es (entry_key e) (entry_value e)"
    and bd: "body_at lib log iter1 idx e es (entry_body e)" "it_entry_count iter1 = of_nat idx"
      "rtype log = SPARKEY_COMPRESSION_NONE \<longrightarrow> idx = 0" "it_entry_block_position iter1 = it_block_position iter1"
    by (rule logiter_next_entry [OF ok at(1)]) blast
  obtain t' h' its' p where st: "index_entry lib log (os, t, h, iter1, ra_iter) = Some (SPARKEY_SUCCESS, os, t', h', its')"
    "stored lib log h e es p" "index_rep lib log h t' (if is_put e then M(entry_key e \<mapsto> p) else M(entry_key e := None))"
    "same_index h h'" "iters_on lib log e es its'"
    "hh_num_entries h' = hh_num_entries h + (if is_put e then (if M (entry_key e) = None then 1 else 0)
       else if M (entry_key e) = None then 0 else - 1)"
    by (rule index_entry_step [OF ok rep os a bd(1,2) _ bd(4) at(2)]) (use len bd(3) room in auto)
  obtain iter2 ra2 where its: "its' = (iter2, ra2)" by (cases its')
  obtain rk rv cur' rest' where on: "active lib log iter2 e es rk rv" "iter_at lib log ra2 cur' rest'"
    using st(5) unfolding iters_on_def its by auto
  note same = same_index_simps [OF st(4)] same_index_stored [OF st(4)]
  have run: "index_loop lib log (os, t, h, iter, ra_iter) = index_loop lib log (os, t', h', iter2, ra2)"
    using n st(1) active_state [OF a] its by (subst index_loop.simps) simp
  have "indexes lib log h' (ds @ [e]) es (if is_put e then M(entry_key e \<mapsto> p) else M(entry_key e := None))"
    using indexes_entry [OF ix st(2)] same by simp
  moreover have "hh_num_entries h' = of_nat (card (dom (log_map (ds @ [e]))))"
    if "hh_num_entries h = of_nat (card (dom (log_map ds)))"
    using st(6) card_apply_entry [OF finite_log_map, of ds e] indexes_None [OF ix] that by simp
  ultimately show thesis using that [OF run st(4) _ _ active_before [OF on(1)] on(2)] st(3) same by simp
qed

lemma index_loop_all:
  assumes ok: "reader_ok lib log" and os: "os_mallocs os = []"
    and "index_rep lib log h t M" "indexes lib log h ds es M" "before lib log iter es" "iter_at lib log ra_iter cur rest"
    and "\<forall>e \<in> set es. length (entry_key e) < 2 ^ 31" "card (dom (log_map ds)) + length (filter is_put es) \<le> capacity h"
    and "hh_num_entries h = of_nat (card (dom (log_map ds)))"
  shows "\<exists>t' h' its' M'. index_loop lib log (os, t, h, iter, ra_iter) = Some (SPARKEY_SUCCESS, os, t', h', its')
    \<and> same_index h h' \<and> index_rep lib log h t' M' \<and> indexes lib log h (ds @ es) [] M'
    \<and> hh_num_entries h' = of_nat (card (dom (log_map (ds @ es))))"
  using assms(3-)
proof (induction es arbitrary: t h M ds iter ra_iter cur rest)
  case Nil
  obtain iter' where "sparkey_logiter_next lib iter log = Some (SPARKEY_SUCCESS, iter')" "it_state iter' = SPARKEY_ITER_CLOSED"
    by (rule logiter_next_end [OF ok Nil.prems(3)])
  then have "index_loop lib log (os, t, h, iter, ra_iter) = Some (SPARKEY_SUCCESS, os, t, h, iter', ra_iter)"
    by (subst index_loop.simps) simp
  then show ?case using Nil.prems(1,2,7) same_index_refl by (metis append_Nil2)
next
  case (Cons e es)
  have card: "card (dom M) = card (dom (log_map ds))" using Cons.prems(2) by (simp add: indexes_def)
  obtain t1 h1 M1 iter1 ra1 cur1 rest1 where st:
    "index_loop lib log (os, t, h, iter, ra_iter) = index_loop lib log (os, t1, h1, iter1, ra1)"
    "same_index h h1" "index_rep lib log h1 t1 M1" "indexes lib log h1 (ds @ [e]) es M1"
    "before lib log iter1 es" "iter_at lib log ra1 cur1 rest1"
    "hh_num_entries h = of_nat (card (dom (log_map ds))) \<Longrightarrow> hh_num_entries h1 = of_nat (card (dom (log_map (ds @ [e]))))"
    by (rule index_loop_step [OF ok os Cons.prems(1-4)]) (use Cons.prems(5,6) card in auto)
  note same = same_index_simps [OF st(2)] same_index_stored [OF st(2)]
  have "card (dom (log_map (ds @ [e]))) \<le> card (dom (log_map ds)) + (if is_put e then 1 else 0)"
    using card_insert_le_m1 [of "Suc (card (dom (log_map ds)))" "dom (log_map ds)" "entry_key e"]
      card_mono [OF finite_log_map [of ds], of "dom (log_map ds) - {entry_key e}"] by (auto simp: dom_apply_entry)
  then have "card (dom (log_map (ds @ [e]))) + length (filter is_put es) \<le> capacity h1"
    using Cons.prems(6) same by (simp split: if_splits)
  from Cons.IH [OF st(3-6) _ this st(7)] obtain t' h' its' M' where
    "index_loop lib log (os, t1, h1, iter1, ra1) = Some (SPARKEY_SUCCESS, os, t', h', its')"
    "same_index h1 h'" "index_rep lib log h t' M'" "indexes lib log h (ds @ e # es) [] M'"
    "hh_num_entries h' = of_nat (card (dom (log_map (ds @ e # es))))"
    using Cons.prems(5,7) unfolding same by auto
  moreover have "same_index h h'" by (rule same_index_trans [OF st(2) calculation(2)])
  ultimately show ?case using st(1) by auto
qed

end
