(* ===== verification/IndexHeader.thy ===== *)
theory IndexHeader
  imports IndexBuild
begin

text \<open>
  The header \<open>sparkey_hash_write\<close> starts with: its capacity has room for all puts of the log, and its
  address size and entry bits have room for every address of the log.
\<close>

section \<open>Bits of a number\<close>

declare int_log2_loop.simps [simp del]

lemma int_log2_loop_bits:
  assumes "unat x < 2 ^ n" "unat c + n < 2 ^ 32"
  shows "\<exists>m. int_log2_loop x c = c + of_nat m \<and> m \<le> n \<and> unat x < 2 ^ m \<and> 2 ^ m \<le> 2 * unat x + 1"
  using assms
proof (induction n arbitrary: x c)
  case 0
  then have "x = 0" by (simp add: word_unat_eq_iff)
  then show ?case by (intro exI [of _ 0]) (simp add: int_log2_loop.simps)
next
  case (Suc n)
  show ?case
  proof (cases "x > 0")
    case False
    then have "x = 0" by (simp add: word_less_nat_alt unat_eq_0)
    then show ?thesis by (intro exI [of _ 0]) (simp add: int_log2_loop.simps)
  next
    case True
    have half: "unat (drop_bit 1 x) = unat x div 2" by (simp add: drop_bit_eq_div unat_div)
    have c1: "unat (c + 1) = unat c + 1" using Suc.prems(2) by (simp add: unat_plus_if' )
    have lt: "unat (drop_bit 1 x) < 2 ^ n" using Suc.prems(1) unfolding half by simp
    have c2: "unat (c + 1) + n < 2 ^ 32" using c1 Suc.prems(2) by simp
    obtain m where m: "int_log2_loop (drop_bit 1 x) (c + 1) = c + 1 + of_nat m" "m \<le> n" "unat (drop_bit 1 x) < 2 ^ m"
      "2 ^ m \<le> 2 * unat (drop_bit 1 x) + 1"
      using Suc.IH [OF lt c2] by blast
    have x0: "0 < unat x" using True by (simp add: word_less_nat_alt)
    have "int_log2_loop x c = c + of_nat (Suc m)"
      using True m(1) by (subst int_log2_loop.simps) (simp add: ac_simps)
    moreover have "unat x < 2 ^ Suc m" using m(3) half by simp
    moreover have "2 ^ Suc m \<le> 2 * unat x + 1"
    proof (cases m)
      case 0
      then show ?thesis using x0 by simp
    next
      case (Suc k)
      have "even ((2::nat) ^ m)" using Suc by simp
      then have "2 ^ m \<le> 2 * (unat x div 2)" using m(4) half by presburger
      then show ?thesis by simp
    qed
    ultimately show ?thesis using m(2) by (intro exI [of _ "Suc m"]) simp
  qed
qed

text \<open>\<open>int_log2\<close> is the number of bits of its argument.\<close>

lemma int_log2_bits:
  assumes "unat x < 2 ^ 31"
  shows "unat (int_log2 x) \<le> 31" "unat x < 2 ^ unat (int_log2 x)" "2 ^ unat (int_log2 x) \<le> 2 * unat x + 1"
proof -
  obtain m where m: "int_log2 x = of_nat m" "m \<le> 31" "unat x < 2 ^ m" "2 ^ m \<le> 2 * unat x + 1"
    using int_log2_loop_bits [of x 31 0] assms by (auto simp: int_log2_def)
  have "unat (int_log2 x) = m" using m(1,2) by (simp add: unat_of_nat)
  then show "unat (int_log2 x) \<le> 31" "unat x < 2 ^ unat (int_log2 x)" "2 ^ unat (int_log2 x) \<le> 2 * unat x + 1"
    using m by simp_all
qed

section \<open>The capacity\<close>

lemma excess_bits_bound: "excess_bits n = 0 \<or> 2 ^ 52 * 2 ^ excess_bits n \<le> n"
proof (induction n rule: excess_bits.induct)
  case (1 n)
  show ?case
  proof (cases "n < 2 ^ 53")
    case True
    then show ?thesis by (subst excess_bits.simps) simp
  next
    case False
    let ?k = "excess_bits (n div 2)"
    have "2 ^ 52 * 2 ^ ?k \<le> n div 2"
    proof (cases "?k = 0")
      case True
      then show ?thesis using False by simp
    next
      case False
      then show ?thesis using 1 \<open>\<not> n < 2 ^ 53\<close> by auto
    qed
    then have "2 ^ 52 * 2 ^ Suc ?k \<le> n" by simp
    then show ?thesis using False by (subst (1 2) excess_bits.simps) simp
  qed
qed

text \<open>Rounding changes a number by less than a unit in the last of 53 places.\<close>

lemma round_bounds:
  fixes n :: nat
  defines "k \<equiv> excess_bits n"
  shows "n * (2 ^ 52 - 1) \<le> round_half_even n k * 2 ^ k * 2 ^ 52" "round_half_even n k * 2 ^ k \<le> 2 * n"
proof -
  let ?q = "round_half_even n k" let ?d = "(2::nat) ^ k"
  have n: "n = n div ?d * ?d + n mod ?d" by (rule div_mult_mod_eq [symmetric])
  have r: "n mod ?d < ?d" by simp
  have q: "?q = n div ?d \<or> (?q = n div ?d + 1 \<and> ?d \<le> 2 * (n mod ?d))"
    by (auto simp: round_half_even_def Let_def)
  show "n * (2 ^ 52 - 1) \<le> ?q * ?d * 2 ^ 52" and "?q * ?d \<le> 2 * n"
  proof (atomize (full), cases "k = 0")
    case True
    then have "?q = n" using q by auto
    then show "n * (2 ^ 52 - 1) \<le> ?q * ?d * 2 ^ 52 \<and> ?q * ?d \<le> 2 * n" using True by simp
  next
    case False
    then have d: "2 ^ 52 * ?d \<le> n" using excess_bits_bound [of n] by (simp add: k_def)
    have "?q * ?d = n div ?d * ?d \<or> ?q * ?d = n div ?d * ?d + ?d" using q by (auto simp: add_mult_distrib)
    then have lo: "n < ?q * ?d + ?d" and hi: "?q * ?d \<le> n + ?d" using n r by linarith+
    show "n * (2 ^ 52 - 1) \<le> ?q * ?d * 2 ^ 52 \<and> ?q * ?d \<le> 2 * n"
    proof
      have "n * 2 ^ 52 \<le> (?q * ?d + ?d) * 2 ^ 52" using lo by (intro mult_le_mono1) simp
      also have "\<dots> \<le> ?q * ?d * 2 ^ 52 + n" using d by (simp add: algebra_simps)
      finally show "n * (2 ^ 52 - 1) \<le> ?q * ?d * 2 ^ 52" by (simp add: algebra_simps)
      have "?d \<le> n" using d by simp
      then show "?q * ?d \<le> 2 * n" using hi by linarith
    qed
  qed
qed

lemma double_floor_scaled: "double_floor (q, - 52 + int k) = q * 2 ^ k div 2 ^ 52"
proof (cases "52 \<le> k")
  case True
  have e: "nat (- 52 + int k) = k - 52" using True by simp
  have "(2::nat) ^ k = 2 ^ (k - 52 + 52)" using True by (simp only: le_add_diff_inverse2)
  then have "(2::nat) ^ k = 2 ^ (k - 52) * 2 ^ 52" by (simp only: power_add)
  then have "q * 2 ^ k div 2 ^ 52 = q * 2 ^ (k - 52)" by simp
  then show ?thesis using True e by (simp add: double_floor_def)
next
  case False
  have e: "nat (- (- 52 + int k)) = 52 - k" using False by simp
  have "(2::nat) ^ 52 = 2 ^ (k + (52 - k))" using False by (simp only: le_add_diff_inverse not_le less_imp_le)
  then have e2: "(2::nat) ^ 52 = 2 ^ k * 2 ^ (52 - k)" by (simp only: power_add)
  have "q * 2 ^ k div 2 ^ 52 = q div 2 ^ (52 - k)"
    unfolding e2 by (metis div_mult2_eq mult.commute nonzero_mult_div_cancel_left power_not_zero zero_neq_numeral)
  then show ?thesis using False e by (simp add: double_floor_def)
qed

text \<open>There is room for all entries, and the capacity is not much larger than needed.\<close>

lemma hash_capacity_bounds:
  assumes "unat n < 2 ^ 53"
  obtains cap where "hash_capacity_for n = Some cap" "unat n \<le> unat cap" "0 < unat cap" "unat cap \<le> 3 * unat n + 1"
proof -
  let ?P = "unat n * 5854679515581645" let ?k = "excess_bits ?P" let ?q = "round_half_even ?P ?k"
  let ?f = "?q * 2 ^ ?k div 2 ^ 52"
  have "double_round (unat n) 0 = (unat n, 0)"
    using assms by (simp add: double_round_def excess_bits.simps [of "unat n"] round_half_even_def)
  then have fl: "double_floor (double_mult (double_round (unat n) 0) double_1_3) = ?f"
    using double_floor_scaled [of ?q ?k] by (simp add: double_mult_def double_1_3_def) (simp add: double_round_def)
  note b = round_bounds [of ?P]
  have "unat n * 2 ^ 52 * 2 ^ 52 \<le> ?P * (2 ^ 52 - 1)" by simp
  then have "unat n * 2 ^ 52 * 2 ^ 52 \<le> ?q * 2 ^ ?k * 2 ^ 52" using b(1) by linarith
  then have "unat n * 2 ^ 52 \<le> ?q * 2 ^ ?k" by (simp add: mult.commute)
  then have lo: "unat n \<le> ?f" by (metis div_le_mono nonzero_mult_div_cancel_right power_not_zero zero_neq_numeral)
  have "?q * 2 ^ ?k \<le> 3 * unat n * 2 ^ 52" using b(2) by simp
  then have hi: "?f \<le> 3 * unat n" by (metis div_le_mono nonzero_mult_div_cancel_right power_not_zero zero_neq_numeral)
  then have lt: "?f < 2 ^ 64" using assms by simp
  have cap: "hash_capacity_for n = Some (1 OR of_nat ?f)" using lt by (simp add: hash_capacity_for_def fl Let_def)
  have un: "unat (1 OR of_nat ?f :: u64) = (1 OR ?f)"
    using lt by (simp add: unsigned_or_eq unat_of_nat_u64)
  have "(1 OR ?f) = ?f + of_bool (even ?f)" by (rule one_or_eq)
  then have "unat n \<le> unat (1 OR of_nat ?f :: u64)" "0 < unat (1 OR of_nat ?f :: u64)" "unat (1 OR of_nat ?f :: u64) \<le> 3 * unat n + 1"
    using un lo hi by (auto elim: oddE)
  then show thesis using that cap by blast
qed

section \<open>The header\<close>

text \<open>A log whose addresses fit 64 bits, with a count of puts the doubles represent exactly.\<close>

definition log_indexable :: "sparkey_logheader \<Rightarrow> bool" where
  "log_indexable lh \<longleftrightarrow>
     unat (lh_num_puts lh) < 2 ^ 53 \<and> unat (lh_max_entries_per_block lh) < 2 ^ 31
     \<and> unat (lh_data_end lh) * (2 * unat (lh_max_entries_per_block lh) + 1) < 2 ^ 64"

lemma address_size_fits:
  assumes b: "b \<le> 31" and less: "e < push_bit (unat (32 - of_nat b :: u32)) (1 :: u64)"
  shows "unat e * 2 ^ b \<le> 2 ^ 32"
proof -
  have "unat (32 - of_nat b :: u32) = 32 - b" using b by (simp add: unat_sub word_le_nat_alt unat_of_nat)
  then have u: "unat (push_bit (unat (32 - of_nat b :: u32)) (1 :: u64)) = 2 ^ (32 - b)"
    using unat_push_bit_u64 [of 1 "32 - b"] power_increasing [of "32 - b" 32 "2 :: nat"] by simp
  have "unat e \<le> 2 ^ (32 - b)" using less u by (simp add: word_less_nat_alt)
  then have "unat e * 2 ^ b \<le> 2 ^ (32 - b) * 2 ^ b" by (rule mult_le_mono1)
  also have "\<dots> = 2 ^ 32" using b by (simp flip: power_add)
  finally show ?thesis .
qed

lemma index_header_ok:
  assumes ix: "log_indexable lh" and cap: "hash_capacity_for m = Some cap" "unat m < 2 ^ 53"
    and hs: "hash_size = 0 \<or> hash_size = 4 \<or> hash_size = 8" and log: "lr_header log = lh\<lparr>lh_header_size := n\<rparr>"
  obtains h where "index_header junk lh cap seed g old_hash_size hash_size = Inr h" "index_shape h" "addresses_ok h log"
    "unat m \<le> capacity h" "hh_num_entries h = 0" "hh_num_puts h = lh_num_puts lh"
    "hh_max_key_len h = lh_max_key_len lh" "hh_max_value_len h = lh_max_value_len lh"
proof -
  obtain cap' where "hash_capacity_for m = Some cap'" "unat m \<le> unat cap'" "0 < unat cap'"
    "unat cap' \<le> 3 * unat m + 1"
    by (rule hash_capacity_bounds [OF cap(2)])
  then have c: "unat m \<le> unat cap" "0 < cap" "16 * unat cap < 2 ^ 63"
    using cap by (auto simp: word_less_nat_alt)
  let ?b = "int_log2 (lh_max_entries_per_block lh)"
  note b = int_log2_bits [of "lh_max_entries_per_block lh"]
  have b': "unat ?b \<le> 31" "unat (lh_max_entries_per_block lh) \<le> 2 ^ unat ?b"
    "2 ^ unat ?b \<le> 2 * unat (lh_max_entries_per_block lh) + 1"
    using b ix by (auto simp: log_indexable_def)
  have "unat (lh_data_end lh) * 2 ^ unat ?b \<le> unat (lh_data_end lh) * (2 * unat (lh_max_entries_per_block lh) + 1)"
    using b'(3) by (rule mult_le_mono2)
  then have e: "unat (lh_data_end lh) * 2 ^ unat ?b < 2 ^ 64" using ix unfolding log_indexable_def by linarith
  have four: "unat (lh_data_end lh) * 2 ^ unat ?b \<le> 2 ^ 32" if "lh_data_end lh < push_bit (unat (32 - ?b)) 1"
    using address_size_fits [OF b'(1), of "lh_data_end lh"] that by simp
  obtain h where h: "index_header junk lh cap seed g old_hash_size hash_size = Inr h"
    using hs unfolding index_header_def Let_def by (elim disjE) simp_all
  have f: "hh_hash_size h = 4 \<or> hh_hash_size h = 8" "hh_address_size h = (if lh_data_end lh < push_bit (unat (32 - ?b)) 1 then 4 else 8)"
    "hh_hash_algorithm h = sparkey_get_hash_algorithm (hh_hash_size h)" "hh_hash_capacity h = cap" "hh_entry_block_bits h = ?b"
    "hh_entry_block_bitmask h = block_bitmask ?b" "hh_num_entries h = 0" "hh_num_puts h = lh_num_puts lh"
    "hh_max_key_len h = lh_max_key_len lh" "hh_max_value_len h = lh_max_value_len lh"
    using h hs unfolding index_header_def Let_def by (elim disjE; force)+
  have "index_shape h" using f c by (auto simp: index_shape_def)
  moreover have "addresses_ok h log"
    using f(2,5,6) b'(1,2) e four log by (auto simp: addresses_ok_def split: if_splits)
  ultimately show thesis using that h f c(1) by blast
qed

text \<open>The other fields, and when the size of the hashes is certain.\<close>

lemma index_header_fields:
  assumes "index_header junk lh cap seed g old_hash_size hash_size = Inr h"
  shows "hh_hash_capacity h = cap" "hh_hash_seed h = seed" "hh_hash_algorithm h = sparkey_get_hash_algorithm (hh_hash_size h)"
    "hh_hash_size h = (if hash_size \<noteq> 0 then hash_size else if old_hash_size = 8 \<or> push_bit 23 1 \<le> cap then 8 else 4)"
  using assms by (auto simp: index_header_def Let_def split: if_splits)

definition sure_hash_size :: "u32 \<Rightarrow> nat \<Rightarrow> bool" where
  "sure_hash_size hash_size puts \<longleftrightarrow> hash_size = 4 \<or> hash_size = 8 \<or> (hash_size = 0 \<and> 3 * puts + 1 < 2 ^ 23)"

lemma sure_hash_size:
  assumes "sure_hash_size hash_size puts" "hash_capacity_for m = Some cap" "unat m \<le> puts" "puts < 2 ^ 53"
    and "index_header junk lh cap seed g old_hash_size hash_size = Inr h"
    and "old_hash_size = 0 \<or> old_hash_size = (if hash_size = 0 then 4 else hash_size)"
  shows "hh_hash_size h = (if hash_size = 0 then 4 else hash_size)"
proof (cases "hash_size = 0")
  case True
  obtain cap' where "hash_capacity_for m = Some cap'" "unat cap' \<le> 3 * unat m + 1"
    by (rule hash_capacity_bounds [of m]) (use assms(3,4) in simp)
  then have "unat cap < 2 ^ 23" using assms(1-3) True by (simp add: sure_hash_size_def)
  then have "\<not> push_bit 23 1 \<le> cap" by (simp add: word_le_nat_alt)
  then show ?thesis using index_header_fields(4) [OF assms(5)] assms(6) True by auto
qed (use index_header_fields(4) [OF assms(5)] in simp)

end
