(* ===== verification/IndexStats.thy ===== *)
theory IndexStats
  imports IndexHeader
begin

text \<open>
  The statistics \<open>calculate_max_displacement\<close> puts into the header: they stay within the bounds the loader
  of the header checks.
\<close>

text \<open>The number of full slots among the first \<open>n\<close>.\<close>

definition full_slots :: "(u64 \<times> u64) option list \<Rightarrow> nat \<Rightarrow> nat" where
  "full_slots T n = card {i. i < n \<and> T ! i \<noteq> None}"

lemma full_slots_Suc: "full_slots T (Suc n) = full_slots T n + (if T ! n = None then 0 else 1)"
proof -
  have "{i. i < Suc n \<and> T ! i \<noteq> None} = (if T ! n = None then {i. i < n \<and> T ! i \<noteq> None} else insert n {i. i < n \<and> T ! i \<noteq> None})"
    by (auto simp: less_Suc_eq)
  then show ?thesis by (simp add: full_slots_def)
qed

lemma full_slots_all: "full_slots T (length T) = size (items T)"
  by (simp add: full_slots_def size_items)

lemma full_slots_le: "full_slots T n \<le> n"
  using card_mono [of "{..<n}" "{i. i < n \<and> T ! i \<noteq> None}"] by (auto simp: full_slots_def)

text \<open>The statistics after \<open>n\<close> slots. A counted collision belongs to the full slot before it.\<close>

definition stats_ok :: "(u64 \<times> u64) option list \<Rightarrow> nat \<Rightarrow> displacement_stats \<Rightarrow> bool" where
  "stats_ok T n st \<longleftrightarrow>
     unat (ds_num_hash_collisions st) + (if ds_has_prev st then 1 else 0) \<le> full_slots T n
     \<and> unat (ds_max_displacement st) \<le> size (items T)
     \<and> (ds_has_last st \<longrightarrow> n = length T \<and> ds_has_prev st)"

lemma displacement_step_ok:
  assumes t: "table_ok h t" and inv: "rh_inv (wanted h) (slots h t)" and n: "n < capacity h"
    and r: "read_slot h t (of_nat n * slot_size h) = Some x" and ok: "stats_ok (slots h t) n st"
  shows "stats_ok (slots h t) (Suc n) (displacement_step h (of_nat n) x st)"
proof -
  obtain a p where x: "x = (a, p)" by (cases x)
  let ?T = "slots h t" let ?c = "ds_num_hash_collisions st"
  have shape: "index_shape h" using t by (simp add: table_ok_def)
  have sl: "?T ! n = (if p = 0 then None else Some (a, p))"
    using byte_store.peek_view [OF t, of n] n r x by auto
  have fs: "full_slots ?T n \<le> n" by (rule full_slots_le)
  have cs: "capacity h < 2 ^ 63" using shape by (simp add: index_shape_def)
  have c1: "unat (?c + 1) = unat ?c + 1" if "ds_has_prev st"
    using unat_add_u64 [of ?c 1] ok that fs n cs by (simp add: stats_ok_def)
  have nl: "\<not> ds_has_last st" using ok n by (auto simp: stats_ok_def)
  have disp: "unat (get_displacement (hh_hash_capacity h) (of_nat n) a) \<le> size (items ?T)" if "p \<noteq> 0"
    using displacement_code [OF t n, of a p] displacement_less_items [OF inv, of n "(a, p)"] n sl that by simp
  have last: "of_nat n = hh_hash_capacity h - 1 \<Longrightarrow> Suc n = capacity h"
  proof -
    assume "of_nat n = hh_hash_capacity h - 1"
    then have "of_nat (Suc n) = hh_hash_capacity h" by simp
    then show ?thesis using slot_number [OF shape, of "Suc n"] n by simp
  qed
  show ?thesis
    unfolding x using ok nl c1 disp last sl
    by (auto simp: stats_ok_def displacement_step_def Let_def full_slots_Suc)
qed

lemma displacement_loop_ok:
  assumes t: "table_ok h t" and inv: "rh_inv (wanted h) (slots h t)" and "m + n \<le> capacity h"
    and "stats_ok (slots h t) m st"
  shows "\<exists>st'. displacement_loop h t [m..<m + n] st = Some st' \<and> stats_ok (slots h t) (m + n) st'"
  using assms(3,4)
proof (induction n arbitrary: m st)
  case (Suc n)
  have m: "m < capacity h" using Suc.prems(1) by simp
  obtain x where r: "read_slot h t (of_nat m * slot_size h) = Some x"
    using byte_store.peek_view [OF t, of m] m by auto
  have "[m..<m + Suc n] = m # [Suc m..<Suc m + n]" by (simp add: upt_conv_Cons)
  with Suc.IH [OF _ displacement_step_ok [OF t inv m r Suc.prems(2)]] Suc.prems(1) r
  show ?case by (simp del: upt_Suc)
qed simp

lemma max_displacement_ok:
  assumes t: "table_ok h t" and inv: "rh_inv (wanted h) (slots h t)"
  obtains h' where "calculate_max_displacement h t = Some h'" "same_index h h'"
    "unat (hh_max_displacement h') \<le> size (items (slots h t))" "unat (hh_hash_collisions h') \<le> size (items (slots h t))"
    "hh_num_entries h' = hh_num_entries h"
proof -
  let ?T = "slots h t"
  let ?st = "\<lparr>ds_max_displacement = 0, ds_num_hash_collisions = 0, ds_total_displacement = 0,
    ds_has_first = False, ds_first_hash = 0, ds_has_last = False, ds_last_hash = 0, ds_has_prev = False, ds_prev_hash = - 1\<rparr>"
  have "stats_ok ?T 0 ?st" by (simp add: stats_ok_def)
  then obtain st where st: "displacement_loop h t [0..<capacity h] ?st = Some st" "stats_ok ?T (capacity h) st"
    using displacement_loop_ok [OF t inv, of 0 "capacity h"] by auto
  let ?c = "if ds_has_first st \<and> ds_has_last st \<and> ds_first_hash st = ds_last_hash st
      then ds_num_hash_collisions st + 1 else ds_num_hash_collisions st"
  let ?h = "h\<lparr>hh_total_displacement := ds_total_displacement st, hh_max_displacement := ds_max_displacement st,
      hh_hash_collisions := ?c\<rparr>"
  have run: "calculate_max_displacement h t = Some ?h"
    using st(1) by (simp add: calculate_max_displacement_def Let_def)
  have all: "full_slots ?T (capacity h) = size (items ?T)" using full_slots_all [of ?T] by simp
  have "size (items ?T) \<le> capacity h" using full_slots_le [of ?T "capacity h"] all by simp
  then have "size (items ?T) < 2 ^ 63" using t by (simp add: table_ok_def index_shape_def)
  then have "unat ?c \<le> size (items ?T)"
    using st(2) all unat_add_u64 [of "ds_num_hash_collisions st" 1] by (auto simp: stats_ok_def)
  then show thesis using that [OF run] st(2) by (simp add: same_index_def stats_ok_def)
qed

end
