(* ===== verification/IndexFile.thy ===== *)
theory IndexFile
  imports IndexStats
begin

text \<open>
  The index file: what \<open>sparkey_hash_write\<close> leaves on disk, and that \<open>sparkey_hash_open\<close> accepts it and gives
  a reader whose table represents the map of the log.
\<close>

section \<open>Writing the file\<close>

definition final_header :: "sparkey_hashheader \<Rightarrow> sparkey_logheader \<Rightarrow> sparkey_hashheader" where
  "final_header hh lh =
     hh\<lparr>hh_major_version := HASH_MAJOR_VERSION, hh_minor_version := HASH_MINOR_VERSION,
        hh_file_identifier := lh_file_identifier lh, hh_data_end := lh_data_end lh\<rparr>"

text \<open>The disk after the index has been written: the name refers to a new inode.\<close>

definition with_index :: "os \<Rightarrow> string \<Rightarrow> bytes \<Rightarrow> write_outcome list \<Rightarrow> os" where
  "with_index os name c ws =
     os\<lparr>os_names := (os_names os)(name \<mapsto> length (os_store os)), os_store := os_store os @ [c], os_writes := ws\<rparr>"

lemma write_index_file:
  assumes calm: "os_calm os" and err: "os_open_err os hf = None" "os_remove_err os hf = None"
  obtains ws where "write_index os hf hh lh t
      = (SPARKEY_SUCCESS, with_index os hf (hashheader_bytes (final_header hh lh) @ t) ws)" "list_all write_retryable ws"
proof -
  let ?n = "length (os_store os)" let ?h = "final_header hh lh"
  let ?os1 = "os\<lparr>os_names := (os_names os)(hf := None)\<rparr>"
  let ?os2 = "os\<lparr>os_names := (os_names os)(hf \<mapsto> ?n), os_store := os_store os @ [[]]\<rparr>"
  let ?fd = "\<lparr>fd_ino = Some ?n, fd_off = 0\<rparr>"
  obtain r where rm: "os_remove os hf = (r, ?os1)" "r = Inl ENOENT \<or> r = Inr ()"
    using err(2) by (cases "os_names os hf") (auto simp: os_remove_def fun_upd_idem)
  have cr: "os_create ?os1 hf = (Inr ?fd, ?os2)" using err(1) by (simp add: os_create_def)
  have fd: "fd_ok ?os2 ?fd" by (simp add: fd_ok_def)
  have calm2: "os_calm ?os2" using calm by (simp add: os_calm_def)
  have "completes ?os2 ?fd (hashheader_bytes ?h @ t)
      (io_then (write_hashheader ?os2 ?fd ?h) (\<lambda>os fd. write_full os fd t))"
    by (intro completes_then write_hashheader_completes write_full_completes fd calm2)
      (simp_all add: final_header_def)
  then obtain ws where ws: "list_all write_retryable ws"
    "io_then (write_hashheader ?os2 ?fd ?h) (\<lambda>os fd. write_full os fd t)
      = (SPARKEY_SUCCESS, (io_put ?os2 ?fd (hashheader_bytes ?h @ t))\<lparr>os_writes := ws\<rparr>,
         fd_advance ?fd (length (hashheader_bytes ?h @ t)))"
    unfolding completes_def by blast
  have put: "(io_put ?os2 ?fd (hashheader_bytes ?h @ t))\<lparr>os_writes := ws\<rparr> = with_index os hf (hashheader_bytes ?h @ t) ws"
    by (simp add: io_put_def with_index_def file_write_def splice_at_def)
  have "write_index os hf hh lh t
      = (case io_then (write_hashheader ?os2 ?fd ?h) (\<lambda>os fd. write_full os fd t) of (rc, os, fd) \<Rightarrow> (rc, os))"
    using rm(2) by (auto simp: write_index_def rm(1) cr Let_def io_then_def final_header_def split: prod.splits)
  then show thesis using that ws put by simp
qed

text \<open>Other files are not touched.\<close>

lemma with_index_other:
  assumes "name \<noteq> hf" "os_open_read os name = Inr c" "\<forall>i. os_names os name = Some i \<longrightarrow> i < length (os_store os)"
  shows "os_open_read (with_index os hf d ws) name = Inr c" "os_names (with_index os hf d ws) name = os_names os name"
    "os_content (with_index os hf d ws) name = os_content os name"
  using assms by (auto simp: with_index_def os_open_read_def os_content_def nth_append split: option.splits)

lemma with_index_read:
  "os_open_err os hf = None \<Longrightarrow> os_open_read (with_index os hf d ws) hf = Inr d"
  "os_content (with_index os hf d ws) hf = Some d"
  by (simp_all add: with_index_def os_open_read_def os_content_def)

lemma with_index_same [simp]:
  "os_mallocs (with_index os hf d ws) = os_mallocs os" "os_mmap_ok (with_index os hf d ws) = os_mmap_ok os"
  "os_open_err (with_index os hf d ws) = os_open_err os"
  by (simp_all add: with_index_def)

lemma os_ready_with_index:
  "os_ready os name \<Longrightarrow> list_all write_retryable ws \<Longrightarrow> os_ready (with_index os hf d ws) name"
  by (simp add: os_ready_def with_index_def os_calm_def)

lemma logreader_open_same:
  assumes "os_open_read os1 name = os_open_read os2 name" "os_names os1 name = os_names os2 name"
    "os_content os1 name = os_content os2 name" "os_mmap_ok os1 = os_mmap_ok os2"
  shows "sparkey_logreader_open_noalloc os1 junk1 name = sparkey_logreader_open_noalloc os2 junk2 name"
  unfolding sparkey_logreader_open_noalloc_def sparkey_load_logheader_def assms
  by (cases junk1, cases junk2) (simp add: Let_def cong: sum.case_cong if_cong)

section \<open>Indexing a log file\<close>

text \<open>
  The conditions for a run of \<open>sparkey_hash_write\<close>: a log file whose addresses fit, and an operating system
  without hard errors.
\<close>

definition indexable_file :: "codec_lib \<Rightarrow> sparkey_logheader \<Rightarrow> log_entry list list \<Rightarrow> bytes \<Rightarrow> bool" where
  "indexable_file lib lh gs c \<longleftrightarrow>
     log_file lib lh gs c \<and> log_loadable lib lh gs c \<and> log_indexable lh
     \<and> (\<forall>e \<in> set (concat gs). entry_ok e \<and> length (entry_key e) < 2 ^ 31)"

definition os_indexes :: "os \<Rightarrow> string \<Rightarrow> string \<Rightarrow> bytes \<Rightarrow> bool" where
  "os_indexes os hf lf c \<longleftrightarrow>
     hf \<noteq> lf \<and> os_open_read os lf = Inr c \<and> (\<forall>i. os_names os lf = Some i \<longrightarrow> i < length (os_store os))
     \<and> os_calm os \<and> os_mallocs os = [] \<and> os_mmap_ok os \<and> os_urandom os \<noteq> None
     \<and> os_open_err os hf = None \<and> os_remove_err os hf = None"

text \<open>The reader of the log both the writer and the readers of the index work with.\<close>

lemma indexable_reader:
  assumes f: "indexable_file lib lh gs c" and os: "os_open_read os lf = Inr c" "os_mmap_ok os" "os_mallocs os = []"
  obtains log where "\<And>junk. sparkey_logreader_open_noalloc os junk lf = Inr log" "reader_ok lib log"
    "lr_header log = lh\<lparr>lh_header_size := LOG_HEADER_SIZE\<rparr>"
    "sparkey_load_logheader os lf = Inr (lh\<lparr>lh_header_size := LOG_HEADER_SIZE\<rparr>)"
    "\<And>junk. \<exists>iter. sparkey_logiter_create junk os log = (Inr iter, os) \<and> before lib log iter (concat gs)"
proof -
  have logf: "log_file lib lh gs c" and ld: "log_loadable lib lh gs c" and eok: "\<forall>e \<in> set (concat gs). entry_ok e"
    using f by (simp_all add: indexable_file_def)
  obtain log where o: "sparkey_logreader_open_noalloc os undefined lf = Inr log" and ok: "reader_ok lib log"
    and log: "lr_header log = lh\<lparr>lh_header_size := LOG_HEADER_SIZE\<rparr>" "lr_data log = logheader_bytes lh @ log_data lib lh gs"
    by (rule open_log_file [OF logf ld os(1,2)])
  note bl = log_file_blocks [OF logf eok log] and lay = read_groups_layout [OF logf eok, of log]
  have "\<exists>iter. sparkey_logiter_create junk os log = (Inr iter, os) \<and> before lib log iter (concat gs)" for junk
    by (rule logiter_create_before [OF ok os(3) bl lay(1), of junk]) (use log lay(2) in auto)
  moreover have "sparkey_logreader_open_noalloc os junk lf = Inr log" for junk
    using o logreader_open_same [of os lf os junk undefined] by simp
  ultimately show thesis using that ok log(1) log_file_load [OF logf ld os(1)] by blast
qed

lemma index_rep_empty:
  assumes "index_shape h" "addresses_ok h log"
  shows "index_rep lib log h (replicate (unat (slot_size h * hh_hash_capacity h)) 0) Map.empty"
  using table_ok_new [OF assms(1)] assms rh_inv_replicate_None [OF capacity_pos [OF assms(1)]]
  by (auto simp: index_rep_def)

text \<open>\<open>hh\<close> and \<open>t\<close> are the header and the table of an index of the log with header \<open>lh\<close> and entries \<open>es\<close>.\<close>

definition index_for ::
  "codec_lib \<Rightarrow> sparkey_logheader \<Rightarrow> log_entry list \<Rightarrow> sparkey_logreader \<Rightarrow> sparkey_hashheader \<Rightarrow> bytes
     \<Rightarrow> (bytes \<rightharpoonup> u64) \<Rightarrow> bool" where
  "index_for lib lh es log hh t M \<longleftrightarrow>
     index_rep lib log hh t M \<and> indexes lib log hh es [] M
     \<and> hh_num_entries hh = of_nat (card (dom (log_map es)))
     \<and> hh_major_version hh = HASH_MAJOR_VERSION \<and> hh_minor_version hh = HASH_MINOR_VERSION
     \<and> hh_file_identifier hh = lh_file_identifier lh \<and> hh_data_end hh = lh_data_end lh
     \<and> hh_max_key_len hh = lh_max_key_len lh \<and> hh_max_value_len hh = lh_max_value_len lh
     \<and> hh_num_puts hh = lh_num_puts lh
     \<and> unat (hh_max_displacement hh) \<le> card (dom (log_map es))
     \<and> unat (hh_hash_collisions hh) \<le> card (dom (log_map es))"

text \<open>
  The end of a run: once the loop over the entries is done, the statistics are computed and the file is
  written.
\<close>

lemma finish_index_ok:
  assumes lp: "index_loop lib log s = Some (SPARKEY_SUCCESS, os, t, h1, its)"
    and s1: "same_index h h1" and rep: "index_rep lib log h t M" and ixs: "indexes lib log h es [] M"
    and num: "hh_num_entries h1 = of_nat (card (dom (log_map es)))"
    and os: "os_calm os" "os_open_err os hf = None" "os_remove_err os hf = None"
    and lh: "hh_num_puts h = lh_num_puts lh" "hh_max_key_len h = lh_max_key_len lh" "hh_max_value_len h = lh_max_value_len lh"
  obtains ws hh where
    "finish_index lib hf lh log s = Some (SPARKEY_SUCCESS, with_index os hf (hashheader_bytes hh @ t) ws)"
    "list_all write_retryable ws" "same_index h hh" "index_for lib lh es log hh t M"
proof -
  have "index_rep lib log h1 t M" using rep same_index_simps [OF s1] by simp
  then have tb: "table_ok h1 t" "rh_inv (wanted h1) (slots h1 t)" by (simp_all add: index_rep_def)
  have items: "size (items (slots h1 t)) = card (dom (log_map es))"
    using index_rep_size [OF rep] same_index_simps [OF s1] ixs by (simp add: indexes_def)
  obtain h2 where h2: "calculate_max_displacement h1 t = Some h2" "same_index h1 h2"
    "unat (hh_max_displacement h2) \<le> card (dom (log_map es))" "unat (hh_hash_collisions h2) \<le> card (dom (log_map es))"
    "hh_num_entries h2 = hh_num_entries h1"
    by (rule max_displacement_ok [OF tb, unfolded items])
  let ?hh = "final_header h2 lh"
  obtain ws where ws: "write_index os hf h2 lh t = (SPARKEY_SUCCESS, with_index os hf (hashheader_bytes ?hh @ t) ws)"
    "list_all write_retryable ws"
    by (rule write_index_file [OF os])
  have s: "same_index h ?hh"
    using same_index_trans [OF s1 h2(2)] by (simp add: same_index_def final_header_def)
  have fin: "finish_index lib hf lh log s = Some (SPARKEY_SUCCESS, with_index os hf (hashheader_bytes ?hh @ t) ws)"
    using lp h2(1) ws(1) by (simp add: finish_index_def)
  note same = same_index_simps [OF s] same_index_stored [OF s]
  have "index_rep lib log ?hh t M" "indexes lib log ?hh es [] M" using rep ixs by (simp_all add: same)
  then have "index_for lib lh es log ?hh t M"
    using num h2 lh s by (simp add: index_for_def final_header_def same_index_def)
  then show thesis by (rule that [OF fin ws(2) s])
qed

lemma hash_write_new:
  assumes f: "indexable_file lib lh gs c" and os: "os_indexes os hf lf c"
    and hs: "hash_size = 0 \<or> hash_size = 4 \<or> hash_size = 8"
    and old: "old_index os hf (lh\<lparr>lh_header_size := LOG_HEADER_SIZE\<rparr>) = None"
    and log: "sparkey_logreader_open_noalloc os undefined lf = Inr log"
  obtains ws hh t M where
    "sparkey_hash_write lib junk junkr junki junki2 mem os hf lf hash_size
       = Some (SPARKEY_SUCCESS, with_index os hf (hashheader_bytes hh @ t) ws)" "list_all write_retryable ws"
    "index_for lib lh (concat gs) log hh t M"
    "sure_hash_size hash_size (unat (lh_num_puts lh)) \<longrightarrow> hh_hash_size hh = (if hash_size = 0 then 4 else hash_size)"
proof -
  let ?lh = "lh\<lparr>lh_header_size := LOG_HEADER_SIZE\<rparr>"
  have o: "hf \<noteq> lf" "os_open_read os lf = Inr c" "os_calm os" "os_mallocs os = []" "os_mmap_ok os"
    "os_open_err os hf = None" "os_remove_err os hf = None"
    using os by (simp_all add: os_indexes_def)
  obtain seed where seed: "rand32 os = Inr seed" using os by (auto simp: os_indexes_def rand32_def)
  have logf: "log_file lib lh gs c" and ld: "log_loadable lib lh gs c" and ix: "log_indexable ?lh"
    and keys: "\<forall>e \<in> set (concat gs). length (entry_key e) < 2 ^ 31"
    using f by (auto simp: indexable_file_def log_indexable_def)
  obtain log' where r: "\<And>junk. sparkey_logreader_open_noalloc os junk lf = Inr log'" "reader_ok lib log'"
    "lr_header log' = ?lh" "sparkey_load_logheader os lf = Inr ?lh"
    "\<And>junk. \<exists>iter. sparkey_logiter_create junk os log' = (Inr iter, os) \<and> before lib log' iter (concat gs)"
    by (rule indexable_reader [OF f o(2,5,4)]) blast
  have [simp]: "log' = log" using r(1) log by simp
  obtain iter where it: "sparkey_logiter_create junki os log = (Inr iter, os)" "before lib log iter (concat gs)"
    using r(5) by auto
  obtain ra_iter where ra: "sparkey_logiter_create junki2 os log = (Inr ra_iter, os)" "before lib log ra_iter (concat gs)"
    using r(5) by auto
  obtain cur rest where ra_at: "iter_at lib log ra_iter cur rest" using before_iter_at [OF ra(2)] by blast
  obtain cap where cap: "hash_capacity_for (lh_num_puts ?lh) = Some cap"
    by (rule hash_capacity_bounds [of "lh_num_puts ?lh"]) (use ix in \<open>auto simp: log_indexable_def\<close>)
  obtain h where h: "index_header junk ?lh cap seed 0 0 hash_size = Inr h" "index_shape h" "addresses_ok h log"
    "unat (lh_num_puts ?lh) \<le> capacity h" "hh_num_entries h = 0" "hh_num_puts h = lh_num_puts ?lh"
    "hh_max_key_len h = lh_max_key_len ?lh" "hh_max_value_len h = lh_max_value_len ?lh"
    by (rule index_header_ok [OF ix cap _ hs, of log LOG_HEADER_SIZE junk seed 0 0]) (use r(3) ix in \<open>simp_all add: log_indexable_def\<close>)
  have puts: "card (dom (log_map [])) + length (filter is_put (concat gs)) \<le> capacity h"
  proof -
    have "lh_num_puts lh = of_nat (length (filter is_put (concat gs)))" using logf by (simp add: log_file_def header_counts_def)
    moreover have "length (filter is_put (concat gs)) < 2 ^ 64"
      using ld log_file_end(2) [OF logf] by (simp add: log_loadable_def)
    ultimately show ?thesis using h(4) by (simp add: unat_of_nat_u64)
  qed
  let ?t0 = "replicate (unat (slot_size h * hh_hash_capacity h)) 0"
  have "\<exists>t' h' its' M'. index_loop lib log (os, ?t0, h, iter, ra_iter) = Some (SPARKEY_SUCCESS, os, t', h', its')
    \<and> same_index h h' \<and> index_rep lib log h t' M' \<and> indexes lib log h ([] @ concat gs) [] M'
    \<and> hh_num_entries h' = of_nat (card (dom (log_map ([] @ concat gs))))"
    using r(2) h(5) by (intro index_loop_all [OF _ o(4) index_rep_empty [OF h(2,3)] indexes_start it(2) ra_at keys puts]) simp_all
  then obtain t h1 its M where lp: "index_loop lib log (os, ?t0, h, iter, ra_iter) = Some (SPARKEY_SUCCESS, os, t, h1, its)"
    and s1: "same_index h h1" and rep: "index_rep lib log h t M" and ixs: "indexes lib log h (concat gs) [] M"
    and num: "hh_num_entries h1 = of_nat (card (dom (log_map (concat gs))))"
    by auto
  obtain ws hh where fin: "finish_index lib hf ?lh log (os, ?t0, h, iter, ra_iter)
      = Some (SPARKEY_SUCCESS, with_index os hf (hashheader_bytes hh @ t) ws)"
    and ws: "list_all write_retryable ws" and hh: "same_index h hh" "index_for lib ?lh (concat gs) log hh t M"
    by (rule finish_index_ok [OF lp s1 rep ixs num o(3,6,7), of ?lh]) (use h in simp_all)
  have bld: "build_index lib mem os hf ?lh log (iter, ra_iter) None h
      = Some (SPARKEY_SUCCESS, with_index os hf (hashheader_bytes hh @ t) ws)"
    unfolding build_index_def using o(4) fin by (simp add: os_malloc_def Let_def)
  have opn: "sparkey_logreader_open junkr os lf = (Inr log, os)"
    using r(1) o(4) by (simp add: sparkey_logreader_open_def correct_endian_platform_def malloc_or_fail_def os_malloc_def)
  have run: "sparkey_hash_write lib junk junkr junki junki2 mem os hf lf hash_size
       = Some (SPARKEY_SUCCESS, with_index os hf (hashheader_bytes hh @ t) ws)"
    unfolding sparkey_hash_write_def r(4) sum.case opn prod.case it(1) ra(1) Let_def old option.case seed cap
      Option.bind.simps h(1) by (rule bld)
  have sz: "hh_hash_size h = (if hash_size = 0 then 4 else hash_size)" if "sure_hash_size hash_size (unat (lh_num_puts lh))"
    by (rule sure_hash_size [OF that cap _ _ h(1)]) (use ix in \<open>simp_all add: log_indexable_def\<close>)
  have ixf: "index_for lib lh (concat gs) log hh t M" using hh(2) by (simp add: index_for_def)
  show thesis by (rule that [OF run ws ixf]) (use hh(1) sz in \<open>simp add: same_index_def\<close>)
qed

section \<open>Opening the index\<close>

lemma hashheader_bytes_size [simp]: "hashheader_bytes (hh\<lparr>hh_header_size := n\<rparr>) = hashheader_bytes hh"
  by (simp add: hashheader_bytes_def)

lemma index_for_consistent:
  assumes f: "indexable_file lib lh gs c" and ixf: "index_for lib lh (concat gs) log hh t M"
  shows "hashheader_consistent (hh\<lparr>hh_header_size := HASH_HEADER_SIZE\<rparr>)"
proof -
  let ?h = "hh\<lparr>hh_header_size := HASH_HEADER_SIZE\<rparr>"
  have logf: "log_file lib lh gs c" and ld: "log_loadable lib lh gs c" using f by (simp_all add: indexable_file_def)
  have rep: "index_rep lib log hh t M"
    and num: "hh_num_entries hh = of_nat (card (dom (log_map (concat gs))))"
    and hv: "hh_major_version hh = HASH_MAJOR_VERSION" "hh_minor_version hh = HASH_MINOR_VERSION"
    and lhh: "hh_num_puts hh = lh_num_puts lh"
    and st: "unat (hh_max_displacement hh) \<le> card (dom (log_map (concat gs)))"
      "unat (hh_hash_collisions hh) \<le> card (dom (log_map (concat gs)))"
    using ixf by (simp_all add: index_for_def)
  have t: "table_ok hh t" "index_shape hh" "addresses_ok hh log" using rep by (auto simp: index_rep_def table_ok_def)
  have puts: "lh_num_puts lh = of_nat (length (filter is_put (concat gs)))" using logf by (simp add: log_file_def header_counts_def)
  have small: "length (filter is_put (concat gs)) < 2 ^ 64" using ld log_file_end(2) [OF logf] by (simp add: log_loadable_def)
  note card = card_log_map [of "concat gs"]
  have n: "unat (hh_num_entries hh) = card (dom (log_map (concat gs)))"
    unfolding num by (intro unat_of_nat_u64) (use card small in linarith)
  moreover have "unat (lh_num_puts lh) = length (filter is_put (concat gs))"
    unfolding puts by (rule unat_of_nat_u64 [OF small])
  ultimately show "hashheader_consistent ?h"
    using t(2,3) hv st card lhh by (simp add: hashheader_consistent_def index_shape_def addresses_ok_def word_le_nat_alt)
qed

lemma index_opens:
  assumes f: "indexable_file lib lh gs c" and os: "os_indexes os hf lf c"
    and log: "sparkey_logreader_open_noalloc os undefined lf = Inr log"
    and ixf: "index_for lib lh (concat gs) log hh t M"
  obtains reader where "sparkey_hash_open junk (with_index os hf (hashheader_bytes hh @ t) ws) hf lf
      = (Inr reader, with_index os hf (hashheader_bytes hh @ t) ws)"
    "reads_index lib reader M" "hr_header reader = hh\<lparr>hh_header_size := HASH_HEADER_SIZE\<rparr>" "hr_log reader = log"
proof -
  have rep: "index_rep lib log hh t M"
    and num: "hh_num_entries hh = of_nat (card (dom (log_map (concat gs))))"
    and hv: "hh_major_version hh = HASH_MAJOR_VERSION" "hh_minor_version hh = HASH_MINOR_VERSION"
    and lhh: "hh_file_identifier hh = lh_file_identifier lh" "hh_data_end hh = lh_data_end lh"
      "hh_max_key_len hh = lh_max_key_len lh" "hh_max_value_len hh = lh_max_value_len lh" "hh_num_puts hh = lh_num_puts lh"
    and st: "unat (hh_max_displacement hh) \<le> card (dom (log_map (concat gs)))"
      "unat (hh_hash_collisions hh) \<le> card (dom (log_map (concat gs)))"
    using ixf by (simp_all add: index_for_def)
  let ?os = "with_index os hf (hashheader_bytes hh @ t) ws" let ?h = "hh\<lparr>hh_header_size := HASH_HEADER_SIZE\<rparr>"
  have o: "hf \<noteq> lf" "os_open_read os lf = Inr c" "os_mallocs os = []" "os_mmap_ok os" "os_open_err os hf = None"
    "\<forall>i. os_names os lf = Some i \<longrightarrow> i < length (os_store os)"
    using os by (simp_all add: os_indexes_def)
  have logf: "log_file lib lh gs c" and ld: "log_loadable lib lh gs c" using f by (simp_all add: indexable_file_def)
  obtain log' where r: "\<And>junk. sparkey_logreader_open_noalloc os junk lf = Inr log'" "reader_ok lib log'"
    "lr_header log' = lh\<lparr>lh_header_size := LOG_HEADER_SIZE\<rparr>"
    by (rule indexable_reader [OF f o(2,4,3)]) blast
  then have log': "reader_ok lib log" "lr_header log = lh\<lparr>lh_header_size := LOG_HEADER_SIZE\<rparr>" using log by auto
  have other: "os_open_read ?os lf = Inr c" "os_names ?os lf = os_names os lf" "os_content ?os lf = os_content os lf"
    using with_index_other [of lf hf os c] o(1,2,6) by auto
  have lo: "sparkey_logreader_open_noalloc ?os jl lf = Inr log" for jl
    using logreader_open_same [of ?os lf os jl undefined] other o(2) log by simp
  have t: "table_ok hh t" "index_shape hh" using rep by (auto simp: index_rep_def table_ok_def)
  have "hashheader_consistent ?h" by (rule index_for_consistent [OF f ixf])
  then have load: "sparkey_load_hashheader ?os hf = Inr ?h"
    by (intro load_hashheader_bytes) (simp add: with_index_read(1) [OF o(5)])
  let ?n = "112 + hh_hash_capacity hh * ucast (hh_hash_size hh + hh_address_size hh) :: u64"
  have len: "unat ?n = 112 + length t"
  proof -
    note s = slot_size_unat [OF t(2)]
    have w: "(ucast (hh_hash_size hh + hh_address_size hh) :: u64) = slot_size hh"
      by (simp add: slot_size_unsigned [OF t(2)])
    have "16 * capacity hh < 2 ^ 63" using t(2) by (simp add: index_shape_def)
    moreover have "capacity hh * unat (slot_size hh) \<le> capacity hh * 16" using s(2) by (rule mult_le_mono2)
    ultimately have "capacity hh * unat (slot_size hh) < 2 ^ 63" by linarith
    then have lt: "112 + capacity hh * unat (slot_size hh) < 2 ^ 64" by simp
    have m: "unat (hh_hash_capacity hh * slot_size hh) = capacity hh * unat (slot_size hh)"
      by (rule unat_mult_u64) (use lt in linarith)
    have "unat ?n = unat (112 :: u64) + unat (hh_hash_capacity hh * slot_size hh)"
      unfolding w by (rule unat_add_u64) (use lt m in simp)
    then show ?thesis using m t(1) by (simp add: table_ok_def mult.commute)
  qed
  have lt: "112 + length t < 2 ^ 64" unfolding len [symmetric] by simp
  have fits: "\<not> ?n > of_nat (length (hashheader_bytes hh @ t))"
  proof -
    have l: "length (hashheader_bytes hh @ t) = 112 + length t" by simp
    show ?thesis unfolding l word_less_nat_alt len unat_of_nat_u64 [OF lt] by simp
  qed
  let ?r = "junk\<lparr>hr_header := ?h, hr_log := log, hr_fd := \<lparr>fd_ino = os_names ?os hf, fd_off = 0\<rparr>,
      hr_data_len := ?n, hr_data := take (unat ?n) (hashheader_bytes hh @ t), hr_open_status := MAGIC_VALUE_HASHREADER\<rparr>"
  have opn: "sparkey_hash_open junk ?os hf lf = (Inr ?r, ?os)"
    using load lo fits o(3,4) lhh log'(2) with_index_read(1) [OF o(5), of "hashheader_bytes hh @ t" ws] with_index_read(2) [of os hf "hashheader_bytes hh @ t" ws]
    unfolding sparkey_hash_open_def
    by (simp add: correct_endian_platform_def malloc_or_fail_def os_malloc_def Let_def HASH_HEADER_SIZE_def)
  have "reader_table ?r = t" using len by (simp add: reader_table_def HASH_HEADER_SIZE_def)
  moreover have "same_index hh ?h" by (simp add: same_index_def)
  ultimately have "reads_index lib ?r M"
    using rep log'(1) same_index_simps(1) by (simp add: reads_index_def)
  then show thesis using that opn by simp
qed

text \<open>What a successful open has checked.\<close>

lemma hash_open_Inr:
  assumes "sparkey_hash_open junk os hf lf = (Inr reader, os')"
  obtains c where "hashheader_consistent (hr_header reader)" "assert_reader_open reader = SPARKEY_SUCCESS"
    "hr_data_len reader = 112 + hh_hash_capacity (hr_header reader)
        * ucast (hh_hash_size (hr_header reader) + hh_address_size (hr_header reader))"
    "unat (hr_data_len reader) \<le> length c" "hr_data reader = take (unat (hr_data_len reader)) c"
    "os_content os' hf = Some c"
proof -
  obtain os1 where m: "malloc_or_fail os = (Inr (), os1)"
    using assms by (auto simp: sparkey_hash_open_def correct_endian_platform_def malloc_or_fail_def split: prod.splits if_splits)
  note o = assms [unfolded sparkey_hash_open_def m, simplified correct_endian_platform_def, simplified]
  obtain header where h: "sparkey_load_hashheader os1 hf = Inr header"
    using o by (cases "sparkey_load_hashheader os1 hf") auto
  obtain log where l: "sparkey_logreader_open_noalloc os1 (hr_log junk) lf = Inr log"
    using o h by (cases "sparkey_logreader_open_noalloc os1 (hr_log junk) lf") auto
  have con: "hashheader_consistent header" using load_hashheader_inv [OF h] by simp
  obtain c where c: "os_open_read os1 hf = Inr c" "os_content os1 hf = Some c"
    using load_hashheader_inv [OF h] by (auto simp: os_open_read_def split: option.splits)
  let ?n = "112 + hh_hash_capacity header * ucast (hh_hash_size header + hh_address_size header) :: u64"
  have hs: "hh_header_size header = 112" using con by (simp add: hashheader_consistent_def HASH_HEADER_SIZE_def)
  have r: "os1 = os'" "hr_header reader = header" "hr_data_len reader = ?n" "hr_data reader = take (unat ?n) c"
    "hr_open_status reader = MAGIC_VALUE_HASHREADER" "\<not> ?n > of_nat (length c)"
    using o by (auto simp: h l c hs Let_def split: if_splits)
  have "unat ?n \<le> unat (of_nat (length c) :: u64)" using r(6) unfolding word_le_nat_alt [symmetric] not_less .
  also have "\<dots> \<le> length c" by (simp add: unat_of_nat)
  finally show thesis using that [of c] con c r by (simp add: assert_reader_open_def)
qed

end
