(* ===== verification/IndexIterate.thy ===== *)
theory IndexIterate
  imports IndexFile
begin

text \<open>
  Iterating over an index: \<open>sparkey_logiter_hashnext\<close> delivers exactly the live entries of the log, in the
  order of the log.
\<close>

section \<open>Live entries\<close>

text \<open>The puts that are the last operation on their key.\<close>

fun live_entries :: "log_entry list \<Rightarrow> log_entry list" where
  "live_entries [] = []"
| "live_entries (e # es) =
     (if is_put e \<and> (\<forall>x \<in> set es. entry_key x \<noteq> entry_key e) then e # live_entries es else live_entries es)"

lemma live_entries_subset: "set (live_entries es) \<subseteq> set es"
  by (induction es) auto

lemma apply_entry_at:
  "apply_entry m e k = (if entry_key e = k then (if is_put e then Some (entry_value e) else None) else m k)"
  by (cases e) (auto simp: apply_entry_def)

lemma live_entries_map: "map_of (map (\<lambda>e. (entry_key e, entry_value e)) (live_entries es)) = log_map es"
proof -
  have "foldl apply_entry m es k =
      (case map_of (map (\<lambda>e. (entry_key e, entry_value e)) (live_entries es)) k of
         Some v \<Rightarrow> Some v
       | None \<Rightarrow> if \<exists>e \<in> set es. entry_key e = k then None else m k)" for m k
  proof (induction es arbitrary: m)
    case (Cons e es)
    show ?case
    proof (cases "map_of (map (\<lambda>e. (entry_key e, entry_value e)) (live_entries es)) k")
      case None
      then show ?thesis unfolding foldl_Cons Cons.IH by (auto simp: apply_entry_at)
    next
      case (Some v)
      then have "k \<in> entry_key ` set (live_entries es)" by (force dest: map_of_SomeD)
      then have "\<exists>x \<in> set es. entry_key x = k" using live_entries_subset by blast
      then show ?thesis using Some unfolding foldl_Cons Cons.IH by auto
    qed
  qed simp
  then show ?thesis by (intro ext) (simp add: log_map_def split: option.splits)
qed

section \<open>The search for an address\<close>

text \<open>The last operation on a key is in one place only.\<close>

lemma last_op_unique:
  assumes "d1 @ e # d2 = d1' @ e' # d2'" "entry_key e = entry_key e'"
    and "\<forall>x \<in> set d2. entry_key x \<noteq> entry_key e" "\<forall>x \<in> set d2'. entry_key x \<noteq> entry_key e"
  shows "e = e' \<and> d2 = d2'"
proof -
  have no: False if "da @ ea # db = dc @ eb # dd" "length da < length dc" "entry_key ea = entry_key eb"
    "\<forall>x \<in> set db. entry_key x \<noteq> entry_key ea" for da ea db dc eb dd
  proof -
    from that(1,2) obtain z where "db = z @ eb # dd"
      by (auto simp: append_eq_append_conv2 Cons_eq_append_conv append_eq_Cons_conv)
    then show False using that(3,4) by auto
  qed
  have "\<not> length d1 < length d1'" using no [OF assms(1) _ assms(2,3)] by blast
  moreover have "\<not> length d1' < length d1" using no [OF assms(1) [symmetric] _ assms(2) [symmetric]] assms(2,4) by auto
  ultimately have "length d1 = length d1'" by simp
  then show ?thesis using assms(1) by simp
qed

lemma log_map_Some:
  assumes "log_map es k = Some v"
  shows "\<exists>d1 d2. es = d1 @ PutEntry k v # d2 \<and> (\<forall>x \<in> set d2. entry_key x \<noteq> k)"
  using assms
proof (induction es rule: rev_induct)
  case (snoc e es)
  show ?case
  proof (cases "entry_key e = k")
    case True
    then have "e = PutEntry k v" using snoc.prems by (cases e) (auto simp: apply_entry_def)
    then show ?thesis by (intro exI [of _ es] exI [of _ "[]"]) simp
  next
    case False
    then have "log_map es k = Some v" using snoc.prems by (cases e) (auto simp: apply_entry_def)
    then obtain d1 d2 where "es = d1 @ PutEntry k v # d2" "\<forall>x \<in> set d2. entry_key x \<noteq> k" using snoc.IH by blast
    then show ?thesis using False by (intro exI [of _ d1] exI [of _ "d2 @ [e]"]) auto
  qed
qed simp

text \<open>The table has the address of an entry exactly when the entry is live.\<close>

lemma indexes_live:
  assumes ok: "reader_ok lib log" and ad: "addresses_ok h log" and it: "iter_at lib log iter cur rest"
    and ix: "indexes lib log h (ds @ PutEntry k v # es) [] M" and st: "stored lib log h (PutEntry k v) es p"
  shows "M k = Some p \<longleftrightarrow> (\<forall>x \<in> set es. entry_key x \<noteq> k)"
proof
  assume "M k = Some p"
  then obtain d1 w d2 where d: "\<forall>e \<in> set d2. entry_key e \<noteq> k" "stored lib log h (PutEntry k w) (d2 @ []) p"
    using ix unfolding indexes_def by blast
  then show "\<forall>x \<in> set es. entry_key x \<noteq> k" using stored_unique(2) [OF ok ad it st] by simp
next
  assume live: "\<forall>x \<in> set es. entry_key x \<noteq> k"
  then have "log_map (ds @ PutEntry k v # es) k = Some v" by (rule log_map_behind)
  then obtain q where q: "M k = Some q" using indexes_None [OF ix] by (cases "M k") simp_all
  then obtain d1 w d2 where d: "ds @ PutEntry k v # es = d1 @ PutEntry k w # d2" "\<forall>e \<in> set d2. entry_key e \<noteq> k"
    "stored lib log h (PutEntry k w) (d2 @ []) q"
    using ix unfolding indexes_def by blast
  have "PutEntry k v = PutEntry k w \<and> es = d2" by (rule last_op_unique [OF d(1)]) (use live d(2) in simp_all)
  then have "stored lib log h (PutEntry k v) es q" using d(3) by simp
  then show "M k = Some p" using stored_address [OF ok st] q by simp
qed

lemma probe_address:
  assumes ok: "reader_ok lib log" and r: "index_rep lib log h t M" and it: "iter_at lib log iter cur rest"
    and st: "stored lib log h (PutEntry k v) es p" and k: "key_hash h k = Some a"
  shows "hashnext_probe h t p (a mod hh_hash_capacity h) (a mod hh_hash_capacity h * slot_size h) 0 = Some (M k = Some p)"
proof -
  let ?s = "unat (a mod hh_hash_capacity h)"
  have t: "table_ok h t" and inv: "rh_inv (wanted h) (slots h t)" and shape: "index_shape h" and ad: "addresses_ok h log"
    using r by (auto simp: index_rep_def table_ok_def)
  have s: "?s < capacity h" using wanted_less [OF shape, of "(a, 0)"] by (simp add: wanted_def)
  have "hashnext_probe h t p (of_nat ?s) (of_nat ?s * slot_size h) (of_nat 0)
      = Some (rh_find (wanted h) (\<lambda>x. snd x = p) (slots h t) ?s 0 \<noteq> None)"
    by (rule hashnext_probe_find [OF t s]) simp
  moreover have "rh_find (wanted h) (\<lambda>x. snd x = p) (slots h t) ?s 0 \<noteq> None \<longleftrightarrow> M k = Some p"
  proof
    assume "rh_find (wanted h) (\<lambda>x. snd x = p) (slots h t) ?s 0 \<noteq> None"
    then obtain i x where i: "i < capacity h" "slots h t ! i = Some x" "snd x = p"
      using rh_find_Some [of "wanted h" "\<lambda>x. snd x = p" "slots h t" ?s 0] by auto
    obtain k' where k': "k' \<in> dom M" "x = item_of h M k'" "indexed lib log h k' (snd x)"
      by (rule index_rep_item [OF r i(1,2)])
    then obtain v' es' where "stored lib log h (PutEntry k' v') es' p" using i(3) unfolding indexed_stored by blast
    then have "k' = k" using stored_unique(1) [OF ok ad it st] by blast
    then show "M k = Some p" using k'(1,2) i(3) by (auto simp: item_of_def)
  next
    assume M: "M k = Some p"
    show "rh_find (wanted h) (\<lambda>x. snd x = p) (slots h t) ?s 0 \<noteq> None"
    proof
      assume none: "rh_find (wanted h) (\<lambda>x. snd x = p) (slots h t) ?s 0 = None"
      have "item_of h M k \<in># items (slots h t)" using r M by (auto simp: index_rep_def)
      moreover have "wanted h (item_of h M k) = ?s" using k by (simp add: wanted_def item_of_def)
      ultimately have "snd (item_of h M k) \<noteq> p" by (rule rh_find_None [OF inv none, simplified, OF s])
      then show False using M by (simp add: item_of_def)
    qed
  qed
  ultimately show ?thesis by simp
qed

section \<open>The next live entry\<close>

text \<open>The iterator is on the first live entry of \<open>es\<close>, or at the end when there is none.\<close>

definition next_live ::
  "codec_lib \<Rightarrow> sparkey_logreader \<Rightarrow> log_entry list \<Rightarrow> sparkey_logiter \<Rightarrow> bool" where
  "next_live lib log es iter \<longleftrightarrow>
     (case live_entries es of
        [] \<Rightarrow> it_state iter = SPARKEY_ITER_CLOSED \<and> (\<exists>cur rest. iter_at lib log iter cur rest)
      | e # rest \<Rightarrow> \<exists>ds es'. es = ds @ e # es' \<and> rest = live_entries es'
          \<and> active lib log iter e es' (entry_key e) (entry_value e))"

lemma next_live_skip:
  assumes "next_live lib log es iter" "live_entries (e # es) = live_entries es"
  shows "next_live lib log (e # es) iter"
proof (cases "live_entries es")
  case Nil
  then show ?thesis using assms unfolding next_live_def assms(2) by simp
next
  case (Cons x rest)
  then obtain ds es' where d: "es = ds @ x # es'" "rest = live_entries es'" "active lib log iter x es' (entry_key x) (entry_value x)"
    using assms(1) by (auto simp: next_live_def)
  have "e # es = (e # ds) @ x # es'" using d(1) by simp
  then show ?thesis using d(2,3) unfolding next_live_def assms(2) Cons list.case by blast
qed

lemma hashnext_loop_live:
  assumes rd: "reads_index lib reader M" and os: "os_mallocs os = []"
    and "indexes lib (hr_log reader) (hr_header reader) (ds @ es) [] M" "before lib (hr_log reader) iter es"
    and "\<forall>e \<in> set es. length (entry_key e) < 2 ^ 31"
  shows "\<exists>iter'. hashnext_loop lib reader os iter = Some (SPARKEY_SUCCESS, os, iter')
    \<and> next_live lib (hr_log reader) es iter'"
  using assms(3-)
proof (induction es arbitrary: ds iter)
  case Nil
  have ok: "reader_ok lib (hr_log reader)" using rd by (simp add: reads_index_def)
  obtain iter' where "sparkey_logiter_next lib iter (hr_log reader) = Some (SPARKEY_SUCCESS, iter')"
    "it_state iter' = SPARKEY_ITER_CLOSED" "\<exists>cur rest. iter_at lib (hr_log reader) iter' cur rest"
    by (rule logiter_next_end [OF ok Nil.prems(2)])
  then show ?case by (subst hashnext_loop.simps) (simp add: next_live_def)
next
  case (Cons e es)
  let ?log = "hr_log reader" let ?h = "hr_header reader"
  have ok: "reader_ok lib ?log" and r: "index_rep lib ?log ?h (reader_table reader) M"
    using rd by (simp_all add: reads_index_def)
  have shape: "index_shape ?h" and ad: "addresses_ok ?h ?log" using r by (auto simp: index_rep_def table_ok_def)
  obtain iter1 idx where n: "sparkey_logiter_next lib iter ?log = Some (SPARKEY_SUCCESS, iter1)"
    and a: "active lib ?log iter1 e es (entry_key e) (entry_value e)"
    and bd: "body_at lib ?log iter1 idx e es (entry_body e)" "it_entry_count iter1 = of_nat idx"
      "rtype ?log = SPARKEY_COMPRESSION_NONE \<longrightarrow> idx = 0"
    by (rule logiter_next_entry [OF ok Cons.prems(2)]) blast
  note go = Cons.IH [of "ds @ [e]", unfolded append_assoc append_Cons append_Nil, OF Cons.prems(1)]
  have keys: "\<forall>e \<in> set es. length (entry_key e) < 2 ^ 31" using Cons.prems(3) by simp
  show ?case
  proof (cases "is_put e")
    case False
    then have "hashnext_loop lib reader os iter = hashnext_loop lib reader os iter1"
      using n a by (subst hashnext_loop.simps) (simp add: active_def)
    then show ?thesis using go [OF active_before [OF a] keys] next_live_skip [of lib ?log es _ e] False by auto
  next
    case True
    then obtain v where e: "e = PutEntry (entry_key e) v" by (cases e) auto
    let ?p = "push_bit (block_bits ?h) (it_entry_block_position iter1) OR scast (it_entry_count iter1) :: u64"
    have len: "length (entry_key e) < 2 ^ 31" using Cons.prems(3) by simp
    obtain k where k: "key_hash ?h (entry_key e) = Some k" by (rule key_hash_total [OF shape len])
    have st: "stored lib ?log ?h e es ?p" by (rule body_stored [OF ok ad bd(1,2)]) (use bd(3) in blast)
    obtain cur rest where it: "iter_at lib ?log iter1 cur rest" using active_iter_at [OF a] by blast
    obtain iter2 where hash: "sparkey_iter_hash lib ?h os iter1 ?log = Some (k, os, iter2)"
      and a2: "active lib ?log iter2 e es [] (entry_value e)"
      by (rule iter_hash_active [OF ok a len os k])
    have live: "M (entry_key e) = Some ?p \<longleftrightarrow> (\<forall>x \<in> set es. entry_key x \<noteq> entry_key e)"
      using indexes_live [OF ok ad it, of ds "entry_key e" v es M ?p] Cons.prems(1) st e by metis
    have probe: "hashnext_probe ?h (reader_table reader) ?p (k mod hh_hash_capacity ?h)
        (k mod hh_hash_capacity ?h * slot_size ?h) 0 = Some (M (entry_key e) = Some ?p)"
      using probe_address [OF ok r it _ k, of v es ?p] st e by metis
    have cap: "hh_hash_capacity ?h \<noteq> 0" using shape by (auto simp: index_shape_def)
    have step: "hashnext_loop lib reader os iter =
      (if M (entry_key e) = Some ?p then map_option (\<lambda>(rc, iter). (rc, os, iter)) (sparkey_logiter_reset lib iter2 ?log)
       else hashnext_loop lib reader os iter2)"
      using n a True hash probe cap by (subst hashnext_loop.simps) (simp add: active_def Let_def)
    show ?thesis
    proof (cases "M (entry_key e) = Some ?p")
      case True
      obtain iter3 where "sparkey_logiter_reset lib iter2 ?log = Some (SPARKEY_SUCCESS, iter3)"
        "active lib ?log iter3 e es (entry_key e) (entry_value e)"
        by (rule logiter_reset_active [OF ok a2])
      moreover have "live_entries (e # es) = e # live_entries es" using True live \<open>is_put e\<close> by simp
      ultimately have "next_live lib ?log (e # es) iter3" unfolding next_live_def by auto
      then show ?thesis using step True \<open>sparkey_logiter_reset lib iter2 ?log = Some (SPARKEY_SUCCESS, iter3)\<close> by simp
    next
      case False
      then have "live_entries (e # es) = live_entries es" using live by auto
      then show ?thesis
        using False step go [OF active_before [OF a2] keys] next_live_skip [of lib ?log es _ e] by auto
    qed
  qed
qed

text \<open>A client that iterates over an index from end to end, as \<open>src/src/testsystem.c\<close> does.\<close>

partial_function (option) read_live ::
  "codec_lib \<Rightarrow> sparkey_hashreader \<Rightarrow> os \<Rightarrow> sparkey_logiter \<Rightarrow> (log_entry list \<times> os \<times> sparkey_logiter) result" where
  "read_live lib reader os iter =
     rethrow (sparkey_logiter_hashnext lib os iter reader) (Pair []) (\<lambda>(os, iter).
     if sparkey_logiter_state iter \<noteq> SPARKEY_ITER_ACTIVE then Some (SPARKEY_SUCCESS, [], os, iter)
     else
       rethrow (sparkey_logiter_fill_key lib iter (hr_log reader) (sparkey_logiter_keylen iter))
         (\<lambda>(k, iter). ([], os, iter)) (\<lambda>(k, iter).
       rethrow (sparkey_logiter_fill_value lib iter (hr_log reader) (sparkey_logiter_valuelen iter))
         (\<lambda>(v, iter). ([], os, iter)) (\<lambda>(v, iter).
       rethrow (read_live lib reader os iter) id
         (\<lambda>(es, s). Some (SPARKEY_SUCCESS, current_entry iter k v # es, s)))))"

lemma fill_current:
  assumes ok: "reader_ok lib log" and a: "active lib log iter e es (entry_key e) (entry_value e)"
  obtains iter1 iter2 rk where "sparkey_logiter_fill_key lib iter log (it_keylen iter) = Some (SPARKEY_SUCCESS, entry_key e, iter1)"
    "sparkey_logiter_fill_value lib iter1 log (it_valuelen iter1) = Some (SPARKEY_SUCCESS, entry_value e, iter2)"
    "active lib log iter2 e es rk []"
proof -
  have len: "unat (it_keylen iter) = length (entry_key e)" by (rule active_full_lengths [OF a])
  obtain iter1 where 1: "sparkey_logiter_fill_key lib iter log (it_keylen iter)
      = Some (SPARKEY_SUCCESS, take (unat (it_keylen iter)) (entry_key e), iter1)"
    "active lib log iter1 e es (drop (unat (it_keylen iter)) (entry_key e)) (entry_value e)"
    by (rule fill_key_active [OF ok a])
  have len2: "unat (it_valuelen iter1) = length (entry_value e)"
    using active_lengths(2) [OF 1(2)] 1(2) by (simp add: active_def)
  obtain iter2 rk where "sparkey_logiter_fill_value lib iter1 log (it_valuelen iter1)
      = Some (SPARKEY_SUCCESS, take (unat (it_valuelen iter1)) (entry_value e), iter2)"
    "active lib log iter2 e es rk (drop (unat (it_valuelen iter1)) (entry_value e))"
    by (rule fill_value_active [OF ok 1(2)])
  then show thesis using that 1(1) len len2 by simp
qed

lemma read_live_all:
  assumes rd: "reads_index lib reader M" and os: "os_mallocs os = []"
    and "indexes lib (hr_log reader) (hr_header reader) (ds @ es) [] M" "before lib (hr_log reader) iter es"
    and "\<forall>e \<in> set (ds @ es). length (entry_key e) < 2 ^ 31"
  shows "\<exists>iter'. read_live lib reader os iter = Some (SPARKEY_SUCCESS, live_entries es, os, iter')"
  using assms(3-)
proof (induction "length es" arbitrary: ds es iter rule: less_induct)
  case less
  let ?log = "hr_log reader"
  have ok: "reader_ok lib ?log" and op: "assert_reader_open reader = SPARKEY_SUCCESS"
    using rd by (simp_all add: reads_index_def assert_reader_open_def)
  have keys: "\<forall>e \<in> set es. length (entry_key e) < 2 ^ 31" using less.prems(3) by simp
  obtain iter1 where n: "sparkey_logiter_hashnext lib os iter reader = Some (SPARKEY_SUCCESS, os, iter1)"
    and res: "next_live lib ?log es iter1"
    using hashnext_loop_live [OF rd os less.prems(1,2) keys] op by (auto simp: sparkey_logiter_hashnext_def)
  show ?case
  proof (cases "live_entries es")
    case Nil
    then show ?thesis using n res by (subst read_live.simps) (simp add: sparkey_logiter_state_def next_live_def)
  next
    case (Cons e rest)
    then obtain ds' es' where d: "es = ds' @ e # es'" "rest = live_entries es'"
      and a: "active lib ?log iter1 e es' (entry_key e) (entry_value e)"
      using res by (auto simp: next_live_def)
    obtain iter2 iter3 rk where f: "sparkey_logiter_fill_key lib iter1 ?log (it_keylen iter1) = Some (SPARKEY_SUCCESS, entry_key e, iter2)"
      "sparkey_logiter_fill_value lib iter2 ?log (it_valuelen iter2) = Some (SPARKEY_SUCCESS, entry_value e, iter3)"
      "active lib ?log iter3 e es' rk []"
      by (rule fill_current [OF ok a])
    have "length es' < length es" using d(1) by simp
    moreover have split: "(ds @ ds' @ [e]) @ es' = ds @ es" using d(1) by simp
    ultimately have "\<exists>iter'. read_live lib reader os iter3 = Some (SPARKEY_SUCCESS, live_entries es', os, iter')"
      using less.hyps [OF _ _ active_before [OF f(3)], of "ds @ ds' @ [e]"] less.prems(1,3) unfolding split by blast
    then obtain iter' where "read_live lib reader os iter3 = Some (SPARKEY_SUCCESS, live_entries es', os, iter')" ..
    then show ?thesis
      using n f(1,2) active_state [OF a] active_current_entry [OF f(3)] Cons d(2)
      by (subst read_live.simps)
        (simp add: sparkey_logiter_state_def sparkey_logiter_keylen_def sparkey_logiter_valuelen_def)
  qed
qed

end
