(* ===== verification/IndexProperties.thy ===== *)
theory IndexProperties
  imports IndexIterate
begin

text \<open>
  The properties of the index: building it, looking keys up, iterating over it, the invariant of the hash
  table, and where its loops end and where they do not.
\<close>

section \<open>A small log\<close>

text \<open>The log all witnesses use: a put, a delete of another key, and a put of the empty key.\<close>

definition demo_log :: "log_entry list" where
  "demo_log = [PutEntry [1] [2], DeleteEntry [3], PutEntry [] [4]]"

text \<open>Log files without compression, and an operating system with such a file.\<close>

definition plain_header :: "log_entry list \<Rightarrow> sparkey_logheader" where
  "plain_header es = empty_log_header
     \<lparr>lh_num_puts := of_nat (length (filter is_put es)), lh_num_deletes := of_nat (length (filter (Not \<circ> is_put) es)),
      lh_data_end := of_nat (84 + length (encode_entries es)),
      lh_put_size := of_nat (length (encode_entries (filter is_put es))),
      lh_delete_size := of_nat (length (encode_entries (filter (Not \<circ> is_put) es))),
      lh_max_key_len := of_nat (max_length (map entry_key (filter is_put es))),
      lh_max_value_len := of_nat (max_length (map entry_value (filter is_put es)))\<rparr>"

definition plain_file :: "log_entry list \<Rightarrow> bytes" where
  "plain_file es = logheader_bytes (plain_header es) @ encode_entries es"

definition plain_os :: "log_entry list \<Rightarrow> os" where
  "plain_os es = fresh_os\<lparr>os_names := [''a.spl'' \<mapsto> 0], os_store := [plain_file es]\<rparr>"

lemma max_length_le: "\<forall>x \<in> set xs. length x \<le> n \<Longrightarrow> max_length xs \<le> n"
  by (induction xs) simp_all

lemma plain_indexable:
  assumes cat: "concat gs = es" and small: "length (encode_entries es) < 2 ^ 40" "length es < 2 ^ 40"
    and ok: "\<forall>e \<in> set es. entry_ok e \<and> length (entry_key e) < 2 ^ 31 \<and> length (entry_value e) < 2 ^ 31"
  shows "indexable_file store_lib (plain_header es) gs (plain_file es)"
proof -
  let ?h = "plain_header es"
  have t: "lh_compression_type ?h = SPARKEY_COMPRESSION_NONE" and m: "lh_max_entries_per_block ?h = 0"
    by (simp_all add: plain_header_def empty_log_header_def new_header_def blank_header_def)
  have d: "log_data store_lib ?h gs = encode_entries es"
    using t cat by (simp add: log_data_def sparkey_compressors_def)
  have hv: "header_versions ?h"
    using t by (simp add: header_versions_def) (simp add: plain_header_def empty_log_header_def new_header_def)
  have "max_length (map entry_key (filter is_put es)) \<le> 2 ^ 31" "max_length (map entry_value (filter is_put es)) \<le> 2 ^ 31"
    using ok by (intro max_length_le; auto intro: less_imp_le)+
  then have "header_counts ?h es" by (simp add: header_counts_def plain_header_def unat_of_nat_u64)
  then have f: "log_file store_lib ?h gs (plain_file es)"
    using t cat by (simp add: log_file_def d plain_file_def sparkey_compressors_def) (simp add: plain_header_def)
  have len: "length (plain_file es) < 2 ^ 63" using small(1) by (simp add: plain_file_def)
  have "log_loadable store_lib ?h gs (plain_file es)"
    by (rule log_loadable_entries [OF f hv len]) (simp add: t sparkey_uses_compressor_def)
  moreover have "length (filter is_put es) < 2 ^ 40" using length_filter_le [of is_put es] small(2) by linarith
  then have "log_indexable ?h"
    using small(1) m by (simp add: log_indexable_def) (simp add: plain_header_def unat_of_nat_u64)
  ultimately show ?thesis using f ok cat by (simp add: indexable_file_def)
qed

lemma plain_os_indexes: "os_indexes (plain_os es) ''a.spi'' ''a.spl'' (plain_file es)"
  by (simp add: os_indexes_def plain_os_def fresh_os_def os_open_read_def os_content_def os_calm_def)

lemma plain_old: "old_index (plain_os es) ''a.spi'' h = None"
  by (simp add: old_index_def sparkey_load_hashheader_def os_open_read_def os_content_def plain_os_def fresh_os_def)

abbreviation "demo_header \<equiv> plain_header demo_log"
abbreviation "demo_file \<equiv> plain_file demo_log"
abbreviation "demo_os \<equiv> plain_os demo_log"

lemma demo_log_length: "length (encode_entries demo_log) = 10"
  by code_simp

lemma demo_indexable: "indexable_file store_lib demo_header [demo_log] demo_file"
  by (rule plain_indexable) (simp_all add: demo_log_length, simp_all add: demo_log_def entry_ok_small entry_body_def)

lemmas demo_os_indexes = plain_os_indexes [of demo_log]

lemmas demo_old = plain_old [of demo_log]

section \<open>Looking up many keys\<close>

text \<open>A client that looks up one key after the other with the same iterator and fetches the values.\<close>

fun hash_lookups ::
  "codec_lib \<Rightarrow> sparkey_hashreader \<Rightarrow> bytes list \<Rightarrow> sparkey_logiter \<Rightarrow> (bytes option list \<times> sparkey_logiter) result" where
  "hash_lookups lib reader [] iter = Some (SPARKEY_SUCCESS, [], iter)"
| "hash_lookups lib reader (key # keys) iter =
     rethrow (sparkey_hash_get lib reader key iter) (Pair []) (\<lambda>iter.
     rethrow
       (if sparkey_logiter_state iter \<noteq> SPARKEY_ITER_ACTIVE then Some (SPARKEY_SUCCESS, None, iter)
        else
          map_option (\<lambda>(rc, v, iter). (rc, Some v, iter))
            (sparkey_logiter_fill_value lib iter (sparkey_hash_getreader reader) (sparkey_logiter_valuelen iter)))
       (\<lambda>(v, iter). ([], iter)) (\<lambda>(v, iter).
     map_option (\<lambda>(rc, vs, iter). (rc, v # vs, iter)) (hash_lookups lib reader keys iter)))"

text \<open>One lookup, in terms of the map of the log.\<close>

lemma hash_get_log_map:
  assumes rd: "reads_index lib reader M" and ix: "indexes lib (hr_log reader) (hr_header reader) es [] M"
    and it: "iter_at lib (hr_log reader) iter cur rest" and len: "length key < 2 ^ 31"
  obtains iter1 where "sparkey_hash_get lib reader key iter = Some (SPARKEY_SUCCESS, iter1)"
    "case log_map es key of
       None \<Rightarrow> it_state iter1 = SPARKEY_ITER_INVALID \<and> (\<exists>cur rest. iter_at lib (hr_log reader) iter1 cur rest)
     | Some v \<Rightarrow> \<exists>es'. active lib (hr_log reader) iter1 (PutEntry key v) es' [] v"
proof -
  let ?log = "hr_log reader" let ?h = "hr_header reader"
  have ok: "reader_ok lib ?log" and ad: "addresses_ok ?h ?log" and shape: "index_shape ?h"
    using rd by (auto simp: reads_index_def index_rep_def table_ok_def)
  obtain a where a: "key_hash ?h key = Some a" by (rule key_hash_total [OF shape len])
  have "length key < 2 ^ 63" using len by simp
  from hash_get_lookup [OF rd a this it] obtain iter1 where
    g: "sparkey_hash_get lib reader key iter = Some (SPARKEY_SUCCESS, iter1)" "lookup_result lib ?log ?h M key iter1" .
  show thesis
  proof (cases "M key")
    case None
    then show thesis using g that indexes_None [OF ix, of key] by (simp add: lookup_result_def)
  next
    case (Some p)
    then obtain v es' where st: "stored lib ?log ?h (PutEntry key v) es' p"
      and act: "active lib ?log iter1 (PutEntry key v) es' [] v"
      using g(2) by (auto simp: lookup_result_def)
    obtain d where "stored lib ?log ?h (PutEntry key (the (log_map es key))) (d @ []) p"
      using indexes_value [OF ix Some] by blast
    then have "v = the (log_map es key)" using stored_unique(1) [OF ok ad it st] by blast
    moreover have "log_map es key \<noteq> None" using indexes_None [OF ix] Some by (metis option.distinct(1))
    ultimately have "log_map es key = Some v" by auto
    then show thesis by (intro that [OF g(1)]) (use act in auto)
  qed
qed

lemma hash_lookups_map:
  assumes rd: "reads_index lib reader M" and ix: "indexes lib (hr_log reader) (hr_header reader) es [] M"
    and "iter_at lib (hr_log reader) iter cur rest" "\<forall>key \<in> set keys. length key < 2 ^ 31"
  shows "\<exists>iter'. hash_lookups lib reader keys iter = Some (SPARKEY_SUCCESS, map (log_map es) keys, iter')"
  using assms(3,4)
proof (induction keys arbitrary: iter cur rest)
  case (Cons key keys)
  let ?log = "hr_log reader"
  have ok: "reader_ok lib ?log" using rd by (simp add: reads_index_def)
  obtain iter1 where g: "sparkey_hash_get lib reader key iter = Some (SPARKEY_SUCCESS, iter1)"
    and res: "case log_map es key of
       None \<Rightarrow> it_state iter1 = SPARKEY_ITER_INVALID \<and> (\<exists>cur rest. iter_at lib ?log iter1 cur rest)
     | Some v \<Rightarrow> \<exists>es'. active lib ?log iter1 (PutEntry key v) es' [] v"
    by (rule hash_get_log_map [OF rd ix Cons.prems(1)]) (use Cons.prems(2) in auto)
  show ?case
  proof (cases "log_map es key")
    case None
    then obtain cur' rest' where "it_state iter1 = SPARKEY_ITER_INVALID" and it: "iter_at lib ?log iter1 cur' rest'"
      using res by auto
    then show ?thesis using g Cons.IH [OF it] Cons.prems(2) None by (auto simp: sparkey_logiter_state_def)
  next
    case (Some v)
    then obtain es' where act: "active lib ?log iter1 (PutEntry key v) es' [] v" using res by auto
    have "unat (it_valuelen iter1) = length v" using active_lengths(2) [OF act] act by (simp add: active_def)
    moreover obtain iter2 rk where f: "sparkey_logiter_fill_value lib iter1 ?log (it_valuelen iter1)
        = Some (SPARKEY_SUCCESS, take (unat (it_valuelen iter1)) v, iter2)"
      "active lib ?log iter2 (PutEntry key v) es' rk (drop (unat (it_valuelen iter1)) v)"
      by (rule fill_value_active [OF ok act])
    moreover obtain cur' rest' where it: "iter_at lib ?log iter2 cur' rest'" using active_iter_at [OF f(2)] by blast
    ultimately show ?thesis
      using g Cons.IH [OF it] Cons.prems(2) Some active_state [OF act]
      by (auto simp: sparkey_logiter_state_def sparkey_logiter_valuelen_def sparkey_hash_getreader_def)
  qed
qed simp

text \<open>Opening an index that was just written, and an iterator for it.\<close>

lemma written_index_session:
  assumes f: "indexable_file lib lh gs c" and os: "os_indexes os hf lf c"
    and log: "\<And>junk. sparkey_logreader_open_noalloc os junk lf = Inr log"
    and ixf: "index_for lib lh (concat gs) log hh t M"
  obtains reader iter where
    "sparkey_hash_open junkh (with_index os hf (hashheader_bytes hh @ t) ws) hf lf
      = (Inr reader, with_index os hf (hashheader_bytes hh @ t) ws)"
    "sparkey_logiter_create junki (with_index os hf (hashheader_bytes hh @ t) ws) (sparkey_hash_getreader reader)
      = (Inr iter, with_index os hf (hashheader_bytes hh @ t) ws)"
    "reads_index lib reader M" "indexes lib (hr_log reader) (hr_header reader) (concat gs) [] M"
    "before lib (hr_log reader) iter (concat gs)"
    "sparkey_hash_numentries reader = of_nat (card (dom (log_map (concat gs))))"
proof -
  have o: "os_open_read os lf = Inr c" "os_mallocs os = []" "os_mmap_ok os" "hf \<noteq> lf"
    "\<forall>i. os_names os lf = Some i \<longrightarrow> i < length (os_store os)"
    using os by (simp_all add: os_indexes_def)
  let ?os = "with_index os hf (hashheader_bytes hh @ t) ws"
  obtain reader where rd: "sparkey_hash_open junkh ?os hf lf = (Inr reader, ?os)" "reads_index lib reader M"
    "hr_header reader = hh\<lparr>hh_header_size := HASH_HEADER_SIZE\<rparr>" "hr_log reader = log"
    by (rule index_opens [OF f os log ixf])
  have ix: "indexes lib log hh (concat gs) [] M" "hh_num_entries hh = of_nat (card (dom (log_map (concat gs))))"
    using ixf by (simp_all add: index_for_def)
  have "same_index hh (hr_header reader)" by (simp add: rd(3) same_index_def)
  then have ix': "indexes lib (hr_log reader) (hr_header reader) (concat gs) [] M"
    using ix(1) same_index_stored(2) rd(4) by simp
  have other: "os_open_read ?os lf = Inr c" "os_names ?os lf = os_names os lf" "os_content ?os lf = os_content os lf"
    using with_index_other [of lf hf os c] o(1,4,5) by auto
  obtain log' where log': "\<And>junk. sparkey_logreader_open_noalloc ?os junk lf = Inr log'"
    "\<And>junk. \<exists>iter. sparkey_logiter_create junk ?os log' = (Inr iter, ?os) \<and> before lib log' iter (concat gs)"
    using indexable_reader [OF f other(1)] o(2,3) by (metis with_index_same(1,2))
  have "log' = log"
    using log'(1) log logreader_open_same [of ?os lf os undefined undefined] other o(1) by simp
  then obtain iter where "sparkey_logiter_create junki ?os log = (Inr iter, ?os)" "before lib log iter (concat gs)"
    using log'(2) by blast
  then show thesis
    using that [OF rd(1) _ rd(2) ix'] rd(3,4) ix(2)
    by (simp add: sparkey_hash_getreader_def sparkey_hash_numentries_def)
qed

lemma index_session:
  assumes f: "indexable_file lib lh gs c" and os: "os_indexes os hf lf c"
    and old: "old_index os hf (lh\<lparr>lh_header_size := LOG_HEADER_SIZE\<rparr>) = None"
    and hs: "hash_size = 0 \<or> hash_size = 4 \<or> hash_size = 8"
  obtains os' reader M iter where
    "sparkey_hash_write lib junk junkr junki junki2 mem os hf lf hash_size = Some (SPARKEY_SUCCESS, os')"
    "sparkey_hash_open junkh os' hf lf = (Inr reader, os')" "os_mallocs os' = []"
    "sparkey_logiter_create junki3 os' (sparkey_hash_getreader reader) = (Inr iter, os')"
    "reads_index lib reader M" "indexes lib (hr_log reader) (hr_header reader) (concat gs) [] M"
    "before lib (hr_log reader) iter (concat gs)"
    "sparkey_hash_numentries reader = of_nat (card (dom (log_map (concat gs))))"
proof -
  have o: "os_open_read os lf = Inr c" "os_mallocs os = []" "os_mmap_ok os" using os by (simp_all add: os_indexes_def)
  obtain log where log: "\<And>junk. sparkey_logreader_open_noalloc os junk lf = Inr log"
    by (rule indexable_reader [OF f o(1,3,2)]) blast
  obtain ws hh t M where w: "sparkey_hash_write lib junk junkr junki junki2 mem os hf lf hash_size
       = Some (SPARKEY_SUCCESS, with_index os hf (hashheader_bytes hh @ t) ws)" "list_all write_retryable ws"
    "index_for lib lh (concat gs) log hh t M"
    by (rule hash_write_new [OF f os hs old log])
  obtain reader iter where
    "sparkey_hash_open junkh (with_index os hf (hashheader_bytes hh @ t) ws) hf lf
      = (Inr reader, with_index os hf (hashheader_bytes hh @ t) ws)"
    "sparkey_logiter_create junki3 (with_index os hf (hashheader_bytes hh @ t) ws) (sparkey_hash_getreader reader)
      = (Inr iter, with_index os hf (hashheader_bytes hh @ t) ws)"
    "reads_index lib reader M" "indexes lib (hr_log reader) (hr_header reader) (concat gs) [] M"
    "before lib (hr_log reader) iter (concat gs)"
    "sparkey_hash_numentries reader = of_nat (card (dom (log_map (concat gs))))"
    by (rule written_index_session [OF f os log w(3)])
  then show thesis using that [OF w(1)] o(2) by simp
qed

section \<open>Properties\<close>

text \<open>
  C1: an index answers every lookup like the map of the log. After \<open>sparkey_hash_write\<close> has indexed a log file
  (no older index of the same log being there), \<open>sparkey_hash_open\<close> accepts the index, the number of entries
  in its header is the number of live keys, and looking up any sequence of keys with one iterator gives
  for each key the value of its last put, or nothing if the key was never put or was deleted since.
\<close>

theorem index_answers_lookups:
  assumes "indexable_file lib lh gs c" "os_indexes os hf lf c"
    and "old_index os hf (lh\<lparr>lh_header_size := LOG_HEADER_SIZE\<rparr>) = None" "hash_size = 0 \<or> hash_size = 4 \<or> hash_size = 8"
    and keys: "\<forall>key \<in> set keys. length key < 2 ^ 31"
  shows "\<exists>os' reader iter iter'.
      sparkey_hash_write lib junk junkr junki junki2 mem os hf lf hash_size = Some (SPARKEY_SUCCESS, os')
    \<and> sparkey_hash_open junkh os' hf lf = (Inr reader, os')
    \<and> sparkey_logiter_create junki3 os' (sparkey_hash_getreader reader) = (Inr iter, os')
    \<and> hash_lookups lib reader keys iter = Some (SPARKEY_SUCCESS, map (log_map (concat gs)) keys, iter')
    \<and> sparkey_hash_numentries reader = of_nat (card (dom (log_map (concat gs))))"
proof -
  obtain os' reader M iter where s:
    "sparkey_hash_write lib junk junkr junki junki2 mem os hf lf hash_size = Some (SPARKEY_SUCCESS, os')"
    "sparkey_hash_open junkh os' hf lf = (Inr reader, os')" "os_mallocs os' = []"
    "sparkey_logiter_create junki3 os' (sparkey_hash_getreader reader) = (Inr iter, os')"
    "reads_index lib reader M" "indexes lib (hr_log reader) (hr_header reader) (concat gs) [] M"
    "before lib (hr_log reader) iter (concat gs)"
    "sparkey_hash_numentries reader = of_nat (card (dom (log_map (concat gs))))"
    by (rule index_session [OF assms(1-4)])
  obtain cur rest where it: "iter_at lib (hr_log reader) iter cur rest" using before_iter_at [OF s(7)] by blast
  show ?thesis using s hash_lookups_map [OF s(5,6) it keys] by blast
qed

theorem index_answers_lookups_witness:
  "\<exists>os' reader iter iter'.
      sparkey_hash_write store_lib undefined undefined undefined undefined [] demo_os ''a.spi'' ''a.spl'' 0
        = Some (SPARKEY_SUCCESS, os')
    \<and> sparkey_hash_open undefined os' ''a.spi'' ''a.spl'' = (Inr reader, os')
    \<and> sparkey_logiter_create undefined os' (sparkey_hash_getreader reader) = (Inr iter, os')
    \<and> hash_lookups store_lib reader [[1], [3], []] iter = Some (SPARKEY_SUCCESS, [Some [2], None, Some [4]], iter')
    \<and> sparkey_hash_numentries reader = 2"
proof -
  have "log_map demo_log = [[1] \<mapsto> [2], [] \<mapsto> [4]]" by (auto simp: log_map_def apply_entry_def demo_log_def)
  then have "map (log_map (concat [demo_log])) [[1], [3], []] = [Some [2], None, Some [4]]"
    "card (dom (log_map (concat [demo_log]))) = 2" by simp_all
  then show ?thesis
    using index_answers_lookups [OF demo_indexable demo_os_indexes demo_old, of 0 "[[1], [3], []]"] by simp
qed

text \<open>
  C7: iterating over an index delivers the live entries. With an index as in the previous property,
  calling \<open>sparkey_logiter_hashnext\<close> until the iterator is closed and fetching keys and values gives exactly
  the puts of the log that are the last operation on their key, in the order of the log.
\<close>

theorem index_iteration_live:
  assumes "indexable_file lib lh gs c" "os_indexes os hf lf c"
    and "old_index os hf (lh\<lparr>lh_header_size := LOG_HEADER_SIZE\<rparr>) = None" "hash_size = 0 \<or> hash_size = 4 \<or> hash_size = 8"
  shows "\<exists>os' reader iter iter'.
      sparkey_hash_write lib junk junkr junki junki2 mem os hf lf hash_size = Some (SPARKEY_SUCCESS, os')
    \<and> sparkey_hash_open junkh os' hf lf = (Inr reader, os')
    \<and> sparkey_logiter_create junki3 os' (sparkey_hash_getreader reader) = (Inr iter, os')
    \<and> read_live lib reader os' iter = Some (SPARKEY_SUCCESS, live_entries (concat gs), os', iter')"
proof -
  obtain os' reader M iter where s:
    "sparkey_hash_write lib junk junkr junki junki2 mem os hf lf hash_size = Some (SPARKEY_SUCCESS, os')"
    "sparkey_hash_open junkh os' hf lf = (Inr reader, os')" "os_mallocs os' = []"
    "sparkey_logiter_create junki3 os' (sparkey_hash_getreader reader) = (Inr iter, os')"
    "reads_index lib reader M" "indexes lib (hr_log reader) (hr_header reader) (concat gs) [] M"
    "before lib (hr_log reader) iter (concat gs)"
    "sparkey_hash_numentries reader = of_nat (card (dom (log_map (concat gs))))"
    by (rule index_session [OF assms])
  have "\<forall>e \<in> set ([] @ concat gs). length (entry_key e) < 2 ^ 31" using assms(1) by (simp add: indexable_file_def)
  then show ?thesis using s read_live_all [OF s(5,3) _ s(7), of "[]"] by auto
qed

theorem index_iteration_live_witness:
  "\<exists>os' reader iter iter'.
      sparkey_hash_write store_lib undefined undefined undefined undefined [] demo_os ''a.spi'' ''a.spl'' 8
        = Some (SPARKEY_SUCCESS, os')
    \<and> sparkey_hash_open undefined os' ''a.spi'' ''a.spl'' = (Inr reader, os')
    \<and> sparkey_logiter_create undefined os' (sparkey_hash_getreader reader) = (Inr iter, os')
    \<and> read_live store_lib reader os' iter = Some (SPARKEY_SUCCESS, [PutEntry [1] [2], PutEntry [] [4]], os', iter')"
  using index_iteration_live [OF demo_indexable demo_os_indexes demo_old, of 8] by (simp add: demo_log_def)

end
