(* ===== verification/HashCopy.thy ===== *)
theory HashCopy
  imports IndexFile
begin

text \<open>
  Copying an old index: \<open>read_fully\<close> without short reads, and the loops of \<open>hash_copy\<close> and \<open>fill_hash\<close>, which
  put every item of the old table into the new one, with its address packed anew.
\<close>

section \<open>Reading the old table\<close>

text \<open>Without short reads: all bytes are delivered at once.\<close>

lemma sys_read_plain:
  assumes "fd_ino fd = Some i" "os_reads os = []"
  shows "sys_read os fd n = (Inr (take n (drop (fd_off fd) (os_store os ! i))), os,
    fd_advance fd (length (take n (drop (fd_off fd) (os_store os ! i)))))"
  using assms by (simp add: sys_read_def Let_def)

text \<open>At the end of the file \<open>read\<close> delivers nothing and the loop goes on for ever.\<close>

lemma read_fully_end:
  assumes "read_fully os fd buf n = Some r"
    and "os_reads os = []" "fd_ino fd = Some i" "length (os_store os ! i) \<le> fd_off fd" "0 < n"
  shows False
  using assms
proof (induction rule: read_fully.raw_induct [rotated, consumes 1, case_names 1])
  case (1 loop os fd buf n r)
  have "sys_read os fd n = (Inr [], os, fd)"
    using sys_read_plain [OF "1.prems"(2,1), of n] "1.prems"(3) by simp
  then have "loop os fd buf n = Some r" using 1(2) "1.prems"(4) by simp
  then show False by (rule 1(1)) (use "1.prems" in simp_all)
qed

lemma read_fully_plain:
  assumes os: "os_reads os = []" "fd_ino fd = Some i"
  shows "read_fully os fd buf n =
    (if n \<le> length (drop (fd_off fd) (os_store os ! i))
     then Some (SPARKEY_SUCCESS, os, fd_advance fd n, take n (drop (fd_off fd) (os_store os ! i)) @ drop n buf) else None)"
proof (cases "n = 0")
  case True
  then show ?thesis by (subst read_fully.simps) simp
next
  case False
  let ?rest = "drop (fd_off fd) (os_store os ! i)" let ?got = "take n ?rest"
  have step: "read_fully os fd buf n = read_fully os (fd_advance fd (length ?got)) (?got @ drop (length ?got) buf) (n - length ?got)"
    using False by (subst read_fully.simps) (simp add: sys_read_plain [OF os(2,1)])
  show ?thesis
  proof (cases "n \<le> length ?rest")
    case True
    then have "length ?got = n" by simp
    then show ?thesis using True unfolding step by (subst read_fully.simps) simp
  next
    case less: False
    have "read_fully os (fd_advance fd (length ?got)) (?got @ drop (length ?got) buf) (n - length ?got) = None"
    proof (rule ccontr)
      assume "\<not> ?thesis"
      then obtain r where "read_fully os (fd_advance fd (length ?got)) (?got @ drop (length ?got) buf) (n - length ?got) = Some r"
        by auto
      then show False by (rule read_fully_end [where i = i]) (use os less in auto)
    qed
    then show ?thesis using less unfolding step by simp
  qed
qed

section \<open>Putting items that need no comparison\<close>

text \<open>A table in order that holds the items \<open>X\<close>.\<close>

definition table_items :: "sparkey_hashheader \<Rightarrow> bytes \<Rightarrow> (u64 \<times> u64) multiset \<Rightarrow> bool" where
  "table_items h t X \<longleftrightarrow>
     table_ok h t \<and> rh_inv (wanted h) (slots h t) \<and> (\<exists>i. at_rest (wanted h) (slots h t) i) \<and> items (slots h t) = X"

lemma table_items_same: "same_index h h' \<Longrightarrow> table_items h' = table_items h"
  by (intro ext) (simp add: table_items_def same_index_simps)

lemma table_items_empty:
  assumes "index_shape h"
  shows "table_items h (replicate (unat (slot_size h * hh_hash_capacity h)) 0) {#}"
  using table_ok_new [OF assms] rh_inv_replicate_None [OF capacity_pos [OF assms]]
  by (auto simp: table_items_def)

lemma hash_put_item:
  assumes t: "table_items h t X" and x: "item_fits h (a, p)" "p \<noteq> 0" and room: "size X < capacity h"
  obtains t' where "hash_put lib (a mod hh_hash_capacity h) a t h None p = Some (SPARKEY_SUCCESS, t', added_entry h, None)"
    "table_items h t' (add_mset (a, p) X)"
proof -
  let ?s = "unat (a mod hh_hash_capacity h)"
  have ok: "table_ok h t" "rh_inv (wanted h) (slots h t)" and X: "items (slots h t) = X" and shape: "index_shape h"
    using t by (auto simp: table_items_def table_ok_def)
  have s: "?s < capacity h" using wanted_less [OF shape, of "(a, 0)"] by (simp add: wanted_def)
  obtain i where i: "i < capacity h" "slots h t ! i = None"
    using empty_slot_exists [of "slots h t"] room X by auto
  have "carried (wanted h) (slots h t) ?s 0 (a, p)" using s by (intro carried_start) (simp_all add: wanted_def)
  from hash_put_walk [OF ok this x i, of lib None] obtain t' where
    "hash_put_loop lib t h None False (of_nat ?s) (of_nat ?s * slot_size h) (of_nat 0) a p = Some (SPARKEY_SUCCESS, t', added_entry h, None)"
    "table_items h t' (add_mset (a, p) X)"
    unfolding table_items_def X by blast
  then show thesis using that by (simp add: hash_put_def)
qed

section \<open>Addresses in the new table\<close>

definition moved_address :: "sparkey_hashheader \<Rightarrow> sparkey_hashheader \<Rightarrow> u64 \<Rightarrow> u64" where
  "moved_address ho h p = push_bit (block_bits h) (drop_bit (block_bits ho) p) OR of_int (entry_index ho p)"

definition moved_item :: "sparkey_hashheader \<Rightarrow> sparkey_hashheader \<Rightarrow> u64 \<times> u64 \<Rightarrow> u64 \<times> u64" where
  "moved_item ho h x = (fst x, moved_address ho h (snd x))"

definition movable :: "sparkey_hashheader \<Rightarrow> sparkey_hashheader \<Rightarrow> u64 \<times> u64 \<Rightarrow> bool" where
  "movable ho h x \<longleftrightarrow> drop_bit (block_bits ho) (snd x) \<noteq> 0 \<and> item_fits h (moved_item ho h x) \<and> moved_address ho h (snd x) \<noteq> 0"

lemma moved_same:
  assumes "same_index h h'"
  shows "moved_item ho h' = moved_item ho h" "movable ho h' = movable ho h" "moved_address ho h' = moved_address ho h"
proof -
  show a: "moved_address ho h' = moved_address ho h" by (intro ext) (simp add: moved_address_def same_index_simps [OF assms])
  show i: "moved_item ho h' = moved_item ho h" by (intro ext) (simp add: moved_item_def a)
  show "movable ho h' = movable ho h" by (intro ext) (simp add: movable_def a i same_index_simps [OF assms])
qed

section \<open>Copying a piece of the table\<close>

text \<open>The slots of the piece from slot \<open>i\<close> to \<open>n\<close>.\<close>

definition piece_slots :: "sparkey_hashheader \<Rightarrow> bytes \<Rightarrow> nat \<Rightarrow> nat \<Rightarrow> (u64 \<times> u64) option list" where
  "piece_slots ho buf i n = map (slot_at ho buf) [i..<n]"

lemma read_slot_piece:
  assumes shape: "index_shape ho" and i: "i < n" "n * unat (slot_size ho) \<le> length buf" "n * unat (slot_size ho) < 2 ^ 31"
    and pos: "unat (pos :: u64) = i * unat (slot_size ho)"
  obtains a p where "read_slot ho buf pos = Some (a, p)" "slot_at ho buf i = (if p = 0 then None else Some (a, p))"
proof -
  let ?S = "unat (slot_size ho)"
  have "Suc i * ?S \<le> n * ?S" using i(1) by (intro mult_le_mono1) simp
  then have le: "i * ?S + ?S \<le> n * ?S" by simp
  let ?bs = "take ?S (drop (i * ?S) buf)"
  have "read_slot ho buf pos = Some (slot_value ho ?bs)"
    using read_slot_value [OF shape, of pos buf] pos i(2,3) le by simp
  then show thesis
    using that [of "fst (slot_value ho ?bs)" "snd (slot_value ho ?bs)"] by (simp add: slot_at_def case_prod_beta)
qed

lemma copy_offset:
  assumes "m < 2 ^ 31" "k \<le> m"
  shows "unat (of_nat k :: u32) = k" "unat (of_nat m :: u64) = m" "unat (ucast (of_nat k :: u32) :: u64) = k"
  using assms by (simp_all add: unat_of_nat unsigned_ucast_eq unsigned_take_bit_eq take_bit_nat_eq_self)

lemma hash_copy_loop_piece:
  assumes "index_shape ho" "n * unat (slot_size ho) \<le> length buf" "n * unat (slot_size ho) < 2 ^ 31"
    and "table_items h t X" "\<forall>x \<in># items (piece_slots ho buf i n). movable ho h x"
    and "size X + size (items (piece_slots ho buf i n)) \<le> capacity h" "i \<le> n"
  shows "\<exists>t' h'. hash_copy_loop lib buf (of_nat (n * unat (slot_size ho))) ho (of_nat (i * unat (slot_size ho))) t h
      = Some (SPARKEY_SUCCESS, t', h')
    \<and> same_index h h' \<and> hh_num_entries h' = hh_num_entries h + of_nat (size (items (piece_slots ho buf i n)))
    \<and> hh_garbage_size h' = hh_garbage_size h
    \<and> table_items h t' (X + image_mset (moved_item ho h) (items (piece_slots ho buf i n)))"
  using assms(4-)
proof (induction "n - i" arbitrary: i t h X)
  case 0
  then have "i = n" by simp
  have "\<not> (ucast (of_nat (n * unat (slot_size ho)) :: u32) :: u64) < of_nat (n * unat (slot_size ho))"
    unfolding word_less_nat_alt copy_offset [OF assms(3) le_refl] by simp
  then show ?case
    using 0 \<open>i = n\<close> same_index_refl by (subst hash_copy_loop.simps) (simp add: piece_slots_def)
next
  case (Suc m)
  let ?S = "unat (slot_size ho)"
  note shape = assms(1) and buf = assms(2,3)
  have i: "i < n" and m: "m = n - Suc i" using Suc.hyps(2) by simp_all
  have "Suc i * ?S \<le> n * ?S" using i by (intro mult_le_mono1) simp
  then have le: "i * ?S + ?S \<le> n * ?S" by simp
  have "i * ?S \<le> n * ?S" by (rule mult_le_mono1) (use i in simp)
  note un = copy_offset [OF buf(2) this]
  have lt: "(ucast (of_nat (i * ?S) :: u32) :: u64) < of_nat (n * ?S)"
    unfolding word_less_nat_alt using un le slot_size_unat(3) [OF shape] by linarith
  have nxt: "of_nat (i * ?S) + ucast (slot_size ho) = (of_nat (Suc i * ?S) :: u32)"
    unfolding mult_Suc of_nat_add of_nat_unat by (rule add.commute)
  obtain a p where rd: "read_slot ho buf (ucast (of_nat (i * ?S) :: u32)) = Some (a, p)"
    "slot_at ho buf i = (if p = 0 then None else Some (a, p))"
    by (rule read_slot_piece [OF shape i buf un(3)])
  have cons: "piece_slots ho buf i n = slot_at ho buf i # piece_slots ho buf (Suc i) n"
    using i by (simp add: piece_slots_def upt_conv_Cons)
  note step = hash_copy_loop.simps [of lib buf "of_nat (n * ?S)" ho "of_nat (i * ?S)" t h]
  show ?case
  proof (cases "p = 0")
    case True
    then have none: "slot_at ho buf i = None" using rd(2) by simp
    have "hash_copy_loop lib buf (of_nat (n * ?S)) ho (of_nat (i * ?S)) t h
      = hash_copy_loop lib buf (of_nat (n * ?S)) ho (of_nat (Suc i * ?S)) t h"
      unfolding step using lt rd(1) True nxt by (simp add: Let_def del: of_nat_mult of_nat_add mult_Suc)
    moreover have "items (piece_slots ho buf i n) = items (piece_slots ho buf (Suc i) n)" using cons none by simp
    ultimately show ?thesis using Suc.hyps(1) [of "Suc i" h t X] Suc.prems Suc.hyps(2) i by simp
  next
    case False
    then have some: "slot_at ho buf i = Some (a, p)" using rd(2) by simp
    have its: "items (piece_slots ho buf i n) = add_mset (a, p) (items (piece_slots ho buf (Suc i) n))" using cons some by simp
    let ?q = "moved_address ho h p"
    have mv: "drop_bit (block_bits ho) p \<noteq> 0" "item_fits h (a, ?q)" "?q \<noteq> 0"
      using Suc.prems(2) its by (simp_all add: movable_def moved_item_def)
    obtain t1 where t1: "hash_put lib (a mod hh_hash_capacity h) a t h None ?q = Some (SPARKEY_SUCCESS, t1, added_entry h, None)"
      "table_items h t1 (add_mset (a, ?q) X)"
      by (rule hash_put_item [OF Suc.prems(1) mv(2,3)]) (use Suc.prems(3) its in simp)
    have run: "hash_copy_loop lib buf (of_nat (n * ?S)) ho (of_nat (i * ?S)) t h
      = hash_copy_loop lib buf (of_nat (n * ?S)) ho (of_nat (Suc i * ?S)) t1 (added_entry h)"
      unfolding step using lt rd(1) mv(1) nxt t1(1)
      by (simp add: Let_def moved_address_def del: of_nat_mult of_nat_add mult_Suc)
    note s = same_index_simps [OF same_index_added] moved_same [OF same_index_added] table_items_same [OF same_index_added]
    obtain t' h' where r: "hash_copy_loop lib buf (of_nat (n * ?S)) ho (of_nat (Suc i * ?S)) t1 (added_entry h) = Some (SPARKEY_SUCCESS, t', h')"
      "same_index (added_entry h) h'"
      "hh_num_entries h' = hh_num_entries (added_entry h) + of_nat (size (items (piece_slots ho buf (Suc i) n)))"
      "hh_garbage_size h' = hh_garbage_size (added_entry h)"
      "table_items h t' (add_mset (a, ?q) X + image_mset (moved_item ho h) (items (piece_slots ho buf (Suc i) n)))"
      using Suc.hyps(1) [of "Suc i" "added_entry h" t1 "add_mset (a, ?q) X"] m Suc.prems its t1(2) i
      unfolding s by auto
    have "same_index h h'" by (rule same_index_trans [OF same_index_added r(2)])
    then show ?thesis using run r by (auto simp: its moved_item_def added_entry_def)
  qed
qed

section \<open>Copying the whole table\<close>

lemma slot_at_piece:
  assumes t: "table_ok ho t" and i: "i < m" "k + m \<le> capacity ho"
  shows "slot_at ho (take (m * unat (slot_size ho)) (drop (k * unat (slot_size ho)) t) @ r) i = slot_at ho t (k + i)"
proof -
  let ?S = "unat (slot_size ho)"
  have len: "length t = capacity ho * ?S" using t by (simp add: table_ok_def)
  have "Suc i * ?S \<le> m * ?S" "(k + m) * ?S \<le> capacity ho * ?S" using i by (intro mult_le_mono1; simp)+
  then have le: "i * ?S + ?S \<le> m * ?S" "k * ?S + m * ?S \<le> length t" by (simp_all add: len add_mult_distrib)
  then have "take ?S (drop (i * ?S) (take (m * ?S) (drop (k * ?S) t) @ r)) = take ?S (drop (i * ?S + k * ?S) t)"
    by (simp add: drop_take add.commute)
  then show ?thesis by (simp add: slot_at_def add_mult_distrib add.commute)
qed

text \<open>The items of the slots from \<open>k\<close> to \<open>n\<close> of the old table.\<close>

abbreviation slot_items :: "sparkey_hashheader \<Rightarrow> bytes \<Rightarrow> nat \<Rightarrow> nat \<Rightarrow> (u64 \<times> u64) multiset" where
  "slot_items ho t k n \<equiv> items (piece_slots ho t k n)"

lemma slot_items_split: "k \<le> m \<Longrightarrow> m \<le> n \<Longrightarrow> slot_items ho t k n = slot_items ho t k m + slot_items ho t m n"
  by (metis items_append le_Suc_ex map_append piece_slots_def upt_add_eq_append)

lemma slot_items_all: "slot_items ho t 0 (capacity ho) = items (slots ho t)"
  by (simp add: piece_slots_def slots_def)

lemma piece_slots_read:
  assumes "table_ok ho t" "k + m \<le> capacity ho"
  shows "piece_slots ho (take (m * unat (slot_size ho)) (drop (k * unat (slot_size ho)) t) @ r) 0 m = piece_slots ho t k (k + m)"
  by (rule nth_equalityI) (simp_all add: piece_slots_def slot_at_piece [OF assms(1) _ assms(2)])

lemma fill_piece_items:
  assumes os: "os_reads os = []" "fd_ino fd = Some ino" "os_store os ! ino = hb @ told" "length hb = 112"
    and old: "table_ok ho told" and off: "fd_off fd = 112 + k * unat (slot_size ho)"
    and m: "m \<le> 1024" "k + m \<le> capacity ho" "cnt = of_nat (m * unat (slot_size ho))"
    and new: "table_items h t X" "\<forall>x \<in># slot_items ho told k (k + m). movable ho h x"
      "size X + size (slot_items ho told k (k + m)) \<le> capacity h"
  obtains buf' t' h' where "fill_piece lib ho (os, fd, buf, t, h) cnt
      = Some (SPARKEY_SUCCESS, os, fd_advance fd (m * unat (slot_size ho)), buf', t', h')"
    "same_index h h'" "hh_num_entries h' = hh_num_entries h + of_nat (size (slot_items ho told k (k + m)))"
    "hh_garbage_size h' = hh_garbage_size h"
    "table_items h t' (X + image_mset (moved_item ho h) (slot_items ho told k (k + m)))"
proof -
  let ?S = "unat (slot_size ho)"
  have shape: "index_shape ho" using old by (simp add: table_ok_def)
  have "m * ?S \<le> 1024 * 16" using m(1) slot_size_unat(2) [OF shape] by (rule mult_le_mono)
  then have small: "m * ?S < 2 ^ 31" by simp
  then have un: "unat cnt = m * ?S" unfolding m(3) by (intro unat_of_nat_u64) simp
  have "(k + m) * ?S \<le> capacity ho * ?S" using m(2) by (rule mult_le_mono1)
  then have len: "m * ?S \<le> length (drop (k * ?S) told)" using old by (simp add: table_ok_def add_mult_distrib mult.commute)
  have dr: "drop (fd_off fd) (os_store os ! ino) = drop (k * ?S) told" using os(3,4) off by simp
  let ?buf = "take (m * ?S) (drop (k * ?S) told) @ drop (m * ?S) buf"
  have rd: "read_fully os fd buf (unat cnt) = Some (SPARKEY_SUCCESS, os, fd_advance fd (m * ?S), ?buf)"
    using read_fully_plain [OF os(1,2), of buf "m * ?S"] len un dr by simp
  note ps = piece_slots_read [OF old m(2), of "drop (m * ?S) buf"]
  have "length ?buf \<ge> m * ?S" using len by simp
  from hash_copy_loop_piece [OF shape this small new(1), where i = 0 and lib = lib] new(2,3) ps
  obtain t' h' where "hash_copy_loop lib ?buf cnt ho 0 t h = Some (SPARKEY_SUCCESS, t', h')" "same_index h h'"
    "hh_num_entries h' = hh_num_entries h + of_nat (size (slot_items ho told k (k + m)))"
    "hh_garbage_size h' = hh_garbage_size h"
    "table_items h t' (X + image_mset (moved_item ho h) (slot_items ho told k (k + m)))"
    unfolding m(3) by auto
  then show thesis using that rd by (simp add: fill_piece_def hash_copy_def)
qed

lemma fill_hash_loop_items:
  assumes os: "os_reads os = []" "os_store os ! ino = hb @ told" "length hb = 112" and old: "table_ok ho told"
    and "fd_ino fd = Some ino" "fd_off fd = 112 + k * unat (slot_size ho)" "k \<le> capacity ho"
    and "table_items h t X" "\<forall>x \<in># slot_items ho told k (capacity ho). movable ho h x"
      "size X + size (slot_items ho told k (capacity ho)) \<le> capacity h"
  shows "\<exists>fd' buf' t' h'. fill_hash_loop lib ho (slot_size ho * 1024) (of_nat ((capacity ho - k) * unat (slot_size ho)))
        (os, fd, buf, t, h) = Some (SPARKEY_SUCCESS, os, fd', buf', t', h')
    \<and> same_index h h' \<and> hh_num_entries h' = hh_num_entries h + of_nat (size (slot_items ho told k (capacity ho)))
    \<and> hh_garbage_size h' = hh_garbage_size h
    \<and> table_items h t' (X + image_mset (moved_item ho h) (slot_items ho told k (capacity ho)))"
  using assms(5-)
proof (induction "capacity ho - k" arbitrary: k fd buf t h X rule: less_induct)
  case less
  let ?S = "unat (slot_size ho)" let ?n = "capacity ho" let ?rem = "of_nat ((?n - k) * ?S) :: u64"
  have shape: "index_shape ho" using old by (simp add: table_ok_def)
  note S = slot_size_unat [OF shape]
  have "16 * ?n < 2 ^ 63" using shape by (simp add: index_shape_def)
  moreover have "(?n - k) * ?S \<le> ?n * 16" using S(2) by (intro mult_le_mono) simp_all
  ultimately have "(?n - k) * ?S < 2 ^ 63" by linarith
  then have rem: "unat ?rem = (?n - k) * ?S" by (intro unat_of_nat_u64) simp
  have bs: "slot_size ho * 1024 = of_nat (1024 * ?S)" by (simp add: mult.commute)
  have ubs: "unat (slot_size ho * 1024) = 1024 * ?S" unfolding bs by (rule unat_of_nat_u64) (use S(2) in simp)
  show ?case
  proof (cases "1024 \<le> ?n - k")
    case False
    then have lt: "\<not> slot_size ho * 1024 \<le> ?rem"
      unfolding word_le_nat_alt ubs rem using S(3) by simp
    have k: "k + (?n - k) = ?n" using less.prems(3) by simp
    obtain buf' t' h' where "fill_piece lib ho (os, fd, buf, t, h) ?rem
        = Some (SPARKEY_SUCCESS, os, fd_advance fd ((?n - k) * ?S), buf', t', h')"
      "same_index h h'" "hh_num_entries h' = hh_num_entries h + of_nat (size (slot_items ho told k ?n))"
      "hh_garbage_size h' = hh_garbage_size h"
      "table_items h t' (X + image_mset (moved_item ho h) (slot_items ho told k ?n))"
      by (rule fill_piece_items [OF os(1) less.prems(1) os(2,3) old less.prems(2), of "?n - k" ?rem h t X lib buf, unfolded k])
        (use less.prems False in auto)
    then show ?thesis using lt by (subst fill_hash_loop.simps) simp
  next
    case True
    then have le: "slot_size ho * 1024 \<le> ?rem"
      unfolding word_le_nat_alt ubs rem by (intro mult_le_mono1)
    have k: "k + 1024 \<le> ?n" using True by simp
    note sp = slot_items_split [of k "k + 1024" ?n ho told, OF _ k, simplified]
    obtain buf1 t1 h1 where p: "fill_piece lib ho (os, fd, buf, t, h) (slot_size ho * 1024)
        = Some (SPARKEY_SUCCESS, os, fd_advance fd (1024 * ?S), buf1, t1, h1)"
      "same_index h h1" "hh_num_entries h1 = hh_num_entries h + of_nat (size (slot_items ho told k (k + 1024)))"
      "hh_garbage_size h1 = hh_garbage_size h"
      "table_items h t1 (X + image_mset (moved_item ho h) (slot_items ho told k (k + 1024)))"
      by (rule fill_piece_items [OF os(1) less.prems(1) os(2,3) old less.prems(2), of 1024 "slot_size ho * 1024" h t X lib buf])
        (use less.prems k bs sp in auto)
    have nrem: "?rem - slot_size ho * 1024 = of_nat ((?n - (k + 1024)) * ?S)"
    proof -
      have "(?n - k) * ?S = (?n - (k + 1024)) * ?S + 1024 * ?S"
        using k by (simp flip: add_mult_distrib)
      then show ?thesis unfolding bs by (simp del: of_nat_mult)
    qed
    note s = same_index_simps [OF p(2)] moved_same [OF p(2)] table_items_same [OF p(2)]
    have dec: "?n - (k + 1024) < ?n - k" using k by simp
    let ?fd = "fd_advance fd (1024 * ?S)"
    have fd: "fd_ino ?fd = Some ino" "fd_off ?fd = 112 + (k + 1024) * ?S"
      using less.prems(1,2) by (simp_all add: fd_advance_def add_mult_distrib)
    obtain fd' buf' t' h' where r: "fill_hash_loop lib ho (slot_size ho * 1024) (of_nat ((?n - (k + 1024)) * ?S)) (os, ?fd, buf1, t1, h1)
        = Some (SPARKEY_SUCCESS, os, fd', buf', t', h')"
      "same_index h1 h'" "hh_num_entries h' = hh_num_entries h1 + of_nat (size (slot_items ho told (k + 1024) ?n))"
      "hh_garbage_size h' = hh_garbage_size h1"
      "table_items h t' (X + image_mset (moved_item ho h) (slot_items ho told k (k + 1024))
         + image_mset (moved_item ho h) (slot_items ho told (k + 1024) ?n))"
      using less.hyps [OF dec fd k, of h1 t1 "X + image_mset (moved_item ho h) (slot_items ho told k (k + 1024))" buf1]
        less.prems(4-) p(5) k sp unfolding s by (auto simp: ac_simps)
    have "same_index h h'" by (rule same_index_trans [OF p(2) r(2)])
    then show ?thesis
      using le p(1,3,4) r nrem sp by (subst fill_hash_loop.simps) (simp add: ac_simps del: of_nat_mult)
  qed
qed

end
