(* ===== verification/IndexLoops.thy ===== *)
theory IndexLoops
  imports IndexProperties HashCopy
begin

text \<open>
  Where the loops of the index end and where they do not, and which reads of a mapped index stay inside the
  file.
\<close>

section \<open>A full table\<close>

definition all_full :: "sparkey_hashheader \<Rightarrow> bytes \<Rightarrow> bool" where
  "all_full h t \<longleftrightarrow> table_ok h t \<and> (\<forall>i < capacity h. slots h t ! i \<noteq> None)"

lemma put_loop_full_slot:
  assumes full: "all_full h t" and s: "s < capacity h"
  obtains a2 p2 where "read_slot h t (of_nat s * slot_size h) = Some (a2, p2)" "p2 \<noteq> 0" "item_fits h (a2, p2)"
proof -
  obtain x where x: "slots h t ! s = Some x" using assms by (auto simp: all_full_def)
  obtain a2 p2 where x2: "x = (a2, p2)" by (cases x)
  show thesis
    using that byte_store.peek_full [of h t s "(a2, p2)"] full s x x2 by (simp add: all_full_def)
qed

text \<open>On a full table the walk of \<open>hash_put\<close> never ends.\<close>

lemma hash_put_loop_full_table:
  assumes "hash_put_loop lib t h refs might slot pos d a p = Some r"
    and "\<not> might" "all_full h t" "s < capacity h" "slot = of_nat s" "pos = of_nat s * slot_size h"
    and "item_fits h (a, p)" "p \<noteq> 0"
  shows False
  using assms
proof (induction arbitrary: s rule: hash_put_loop.raw_induct [rotated, consumes 1, case_names 1])
  case (1 loop lib t h refs might slot pos d a p r)
  have t: "table_ok h t" and shape: "index_shape h" using "1.prems"(2) by (auto simp: all_full_def table_ok_def)
  obtain a2 p2 where rd: "read_slot h t (of_nat s * slot_size h) = Some (a2, p2)" "p2 \<noteq> 0" "item_fits h (a2, p2)"
    by (rule put_loop_full_slot [OF "1.prems"(2,3)])
  let ?j = "succ_slot (capacity h) s" let ?other = "get_displacement (hh_hash_capacity h) slot a2"
  have j: "?j < capacity h" using "1.prems"(3) by simp
  note nx = next_slot_loop [OF shape "1.prems"(3), folded "1.prems"(4) "1.prems"(5)]
  obtain t' where t': "write_slot h t pos a p = Some t'" "table_ok h t'" "slots h t' = (slots h t)[s := Some (a, p)]"
    using byte_store.poke_view [OF t _ "1.prems"(6), of s] "1.prems"(3,5,7) by auto
  have full': "all_full h t'"
  proof -
    have "(slots h t)[s := Some (a, p)] ! i \<noteq> None" if "i < capacity h" for i
      using "1.prems"(2) that by (cases "i = s") (auto simp: all_full_def)
    then show ?thesis using t'(2,3) by (simp add: all_full_def)
  qed
  show False
  proof (cases "?other < d")
    case True
    then have "loop lib t' h refs False (of_nat ?j) (of_nat ?j * slot_size h) (?other + 1) a2 p2 = Some r"
      using 1(2) "1.prems"(1) rd(1,2) t'(1) nx unfolding "1.prems"(4,5) by (simp add: Let_def split: option.splits)
    then show False by (rule 1(1)) (use full' j rd in auto)
  next
    case False
    then have "loop lib t h refs might (of_nat ?j) (of_nat ?j * slot_size h) (d + 1) a p = Some r"
      using 1(2) "1.prems"(1) rd(1,2) nx unfolding "1.prems"(4,5) by (simp add: Let_def split: option.splits)
    then show False by (rule 1(1)) (use "1.prems"(1,2,6,7) j in auto)
  qed
qed

text \<open>So a put of a new key that returns found a free slot.\<close>

lemma hash_put_stuck:
  assumes "reader_ok lib log" "index_rep lib log h t M" "M (entry_key e) = None"
    and "key_hash h (entry_key e) = Some a" "indexed lib log h (entry_key e) p" "iters_on lib log e es its"
    and "hash_put lib (a mod hh_hash_capacity h) a t h (Some (its, log)) p = Some r"
  shows "card (dom M) < capacity h"
proof -
  let ?s = "unat (a mod hh_hash_capacity h)"
  have t: "table_ok h t" and shape: "index_shape h" and ad: "addresses_ok h log"
    using assms(2) by (auto simp: index_rep_def table_ok_def)
  have s: "?s < capacity h" using wanted_less [OF shape, of "(a, 0)"] by (simp add: wanted_def)
  have "rh_find (wanted h) (is_key h M (entry_key e)) (slots h t) ?s 0 = None"
    using find_key_iff [OF assms(2,4)] assms(3) by simp
  from hash_put_absent [OF assms(1,2,4) this s _ assms(6), of p] obtain its' where
    "hash_put_loop lib t h (Some (its', log)) False (of_nat ?s) (of_nat ?s * slot_size h) (of_nat 0) a p = Some r"
    using assms(7) by (auto simp: hash_put_def)
  moreover have "item_fits h (a, p)" "p \<noteq> 0"
    using assms(4,5) indexed_nonzero [OF ad assms(5)] by (auto simp: indexed_def)
  ultimately have "\<not> all_full h t"
    using hash_put_loop_full_table [of lib t h "Some (its', log)" False "of_nat ?s" "of_nat ?s * slot_size h" "of_nat 0" a p r ?s] s
    by auto
  then obtain i where i: "i < length (slots h t)" "slots h t ! i = None" using t unfolding all_full_def length_slots by blast
  have "{j. j < length (slots h t) \<and> slots h t ! j \<noteq> None} \<subset> {..<length (slots h t)}" using i by blast
  then have "card {j. j < length (slots h t) \<and> slots h t ! j \<noteq> None} < card {..<length (slots h t)}"
    by (intro psubset_card_mono) simp_all
  then have "size (items (slots h t)) < length (slots h t)" unfolding size_items by simp
  then show ?thesis using index_rep_size [OF assms(2)] by simp
qed

section \<open>A table to apply the properties to\<close>

lemma demo_before:
  obtains log h t iter where
    "reader_ok store_lib log" "index_rep store_lib log h t Map.empty"
    "before store_lib log iter (PutEntry [1] [2] # [DeleteEntry [3], PutEntry [] [4]])"
proof -
  note o = demo_os_indexes [unfolded os_indexes_def]
  obtain log where r: "reader_ok store_lib log" "lr_header log = demo_header\<lparr>lh_header_size := LOG_HEADER_SIZE\<rparr>"
    "\<And>junk. \<exists>iter. sparkey_logiter_create junk demo_os log = (Inr iter, demo_os) \<and> before store_lib log iter (concat [demo_log])"
    by (rule indexable_reader [OF demo_indexable, of demo_os "''a.spl''"]) (use o in blast)+
  obtain iter where "before store_lib log iter (concat [demo_log])" using r(3) by blast
  then have b: "before store_lib log iter (PutEntry [1] [2] # [DeleteEntry [3], PutEntry [] [4]])"
    by (simp add: demo_log_def)
  have ix: "log_indexable demo_header" using demo_indexable by (simp add: indexable_file_def)
  obtain cap where cap: "hash_capacity_for (lh_num_puts demo_header) = Some cap"
    by (rule hash_capacity_bounds [of "lh_num_puts demo_header"]) (use ix in \<open>auto simp: log_indexable_def\<close>)
  obtain h where h: "index_shape h" "addresses_ok h log"
    by (rule index_header_ok [OF ix cap _ _ r(2), of 0 undefined 0 0 0]) (use ix in \<open>auto simp: log_indexable_def\<close>)
  show thesis by (rule that [OF r(1) index_rep_empty [OF h] b])
qed

lemma demo_index:
  obtains log h t es its p a where
    "reader_ok store_lib log" "index_rep store_lib log h t Map.empty" "0 < capacity h"
    "key_hash h [1] = Some a" "indexed store_lib log h [1] p" "stored store_lib log h (PutEntry [1] [2]) es p"
    "iters_on store_lib log (PutEntry [1] [2]) es its"
    "active store_lib log (fst its) (PutEntry [1] [2]) es [1] [2]"
proof -
  obtain log h t iter where r: "reader_ok store_lib log" "index_rep store_lib log h t Map.empty"
    and b: "before store_lib log iter (PutEntry [1] [2] # [DeleteEntry [3], PutEntry [] [4]])"
    by (rule demo_before)
  have h: "index_shape h" "addresses_ok h log" using r(2) by (auto simp: index_rep_def table_ok_def)
  obtain iter1 idx where n: "active store_lib log iter1 (PutEntry [1] [2]) [DeleteEntry [3], PutEntry [] [4]]
      (entry_key (PutEntry [1] [2])) (entry_value (PutEntry [1] [2]))"
    "body_at store_lib log iter1 idx (PutEntry [1] [2]) [DeleteEntry [3], PutEntry [] [4]] (entry_body (PutEntry [1] [2]))"
    "it_entry_count iter1 = of_nat idx" "rtype log = SPARKEY_COMPRESSION_NONE \<longrightarrow> idx = 0"
    by (rule logiter_next_entry [OF r(1) b]) blast
  let ?p = "push_bit (block_bits h) (it_entry_block_position iter1) OR scast (it_entry_count iter1) :: u64"
  have st: "stored store_lib log h (PutEntry [1] [2]) [DeleteEntry [3], PutEntry [] [4]] ?p"
    by (rule body_stored [OF r(1) h(2) n(2,3)]) (use n(4) in blast)
  have "indexed store_lib log h [1] ?p" by (rule stored_indexed [OF r(1) h(2,1) st]) simp
  moreover obtain a where "key_hash h [1] = Some a" by (rule key_hash_total [OF h(1), of "[1]"]) simp_all
  moreover have "iters_on store_lib log (PutEntry [1] [2]) [DeleteEntry [3], PutEntry [] [4]] (iter1, iter1)"
    using n(1) active_iter_at [OF n(1)] unfolding iters_on_def by auto
  ultimately show thesis
    using that [OF r capacity_pos [OF h(1)] _ _ st] n(1) by simp
qed

section \<open>Reading the old table\<close>

text \<open>Any finite number of short or failed reads, followed by reads that deliver all they can.\<close>

lemma read_fully_returns:
  assumes "fd_ino fd = Some i" "os_reads os = rs"
  shows "(\<exists>r. read_fully os fd buf n = Some r)
    \<longleftrightarrow> n \<le> length (drop (fd_off fd) (os_store os ! i)) \<or> (\<exists>e. WErr e \<in> set rs)"
  using assms
proof (induction rs arbitrary: os fd buf n)
  case Nil
  then show ?case using read_fully_plain [of os fd i buf n] by simp
next
  case (Cons w rs)
  let ?rest = "drop (fd_off fd) (os_store os ! i)"
  consider (none) "n = 0" | (err) e where "0 < n" "w = WErr e" | (ok) m where "0 < n" "w = WOk m"
    by (cases w) auto
  then show ?case
  proof cases
    case none
    then show ?thesis by (subst read_fully.simps) simp
  next
    case err
    then show ?thesis using Cons.prems by (subst read_fully.simps) (auto simp: sys_read_def Let_def)
  next
    case ok
    let ?bs = "take (min m n) ?rest"
    have step: "read_fully os fd buf n
        = read_fully (os\<lparr>os_reads := rs\<rparr>) (fd_advance fd (length ?bs)) (?bs @ drop (length ?bs) buf) (n - length ?bs)"
      using ok Cons.prems by (subst read_fully.simps) (simp add: sys_read_def Let_def)
    have "(\<exists>r. read_fully os fd buf n = Some r)
        \<longleftrightarrow> n - length ?bs \<le> length (drop (fd_off fd + length ?bs) (os_store os ! i)) \<or> (\<exists>e. WErr e \<in> set rs)"
      unfolding step using Cons.IH [of "fd_advance fd (length ?bs)" "os\<lparr>os_reads := rs\<rparr>"] Cons.prems(1) by simp
    also have "\<dots> \<longleftrightarrow> n \<le> length ?rest \<or> (\<exists>e. WErr e \<in> set rs)" by auto
    finally show ?thesis using ok(2) by simp
  qed
qed

text \<open>Every piece is put at the start of the buffer.\<close>

lemma read_fully_pieces:
  assumes "fd_ino fd = Some i" "take (length (concat cs)) (drop (fd_off fd) (os_store os ! i)) = concat cs"
    and "os_reads os = map (\<lambda>c. WOk (length c)) cs @ rs" "[] \<notin> set cs" "length (concat cs) \<le> length buf"
  shows "read_fully os fd buf (length (concat cs))
    = Some (SPARKEY_SUCCESS, os\<lparr>os_reads := rs\<rparr>, fd_advance fd (length (concat cs)),
        foldl (\<lambda>b c. c @ drop (length c) b) buf cs)"
  using assms
proof (induction cs arbitrary: os fd buf)
  case Nil
  then have "os\<lparr>os_reads := rs\<rparr> = os" by simp
  then show ?case by (subst read_fully.simps) simp
next
  case (Cons c cs)
  let ?rest = "drop (fd_off fd) (os_store os ! i)"
  have all: "take (length c + length (concat cs)) ?rest = c @ concat cs" using Cons.prems(2) by simp
  have c: "take (length c) ?rest = c"
    using arg_cong [OF all, of "take (length c)"] by simp
  have cs: "take (length (concat cs)) (drop (length c) ?rest) = concat cs"
    using arg_cong [OF all, of "drop (length c)"] by (simp add: drop_take)
  have ne: "0 < length (concat (c # cs))" using Cons.prems(4) by (cases c) simp_all
  have min: "min (length c) (length (concat (c # cs))) = length c" by simp
  have read: "sys_read os fd (length (concat (c # cs)))
      = (Inr c, os\<lparr>os_reads := map (\<lambda>c. WOk (length c)) cs @ rs\<rparr>, fd_advance fd (length c))"
    using Cons.prems(1,3) unfolding sys_read_def Let_def by (simp only: option.case list.map append.simps list.case write_outcome.case min c)
  have step: "read_fully os fd buf (length (concat (c # cs)))
      = read_fully (os\<lparr>os_reads := map (\<lambda>c. WOk (length c)) cs @ rs\<rparr>) (fd_advance fd (length c))
          (c @ drop (length c) buf) (length (concat (c # cs)) - length c)"
    using ne by (subst read_fully.simps) (simp only: read if_True prod.case sum.case)
  show ?case
    unfolding step using Cons.IH [of "fd_advance fd (length c)" "os\<lparr>os_reads := map (\<lambda>c. WOk (length c)) cs @ rs\<rparr>"
      "c @ drop (length c) buf"] Cons.prems cs by (simp add: add.commute)
qed

lemma pieces_over:
  assumes "length (concat cs) \<le> length buf"
  shows "length (foldl (\<lambda>b c. c @ drop (length c) b) buf cs) = length buf
    \<and> (\<forall>j < length buf. foldl (\<lambda>b c. c @ drop (length c) b) buf cs ! j = last (buf # filter (\<lambda>c. j < length c) cs) ! j)"
  using assms
proof (induction cs rule: rev_induct)
  case (snoc c cs)
  then show ?case by (auto simp: nth_append)
qed simp

section \<open>Properties\<close>

text \<open>
  C20: \<open>hash_put\<close> of a key that is not in the index returns exactly when the table has a free slot; on a full
  table its loop never ends. (\<open>sparkey_hash_write\<close> can get there: with an old index of another hash size it
  indexes the whole log again, but sizes the table for the entries of the old index and the new puts only.)
\<close>

theorem hash_put_returns_iff:
  assumes "reader_ok lib log" "index_rep lib log h t M" "M (entry_key e) = None"
    and "key_hash h (entry_key e) = Some a" "indexed lib log h (entry_key e) p" "iters_on lib log e es its"
  shows "(\<exists>r. hash_put lib (a mod hh_hash_capacity h) a t h (Some (its, log)) p = Some r)
    \<longleftrightarrow> card (dom M) < capacity h"
proof
  assume "card (dom M) < capacity h"
  then show "\<exists>r. hash_put lib (a mod hh_hash_capacity h) a t h (Some (its, log)) p = Some r"
    by (metis hash_put_rep [OF assms(1,2,4-6)])
next
  assume "\<exists>r. hash_put lib (a mod hh_hash_capacity h) a t h (Some (its, log)) p = Some r"
  then show "card (dom M) < capacity h" using hash_put_stuck [OF assms] by blast
qed

theorem hash_put_returns_iff_witness:
  "\<exists>log h t its p a r. hash_put store_lib (a mod hh_hash_capacity h) a t h (Some (its, log)) p = Some r
    \<and> index_rep store_lib log h t Map.empty"
proof -
  obtain log h t es its p a where d: "reader_ok store_lib log" "index_rep store_lib log h t Map.empty" "0 < capacity h"
    "key_hash h [1] = Some a" "indexed store_lib log h [1] p" "stored store_lib log h (PutEntry [1] [2]) es p"
    "iters_on store_lib log (PutEntry [1] [2]) es its" "active store_lib log (fst its) (PutEntry [1] [2]) es [1] [2]"
    by (rule demo_index)
  have "\<exists>r. hash_put store_lib (a mod hh_hash_capacity h) a t h (Some (its, log)) p = Some r"
    using hash_put_returns_iff [OF d(1,2), of "PutEntry [1] [2]" a p es its] d(3-5,7) by simp
  then show ?thesis using d(2) by blast
qed

text \<open>
  C26: \<open>read_fully\<close>, which reads the table of an old index. Whatever short and failed reads come first, before
  reads that deliver all they can: it returns exactly when the file has as many bytes as asked for, or when one
  of those reads fails; otherwise it loops for ever at the end of the file. Without short or failed reads the
  buffer is filled with the bytes of the file.
\<close>

theorem read_fully_returns_iff:
  assumes "fd_ino fd = Some i"
  shows "((\<exists>r. read_fully os fd buf n = Some r)
      \<longleftrightarrow> n \<le> length (drop (fd_off fd) (os_store os ! i)) \<or> (\<exists>e. WErr e \<in> set (os_reads os)))
    \<and> (os_reads os = [] \<and> length buf = n \<and> n \<le> length (drop (fd_off fd) (os_store os ! i))
       \<longrightarrow> read_fully os fd buf n
         = Some (SPARKEY_SUCCESS, os, fd_advance fd n, take n (drop (fd_off fd) (os_store os ! i))))"
  using read_fully_returns [OF assms refl, of os buf n] read_fully_plain [OF _ assms, of os buf n] by simp

theorem read_fully_returns_iff_witness:
  "read_fully demo_os \<lparr>fd_ino = Some 0, fd_off = 90\<rparr> [0, 0, 0, 0, 0] 5 = None
    \<and> (\<exists>r. read_fully (demo_os\<lparr>os_reads := [WOk 1, WErr EBADF]\<rparr>) \<lparr>fd_ino = Some 0, fd_off = 90\<rparr> [0, 0, 0, 0, 0] 5 = Some r)
    \<and> read_fully demo_os \<lparr>fd_ino = Some 0, fd_off = 90\<rparr> [0, 0] 2
        = Some (SPARKEY_SUCCESS, demo_os, \<lparr>fd_ino = Some 0, fd_off = 92\<rparr>, take 2 (drop 90 (os_store demo_os ! 0)))"
proof -
  let ?fd = "\<lparr>fd_ino = Some 0, fd_off = 90\<rparr>"
  have n: "length (drop 90 (os_store demo_os ! 0)) < 5" "2 \<le> length (drop 90 (os_store demo_os ! 0))" "os_reads demo_os = []"
    by (simp_all add: plain_os_def fresh_os_def plain_file_def demo_log_length)
  have "read_fully demo_os ?fd [0, 0, 0, 0, 0] 5 = None"
    using read_fully_returns_iff [of ?fd 0 demo_os "[0, 0, 0, 0, 0]" 5] n(1,3) by (simp add: not_Some_eq [symmetric] del: not_Some_eq)
  moreover have "\<exists>r. read_fully (demo_os\<lparr>os_reads := [WOk 1, WErr EBADF]\<rparr>) ?fd [0, 0, 0, 0, 0] 5 = Some r"
    using read_fully_returns_iff [of ?fd 0 "demo_os\<lparr>os_reads := [WOk 1, WErr EBADF]\<rparr>" "[0, 0, 0, 0, 0]" 5] by simp
  moreover have "read_fully demo_os ?fd [0, 0] 2
      = Some (SPARKEY_SUCCESS, demo_os, \<lparr>fd_ino = Some 0, fd_off = 92\<rparr>, take 2 (drop 90 (os_store demo_os ! 0)))"
    using read_fully_returns_iff [of ?fd 0 demo_os "[0, 0]" 2] n(2,3) by (simp add: fd_advance_def)
  ultimately show ?thesis by simp
qed

text \<open>
  C39: after a short read \<open>read_fully\<close> puts the next bytes at the start of the buffer again. When the reads
  deliver the pieces \<open>cs\<close>, none of them empty, the code is success and the offset is behind all of them, but byte
  \<open>j\<close> of the buffer is byte \<open>j\<close> of the last piece that is longer than \<open>j\<close>, or what it was before.
\<close>

theorem read_fully_short_read:
  assumes "fd_ino fd = Some i" "take (length (concat cs)) (drop (fd_off fd) (os_store os ! i)) = concat cs"
    and "os_reads os = map (\<lambda>c. WOk (length c)) cs @ rs" "[] \<notin> set cs" "length (concat cs) \<le> length buf"
  shows "\<exists>buf'. read_fully os fd buf (length (concat cs))
      = Some (SPARKEY_SUCCESS, os\<lparr>os_reads := rs\<rparr>, fd_advance fd (length (concat cs)), buf')
    \<and> length buf' = length buf
    \<and> (\<forall>j < length buf. buf' ! j = last (buf # filter (\<lambda>c. j < length c) cs) ! j)"
  using read_fully_pieces [OF assms] pieces_over [OF assms(5)] by blast

theorem read_fully_short_read_witness:
  "\<exists>buf'. read_fully (fresh_os\<lparr>os_store := [[1, 2, 3, 4]], os_reads := [WOk 3, WOk 1]\<rparr>) \<lparr>fd_ino = Some 0, fd_off = 0\<rparr>
        [0, 0, 0, 0] 4 = Some (SPARKEY_SUCCESS, fresh_os\<lparr>os_store := [[1, 2, 3, 4]]\<rparr>, \<lparr>fd_ino = Some 0, fd_off = 4\<rparr>, buf')
    \<and> length buf' = 4 \<and> buf' ! 0 = 4 \<and> buf' ! 1 = 2 \<and> buf' ! 2 = 3 \<and> buf' ! 3 = 0"
proof -
  let ?cs = "[[1, 2, 3], [4]] :: bytes list" let ?os = "fresh_os\<lparr>os_store := [[1, 2, 3, 4]], os_reads := [WOk 3, WOk 1]\<rparr>"
  obtain buf' where b: "read_fully ?os \<lparr>fd_ino = Some 0, fd_off = 0\<rparr> [0, 0, 0, 0] (length (concat ?cs))
      = Some (SPARKEY_SUCCESS, ?os\<lparr>os_reads := []\<rparr>, fd_advance \<lparr>fd_ino = Some 0, fd_off = 0\<rparr> (length (concat ?cs)), buf')"
    "length buf' = 4" "\<forall>j < 4. buf' ! j = last ([0, 0, 0, 0] # filter (\<lambda>c. j < length c) ?cs) ! j"
    using read_fully_short_read [of "\<lparr>fd_ino = Some 0, fd_off = 0\<rparr>" 0 ?cs ?os "[]" "[0, 0, 0, 0]"] by (auto simp: numeral_eq_Suc)
  have "?os\<lparr>os_reads := []\<rparr> = fresh_os\<lparr>os_store := [[1, 2, 3, 4]]\<rparr>" by (simp add: fresh_os_def)
  moreover have "buf' ! 0 = 4" "buf' ! 1 = 2" "buf' ! 2 = 3" "buf' ! 3 = 0"
    using b(3) [rule_format, of 0] b(3) [rule_format, of 1] b(3) [rule_format, of 2] b(3) [rule_format, of 3] by simp_all
  ultimately show ?thesis using b(1,2) by (intro exI [of _ buf']) (simp add: fd_advance_def numeral_eq_Suc)
qed

end
