(* ===== verification/IndexLaws.thy ===== *)
theory IndexLaws
  imports IndexLoops
begin

text \<open>
  The properties of the single operations of the index: how they act on the map the table represents, the
  bounds of the header and the statistics, addresses, and the safety of reading a mapped index.
\<close>

section \<open>Properties\<close>

text \<open>
  C10: \<open>hash_put\<close> sets the address of a key. On a table that satisfies the Robin Hood invariant and represents
  the map \<open>M\<close>, and has a free slot if the key is new, \<open>hash_put\<close> returns success, the new table satisfies the
  invariant and represents \<open>M\<close> updated at the key, and the count of entries grows by one exactly if the key
  is new.
\<close>

theorem hash_put_sets_key:
  assumes "reader_ok lib log" "index_rep lib log h t M"
    and "key_hash h (entry_key e) = Some a" "indexed lib log h (entry_key e) p" "iters_on lib log e es its"
    and "M (entry_key e) = None \<longrightarrow> card (dom M) < capacity h"
  shows "\<exists>t' h' its'. hash_put lib (a mod hh_hash_capacity h) a t h (Some (its, log)) p
      = Some (SPARKEY_SUCCESS, t', h', Some (its', log))
    \<and> index_rep lib log h t' (M(entry_key e \<mapsto> p)) \<and> rh_inv (wanted h') (slots h' t') \<and> same_index h h'
    \<and> hh_num_entries h' = (if M (entry_key e) = None then hh_num_entries h + 1 else hh_num_entries h)"
proof -
  obtain t' h' its' where p: "hash_put lib (a mod hh_hash_capacity h) a t h (Some (its, log)) p
      = Some (SPARKEY_SUCCESS, t', h', Some (its', log))" "index_rep lib log h t' (M(entry_key e \<mapsto> p))" "same_index h h'"
    "hh_num_entries h' = (if M (entry_key e) = None then hh_num_entries h + 1 else hh_num_entries h)"
    by (rule hash_put_rep [OF assms(1-5)]) (use assms(6) in auto)
  then show ?thesis using same_index_simps [OF p(3)] by (auto simp: index_rep_def)
qed

theorem hash_put_sets_key_witness:
  "\<exists>log h t its p a t' h' its'.
     hash_put store_lib (a mod hh_hash_capacity h) a t h (Some (its, log)) p = Some (SPARKEY_SUCCESS, t', h', Some (its', log))
     \<and> index_rep store_lib log h t' [[1] \<mapsto> p] \<and> rh_inv (wanted h') (slots h' t') \<and> hh_num_entries h' = hh_num_entries h + 1"
proof -
  obtain log h t es its p a where d: "reader_ok store_lib log" "index_rep store_lib log h t Map.empty" "0 < capacity h"
    "key_hash h [1] = Some a" "indexed store_lib log h [1] p" "stored store_lib log h (PutEntry [1] [2]) es p"
    "iters_on store_lib log (PutEntry [1] [2]) es its" "active store_lib log (fst its) (PutEntry [1] [2]) es [1] [2]"
    by (rule demo_index)
  obtain t' h' its' where "hash_put store_lib (a mod hh_hash_capacity h) a t h (Some (its, log)) p
      = Some (SPARKEY_SUCCESS, t', h', Some (its', log))" "index_rep store_lib log h t' [[1] \<mapsto> p]"
    "rh_inv (wanted h') (slots h' t')" "hh_num_entries h' = hh_num_entries h + 1"
    using hash_put_sets_key [OF d(1,2), of "PutEntry [1] [2]" a p es its] d by auto
  then show ?thesis by blast
qed

text \<open>
  C11: \<open>hash_delete\<close> removes a key. On a table that represents \<open>M\<close> it returns success, the new table satisfies
  the invariant and represents \<open>M\<close> without the key; the count of entries goes down by one exactly if the key
  was there.
\<close>

theorem hash_delete_removes_key:
  assumes "reader_ok lib log" "index_rep lib log h t M"
    and "key_hash h (entry_key e) = Some a" "iters_on lib log e es its"
  shows "\<exists>t' h' its'. hash_delete lib (a mod hh_hash_capacity h) a t h its log = Some (SPARKEY_SUCCESS, t', h', its')
    \<and> index_rep lib log h t' (M(entry_key e := None)) \<and> rh_inv (wanted h') (slots h' t') \<and> same_index h h'
    \<and> hh_num_entries h' = (if M (entry_key e) = None then hh_num_entries h else hh_num_entries h - 1)"
proof -
  obtain t' h' its' where p: "hash_delete lib (a mod hh_hash_capacity h) a t h its log = Some (SPARKEY_SUCCESS, t', h', its')"
    "index_rep lib log h t' (M(entry_key e := None))" "same_index h h'"
    "hh_num_entries h' = (if M (entry_key e) = None then hh_num_entries h else hh_num_entries h - 1)"
    by (rule hash_delete_rep [OF assms])
  then show ?thesis using same_index_simps [OF p(3)] by (auto simp: index_rep_def)
qed

theorem hash_delete_removes_key_witness:
  "\<exists>log h t its p a t1 t' h' its'.
     index_rep store_lib log h t1 [[1] \<mapsto> p] \<and> hash_delete store_lib (a mod hh_hash_capacity h) a t1 h its log
       = Some (SPARKEY_SUCCESS, t', h', its')
     \<and> index_rep store_lib log h t' Map.empty \<and> rh_inv (wanted h') (slots h' t') \<and> hh_num_entries h' = hh_num_entries h - 1"
proof -
  obtain log h t es its p a where d: "reader_ok store_lib log" "index_rep store_lib log h t Map.empty" "0 < capacity h"
    "key_hash h [1] = Some a" "indexed store_lib log h [1] p" "stored store_lib log h (PutEntry [1] [2]) es p"
    "iters_on store_lib log (PutEntry [1] [2]) es its" "active store_lib log (fst its) (PutEntry [1] [2]) es [1] [2]"
    by (rule demo_index)
  obtain t1 where t1: "index_rep store_lib log h t1 [[1] \<mapsto> p]"
    by (rule hash_put_rep [OF d(1,2), of "PutEntry [1] [2]" a p es its]) (use d in auto)
  obtain t' h' its' where "hash_delete store_lib (a mod hh_hash_capacity h) a t1 h its log = Some (SPARKEY_SUCCESS, t', h', its')"
    "index_rep store_lib log h t' Map.empty" "rh_inv (wanted h') (slots h' t')" "hh_num_entries h' = hh_num_entries h - 1"
    using hash_delete_removes_key [OF d(1) t1, of "PutEntry [1] [2]" a es its] d(4,7) by auto
  then show ?thesis using t1 by blast
qed

text \<open>
  C29: \<open>index_entry\<close> stores an address from which the entry is found again. After \<open>next\<close> has moved the iterator to a
  put entry, \<open>index_entry\<close> puts its key into the table with an address \<open>p\<close> that is not 0, the mark of an empty slot,
  and fits the address size; shifting \<open>p\<close> back and masking it give the position of the block and the index of the
  entry that the iterator had, and from any state of another iterator, seek, skip and next with these two
  numbers, as every lookup does, are on that same entry. No other entry of the log is at \<open>p\<close>.
\<close>

theorem index_entry_address:
  assumes ok: "reader_ok lib log" and rep: "index_rep lib log h t M" and os: "os_mallocs os = []"
    and at: "before lib log iter (PutEntry k v # es)" "iter_at lib log ra_iter cur rest"
    and len: "length k < 2 ^ 31" and room: "M k = None \<Longrightarrow> card (dom M) < capacity h"
  shows "\<exists>iter1 t' h' its' p. sparkey_logiter_next lib iter log = Some (SPARKEY_SUCCESS, iter1)
    \<and> index_entry lib log (os, t, h, iter1, ra_iter) = Some (SPARKEY_SUCCESS, os, t', h', its')
    \<and> index_rep lib log h t' (M(k \<mapsto> p)) \<and> p \<noteq> 0 \<and> (hh_address_size h = 4 \<longrightarrow> unat p < 2 ^ 32)
    \<and> drop_bit (unat (hh_entry_block_bits h)) p = it_block_position iter1
    \<and> entry_index h p = sint (it_entry_count iter1)
    \<and> (\<forall>j cur rest. iter_at lib log j cur rest \<longrightarrow>
        (\<exists>j1 j2 j3. sparkey_logiter_seek lib j log (drop_bit (unat (hh_entry_block_bits h)) p) = Some (SPARKEY_SUCCESS, j1)
          \<and> sparkey_logiter_skip lib j1 log (entry_index h p) = Some (SPARKEY_SUCCESS, j2)
          \<and> sparkey_logiter_next lib j2 log = Some (SPARKEY_SUCCESS, j3) \<and> active lib log j3 (PutEntry k v) es k v))
    \<and> (\<forall>e' es'. stored lib log h e' es' p \<longrightarrow> e' = PutEntry k v \<and> es' = es)"
proof -
  obtain iter1 idx where n: "sparkey_logiter_next lib iter log = Some (SPARKEY_SUCCESS, iter1)"
    and a: "active lib log iter1 (PutEntry k v) es (entry_key (PutEntry k v)) (entry_value (PutEntry k v))"
    and bd: "body_at lib log iter1 idx (PutEntry k v) es (entry_body (PutEntry k v))" "it_entry_count iter1 = of_nat idx"
      "rtype log = SPARKEY_COMPRESSION_NONE \<longrightarrow> idx = 0" "it_entry_block_position iter1 = it_block_position iter1"
    by (rule logiter_next_entry [OF ok at(1)]) blast
  obtain t' h' its' p where st: "index_entry lib log (os, t, h, iter1, ra_iter) = Some (SPARKEY_SUCCESS, os, t', h', its')"
    "stored lib log h (PutEntry k v) es p" "index_rep lib log h t' (M(k \<mapsto> p))"
    by (rule index_entry_step [OF ok rep os a bd(1,2) _ bd(4) at(2)]) (use bd(3) len room in simp_all)
  have ad: "addresses_ok h log" using rep by (simp add: index_rep_def)
  let ?pos = "it_entry_block_position iter1"
  have z: "rtype log = SPARKEY_COMPRESSION_NONE \<Longrightarrow> idx = 0" using bd(3) by blast
  have p: "p = address h ?pos idx" and i: "idx < 2 ^ block_bits h"
    using stored_address [OF ok st(2) body_stored [OF ok ad bd(1,2) z]] current_address [OF ad bd(1,2) z ok] by simp_all
  have pos: "0 < unat ?pos" "?pos < lh_data_end (lr_header log)"
    using entry_at_bounds [OF ok body_entry_at [OF bd(1)]] by simp_all
  note d = address_decode [OF ad pos i, folded p]
  have "block_bits h \<le> 31" using ad by (simp add: addresses_ok_def)
  then have "idx < 2 ^ 31" using i by (meson less_le_trans one_le_numeral power_increasing)
  then have c: "sint (it_entry_count iter1) = int idx"
    unfolding bd(2) by (subst sint_unat_u32) (simp_all add: unat_of_nat)
  have seek: "\<exists>j1 j2 j3. sparkey_logiter_seek lib j log (drop_bit (block_bits h) p) = Some (SPARKEY_SUCCESS, j1)
      \<and> sparkey_logiter_skip lib j1 log (entry_index h p) = Some (SPARKEY_SUCCESS, j2)
      \<and> sparkey_logiter_next lib j2 log = Some (SPARKEY_SUCCESS, j3) \<and> active lib log j3 (PutEntry k v) es k v"
    if "iter_at lib log j cur rest" for j cur rest
    using seek_stored [OF ok ad st(2) that] by (metis entry_key.simps(1) entry_value.simps(1))
  have "\<forall>e' es'. stored lib log h e' es' p \<longrightarrow> e' = PutEntry k v \<and> es' = es"
    using stored_unique [OF ok ad at(2) st(2)] by blast
  then show ?thesis
    using n st(1,3) d bd(4) c seek
    by (intro exI [of _ iter1] exI [of _ t'] exI [of _ h'] exI [of _ its'] exI [of _ p]) simp
qed

theorem index_entry_address_witness:
  "\<exists>log h t iter iter1 t' h' its' p.
      index_entry store_lib log (demo_os, t, h, iter1, iter) = Some (SPARKEY_SUCCESS, demo_os, t', h', its')
    \<and> index_rep store_lib log h t' [[1] \<mapsto> p] \<and> p \<noteq> 0
    \<and> drop_bit (unat (hh_entry_block_bits h)) p = it_block_position iter1 \<and> entry_index h p = sint (it_entry_count iter1)"
proof -
  obtain log h t iter where d: "reader_ok store_lib log" "index_rep store_lib log h t Map.empty"
    and b: "before store_lib log iter (PutEntry [1] [2] # [DeleteEntry [3], PutEntry [] [4]])"
    by (rule demo_before)
  obtain cur rest where ra: "iter_at store_lib log iter cur rest" using before_iter_at [OF b] by blast
  have "0 < capacity h" using d(2) by (auto simp: index_rep_def table_ok_def intro: capacity_pos)
  then have room: "card (dom Map.empty) < capacity h" by simp
  have os: "os_mallocs demo_os = []" and len: "length [1 :: byte] < 2 ^ 31" by (simp_all add: plain_os_def fresh_os_def)
  show ?thesis using index_entry_address [OF d os b ra len room] by blast
qed

text \<open>
  C30: the hash of the current key does not depend on how the key lies in the blocks of the log.
  \<open>sparkey_iter_hash\<close> on an iterator at the start of a key below two gigabytes gives the hash of the whole
  key, also when it has to collect it from several blocks, and leaves the iterator behind the key.
\<close>

theorem iter_hash_whole_key:
  assumes "reader_ok lib log" "active lib log iter e es (entry_key e) rv" "length (entry_key e) < 2 ^ 31"
    and "os_mallocs os = []" "index_shape h"
  shows "\<exists>a iter'. alg_hash (hh_hash_algorithm h) (entry_key e) (hh_hash_seed h) = Some a
    \<and> sparkey_iter_hash lib h os iter log = Some (a, os, iter') \<and> active lib log iter' e es [] rv"
proof -
  obtain a where a: "key_hash h (entry_key e) = Some a" by (rule key_hash_total [OF assms(5,3)])
  obtain iter' where "sparkey_iter_hash lib h os iter log = Some (a, os, iter')" "active lib log iter' e es [] rv"
    by (rule iter_hash_active [OF assms(1-4) a])
  then show ?thesis using a by (auto simp: key_hash_def)
qed

theorem iter_hash_whole_key_witness:
  "\<exists>log h iter es a iter'. alg_hash (hh_hash_algorithm h) [1] (hh_hash_seed h) = Some a
    \<and> sparkey_iter_hash store_lib h demo_os iter log = Some (a, demo_os, iter')
    \<and> active store_lib log iter' (PutEntry [1] [2]) es [] [2]"
proof -
  obtain log h t es its p a where d: "reader_ok store_lib log" "index_rep store_lib log h t Map.empty" "0 < capacity h"
    "key_hash h [1] = Some a" "indexed store_lib log h [1] p" "stored store_lib log h (PutEntry [1] [2]) es p"
    "iters_on store_lib log (PutEntry [1] [2]) es its" "active store_lib log (fst its) (PutEntry [1] [2]) es [1] [2]"
    by (rule demo_index)
  have "index_shape h" "os_mallocs demo_os = []"
    using d(2) by (simp_all add: index_rep_def table_ok_def plain_os_def fresh_os_def)
  then show ?thesis
    using iter_hash_whole_key [OF d(1), of "fst its" "PutEntry [1] [2]" es "[2]" demo_os h] d(8) by simp blast
qed

text \<open>
  C32: the header a new index starts with has room for the log. For a log with fewer than \<open>2^53\<close> puts the
  capacity is at least the number of puts and at most three times that plus one; slots, offsets and the
  hash algorithm are consistent, and every address of the log fits the chosen address size.
\<close>

theorem index_header_fits:
  assumes "log_indexable lh" "hash_size = 0 \<or> hash_size = 4 \<or> hash_size = 8" "lr_header log = lh\<lparr>lh_header_size := n\<rparr>"
  shows "\<exists>cap h. hash_capacity_for (lh_num_puts lh) = Some cap
    \<and> index_header junk lh cap seed g old_hash_size hash_size = Inr h
    \<and> unat (lh_num_puts lh) \<le> unat cap \<and> unat cap \<le> 3 * unat (lh_num_puts lh) + 1
    \<and> hh_hash_capacity h = cap \<and> index_shape h \<and> addresses_ok h log"
proof -
  obtain cap where cap: "hash_capacity_for (lh_num_puts lh) = Some cap" "unat (lh_num_puts lh) \<le> unat cap"
    "unat cap \<le> 3 * unat (lh_num_puts lh) + 1"
    by (rule hash_capacity_bounds [of "lh_num_puts lh"]) (use assms(1) in \<open>auto simp: log_indexable_def\<close>)
  obtain h where h: "index_header junk lh cap seed g old_hash_size hash_size = Inr h" "index_shape h" "addresses_ok h log"
    by (rule index_header_ok [OF assms(1) cap(1) _ assms(2,3)]) (use assms(1) in \<open>simp add: log_indexable_def\<close>)
  moreover have "hh_hash_capacity h = cap"
    using h(1) by (auto simp: index_header_def Let_def split: if_splits)
  ultimately show ?thesis using cap by blast
qed

theorem index_header_fits_witness:
  "\<exists>cap h. hash_capacity_for 2 = Some cap \<and> index_header undefined demo_header cap 7 0 0 4 = Inr h
    \<and> 2 \<le> unat cap \<and> unat cap \<le> 7 \<and> index_shape h"
proof -
  have "log_indexable demo_header" "lh_num_puts demo_header = 2"
    using demo_indexable by (simp_all add: indexable_file_def plain_header_def demo_log_def)
  then show ?thesis
    using index_header_fits [of demo_header 4 "blank_reader\<lparr>lr_header := demo_header\<lparr>lh_header_size := 84\<rparr>\<rparr>" 84 undefined 7 0 0]
    by simp blast
qed

text \<open>
  C28: the bytes of a table behave as an array of slots. In a table of valid shape every slot can be read
  and written at its offset without leaving the memory; writing changes this slot of the array and no
  other, a slot with address 0 counts as empty, and a new table has only empty slots.
\<close>

theorem table_is_slot_array:
  assumes "table_ok h t" "i < capacity h" "item_fits h (a, p)"
  shows "(\<exists>x. read_slot h t (of_nat i * slot_size h) = Some x \<and> slots h t ! i = (if snd x = 0 then None else Some x))
    \<and> (\<exists>t'. write_slot h t (of_nat i * slot_size h) a p = Some t' \<and> table_ok h t'
        \<and> slots h t' = (slots h t)[i := (if p = 0 then None else Some (a, p))])
    \<and> slots h (replicate (unat (slot_size h * hh_hash_capacity h)) 0) = replicate (capacity h) None"
proof -
  have shape: "index_shape h" using assms(1) by (simp add: table_ok_def)
  obtain a2 p2 where r: "read_slot h t (of_nat i * slot_size h) = Some (a2, p2)" "slots h t ! i = (if p2 = 0 then None else Some (a2, p2))"
    by (rule read_slot_slots [OF assms(1,2)])
  obtain t' where t': "write_slot h t (of_nat i * slot_size h) a p = Some t'" "table_ok h t'"
    "slots h t' = (slots h t)[i := (if p = 0 then None else Some (a, p))]"
    by (rule write_slot_slots [OF assms])
  show ?thesis using r t' table_ok_new(2) [OF shape] by auto
qed

text \<open>The tables of the next witnesses: two slots of 16 bytes, both empty.\<close>

definition two_slots :: sparkey_hashheader where
  "two_slots =
     \<lparr>hh_major_version = 1, hh_minor_version = 1, hh_file_identifier = 0, hh_hash_seed = 7, hh_header_size = 112,
      hh_data_end = 84, hh_max_key_len = 0, hh_max_value_len = 0, hh_garbage_size = 0, hh_num_entries = 0,
      hh_address_size = 8, hh_hash_size = 8, hh_hash_capacity = 2, hh_max_displacement = 0, hh_num_puts = 0,
      hh_entry_block_bits = 0, hh_entry_block_bitmask = 0, hh_hash_collisions = 0, hh_total_displacement = 0,
      hh_hash_algorithm = murmurhash64\<rparr>"

lemma two_slots_ok: "table_ok two_slots (replicate 32 0)" "slots two_slots (replicate 32 0) = replicate 2 None"
proof -
  have shape: "index_shape two_slots" by (simp add: index_shape_def two_slots_def sparkey_get_hash_algorithm_def)
  have "unat (slot_size two_slots * hh_hash_capacity two_slots) = 32" by (simp add: slot_size_def two_slots_def)
  then show "table_ok two_slots (replicate 32 0)" "slots two_slots (replicate 32 0) = replicate 2 None"
    using table_ok_new [OF shape] by (simp_all add: two_slots_def)
qed

theorem table_is_slot_array_witness:
  "\<exists>t'. write_slot two_slots (replicate 32 0) (of_nat 1 * slot_size two_slots) 5 9 = Some t'
    \<and> slots two_slots t' = [None, Some (5, 9)]"
proof -
  have c: "1 < capacity two_slots" "item_fits two_slots (5, 9)" by (simp_all add: two_slots_def item_fits_def)
  have u: "(replicate 2 None)[1 := Some (5, 9)] = [None, Some (5, 9) :: (u64 \<times> u64) option]" by (simp add: eval_nat_numeral)
  obtain t' where "write_slot two_slots (replicate 32 0) (of_nat 1 * slot_size two_slots) 5 9 = Some t'"
    "slots two_slots t' = (slots two_slots (replicate 32 0))[1 := (if 9 = (0 :: u64) then None else Some (5, 9))]"
    using table_is_slot_array [OF two_slots_ok(1) c] by blast
  then show ?thesis using u by (simp add: two_slots_ok(2))
qed

text \<open>
  C21: the search of \<open>hashnext\<close> ends on every table, also when it is full or not in Robin Hood order: it
  reads inside the table and returns after at most one round, because no displacement reaches the
  capacity.
\<close>

theorem hashnext_probe_ends:
  assumes "table_ok h t" "s < capacity h"
  shows "\<exists>live. hashnext_probe h t p (of_nat s) (of_nat s * slot_size h) 0 = Some live"
  using hashnext_probe_find [OF assms, of 0 p] by simp

theorem hashnext_probe_ends_witness:
  "\<exists>live. hashnext_probe two_slots (replicate 32 0) 9 (of_nat 1) (of_nat 1 * slot_size two_slots) 0 = Some live"
  by (rule hashnext_probe_ends [OF two_slots_ok(1)]) (simp add: two_slots_def)

text \<open>
  C31: \<open>get_displacement\<close> is the distance, around the end of the table, from the slot a hash wants to a slot,
  and so less than the capacity, in spite of the unsigned subtraction.
\<close>

theorem get_displacement_ring:
  assumes "index_shape h" "i < capacity h"
  shows "unat (get_displacement (hh_hash_capacity h) (of_nat i) a) = ring_dist (capacity h) (unat (a mod hh_hash_capacity h)) i
    \<and> ring_dist (capacity h) (unat (a mod hh_hash_capacity h)) i < capacity h"
  using get_displacement_slots [OF assms, of "(a, 0)"] ring_dist_less [OF wanted_less [OF assms(1)] assms(2), of "(a, 0)"]
  by (simp add: wanted_def)

theorem get_displacement_ring_witness:
  "unat (get_displacement 2 0 5) = 1"
  using get_displacement_ring [of two_slots 0 5] two_slots_ok(1)
  by (simp add: table_ok_def two_slots_def ring_dist_def)

text \<open>
  The statistics stay in the bounds the loader checks. For a table with the Robin Hood invariant
  \<open>calculate_max_displacement\<close> reads inside the table and finds a maximal displacement and a number of hash
  collisions that are at most the number of entries.
\<close>

theorem statistics_bounded:
  assumes "table_ok h t" "rh_inv (wanted h) (slots h t)"
  shows "\<exists>h'. calculate_max_displacement h t = Some h' \<and> hh_num_entries h' = hh_num_entries h
    \<and> unat (hh_max_displacement h') \<le> size (items (slots h t))
    \<and> unat (hh_hash_collisions h') \<le> size (items (slots h t))"
  by (metis max_displacement_ok [OF assms])

theorem statistics_bounded_witness:
  "\<exists>h'. calculate_max_displacement two_slots (replicate 32 0) = Some h' \<and> hh_max_displacement h' = 0
    \<and> hh_hash_collisions h' = 0"
proof -
  have "rh_inv (wanted two_slots) (slots two_slots (replicate 32 0))"
    unfolding two_slots_ok(2) by (rule rh_inv_replicate_None) simp
  from statistics_bounded [OF two_slots_ok(1) this] show ?thesis
    unfolding two_slots_ok(2) by (auto simp: unat_eq_0)
qed

end
