(* ===== verification/IndexSafety.thy ===== *)
theory IndexSafety
  imports IndexLaws
begin

text \<open>
  Which reads of a mapped index stay inside the file: the checks of the loader and of \<open>sparkey_hash_open\<close>
  make every slot readable, if the header has one of the address sizes and a capacity whose product with
  the slot size does not wrap. The loader checks neither, and an index whose product wraps is opened and
  then read outside the mapping.
\<close>

section \<open>What a successful open has checked\<close>

lemma reader_table_ok:
  assumes "sparkey_hash_open junk os hf lf = (Inr reader, os')" "index_shape (hr_header reader)"
  shows "table_ok (hr_header reader) (reader_table reader)"
proof -
  let ?h = "hr_header reader"
  obtain c where c: "hashheader_consistent ?h" "hr_data_len reader = 112 + hh_hash_capacity ?h * ucast (hh_hash_size ?h + hh_address_size ?h)"
    "unat (hr_data_len reader) \<le> length c" "hr_data reader = take (unat (hr_data_len reader)) c"
    by (rule hash_open_Inr [OF assms(1)])
  note s = slot_size_unat [OF assms(2)]
  have w: "(ucast (hh_hash_size ?h + hh_address_size ?h) :: u64) = slot_size ?h" by (simp add: slot_size_unsigned [OF assms(2)])
  have "16 * capacity ?h < 2 ^ 63" using assms(2) by (simp add: index_shape_def)
  moreover have "capacity ?h * unat (slot_size ?h) \<le> capacity ?h * 16" using s(2) by (rule mult_le_mono2)
  ultimately have "capacity ?h * unat (slot_size ?h) < 2 ^ 63" by linarith
  then have lt: "112 + capacity ?h * unat (slot_size ?h) < 2 ^ 64" by simp
  have m: "unat (hh_hash_capacity ?h * slot_size ?h) = capacity ?h * unat (slot_size ?h)"
    by (rule unat_mult_u64) (use lt in linarith)
  have "unat (hr_data_len reader) = unat (112 :: u64) + unat (hh_hash_capacity ?h * slot_size ?h)"
    unfolding c(2) w by (rule unat_add_u64) (use lt m in simp)
  then have len: "length (hr_data reader) = 112 + capacity ?h * unat (slot_size ?h)"
    using c(3,4) m by simp
  have "hh_header_size ?h = 112" using c(1) by (simp add: hashheader_consistent_def HASH_HEADER_SIZE_def)
  then show ?thesis using assms(2) len by (simp add: table_ok_def reader_table_def mult.commute)
qed

section \<open>Properties\<close>

text \<open>
  C27: an opened index is read inside its mapping. If \<open>sparkey_hash_open\<close> succeeds, and the header has 4 or 8
  byte addresses and a capacity that is not 0 and whose slots take less than \<open>2^63\<close> bytes, then every slot can
  be read at its offset in the mapped file; the loader itself ensures the hash size and the algorithm.
\<close>

theorem opened_index_in_bounds:
  assumes "sparkey_hash_open junk os hf lf = (Inr reader, os')" "s < capacity (hr_header reader)"
    and "hh_address_size (hr_header reader) = 4 \<or> hh_address_size (hr_header reader) = 8"
    and "16 * capacity (hr_header reader) < 2 ^ 63"
  shows "\<exists>slot. read_slot (hr_header reader) (reader_table reader) (of_nat s * slot_size (hr_header reader)) = Some slot"
proof -
  let ?h = "hr_header reader"
  obtain c where "hashheader_consistent ?h" by (rule hash_open_Inr [OF assms(1)])
  then have "index_shape ?h" using assms(2-4) by (auto simp: index_shape_def hashheader_consistent_def word_less_nat_alt)
  from read_slot_slots [OF reader_table_ok [OF assms(1) this] assms(2)] show ?thesis by blast
qed

theorem opened_index_in_bounds_witness:
  "\<exists>os reader slot. sparkey_hash_open undefined os ''a.spi'' ''a.spl'' = (Inr reader, os)
    \<and> read_slot (hr_header reader) (reader_table reader) (of_nat 0 * slot_size (hr_header reader)) = Some slot"
proof -
  obtain os' reader M iter where o: "sparkey_hash_open undefined os' ''a.spi'' ''a.spl'' = (Inr reader, os')"
    "reads_index store_lib reader M"
    by (rule index_session [OF demo_indexable demo_os_indexes demo_old, of 0]) simp_all
  have "index_shape (hr_header reader)" using o(2) by (auto simp: reads_index_def index_rep_def table_ok_def)
  then show ?thesis
    using opened_index_in_bounds [OF o(1), of 0] o(1) capacity_pos by (auto simp: index_shape_def)
qed

text \<open>An index file that consists of a header alone, for a table of \<open>2 ^ 60\<close> slots of 16 bytes.\<close>

definition huge_index :: sparkey_hashheader where
  "huge_index = two_slots\<lparr>hh_file_identifier := lh_file_identifier demo_header, hh_hash_capacity := 2 ^ 60,
     hh_entry_block_bitmask := block_bitmask 0\<rparr>"

definition huge_os :: os where
  "huge_os = with_index demo_os ''a.spi'' (hashheader_bytes huge_index) []"

lemma huge_index_opens:
  obtains reader log where "sparkey_hash_open undefined huge_os ''a.spi'' ''a.spl'' = (Inr reader, huge_os)"
    "hr_header reader = huge_index" "reader_table reader = []" "assert_reader_open reader = SPARKEY_SUCCESS"
proof -
  have o: "''a.spi'' \<noteq> ''a.spl''" "os_open_read demo_os ''a.spl'' = Inr demo_file" "os_mallocs demo_os = []" "os_mmap_ok demo_os"
    "os_open_err demo_os ''a.spi'' = None" "\<forall>i. os_names demo_os ''a.spl'' = Some i \<longrightarrow> i < length (os_store demo_os)"
    using demo_os_indexes by (simp_all add: os_indexes_def)
  obtain log where r: "\<And>junk. sparkey_logreader_open_noalloc demo_os junk ''a.spl'' = Inr log"
    "lr_header log = demo_header\<lparr>lh_header_size := LOG_HEADER_SIZE\<rparr>"
    by (rule indexable_reader [OF demo_indexable o(2,4,3)]) (rule that)
  note other = with_index_other [OF o(1) [symmetric] o(2,6), of "hashheader_bytes huge_index" "[]"]
  note self = with_index_read(1) [OF o(5), of "hashheader_bytes huge_index" "[]"]
    with_index_read(2) [of demo_os "''a.spi''" "hashheader_bytes huge_index" "[]"]
  have lo: "sparkey_logreader_open_noalloc huge_os jl ''a.spl'' = Inr log" for jl
    using logreader_open_same [of huge_os "''a.spl''" demo_os jl undefined] other o(2) r(1) by (simp add: huge_os_def)
  have "hashheader_consistent huge_index"
    by (simp add: hashheader_consistent_def huge_index_def two_slots_def HASH_MAJOR_VERSION_def HASH_MINOR_VERSION_def
        HASH_HEADER_SIZE_def sparkey_get_hash_algorithm_def)
  then have load: "sparkey_load_hashheader huge_os ''a.spi'' = Inr huge_index"
    by (intro load_hashheader_bytes [of _ _ _ "[]"]) (simp_all add: huge_os_def self)
  let ?n = "112 + hh_hash_capacity huge_index * ucast (hh_hash_size huge_index + hh_address_size huge_index) :: u64"
  have n: "?n = 112" by (simp add: huge_index_def two_slots_def)
  let ?r = "undefined\<lparr>hr_header := huge_index, hr_log := log, hr_fd := \<lparr>fd_ino = os_names huge_os ''a.spi'', fd_off = 0\<rparr>,
      hr_data_len := 112, hr_data := take 112 (hashheader_bytes huge_index), hr_open_status := MAGIC_VALUE_HASHREADER\<rparr>"
  have hd: "hh_header_size huge_index = 112" "hh_file_identifier huge_index = lh_file_identifier demo_header"
    "hh_data_end huge_index \<le> lh_data_end demo_header" "hh_max_key_len huge_index = 0" "hh_max_value_len huge_index = 0"
    by (simp_all add: huge_index_def two_slots_def plain_header_def demo_log_length)
  have "sparkey_hash_open undefined huge_os ''a.spi'' ''a.spl'' = (Inr ?r, huge_os)"
    using load lo o(3,4) r(2) self hd n unfolding sparkey_hash_open_def
    by (simp add: correct_endian_platform_def malloc_or_fail_def os_malloc_def Let_def huge_os_def)
  then show thesis using hd(1) that by (simp add: reader_table_def assert_reader_open_def)
qed

text \<open>
  C40: the checks on opening do not protect against a corrupt capacity. The size \<open>sparkey_hash_open\<close> compares
  with the file is computed with unsigned 64 bit arithmetic and wraps: there is a file of 112 bytes that it
  opens as an index of \<open>2 ^ 60\<close> slots, and every lookup in it reads outside the mapping.
\<close>

theorem huge_capacity_reads_outside:
  "\<exists>os reader. os_content os ''a.spi'' = Some (hashheader_bytes huge_index)
    \<and> sparkey_hash_open undefined os ''a.spi'' ''a.spl'' = (Inr reader, os)
    \<and> (\<forall>lib key iter. sparkey_hash_get lib reader key iter = None)"
proof -
  obtain reader where r: "sparkey_hash_open undefined huge_os ''a.spi'' ''a.spl'' = (Inr reader, huge_os)"
    "hr_header reader = huge_index" "reader_table reader = []" "assert_reader_open reader = SPARKEY_SUCCESS"
    by (rule huge_index_opens)
  have "read_slot huge_index [] pos = None" for pos
    by (simp add: read_slot_def read_addr_def huge_index_def two_slots_def read_little_endian64_def)
  then have "sparkey_hash_get lib reader key iter = None" for lib key iter
    using r(2-4) by (simp add: sparkey_hash_get_def hash_get_loop.simps Let_def split: bind_split)
  moreover have "os_content huge_os ''a.spi'' = Some (hashheader_bytes huge_index)"
    by (simp add: huge_os_def with_index_def os_content_def)
  ultimately show ?thesis using r(1) by blast
qed

end
