(* ===== verification/LogGrow.thy ===== *)
theory LogGrow
  imports LogReadBack LogLayout
begin

text \<open>
  Logs that grow: when entries are appended to a log file, every entry keeps its block and its index, and
  the old end of the data is the place of the first new entry.
\<close>

section \<open>A reader of the longer log\<close>

text \<open>\<open>rg\<close> are the groups behind the data of \<open>log\<close>.\<close>

definition log_grows ::
  "codec_lib \<Rightarrow> sparkey_logreader \<Rightarrow> sparkey_logreader \<Rightarrow> (log_entry list \<times> bytes list) list \<Rightarrow> bool" where
  "log_grows lib log log' rg \<longleftrightarrow>
     rtype log' = rtype log \<and> rsize log' = rsize log
     \<and> lh_max_entries_per_block (lr_header log) \<le> lh_max_entries_per_block (lr_header log')
     \<and> (\<forall>x \<in> set rg. group_layout log' x)
     \<and> (\<exists>ext. (\<forall>p. 84 \<le> p \<longrightarrow> p \<le> length (lr_data log) \<longrightarrow> drop p (lr_data log') = drop p (lr_data log) @ ext)
         \<and> length (lr_data log') = length (lr_data log) + length ext
         \<and> (case sparkey_compressors lib (rtype log) of
              Some c \<Rightarrow> ext = blocks_bytes c (rsize log) (concat (map snd rg))
                \<and> (\<forall>b \<in> set (concat (map snd rg)). b \<noteq> [] \<and> length b \<le> unat (rsize log))
            | None \<Rightarrow> ext = encode_entries (concat (map fst rg))))"

lemma group_layout_grows:
  assumes "log_grows lib log log' rg" "group_layout log x"
  shows "group_layout log' x"
  using assms by (auto simp: group_layout_def log_grows_def word_le_nat_alt)

lemma blocks_at_grows:
  assumes "log_grows lib log log' rg" "blocks_at lib log p bl" "sparkey_compressors lib (rtype log) = Some c"
  shows "blocks_at lib log' p (bl @ concat (map snd rg))"
proof -
  obtain ext where ext: "\<forall>p. 84 \<le> p \<longrightarrow> p \<le> length (lr_data log) \<longrightarrow> drop p (lr_data log') = drop p (lr_data log) @ ext"
    "length (lr_data log') = length (lr_data log) + length ext"
    "ext = blocks_bytes c (rsize log) (concat (map snd rg))"
    "\<forall>b \<in> set (concat (map snd rg)). b \<noteq> [] \<and> length b \<le> unat (rsize log)"
    using assms(1,3) by (auto simp: log_grows_def)
  have b: "84 \<le> unat p" "unat p \<le> length (lr_data log)" "drop (unat p) (lr_data log) = blocks_bytes c (rsize log) bl"
    "\<forall>b \<in> set bl. b \<noteq> [] \<and> length b \<le> unat (rsize log)"
    using assms(2,3) by (simp_all add: blocks_at_def)
  have "rtype log' = rtype log" "rsize log' = rsize log" using assms(1) by (simp_all add: log_grows_def)
  moreover have "drop (unat p) (lr_data log') = blocks_bytes c (rsize log) (bl @ concat (map snd rg))"
    using ext(1,3) b by simp
  moreover have "\<forall>b \<in> set (bl @ concat (map snd rg)). b \<noteq> [] \<and> length b \<le> unat (rsize log)" using b(4) ext(4) by auto
  ultimately show ?thesis using assms(3) b(1,2) ext(2) by (simp add: blocks_at_def)
qed

lemma group_at_grows:
  assumes ok: "reader_ok lib log" and gr: "log_grows lib log log' rg2" and g: "group_at lib log p g bl rg"
  obtains g' bl' rg' where "group_at lib log' p g' bl' rg'" "\<exists>x. g' = g @ x"
    "g' @ concat (map fst rg') = g @ concat (map fst rg) @ concat (map fst rg2)"
proof (cases "sparkey_compressors lib (rtype log)")
  case (Some c)
  have ty: "rtype log' = rtype log" using gr by (simp add: log_grows_def)
  have an: "anchored lib log ((g, bl) # rg)" and bls: "blocks_at lib log p (bl @ concat (map snd rg))"
    using g by (simp_all add: group_at_def)
  obtain gl where gl: "\<forall>x \<in> set gl. group_layout log x" "blocks_at lib log (ucast LOG_HEADER_SIZE) (concat (map snd (gl @ (g, bl) # rg)))"
    using an Some by (auto simp: anchored_def)
  have "blocks_at lib log' (ucast LOG_HEADER_SIZE) (concat (map snd (gl @ (g, bl) # rg @ rg2)))"
    using blocks_at_grows [OF gr gl(2) Some] by simp
  moreover have "\<forall>x \<in> set ((g, bl) # rg @ rg2). group_layout log' x" "\<forall>x \<in> set gl. group_layout log' x"
    using anchored_layout [OF an] gl(1) group_layout_grows [OF gr] gr by (auto simp: log_grows_def)
  ultimately have "anchored lib log' ((g, bl) # rg @ rg2)" unfolding anchored_def by blast
  then have "group_at lib log' p g bl (rg @ rg2)"
    using blocks_at_grows [OF gr bls Some] by (simp add: group_at_def)
  then show thesis by (rule that) simp_all
next
  case None
  have ty: "rtype log' = rtype log" using gr by (simp add: log_grows_def)
  note s = group_at_simps [OF g]
  obtain ext where ext: "\<forall>p. 84 \<le> p \<longrightarrow> p \<le> length (lr_data log) \<longrightarrow> drop p (lr_data log') = drop p (lr_data log) @ ext"
    "length (lr_data log') = length (lr_data log) + length ext" "ext = encode_entries (concat (map fst rg2))"
    using gr None by (auto simp: log_grows_def)
  have lay: "g \<noteq> []" "bl \<noteq> []" "concat bl = encode_entries g" "\<forall>e \<in> set g. entry_ok e"
    using s(2) by (simp_all add: group_layout_def)
  have b: "84 \<le> unat p" "unat p \<le> length (lr_data log)"
    "bl @ concat (map snd rg) = (if unat p = length (lr_data log) then [] else [drop (unat p) (lr_data log)])"
    using s(1) None by (simp_all add: blocks_at_def)
  then have ne: "unat p \<noteq> length (lr_data log)" and bl: "bl = [drop (unat p) (lr_data log)]" and cs: "concat (map snd rg) = []"
    using lay(2) by (auto simp: append_eq_Cons_conv split: if_splits)
  have rg: "rg = []" using cs s(4) by (cases rg) (auto simp: group_layout_def)
  let ?g = "g @ concat (map fst rg2)"
  have dr: "drop (unat p) (lr_data log') = encode_entries ?g" using ext(1,3) b(1,2) bl lay(3) by simp
  have "\<forall>x \<in> set rg2. group_layout log' x" using gr by (simp add: log_grows_def)
  then have okg: "\<forall>e \<in> set ?g. entry_ok e" using lay(4) by (auto simp: group_layout_def)
  have "group_layout log' (?g, [encode_entries ?g])"
    using plain_layout [OF _ okg] lay(1) None ty uses_compressor_iff [of "rtype log" lib] by auto
  moreover have "blocks_at lib log' p [encode_entries ?g]"
    using b(1,2) ne None ty dr ext(2) by (simp add: blocks_at_def)
  ultimately have "group_at lib log' p ?g [encode_entries ?g] []"
    using None ty by (simp add: group_at_def anchored_def)
  then show thesis by (rule that) (simp_all add: rg)
qed

lemma entry_at_grows:
  assumes ok: "reader_ok lib log" and gr: "log_grows lib log log' rg2" and e: "entry_at lib log p idx e es"
  shows "entry_at lib log' p idx e (es @ concat (map fst rg2))"
proof -
  from e obtain g bl rg where g: "group_at lib log p g bl rg" "idx < length g" "g ! idx = e" "es = drop (Suc idx) g @ concat (map fst rg)"
    by (auto simp: entry_at_def)
  obtain g' bl' rg' x where g': "group_at lib log' p g' bl' rg'" "g' = g @ x"
    "g' @ concat (map fst rg') = g @ concat (map fst rg) @ concat (map fst rg2)"
    using group_at_grows [OF ok gr g(1)] by metis
  have "drop (Suc idx) g' @ concat (map fst rg') = es @ concat (map fst rg2)"
    using arg_cong [OF g'(3), of "drop (Suc idx)"] g(2,4) g'(2) by simp
  then show ?thesis using g' g(2,3) unfolding entry_at_def by (metis nth_append trans_less_add1 length_append)
qed

section \<open>The first new entry\<close>

lemma seek_old_end:
  assumes ok: "reader_ok lib log" "reader_ok lib log'" and gr: "log_grows lib log log' rg" and ne: "rg \<noteq> []"
    and an: "anchored lib log' rg" and it: "iter_at lib log' iter cur rest"
  obtains iter' where "sparkey_logiter_seek lib iter log' (lh_data_end (lr_header log)) = Some (SPARKEY_SUCCESS, iter')"
    "before lib log' iter' (concat (map fst rg))"
proof -
  let ?p = "lh_data_end (lr_header log)"
  have p: "unat ?p = length (lr_data log)" "84 \<le> length (lr_data log)"
    using ok(1) by (simp_all add: reader_ok_def unat_of_nat_u64)
  have ty: "rtype log' = rtype log" "rsize log' = rsize log" using gr by (simp_all add: log_grows_def)
  obtain ext where ext: "\<forall>p. 84 \<le> p \<longrightarrow> p \<le> length (lr_data log) \<longrightarrow> drop p (lr_data log') = drop p (lr_data log) @ ext"
    "length (lr_data log') = length (lr_data log) + length ext"
    using gr by (auto simp: log_grows_def)
  have dr: "drop (unat ?p) (lr_data log') = ext" using ext(1) p by simp
  have lay: "\<forall>x \<in> set rg. group_layout log' x" using gr by (simp add: log_grows_def)
  obtain g bl r where rg: "rg = (g, bl) # r" using ne by (cases rg) auto
  have "\<exists>g' bl' r'. group_at lib log' ?p g' bl' r' \<and> g' @ concat (map fst r') = concat (map fst rg)"
  proof (cases "sparkey_compressors lib (rtype log)")
    case (Some c)
    have "blocks_at lib log ?p []" using p Some by (simp add: blocks_at_def)
    then have "blocks_at lib log' ?p (concat (map snd rg))" using blocks_at_grows [OF gr _ Some] by fastforce
    then have "group_at lib log' ?p g bl r" using an by (simp add: group_at_def rg)
    then show ?thesis using rg by force
  next
    case None
    let ?g = "concat (map fst rg)"
    have e: "ext = encode_entries ?g"
      using gr None dr p by (auto simp: log_grows_def)
    have ok': "\<forall>e \<in> set ?g. entry_ok e" using lay by (auto simp: group_layout_def)
    have g0: "?g \<noteq> []" using lay rg by (auto simp: group_layout_def)
    then have "encode_entries ?g \<noteq> []"
      by (cases ?g) (simp_all add: encode_entry_def entry_head_def)
    then have "blocks_at lib log' ?p [encode_entries ?g]"
      using p None ty dr ext(2) e by (simp add: blocks_at_def)
    moreover have "group_layout log' (?g, [encode_entries ?g])"
      using plain_layout [OF g0 ok'] None ty uses_compressor_iff [of "rtype log" lib] by auto
    ultimately have "group_at lib log' ?p ?g [encode_entries ?g] []"
      using None ty by (simp add: group_at_def anchored_def)
    then show ?thesis by force
  qed
  then obtain g' bl' r' where ga: "group_at lib log' ?p g' bl' r'" "g' @ concat (map fst r') = concat (map fst rg)" by blast
  obtain iter' where s: "sparkey_logiter_seek lib iter log' ?p = Some (SPARKEY_SUCCESS, iter')"
    "in_group lib log' iter' 0 (g' @ concat (map fst r'))" "it_state iter' = SPARKEY_ITER_NEW"
    by (rule seek_group [OF ok(2) it ga(1)])
  then have "before lib log' iter' (concat (map fst rg))"
    using ga(2) by (auto simp: before_def reading_def)
  then show thesis using that s(1) by blast
qed

section \<open>Log files that grow\<close>

text \<open>What a header keeps and what may grow.\<close>

definition header_grows :: "sparkey_logheader \<Rightarrow> sparkey_logheader \<Rightarrow> bool" where
  "header_grows h h' \<longleftrightarrow>
     lh_file_identifier h' = lh_file_identifier h \<and> lh_compression_type h' = lh_compression_type h
     \<and> lh_compression_block_size h' = lh_compression_block_size h
     \<and> lh_max_entries_per_block h \<le> lh_max_entries_per_block h'"

lemma log_data_append:
  assumes "header_grows h h'"
  shows "log_data lib h' (gs @ gs') = log_data lib h gs @ log_data lib h' gs'"
  using assms by (simp add: log_data_def header_grows_def log_blocks_def split: option.splits)

lemma log_file_grows:
  assumes f: "log_file lib h' (gs @ gs') c'" "\<forall>e \<in> set (concat (gs @ gs')). entry_ok e" and hd: "header_grows h h'"
    and log: "lr_header log = h\<lparr>lh_header_size := LOG_HEADER_SIZE\<rparr>" "lr_data log = logheader_bytes h @ log_data lib h gs"
    and log': "lr_header log' = h'\<lparr>lh_header_size := LOG_HEADER_SIZE\<rparr>" "lr_data log' = logheader_bytes h' @ log_data lib h' (gs @ gs')"
  shows "log_grows lib log log' (read_groups lib h' gs')" "concat (map fst (read_groups lib h' gs')) = concat gs'"
    "anchored lib log' (read_groups lib h' gs')"
proof -
  let ?rg = "read_groups lib h' gs'"
  have ty: "lh_compression_type h' = lh_compression_type h" "lh_compression_block_size h' = lh_compression_block_size h"
    using hd by (simp_all add: header_grows_def)
  note bl = log_file_blocks [OF f log'] and lay = read_groups_layout [OF f, of log']
  have cat: "concat (map fst ?rg) = concat gs'" by (auto simp: read_groups_def comp_def split: option.splits)
  then show "concat (map fst ?rg) = concat gs'" .
  have lay': "\<forall>x \<in> set ?rg. group_layout log' x"
  proof (cases "sparkey_compressors lib (lh_compression_type h')")
    case None
    then show ?thesis
      using f(2) log' plain_layout [of "concat gs'" log'] uses_compressor_iff [of "rtype log'" lib] by (auto simp: read_groups_def)
  next
    case (Some c)
    then have "set ?rg \<subseteq> set (read_groups lib h' (gs @ gs'))" by (auto simp: read_groups_def)
    then show ?thesis using lay log' by auto
  qed
  show "anchored lib log' ?rg"
  proof (cases "sparkey_compressors lib (lh_compression_type h')")
    case None
    then show ?thesis using lay' log' by (simp add: anchored_def)
  next
    case (Some c)
    then have "read_groups lib h' (gs @ gs') = read_groups lib h' gs @ ?rg" by (simp add: read_groups_def)
    then show ?thesis using lay(1) bl lay' log' unfolding anchored_def by auto
  qed
  have ext: "drop p (lr_data log') = drop p (lr_data log) @ log_data lib h' gs'" if "84 \<le> p" "p \<le> length (lr_data log)" for p
    using that by (simp add: log log' log_data_append [OF hd])
  have len: "length (lr_data log') = length (lr_data log) + length (log_data lib h' gs')"
    by (simp add: log log' log_data_append [OF hd])
  have "case sparkey_compressors lib (rtype log) of
      Some c \<Rightarrow> log_data lib h' gs' = blocks_bytes c (rsize log) (concat (map snd ?rg))
        \<and> (\<forall>b \<in> set (concat (map snd ?rg)). b \<noteq> [] \<and> length b \<le> unat (rsize log))
    | None \<Rightarrow> log_data lib h' gs' = encode_entries (concat (map fst ?rg))"
  proof (cases "sparkey_compressors lib (rtype log)")
    case None
    then show ?thesis using cat log ty by (simp add: log_data_def)
  next
    case (Some c)
    then have c: "sparkey_compressors lib (lh_compression_type h') = Some c" using log ty by simp
    have 1: "concat (map snd ?rg) = log_blocks (unat (lh_compression_block_size h')) gs'"
      using c by (simp add: read_groups_def log_blocks_def comp_def)
    have "set (concat (map snd ?rg)) \<subseteq> set (concat (map snd (read_groups lib h' (gs @ gs'))))"
      using c by (auto simp: read_groups_def)
    moreover have "\<forall>b \<in> set (concat (map snd (read_groups lib h' (gs @ gs')))). b \<noteq> [] \<and> length b \<le> unat (rsize log')"
      using bl c log' by (simp add: blocks_at_def)
    ultimately show ?thesis using Some c 1 log log' ty by (auto simp: log_data_def)
  qed
  then show "log_grows lib log log' ?rg"
    using hd log log' lay' ext len unfolding log_grows_def header_grows_def by auto
qed

end
