(* ===== verification/IndexGrow.thy ===== *)
theory IndexGrow
  imports HashCopy LogGrow
begin

text \<open>
  Extending an index: when the log has grown, \<open>sparkey_hash_write\<close> copies the old index and indexes only the
  new entries; the result is an index of the whole log.
\<close>

section \<open>Moving the map of the old index\<close>

abbreviation moved_map :: "sparkey_hashheader \<Rightarrow> sparkey_hashheader \<Rightarrow> (bytes \<rightharpoonup> u64) \<Rightarrow> (bytes \<rightharpoonup> u64)" where
  "moved_map ho h M \<equiv> (\<lambda>k. map_option (moved_address ho h) (M k))"

lemma dom_moved_map [simp]: "dom (moved_map ho h M) = dom M"
  by (auto simp: dom_def)

lemma moved_stored:
  assumes ok: "reader_ok lib log" "reader_ok lib log'" and gr: "log_grows lib log log' rg"
    and ad: "addresses_ok ho log" "addresses_ok h log'" and st: "stored lib log ho e es p"
  shows "stored lib log' h e (es @ concat (map fst rg)) (moved_address ho h p)" "movable ho h (a, p) \<longleftrightarrow> item_fits h (a, moved_address ho h p)"
    "hh_address_size h = 4 \<Longrightarrow> unat (moved_address ho h p) < 2 ^ 32"
proof -
  obtain pos idx where p: "p = address ho pos idx" "idx < 2 ^ block_bits ho" "84 \<le> unat pos"
    "pos < lh_data_end (lr_header log)" "entry_at lib log pos idx e es" "rtype log = SPARKEY_COMPRESSION_NONE \<longrightarrow> idx = 0"
    using st by (auto simp: stored_def)
  have pos0: "0 < unat pos" using p(3) by simp
  note d = address_decode [OF ad(1) pos0 p(4,2), folded p(1)]
  have mv: "moved_address ho h p = address h pos idx" by (simp add: moved_address_def address_def d)
  note e' = entry_at_grows [OF ok(1) gr p(5)]
  note b' = entry_at_bounds [OF ok(2) e']
  have ty: "rtype log' = rtype log" using gr by (simp add: log_grows_def)
  have idx: "idx < 2 ^ block_bits h"
  proof (cases "sparkey_uses_compressor (rtype log')")
    case True
    obtain g bl r where "group_at lib log' pos g bl r" "idx < length g" using e' by (auto simp: entry_at_def)
    then have "idx < unat (lh_max_entries_per_block (lr_header log'))"
      using True group_at_simps(2) by (fastforce simp: group_layout_def)
    then show ?thesis using ad(2) True by (simp add: addresses_ok_def)
  next
    case False
    then have "rtype log = SPARKEY_COMPRESSION_NONE"
      using reader_ok_None [OF ok(2)] uses_compressor_iff [of "rtype log'" lib] ty by auto
    then show ?thesis using p(6) by simp
  qed
  show "stored lib log' h e (es @ concat (map fst rg)) (moved_address ho h p)"
    unfolding stored_def mv using idx b' e' p(6) ty by auto
  note d' = address_decode [OF ad(2) pos0 b'(2) idx, folded mv]
  show "movable ho h (a, p) \<longleftrightarrow> item_fits h (a, moved_address ho h p)"
    using d'(3) d(1) pos0 by (auto simp: movable_def moved_item_def)
  show "hh_address_size h = 4 \<Longrightarrow> unat (moved_address ho h p) < 2 ^ 32" by (rule d'(4))
qed

text \<open>The old header and the one of the new table hash keys alike.\<close>

definition same_hash :: "sparkey_hashheader \<Rightarrow> sparkey_hashheader \<Rightarrow> bool" where
  "same_hash ho h \<longleftrightarrow> hh_hash_size h = hh_hash_size ho \<and> hh_hash_seed h = hh_hash_seed ho
     \<and> hh_hash_algorithm h = hh_hash_algorithm ho"

lemma moved_indexed:
  assumes ok: "reader_ok lib log" "reader_ok lib log'" and gr: "log_grows lib log log' rg"
    and ad: "addresses_ok ho log" "addresses_ok h log'" and hs: "same_hash ho h" and ix: "indexed lib log ho k p"
  shows "indexed lib log' h k (moved_address ho h p)" "\<exists>a. key_hash ho k = Some a \<and> movable ho h (a, p)" "key_hash h k = key_hash ho k"
proof -
  obtain v es a where st: "stored lib log ho (PutEntry k v) es p" and a: "key_hash ho k = Some a" "item_fits ho (a, p)"
    using ix unfolding indexed_stored by blast
  note m = moved_stored [OF ok gr ad st]
  show kh: "key_hash h k = key_hash ho k" using hs by (simp add: key_hash_def same_hash_def)
  have fits: "item_fits h (a, moved_address ho h p)"
    using a(2) m(3) hs by (simp add: item_fits_def same_hash_def)
  then show "\<exists>a. key_hash ho k = Some a \<and> movable ho h (a, p)" using a(1) m(2) by blast
  show "indexed lib log' h k (moved_address ho h p)"
    unfolding indexed_stored kh using m(1) a(1) fits by blast
qed

lemma moved_indexes:
  assumes "reader_ok lib log" "reader_ok lib log'" "log_grows lib log log' rg" "addresses_ok ho log" "addresses_ok h log'"
    and ix: "indexes lib log ho ds [] M"
  shows "indexes lib log' h ds (concat (map fst rg)) (moved_map ho h M)"
  unfolding indexes_def
proof (intro conjI allI impI)
  show "dom (moved_map ho h M) = dom (log_map ds)" using ix by (simp add: indexes_def)
  fix k q
  assume "moved_map ho h M k = Some q"
  then obtain p where p: "M k = Some p" "q = moved_address ho h p" by auto
  then obtain d1 v d2 where "ds = d1 @ PutEntry k v # d2" "\<forall>e \<in> set d2. entry_key e \<noteq> k"
    "stored lib log ho (PutEntry k v) (d2 @ []) p"
    using ix unfolding indexes_def by blast
  then show "\<exists>d1 v d2. ds = d1 @ PutEntry k v # d2 \<and> (\<forall>e \<in> set d2. entry_key e \<noteq> k)
      \<and> stored lib log' h (PutEntry k v) (d2 @ concat (map fst rg)) q"
    using moved_stored(1) [OF assms(1-5), of "PutEntry k v" d2 p] p(2) by auto
qed

section \<open>Copying the old index\<close>

lemma fill_hash_rep:
  assumes ok: "reader_ok lib log" "reader_ok lib log'" and gr: "log_grows lib log log' rg"
    and rep: "index_rep lib log ho told M" and h: "index_shape h" "addresses_ok h log'" and hs: "same_hash ho h"
    and room: "card (dom M) \<le> capacity h"
    and os: "os_reads os = []" "os_mallocs os = []" "os_open_read os hf = Inr (hb @ told)" "length hb = 112"
    and hd: "hh_header_size ho = 112"
  obtains t' h' where "fill_hash lib mem os (replicate (unat (slot_size h * hh_hash_capacity h)) 0) hf ho h
      = Some (SPARKEY_SUCCESS, os, t', h')"
    "same_index h h'" "hh_num_entries h' = hh_num_entries h + of_nat (card (dom M))"
    "index_rep lib log' h t' (moved_map ho h M)"
proof -
  have old: "table_ok ho told" "addresses_ok ho log" "finite (dom M)" and shape: "index_shape ho"
    and items: "items (slots ho told) = image_mset (item_of ho M) (mset_set (dom M))"
    and ixd: "\<forall>k p. M k = Some p \<longrightarrow> indexed lib log ho k p"
    using rep by (auto simp: index_rep_def table_ok_def)
  note mi = moved_indexed [OF ok gr old(2) h(2) hs]
  have mov: "\<forall>x \<in># slot_items ho told 0 (capacity ho). movable ho h x"
  proof
    fix x
    assume "x \<in># slot_items ho told 0 (capacity ho)"
    then obtain k where k: "k \<in> dom M" "x = item_of ho M k" unfolding slot_items_all items using old(3) by auto
    then obtain p where p: "M k = Some p" by auto
    then show "movable ho h x" using mi(2) [of k p] ixd k(2) by (auto simp: item_of_def)
  qed
  have size: "size (slot_items ho told 0 (capacity ho)) = card (dom M)" unfolding slot_items_all items by simp
  obtain ino where ino: "os_names os hf = Some ino" "os_store os ! ino = hb @ told"
    using os(3) by (auto simp: os_open_read_def os_content_def split: option.splits)
  let ?fd = "\<lparr>fd_ino = os_names os hf, fd_off = unat (hh_header_size ho)\<rparr>"
  let ?buf = "take (unat (slot_size ho * 1024)) (mem @ replicate (unat (slot_size ho * 1024)) 0)"
  let ?t0 = "replicate (unat (slot_size h * hh_hash_capacity h)) 0"
  have fd: "fd_ino ?fd = Some ino" "fd_off ?fd = 112 + 0 * unat (slot_size ho)" using ino(1) hd by simp_all
  obtain fd' buf' t' h' where f: "fill_hash_loop lib ho (slot_size ho * 1024) (of_nat ((capacity ho - 0) * unat (slot_size ho)))
      (os, ?fd, ?buf, ?t0, h) = Some (SPARKEY_SUCCESS, os, fd', buf', t', h')"
    "same_index h h'" "hh_num_entries h' = hh_num_entries h + of_nat (card (dom M))"
    "table_items h t' ({#} + image_mset (moved_item ho h) (slot_items ho told 0 (capacity ho)))"
    using fill_hash_loop_items [OF os(1) ino(2) os(4) old(1) fd le0 table_items_empty [OF h(1)] mov, where lib = lib and buf = ?buf] room size by auto
  have "fill_hash lib mem os ?t0 hf ho h = Some (SPARKEY_SUCCESS, os, t', h')"
    using f(1) os(2,3) by (simp add: fill_hash_def os_malloc_def Let_def)
  moreover have "items (slots h t') = image_mset (item_of h (moved_map ho h M)) (mset_set (dom (moved_map ho h M)))"
  proof -
    have "items (slots h t') = image_mset (moved_item ho h) (image_mset (item_of ho M) (mset_set (dom M)))"
      using f(4) by (simp add: table_items_def slot_items_all items)
    also have "\<dots> = image_mset (item_of h (moved_map ho h M)) (mset_set (dom M))"
      unfolding multiset.map_comp
      by (rule image_mset_cong) (use hs old(3) in \<open>auto simp: item_of_def moved_item_def key_hash_def same_hash_def\<close>)
    finally show ?thesis by simp
  qed
  moreover have "table_ok h t'" "rh_inv (wanted h) (slots h t')" "\<exists>i. at_rest (wanted h) (slots h t') i"
    using f(4) by (simp_all add: table_items_def)
  moreover have "\<forall>k p. moved_map ho h M k = Some p \<longrightarrow> indexed lib log' h k p" using mi(1) ixd by auto
  ultimately have "index_rep lib log' h t' (moved_map ho h M)"
    using h(2) old(3) unfolding index_rep_def by simp
  then show thesis using that \<open>fill_hash _ _ _ _ _ _ _ = _\<close> f(2,3) by blast
qed

section \<open>A second run\<close>

lemma log_file_puts:
  assumes "indexable_file lib lh gs c"
  shows "unat (lh_num_puts lh) = length (filter is_put (concat gs))"
proof -
  have logf: "log_file lib lh gs c" and ld: "log_loadable lib lh gs c" using assms by (simp_all add: indexable_file_def)
  have "length (filter is_put (concat gs)) < 2 ^ 64" using ld log_file_end(2) [OF logf] by (simp add: log_loadable_def)
  then show ?thesis using logf by (simp add: log_file_def header_counts_def unat_of_nat_u64)
qed

lemma index_for_entries:
  assumes "indexable_file lib lh gs c" "index_for lib lh (concat gs) log hh t M"
  shows "unat (hh_num_entries hh) = card (dom (log_map (concat gs)))"
proof -
  have "card (dom (log_map (concat gs))) \<le> unat (lh_num_puts lh)"
    using card_log_map [of "concat gs"] log_file_puts [OF assms(1)] by simp
  then have "card (dom (log_map (concat gs))) < 2 ^ 64"
    using order_le_less_trans [OF _ unat_lt_u64] by simp
  then show ?thesis using assms(2) by (simp add: index_for_def unat_of_nat_u64)
qed

text \<open>New entries lie behind the old end of the data.\<close>

lemma new_end:
  assumes ok: "reader_ok lib log" "reader_ok lib log'" and gr: "log_grows lib log log' rg" and ne: "concat (map fst rg) \<noteq> []"
  shows "lh_data_end (lr_header log) \<noteq> lh_data_end (lr_header log')"
proof -
  obtain x r where rg: "rg = x # r" using ne by (cases rg) auto
  have lay: "group_layout log' x" using gr rg by (simp add: log_grows_def)
  obtain ext where ext: "length (lr_data log') = length (lr_data log) + length ext"
    "case sparkey_compressors lib (rtype log) of
       Some c \<Rightarrow> ext = blocks_bytes c (rsize log) (concat (map snd rg))
     | None \<Rightarrow> ext = encode_entries (concat (map fst rg))"
    using gr unfolding log_grows_def by (auto split: option.splits)
  have "ext \<noteq> []"
  proof (cases "sparkey_compressors lib (rtype log)")
    case None
    then show ?thesis
      using ext(2) ne by (cases "concat (map fst rg)") (simp_all add: encode_entry_def entry_head_def)
  next
    case (Some c)
    obtain b bt where "snd x = b # bt" using lay by (cases "snd x") (auto simp: group_layout_def split: prod.splits)
    then show ?thesis using ext(2) Some rg by (simp add: block_frame_def)
  qed
  moreover have "unat (lh_data_end (lr_header log)) = length (lr_data log)" "unat (lh_data_end (lr_header log')) = length (lr_data log')"
    using ok by (simp_all add: reader_ok_def unat_of_nat_u64)
  ultimately show ?thesis using ext(1) by auto
qed

lemma hash_write_grow:
  assumes f: "indexable_file lib lh gs c" and ok: "reader_ok lib log"
    and log: "lr_header log = lh\<lparr>lh_header_size := LOG_HEADER_SIZE\<rparr>" "lr_data log = logheader_bytes lh @ log_data lib lh gs"
    and old: "index_for lib lh (concat gs) log hh told M" "hh_hash_size hh = (if hash_size = 0 then 4 else hash_size)"
    and f': "indexable_file lib lh' (gs @ gs') c'" and hd: "header_grows lh lh'" and ne: "concat gs' \<noteq> []"
    and os: "os_indexes os hf lf c'" "os_open_read os hf = Inr (hashheader_bytes hh @ told)" "os_reads os = []"
    and sz: "sure_hash_size hash_size (unat (lh_num_puts lh'))"
    and log': "\<And>junk. sparkey_logreader_open_noalloc os junk lf = Inr log'"
  obtains ws hh' t' M' h t1 h1 M1 iter iter1 ra_iter where
    "sparkey_hash_write lib junk junkr junki junki2 mem os hf lf hash_size
       = Some (SPARKEY_SUCCESS, with_index os hf (hashheader_bytes hh' @ t') ws)"
    "index_for lib lh' (concat (gs @ gs')) log' hh' t' M'"
    "old_index os hf (lh'\<lparr>lh_header_size := LOG_HEADER_SIZE\<rparr>) = Some (hh\<lparr>hh_header_size := HASH_HEADER_SIZE\<rparr>)"
    "fill_hash lib mem os (replicate (unat (slot_size h * hh_hash_capacity h)) 0) hf (hh\<lparr>hh_header_size := HASH_HEADER_SIZE\<rparr>) h
       = Some (SPARKEY_SUCCESS, os, t1, h1)"
    "index_rep lib log' h1 t1 M1" "indexes lib log' h1 (concat gs) (concat gs') M1"
    "hh_num_entries h1 = of_nat (card (dom (log_map (concat gs))))" "hh_hash_seed h1 = hh_hash_seed hh"
    "sparkey_logiter_seek lib iter log' (hh_data_end hh) = Some (SPARKEY_SUCCESS, iter1)" "before lib log' iter1 (concat gs')"
    "finish_index lib hf (lh'\<lparr>lh_header_size := LOG_HEADER_SIZE\<rparr>) log' (os, t1, h1, iter1, ra_iter)
       = Some (SPARKEY_SUCCESS, with_index os hf (hashheader_bytes hh' @ t') ws)"
proof -
  let ?lh = "lh'\<lparr>lh_header_size := LOG_HEADER_SIZE\<rparr>" let ?ho = "hh\<lparr>hh_header_size := HASH_HEADER_SIZE\<rparr>"
  let ?es = "concat gs" let ?es' = "concat gs'"
  have o: "hf \<noteq> lf" "os_open_read os lf = Inr c'" "os_calm os" "os_mallocs os = []" "os_mmap_ok os"
    "os_open_err os hf = None" "os_remove_err os hf = None"
    using os(1) by (simp_all add: os_indexes_def)
  have logf: "log_file lib lh' (gs @ gs') c'" and ld: "log_loadable lib lh' (gs @ gs') c'" and ix: "log_indexable ?lh"
    and eok: "\<forall>e \<in> set (concat (gs @ gs')). entry_ok e" and keys: "\<forall>e \<in> set ?es'. length (entry_key e) < 2 ^ 31"
    using f' by (auto simp: indexable_file_def log_indexable_def)
  obtain log2 where r: "sparkey_logreader_open_noalloc os undefined lf = Inr log2" "reader_ok lib log2"
    "lr_header log2 = ?lh" "lr_data log2 = logheader_bytes lh' @ log_data lib lh' (gs @ gs')"
    by (rule open_log_file [OF logf ld o(2,5)])
  have ok': "reader_ok lib log'" and lr: "lr_header log' = ?lh" "lr_data log' = logheader_bytes lh' @ log_data lib lh' (gs @ gs')"
    using r log' by auto
  obtain log3 where ld3: "sparkey_load_logheader os lf = Inr ?lh"
    "\<And>junk. \<exists>iter. sparkey_logiter_create junk os log' = (Inr iter, os) \<and> before lib log' iter (concat (gs @ gs'))"
    by (rule indexable_reader [OF f' o(2,5,4)]) (use log' in auto)
  obtain iter where it: "sparkey_logiter_create junki os log' = (Inr iter, os)" "before lib log' iter (concat (gs @ gs'))"
    using ld3(2) by auto
  obtain ra_iter where ra: "sparkey_logiter_create junki2 os log' = (Inr ra_iter, os)" "before lib log' ra_iter (concat (gs @ gs'))"
    using ld3(2) by auto
  obtain cur rest where it_at: "iter_at lib log' iter cur rest" using before_iter_at [OF it(2)] by blast
  obtain cur2 rest2 where ra_at: "iter_at lib log' ra_iter cur2 rest2" using before_iter_at [OF ra(2)] by blast
  let ?rg = "read_groups lib lh' gs'"
  note gr = log_file_grows [OF logf eok hd log lr]
  have rg: "?rg \<noteq> []" using gr(2) ne by auto
  text \<open>The old index.\<close>
  have rep: "index_rep lib log hh told M" and ixs: "indexes lib log hh ?es [] M"
    and ho: "hh_major_version hh = HASH_MAJOR_VERSION" "hh_minor_version hh = HASH_MINOR_VERSION"
      "hh_file_identifier hh = lh_file_identifier lh" "hh_data_end hh = lh_data_end lh" "hh_num_puts hh = lh_num_puts lh"
    using old(1) by (simp_all add: index_for_def)
  have so: "same_index hh ?ho" by (simp add: same_index_def)
  have rep': "index_rep lib log ?ho told M" and ixs': "indexes lib log ?ho ?es [] M"
    using rep ixs same_index_simps(1) [OF so] same_index_stored(2) [OF so] by simp_all
  have ado: "addresses_ok ?ho log" and shape: "index_shape ?ho" using rep' by (auto simp: index_rep_def table_ok_def)
  have load: "sparkey_load_hashheader os hf = Inr ?ho"
    by (rule load_hashheader_bytes [of _ _ _ told]) (use os(2) index_for_consistent [OF f old(1)] in \<open>simp_all add: hashheader_bytes_size\<close>)
  have oldix: "old_index os hf ?lh = Some ?ho"
    using load ho(1-3) hd by (simp add: old_index_def header_grows_def)
  have end_ne: "hh_data_end ?ho \<noteq> lh_data_end (lr_header log')"
    using new_end [OF ok ok' gr(1)] gr(2) ne log(1) ho(4) by simp
  text \<open>The new header.\<close>
  let ?n = "lh_num_puts ?lh - hh_num_puts ?ho + hh_num_entries ?ho"
  have puts: "unat (lh_num_puts lh') = length (filter is_put ?es) + length (filter is_put ?es')"
    "unat (hh_num_puts hh) = length (filter is_put ?es)"
    using log_file_puts [OF f'] log_file_puts [OF f] ho(5) by simp_all
  have ents: "unat (hh_num_entries hh) = card (dom (log_map ?es))" by (rule index_for_entries [OF f old(1)])
  have diff: "unat (lh_num_puts lh' - hh_num_puts hh) = length (filter is_put ?es')"
    using puts by (simp add: unat_sub_u64)
  have n: "unat ?n = length (filter is_put ?es') + card (dom (log_map ?es))"
    using diff ents card_log_map [of ?es] puts(1) unsigned_less [where ?'a = nat and w = "lh_num_puts lh'"]
    by (simp add: unat_add_u64)
  have n53: "unat ?n < 2 ^ 53" and n_puts: "unat ?n \<le> unat (lh_num_puts lh')" and p53: "unat (lh_num_puts lh') < 2 ^ 53"
    using n puts(1) card_log_map [of ?es] ix by (simp_all add: log_indexable_def)
  obtain cap where cap: "hash_capacity_for ?n = Some cap" by (rule hash_capacity_bounds [OF n53])
  have hs: "hash_size = 0 \<or> hash_size = 4 \<or> hash_size = 8" using sz by (auto simp: sure_hash_size_def)
  obtain h where h: "index_header junk ?lh cap (hh_hash_seed ?ho) (hh_garbage_size ?ho) (hh_hash_size ?ho) hash_size = Inr h"
    "index_shape h" "addresses_ok h log'" "unat ?n \<le> capacity h" "hh_num_entries h = 0" "hh_num_puts h = lh_num_puts ?lh"
    "hh_max_key_len h = lh_max_key_len ?lh" "hh_max_value_len h = lh_max_value_len ?lh"
    by (rule index_header_ok [OF ix cap n53 hs, of log' LOG_HEADER_SIZE junk "hh_hash_seed ?ho" "hh_garbage_size ?ho" "hh_hash_size ?ho"])
      (use lr(1) in simp_all)
  have "hh_hash_size h = (if hash_size = 0 then 4 else hash_size)"
    by (rule sure_hash_size [OF sz cap n_puts p53 h(1)]) (use old(2) in simp)
  then have same: "same_hash ?ho h"
    using index_header_fields(2,3) [OF h(1)] old(2) shape by (simp add: same_hash_def index_shape_def)
  have domM: "dom M = dom (log_map ?es)" using ixs by (simp add: indexes_def)
  text \<open>Copying, and indexing the rest.\<close>
  obtain t1 h1 where fh: "fill_hash lib mem os (replicate (unat (slot_size h * hh_hash_capacity h)) 0) hf ?ho h = Some (SPARKEY_SUCCESS, os, t1, h1)"
    and s1: "same_index h h1" and n1: "hh_num_entries h1 = hh_num_entries h + of_nat (card (dom M))"
    and rep1: "index_rep lib log' h t1 (moved_map ?ho h M)"
    by (rule fill_hash_rep [OF ok ok' gr(1) rep' h(2,3) same _ os(3) o(4) os(2)])
      (use h(4) n domM in \<open>simp_all add: HASH_HEADER_SIZE_def\<close>)
  have ix1: "indexes lib log' h ?es ?es' (moved_map ?ho h M)"
    using moved_indexes [OF ok ok' gr(1) ado h(3) ixs'] gr(2) by simp
  obtain iter1 where sk: "sparkey_logiter_seek lib iter log' (hh_data_end ?ho) = Some (SPARKEY_SUCCESS, iter1)"
    "before lib log' iter1 ?es'"
    using seek_old_end [OF ok ok' gr(1) rg gr(3) it_at] gr(2) log(1) ho(4) by auto
  note same1 = same_index_simps [OF s1] same_index_stored [OF s1]
  have "\<exists>t2 h2 its2 M2. index_loop lib log' (os, t1, h1, iter1, ra_iter) = Some (SPARKEY_SUCCESS, os, t2, h2, its2)
    \<and> same_index h1 h2 \<and> index_rep lib log' h1 t2 M2 \<and> indexes lib log' h1 (?es @ ?es') [] M2
    \<and> hh_num_entries h2 = of_nat (card (dom (log_map (?es @ ?es'))))"
    by (rule index_loop_all [OF ok' o(4) _ _ sk(2) ra_at keys, where M = "moved_map ?ho h M"])
      (use rep1 ix1 n1 h(4,5) n domM in \<open>simp_all add: same1\<close>)
  then obtain t2 h2 its2 M2 where lp: "index_loop lib log' (os, t1, h1, iter1, ra_iter) = Some (SPARKEY_SUCCESS, os, t2, h2, its2)"
    and r2: "same_index h1 h2" "index_rep lib log' h1 t2 M2" "indexes lib log' h1 (?es @ ?es') [] M2"
      "hh_num_entries h2 = of_nat (card (dom (log_map (?es @ ?es'))))"
    by auto
  obtain ws hh' where fin: "finish_index lib hf ?lh log' (os, t1, h1, iter1, ra_iter)
      = Some (SPARKEY_SUCCESS, with_index os hf (hashheader_bytes hh' @ t2) ws)"
    "index_for lib ?lh (?es @ ?es') log' hh' t2 M2"
    by (rule finish_index_ok [OF lp r2 o(3,6,7), of ?lh]) (use h(6-8) s1 in \<open>simp_all add: same_index_def\<close>)
  have bld: "build_index lib mem os hf ?lh log' (iter, ra_iter) (Some ?ho) h
      = Some (SPARKEY_SUCCESS, with_index os hf (hashheader_bytes hh' @ t2) ws)"
    unfolding build_index_def using o(4) fh sk(1) fin(1) end_ne same by (simp add: os_malloc_def Let_def same_hash_def)
  have opn: "sparkey_logreader_open junkr os lf = (Inr log', os)"
    using log' o(4) by (simp add: sparkey_logreader_open_def correct_endian_platform_def malloc_or_fail_def os_malloc_def)
  have run: "sparkey_hash_write lib junk junkr junki junki2 mem os hf lf hash_size
       = Some (SPARKEY_SUCCESS, with_index os hf (hashheader_bytes hh' @ t2) ws)"
    unfolding sparkey_hash_write_def ld3(1) sum.case opn prod.case it(1) ra(1) Let_def oldix option.case cap
      Option.bind.simps h(1) by (rule bld)
  have "index_for lib lh' (concat (gs @ gs')) log' hh' t2 M2" using fin(2) by (simp add: index_for_def)
  moreover have "hh_hash_seed h1 = hh_hash_seed hh"
    using same1(10) index_header_fields(2) [OF h(1)] by simp
  moreover have "hh_num_entries h1 = of_nat (card (dom (log_map ?es)))" using n1 h(5) domM by simp
  ultimately show thesis
    using that [OF run _ oldix fh _ _ _ _ _ sk(2) fin(1)] sk(1) rep1 ix1 by (simp add: same1)
qed

end
