(* ===== verification/IndexUpdate.thy ===== *)
theory IndexUpdate
  imports IndexGrow IndexLoops
begin

text \<open>
  Two runs of \<open>sparkey_hash_write\<close>: after the log has grown the second run extends the index of the first
  one; on a log that has not grown it does nothing; and with another hash size it may have no result.
\<close>

section \<open>Readers of a log file\<close>

lemma indexable_reader_data:
  assumes f: "indexable_file lib lh gs c" and os: "os_open_read os lf = Inr c" "os_mmap_ok os" "os_mallocs os = []"
  obtains log where "\<And>junk. sparkey_logreader_open_noalloc os junk lf = Inr log" "reader_ok lib log"
    "lr_header log = lh\<lparr>lh_header_size := LOG_HEADER_SIZE\<rparr>" "lr_data log = logheader_bytes lh @ log_data lib lh gs"
proof -
  have logf: "log_file lib lh gs c" and ld: "log_loadable lib lh gs c" using f by (simp_all add: indexable_file_def)
  obtain log where log: "sparkey_logreader_open_noalloc os undefined lf = Inr log" "reader_ok lib log"
    "lr_header log = lh\<lparr>lh_header_size := LOG_HEADER_SIZE\<rparr>" "lr_data log = logheader_bytes lh @ log_data lib lh gs"
    by (rule open_log_file [OF logf ld os(1,2)])
  have "sparkey_logreader_open_noalloc os junk lf = Inr log" for junk
    using log(1) logreader_open_same [of os lf os junk undefined] by simp
  then show thesis using that log by blast
qed

lemma sure_hash_size_mono: "sure_hash_size hash_size m \<Longrightarrow> k \<le> m \<Longrightarrow> sure_hash_size hash_size k"
  by (auto simp: sure_hash_size_def)

lemma sure_hash_size_valid: "sure_hash_size hash_size m \<Longrightarrow> hash_size = 0 \<or> hash_size = 4 \<or> hash_size = 8"
  by (auto simp: sure_hash_size_def)

section \<open>Small logs for the witnesses\<close>

text \<open>The operating system with a log file and an index file.\<close>

definition plain_index_os :: "log_entry list \<Rightarrow> bytes \<Rightarrow> os" where
  "plain_index_os es ci = fresh_os\<lparr>os_names := [''a.spl'' \<mapsto> 0, ''a.spi'' \<mapsto> 1], os_store := [plain_file es, ci]\<rparr>"

lemma plain_index_os:
  "os_indexes (plain_index_os es ci) ''a.spi'' ''a.spl'' (plain_file es)"
  "os_open_read (plain_index_os es ci) ''a.spi'' = Inr ci" "os_reads (plain_index_os es ci) = []"
  by (simp_all add: os_indexes_def plain_index_os_def fresh_os_def os_open_read_def os_content_def os_calm_def)

lemma plain_grows: "header_grows (plain_header es) (plain_header es')"
  by (simp add: header_grows_def plain_header_def)

definition demo_log2 :: "log_entry list" where
  "demo_log2 = [PutEntry [5] [6], DeleteEntry [1]]"

lemma demo_indexable2: "indexable_file store_lib (plain_header (demo_log @ demo_log2)) ([demo_log] @ [demo_log2]) (plain_file (demo_log @ demo_log2))"
proof -
  have "length (encode_entries (demo_log @ demo_log2)) = 17" by code_simp
  then show ?thesis
    by (intro plain_indexable) (simp_all, simp_all add: demo_log_def demo_log2_def entry_ok_small entry_body_def)
qed

section \<open>Indexing everything again\<close>

text \<open>
  With more live keys than slots the loop over the entries never ends. The first key without a slot is the
  one that puts the number of live keys above the capacity.
\<close>

lemma index_entry_stuck:
  assumes ok: "reader_ok lib log" and r: "index_rep lib log h t M" and os: "os_mallocs os = []"
    and a: "active lib log iter e es (entry_key e) (entry_value e)"
    and bd: "body_at lib log iter idx e es (entry_body e)" "it_entry_count iter = of_nat idx"
      "rtype log = SPARKEY_COMPRESSION_NONE \<Longrightarrow> idx = 0" "it_entry_block_position iter = it_block_position iter"
    and ra: "iter_at lib log ra_iter cur rest" and len: "length (entry_key e) < 2 ^ 31"
    and new: "is_put e" "M (entry_key e) = None" "capacity h \<le> card (dom M)"
  shows "index_entry lib log (os, t, h, iter, ra_iter) = None"
proof -
  let ?p = "push_bit (block_bits h) (it_entry_block_position iter) OR scast (it_entry_count iter) :: u64"
  have shape: "index_shape h" and ad: "addresses_ok h log" using r by (auto simp: index_rep_def table_ok_def)
  obtain k where k: "key_hash h (entry_key e) = Some k" by (rule key_hash_total [OF shape len])
  have st: "stored lib log h e es ?p" by (rule body_stored [OF ok ad bd(1-3)])
  obtain iter1 where hash: "sparkey_iter_hash lib h os iter log = Some (k, os, iter1)"
    and a1: "active lib log iter1 e es [] (entry_value e)"
    by (rule iter_hash_active [OF ok a len os k])
  have ty: "it_type iter1 = SPARKEY_ENTRY_PUT" using a1 new(1) by (simp add: active_def)
  have its: "iters_on lib log e es (iter1, ra_iter)" using a1 ra unfolding iters_on_def by auto
  have ix: "indexed lib log h (entry_key e) ?p"
    using stored_indexed [OF ok ad shape _ len] st new(1) by (cases e) auto
  have "hash_put lib (k mod hh_hash_capacity h) k t h (Some ((iter1, ra_iter), log)) ?p = None"
    using hash_put_stuck [OF ok r new(2) k ix its] new(3) by (metis not_le option.exhaust)
  then show ?thesis using hash ty bd(4) by (simp add: index_entry_def Let_def)
qed

lemma index_rep_card:
  assumes "index_rep lib log h t M"
  shows "card (dom M) \<le> capacity h"
proof -
  have "size (items (slots h t)) \<le> length (slots h t)"
    unfolding size_items by (rule order_trans [OF card_mono [of "{..<length (slots h t)}"]]) auto
  then show ?thesis using index_rep_size [OF assms] by simp
qed

lemma index_loop_stuck:
  assumes ok: "reader_ok lib log" and os: "os_mallocs os = []"
    and "index_rep lib log h t M" "indexes lib log h ds es M" "before lib log iter es" "iter_at lib log ra_iter cur rest"
    and "\<forall>e \<in> set es. length (entry_key e) < 2 ^ 31" "es = p @ q" "capacity h < card (dom (log_map (ds @ p)))"
  shows "index_loop lib log (os, t, h, iter, ra_iter) = None"
  using assms(3-)
proof (induction es arbitrary: t h M ds iter ra_iter cur rest p)
  case Nil
  have "card (dom M) \<le> capacity h" by (rule index_rep_card [OF Nil.prems(1)])
  then show ?case using Nil.prems(2,6,7) by (simp add: indexes_def)
next
  case (Cons e es)
  note size = index_rep_card [OF Cons.prems(1)]
  have dM: "dom M = dom (log_map ds)" using Cons.prems(2) by (simp add: indexes_def)
  then obtain p' where p: "p = e # p'" "es = p' @ q"
    using Cons.prems(6,7) size by (cases p) auto
  obtain iter1 idx where n: "sparkey_logiter_next lib iter log = Some (SPARKEY_SUCCESS, iter1)"
    and a: "active lib log iter1 e es (entry_key e) (entry_value e)"
    and bd: "body_at lib log iter1 idx e es (entry_body e)" "it_entry_count iter1 = of_nat idx"
      "rtype log = SPARKEY_COMPRESSION_NONE \<longrightarrow> idx = 0" "it_entry_block_position iter1 = it_block_position iter1"
    by (rule logiter_next_entry [OF ok Cons.prems(3)]) blast
  show ?case
  proof (cases "is_put e \<and> M (entry_key e) = None \<and> capacity h \<le> card (dom M)")
    case True
    then have "index_entry lib log (os, t, h, iter1, ra_iter) = None"
      using bd(3) Cons.prems(5) by (intro index_entry_stuck [OF ok Cons.prems(1) os a bd(1,2) _ bd(4) Cons.prems(4)]) auto
    then show ?thesis using n active_state [OF a] by (subst index_loop.simps) simp
  next
    case False
    obtain t1 h1 M1 iter2 ra1 cur1 rest1 where st:
      "index_loop lib log (os, t, h, iter, ra_iter) = index_loop lib log (os, t1, h1, iter2, ra1)"
      "same_index h h1" "index_rep lib log h1 t1 M1" "indexes lib log h1 (ds @ [e]) es M1"
      "before lib log iter2 es" "iter_at lib log ra1 cur1 rest1"
      by (rule index_loop_step [OF ok os Cons.prems(1-4)]) (use Cons.prems(5) False in auto)
    have "capacity h1 < card (dom (log_map ((ds @ [e]) @ p')))"
      using Cons.prems(7) p(1) same_index_simps(2) [OF st(2)] by simp
    from Cons.IH [OF st(3-6) _ p(2) this] Cons.prems(5) st(1) show ?thesis by simp
  qed
qed

text \<open>
  A run that goes on from an old index: \<open>fill_hash\<close> copies the table of the old index, without an error, into a
  zeroed one; the copy keeps the hash seed and represents exactly the live keys of the old entries, each with the
  address of its last put; the iterator is moved to the old end of the data, with only the new entries before
  it; and what \<open>finish_index\<close> makes of these is what the run returns.
\<close>

definition index_resumed ::
  "codec_lib \<Rightarrow> string \<Rightarrow> sparkey_logheader \<Rightarrow> log_entry list list \<Rightarrow> log_entry list list \<Rightarrow> sparkey_hashheader \<Rightarrow> bytes \<Rightarrow> os
     \<Rightarrow> os result \<Rightarrow> bool" where
  "index_resumed lib hf lh gs gs' oh mem os run \<longleftrightarrow>
     (\<exists>log h t1 h1 M1 iter iter1 ra_iter.
        fill_hash lib mem os (replicate (unat (slot_size h * hh_hash_capacity h)) 0) hf oh h = Some (SPARKEY_SUCCESS, os, t1, h1)
      \<and> hh_hash_seed h1 = hh_hash_seed oh \<and> hh_num_entries h1 = of_nat (card (dom (log_map (concat gs))))
      \<and> index_rep lib log h1 t1 M1 \<and> indexes lib log h1 (concat gs) (concat gs') M1
      \<and> sparkey_logiter_seek lib iter log (hh_data_end oh) = Some (SPARKEY_SUCCESS, iter1) \<and> before lib log iter1 (concat gs')
      \<and> run = finish_index lib hf (lh\<lparr>lh_header_size := LOG_HEADER_SIZE\<rparr>) log (os, t1, h1, iter1, ra_iter))"

text \<open>Indexing, growing, indexing again and looking up.\<close>

lemma update_session:
  assumes "indexable_file lib lh gs c" "os_indexes os hf lf c" "old_index os hf (lh\<lparr>lh_header_size := LOG_HEADER_SIZE\<rparr>) = None"
    and "sparkey_hash_write lib junk junkr junki junki2 mem os hf lf hash_size = Some (rc, os1)"
    and "indexable_file lib lh' (gs @ gs') c'" "header_grows lh lh'" "concat gs' \<noteq> []"
    and "sure_hash_size hash_size (unat (lh_num_puts lh'))"
    and "os_indexes os2 hf lf c'" "os_open_read os2 hf = os_open_read os1 hf" "os_reads os2 = []"
    and keys: "\<forall>key \<in> set keys. length key < 2 ^ 31"
  shows "rc = SPARKEY_SUCCESS
    \<and> (\<exists>oh. old_index os2 hf (lh'\<lparr>lh_header_size := LOG_HEADER_SIZE\<rparr>) = Some oh
      \<and> index_resumed lib hf lh' gs gs' oh mem' os2
          (sparkey_hash_write lib junk' junkr' junki' junki2' mem' os2 hf lf hash_size))
    \<and> (\<exists>os3 reader iter iter'.
      sparkey_hash_write lib junk' junkr' junki' junki2' mem' os2 hf lf hash_size = Some (SPARKEY_SUCCESS, os3)
    \<and> sparkey_hash_open junkh os3 hf lf = (Inr reader, os3)
    \<and> sparkey_logiter_create junki3 os3 (sparkey_hash_getreader reader) = (Inr iter, os3)
    \<and> hash_lookups lib reader keys iter = Some (SPARKEY_SUCCESS, map (log_map (concat (gs @ gs'))) keys, iter')
    \<and> sparkey_hash_numentries reader = of_nat (card (dom (log_map (concat (gs @ gs'))))))"
proof -
  have puts: "unat (lh_num_puts lh) \<le> unat (lh_num_puts lh')"
    using log_file_puts [OF assms(1)] log_file_puts [OF assms(5)] by simp
  note hs = sure_hash_size_mono [OF assms(8) puts]
  have o: "os_open_read os lf = Inr c" "os_mmap_ok os" "os_mallocs os = []" "os_open_err os hf = None"
    using assms(2) by (simp_all add: os_indexes_def)
  have o2: "os_open_read os2 lf = Inr c'" "os_mmap_ok os2" "os_mallocs os2 = []"
    using assms(9) by (simp_all add: os_indexes_def)
  obtain log where log: "\<And>junk. sparkey_logreader_open_noalloc os junk lf = Inr log" "reader_ok lib log"
    "lr_header log = lh\<lparr>lh_header_size := LOG_HEADER_SIZE\<rparr>" "lr_data log = logheader_bytes lh @ log_data lib lh gs"
    by (rule indexable_reader_data [OF assms(1) o(1-3)]) blast
  obtain log' where log': "\<And>junk. sparkey_logreader_open_noalloc os2 junk lf = Inr log'"
    by (rule indexable_reader_data [OF assms(5) o2]) blast
  obtain ws hh t M where w: "sparkey_hash_write lib junk junkr junki junki2 mem os hf lf hash_size
       = Some (SPARKEY_SUCCESS, with_index os hf (hashheader_bytes hh @ t) ws)" "list_all write_retryable ws"
    "index_for lib lh (concat gs) log hh t M"
    "sure_hash_size hash_size (unat (lh_num_puts lh)) \<longrightarrow> hh_hash_size hh = (if hash_size = 0 then 4 else hash_size)"
    by (rule hash_write_new [OF assms(1,2) sure_hash_size_valid [OF hs] assms(3) log(1)])
  have rc: "rc = SPARKEY_SUCCESS" "os_open_read os2 hf = Inr (hashheader_bytes hh @ t)"
    using w(1) assms(4,10) with_index_read(1) [OF o(4)] by simp_all
  obtain ws' hh' t' M' h t1 h1 M1 it0 it1 ra where w': "sparkey_hash_write lib junk' junkr' junki' junki2' mem' os2 hf lf hash_size
       = Some (SPARKEY_SUCCESS, with_index os2 hf (hashheader_bytes hh' @ t') ws')"
    "index_for lib lh' (concat (gs @ gs')) log' hh' t' M'"
    and steps: "old_index os2 hf (lh'\<lparr>lh_header_size := LOG_HEADER_SIZE\<rparr>) = Some (hh\<lparr>hh_header_size := HASH_HEADER_SIZE\<rparr>)"
    "fill_hash lib mem' os2 (replicate (unat (slot_size h * hh_hash_capacity h)) 0) hf (hh\<lparr>hh_header_size := HASH_HEADER_SIZE\<rparr>) h
       = Some (SPARKEY_SUCCESS, os2, t1, h1)"
    "index_rep lib log' h1 t1 M1" "indexes lib log' h1 (concat gs) (concat gs') M1"
    "hh_num_entries h1 = of_nat (card (dom (log_map (concat gs))))" "hh_hash_seed h1 = hh_hash_seed hh"
    "sparkey_logiter_seek lib it0 log' (hh_data_end hh) = Some (SPARKEY_SUCCESS, it1)" "before lib log' it1 (concat gs')"
    "finish_index lib hf (lh'\<lparr>lh_header_size := LOG_HEADER_SIZE\<rparr>) log' (os2, t1, h1, it1, ra)
       = Some (SPARKEY_SUCCESS, with_index os2 hf (hashheader_bytes hh' @ t') ws')"
    by (rule hash_write_grow [OF assms(1) log(2-4) w(3) w(4) [THEN mp, OF hs] assms(5-7,9) rc(2) assms(11,8) log',
        of junk' junkr' junki' junki2' mem']) blast
  have "index_resumed lib hf lh' gs gs' (hh\<lparr>hh_header_size := HASH_HEADER_SIZE\<rparr>) mem' os2
      (sparkey_hash_write lib junk' junkr' junki' junki2' mem' os2 hf lf hash_size)"
    unfolding index_resumed_def
    by (rule exI [of _ log'], rule exI [of _ h], rule exI [of _ t1], rule exI [of _ h1], rule exI [of _ M1],
      rule exI [of _ it0], rule exI [of _ it1], rule exI [of _ ra]) (use steps w'(1) in simp)
  note resumed = steps(1) this
  let ?os = "with_index os2 hf (hashheader_bytes hh' @ t') ws'"
  obtain reader iter where s: "sparkey_hash_open junkh ?os hf lf = (Inr reader, ?os)"
    "sparkey_logiter_create junki3 ?os (sparkey_hash_getreader reader) = (Inr iter, ?os)"
    "reads_index lib reader M'" "indexes lib (hr_log reader) (hr_header reader) (concat (gs @ gs')) [] M'"
    "before lib (hr_log reader) iter (concat (gs @ gs'))"
    "sparkey_hash_numentries reader = of_nat (card (dom (log_map (concat (gs @ gs')))))"
    by (rule written_index_session [OF assms(5,9) log' w'(2)])
  obtain cur rest where it: "iter_at lib (hr_log reader) iter cur rest" using before_iter_at [OF s(5)] by blast
  show ?thesis using rc(1) resumed w'(1) s hash_lookups_map [OF s(3,4) it keys] by blast
qed

section \<open>Properties\<close>



text \<open>What a second run on the same log starts with: the open log with its iterators, and the old index.\<close>

lemma index_run_again:
  assumes "indexable_file lib lh gs c" "os_indexes os hf lf c" "old_index os hf (lh\<lparr>lh_header_size := LOG_HEADER_SIZE\<rparr>) = None"
    and "hash_size = 0 \<or> hash_size = 4 \<or> hash_size = 8"
    and "sparkey_hash_write lib junk junkr junki junki2 mem os hf lf hash_size = Some (rc, os1)"
  obtains log hh t M iter ra where "reader_ok lib log" "lr_header log = lh\<lparr>lh_header_size := LOG_HEADER_SIZE\<rparr>"
    "index_for lib lh (concat gs) log hh t M"
    "sure_hash_size hash_size (unat (lh_num_puts lh)) \<longrightarrow> hh_hash_size hh = (if hash_size = 0 then 4 else hash_size)"
    "os_mallocs os1 = []" "sparkey_load_logheader os1 lf = Inr (lh\<lparr>lh_header_size := LOG_HEADER_SIZE\<rparr>)"
    "sparkey_logreader_open junkr' os1 lf = (Inr log, os1)"
    "sparkey_logiter_create junki' os1 log = (Inr iter, os1)" "before lib log iter (concat gs)"
    "sparkey_logiter_create junki2' os1 log = (Inr ra, os1)" "before lib log ra (concat gs)"
    "old_index os1 hf (lh\<lparr>lh_header_size := LOG_HEADER_SIZE\<rparr>) = Some (hh\<lparr>hh_header_size := HASH_HEADER_SIZE\<rparr>)"
    "rc = SPARKEY_SUCCESS"
proof -
  let ?lh = "lh\<lparr>lh_header_size := LOG_HEADER_SIZE\<rparr>" let ?ho = "\<lambda>hh. hh\<lparr>hh_header_size := HASH_HEADER_SIZE\<rparr>"
  have o: "hf \<noteq> lf" "os_open_read os lf = Inr c" "os_mmap_ok os" "os_mallocs os = []" "os_open_err os hf = None"
    "\<forall>i. os_names os lf = Some i \<longrightarrow> i < length (os_store os)"
    using assms(2) by (simp_all add: os_indexes_def)
  obtain log where log: "\<And>junk. sparkey_logreader_open_noalloc os junk lf = Inr log" "reader_ok lib log" "lr_header log = ?lh"
    by (rule indexable_reader_data [OF assms(1) o(2-4)]) blast
  obtain ws hh t M where w: "sparkey_hash_write lib junk junkr junki junki2 mem os hf lf hash_size
       = Some (SPARKEY_SUCCESS, with_index os hf (hashheader_bytes hh @ t) ws)" "list_all write_retryable ws"
    "index_for lib lh (concat gs) log hh t M"
    "sure_hash_size hash_size (unat (lh_num_puts lh)) \<longrightarrow> hh_hash_size hh = (if hash_size = 0 then 4 else hash_size)"
    by (rule hash_write_new [OF assms(1,2,4,3) log(1)])
  have os1: "os1 = with_index os hf (hashheader_bytes hh @ t) ws" "rc = SPARKEY_SUCCESS" using w(1) assms(5) by simp_all
  have other: "os_open_read os1 lf = Inr c" "os_names os1 lf = os_names os lf" "os_content os1 lf = os_content os lf"
    "os_mallocs os1 = []" "os_mmap_ok os1" "os_open_read os1 hf = Inr (hashheader_bytes hh @ t)"
    using with_index_other [of lf hf os c] with_index_read(1) o by (auto simp: os1(1))
  obtain log' where log': "\<And>junk. sparkey_logreader_open_noalloc os1 junk lf = Inr log'"
    "sparkey_load_logheader os1 lf = Inr ?lh"
    "\<And>junk. \<exists>iter. sparkey_logiter_create junk os1 log' = (Inr iter, os1) \<and> before lib log' iter (concat gs)"
    by (rule indexable_reader [OF assms(1) other(1,5,4)]) blast
  have l: "log' = log"
    using log'(1) log(1) logreader_open_same [of os1 lf os undefined undefined] other o by simp
  obtain iter ra where it: "sparkey_logiter_create junki' os1 log = (Inr iter, os1)" "before lib log iter (concat gs)"
    "sparkey_logiter_create junki2' os1 log = (Inr ra, os1)" "before lib log ra (concat gs)"
    using log'(3) l by metis
  have "sparkey_load_hashheader os1 hf = Inr (?ho hh)"
    by (rule load_hashheader_bytes [of _ _ _ t]) (use other(6) index_for_consistent [OF assms(1) w(3)] in simp_all)
  then have old: "old_index os1 hf ?lh = Some (?ho hh)" using w(3) by (simp add: old_index_def index_for_def)
  have "sparkey_logreader_open junkr' os1 lf = (Inr log, os1)"
    using log'(1) l other(4) by (simp add: sparkey_logreader_open_def correct_endian_platform_def malloc_or_fail_def os_malloc_def)
  then show thesis by (rule that [OF log(2,3) w(3,4) other(4) log'(2) _ it old os1(2)])
qed

text \<open>
  C22: asking for another hash size. When a log is indexed with hash size \<open>size1\<close> and, unchanged, indexed again
  with the other size, \<open>sparkey_hash_write\<close> indexes the whole log anew, but the new table has only room for the live
  keys of the old index. If more keys than slots are live somewhere in the log, because keys were deleted later,
  the second run has no result: \<open>hash_put\<close> meets a full table, where its loop finds no free slot.
\<close>

theorem other_hash_size_hangs:
  assumes "indexable_file lib lh gs c" "os_indexes os hf lf c" "old_index os hf (lh\<lparr>lh_header_size := LOG_HEADER_SIZE\<rparr>) = None"
    and sz: "sure_hash_size size1 (unat (lh_num_puts lh))" "size2 = 4 \<or> size2 = 8" "size2 \<noteq> (if size1 = 0 then 4 else size1)"
    and w: "sparkey_hash_write lib junk junkr junki junki2 mem os hf lf size1 = Some (rc, os1)"
    and cap: "hash_capacity_for (of_nat (card (dom (log_map (concat gs))))) = Some cap"
    and "concat gs = p @ q" "unat cap < card (dom (log_map p))"
  shows "rc = SPARKEY_SUCCESS \<and> sparkey_hash_write lib junk' junkr' junki' junki2' mem' os1 hf lf size2 = None"
proof -
  let ?lh = "lh\<lparr>lh_header_size := LOG_HEADER_SIZE\<rparr>"
  have ix: "log_indexable ?lh" and keys: "\<forall>e \<in> set (concat gs). length (entry_key e) < 2 ^ 31"
    using assms(1) by (auto simp: indexable_file_def log_indexable_def)
  obtain log hh t M iter ra where r: "reader_ok lib log" "lr_header log = ?lh" "index_for lib lh (concat gs) log hh t M"
    "sure_hash_size size1 (unat (lh_num_puts lh)) \<longrightarrow> hh_hash_size hh = (if size1 = 0 then 4 else size1)"
    "os_mallocs os1 = []" "sparkey_load_logheader os1 lf = Inr ?lh" "sparkey_logreader_open junkr' os1 lf = (Inr log, os1)"
    "sparkey_logiter_create junki' os1 log = (Inr iter, os1)" "before lib log iter (concat gs)"
    "sparkey_logiter_create junki2' os1 log = (Inr ra, os1)" "before lib log ra (concat gs)"
    "old_index os1 hf ?lh = Some (hh\<lparr>hh_header_size := HASH_HEADER_SIZE\<rparr>)"
    and rc: "rc = SPARKEY_SUCCESS"
    by (rule index_run_again [OF assms(1-3) sure_hash_size_valid [OF sz(1)] w, of junkr' junki' junki2'])
  obtain cur rest where ra_at: "iter_at lib log ra cur rest" using before_iter_at [OF r(11)] by blast
  let ?ho = "hh\<lparr>hh_header_size := HASH_HEADER_SIZE\<rparr>"
  have hh: "hh_hash_size hh \<noteq> size2" using r(4) sz by auto
  have n: "lh_num_puts ?lh - hh_num_puts ?ho + hh_num_entries ?ho = of_nat (card (dom (log_map (concat gs))))"
    using r(3) by (simp add: index_for_def)
  have n53: "unat (of_nat (card (dom (log_map (concat gs)))) :: u64) < 2 ^ 53"
    using n index_for_entries [OF assms(1) r(3)] card_log_map [of "concat gs"] log_file_puts [OF assms(1)] ix r(3)
    by (simp add: log_indexable_def index_for_def)
  obtain h where h: "index_header junk' ?lh cap (hh_hash_seed ?ho) (hh_garbage_size ?ho) (hh_hash_size ?ho) size2 = Inr h"
    "index_shape h" "addresses_ok h log"
    by (rule index_header_ok [OF ix cap n53, of size2 log LOG_HEADER_SIZE junk' "hh_hash_seed ?ho" "hh_garbage_size ?ho" "hh_hash_size ?ho"])
      (use r(2) sz(2) in auto)
  have h8: "hh_hash_size h = size2" "hh_hash_capacity h = cap" using index_header_fields [OF h(1)] sz(2) by auto
  have "index_loop lib log (os1, replicate (unat (slot_size h * hh_hash_capacity h)) 0, h, iter, ra) = None"
    by (rule index_loop_stuck [OF r(1,5) index_rep_empty [OF h(2,3)] indexes_start r(9) ra_at keys assms(9)])
      (use assms(10) h8(2) in simp)
  then have "build_index lib mem' os1 hf ?lh log (iter, ra) (Some ?ho) h = None"
    using r(5) h8(1) hh by (simp add: build_index_def finish_index_def os_malloc_def Let_def)
  then show ?thesis
    using rc r(6,7,8,10,12) h(1) cap n by (simp add: sparkey_hash_write_def Let_def)
qed

theorem other_hash_size_hangs_witness:
  "\<exists>os1. sparkey_hash_write store_lib undefined undefined undefined undefined []
        (plain_os [PutEntry [1] [], PutEntry [2] [], DeleteEntry [1], DeleteEntry [2]]) ''a.spi'' ''a.spl'' 4
        = Some (SPARKEY_SUCCESS, os1)
    \<and> sparkey_hash_write store_lib undefined undefined undefined undefined [] os1 ''a.spi'' ''a.spl'' 8 = None"
proof -
  let ?es = "[PutEntry [1] [], PutEntry [2] [], DeleteEntry [1], DeleteEntry [2]]"
  have "length (encode_entries ?es) = 12" by code_simp
  then have f: "indexable_file store_lib (plain_header ?es) [?es] (plain_file ?es)"
    by (intro plain_indexable) (simp_all add: entry_ok_small entry_body_def)
  obtain os1 reader1 M1 iter1 where s:
    "sparkey_hash_write store_lib undefined undefined undefined undefined [] (plain_os ?es) ''a.spi'' ''a.spl'' 4 = Some (SPARKEY_SUCCESS, os1)"
    by (rule index_session [OF f plain_os_indexes plain_old, of 4]) simp_all
  have e: "log_map (concat [?es]) = Map.empty" "log_map [PutEntry [1] [], PutEntry [2] []] = [[1] \<mapsto> [], [2] \<mapsto> []]"
    by (auto simp: log_map_def apply_entry_def)
  have c: "hash_capacity_for (of_nat (card (dom (log_map (concat [?es]))))) = Some 1"
    unfolding e by (simp add: hash_capacity_for_def double_mult_def double_round_def double_floor_def round_half_even_def
        double_1_3_def excess_bits.simps)
  have d: "concat [?es] = [PutEntry [1] [], PutEntry [2] []] @ [DeleteEntry [1], DeleteEntry [2]]" by simp
  have "unat (1 :: u64) < card (dom (log_map [PutEntry [1] [], PutEntry [2] []]))" unfolding e(2) by simp
  moreover have "sure_hash_size 4 n" for n by (simp add: sure_hash_size_def)
  ultimately show ?thesis using other_hash_size_hangs [OF f plain_os_indexes plain_old _ _ _ s c d, of 8] s by auto
qed

end
