(* ===== verification/IndexAppend.thy ===== *)
theory IndexAppend
  imports IndexUpdate
begin

text \<open>
  The life of a store: a log is indexed, a writing session appends to it, and the index is brought up to date.
\<close>

section \<open>Appending next to an index\<close>

lemma log_file_size [simp]: "log_file lib (h\<lparr>lh_header_size := n\<rparr>) gs c = log_file lib h gs c"
  by (simp add: log_file_def log_data_def header_counts_def cong: option.case_cong)

text \<open>
  After \<open>sparkey_hash_write\<close> has indexed the log, a session appends entries to it: the index file is not touched, and
  the log has grown.
\<close>

lemma append_beside_index:
  assumes f: "indexable_file lib lh gs c" and os: "os_indexes os hf lf c"
    and i: "os_names os lf = Some i" and ready: "os_ready os lf"
    and plain: "\<not> sparkey_uses_compressor (lh_compression_type lh) \<longrightarrow> lh_compression_block_size lh = 0"
    and os1: "os1 = with_index os hf d ws" "list_all write_retryable ws"
    and es: "\<forall>e \<in> set es. entry_fits lh e"
  obtains os2 lh' gn c' where "write_session lib (sparkey_logwriter_append lib junk os1 lf) es = Some (SPARKEY_SUCCESS, os2, None)"
    "concat gn = es" "log_file lib lh' (gs @ gn) c'" "header_grows lh lh'" "os_indexes os2 hf lf c'"
    "os_open_read os2 hf = os_open_read os1 hf" "os_reads os2 = os_reads os" "header_versions lh' = header_versions lh"
    "\<not> sparkey_uses_compressor (lh_compression_type lh) \<longrightarrow> lh_max_entries_per_block lh' = lh_max_entries_per_block lh"
    "c' = logheader_bytes lh' @ log_data lib lh' (gs @ gn) @ drop (84 + length (log_data lib lh' (gs @ gn))) c"
proof -
  let ?h = "lh\<lparr>lh_header_size := LOG_HEADER_SIZE\<rparr>"
  have o: "hf \<noteq> lf" "os_open_read os lf = Inr c" "i < length (os_store os)" "os_mallocs os = []" "os_mmap_ok os"
    "os_open_err os hf = None" "os_remove_err os hf = None" "os_urandom os \<noteq> None" "os_open_err os lf = None"
    using os i ready by (auto simp: os_indexes_def os_ready_def)
  have c: "os_store os ! i = c" using o(2,9) i by (simp add: os_open_read_def os_content_def)
  have f1: "log_file lib lh gs c" "log_loadable lib lh gs c" using f by (simp_all add: indexable_file_def)
  have s1: "os_names os1 lf = Some i" "os_store os1 ! i = c" "i < length (os_store os1)" "os_open_err os1 = os_open_err os"
    "os_remove_err os1 = os_remove_err os" "os_urandom os1 = os_urandom os" "os_mmap_ok os1 = os_mmap_ok os"
    "os_mallocs os1 = []" "os_reads os1 = os_reads os" "os_names os1 hf = Some (length (os_store os))"
    using os1(1) i o c by (simp_all add: with_index_def nth_append)
  have read: "os_open_read os1 lf = Inr c" using s1 o by (simp add: os_open_read_def os_content_def)
  have load: "sparkey_load_logheader os1 lf = Inr ?h" by (rule log_file_load [OF f1 read])
  have len: "84 + length (log_data lib ?h gs) < 2 ^ 64"
    using log_file_end(2) [OF f1(1)] f1(2) by (simp add: log_loadable_def log_data_def cong: option.case_cong)
  have ready1: "os_ready os1 lf" using os_ready_with_index [OF ready os1(2)] os1(1) by simp
  obtain os2 lh' gn where ap: "write_session lib (sparkey_logwriter_append lib junk os1 lf) es = Some (SPARKEY_SUCCESS, os2, None)"
    "concat gn = es" "log_file lib lh' (gs @ gn) (os_store os2 ! i)" "os_frame i os1 os2"
    "lh_file_identifier lh' = lh_file_identifier ?h" "lh_compression_type lh' = lh_compression_type ?h"
    "lh_compression_block_size lh' = (if sparkey_uses_compressor (lh_compression_type ?h) then lh_compression_block_size ?h else 0)"
    "lh_max_entries_per_block ?h \<le> lh_max_entries_per_block lh'" "os_calm os2"
    "header_versions lh' = header_versions ?h"
    "\<not> sparkey_uses_compressor (lh_compression_type ?h) \<longrightarrow> lh_max_entries_per_block lh' = lh_max_entries_per_block ?h"
    "os_store os2 ! i = logheader_bytes lh' @ log_data lib lh' (gs @ gn)
       @ drop (84 + length (log_data lib lh' (gs @ gn))) (os_store os1 ! i)"
    by (rule append_session [OF _ load s1(1,3) ready1 len, where es = es and junk = junk])
      (use f1(1) s1(2) es in \<open>simp_all add: entry_fits_def\<close>)
  note fr = os_frame_other [OF ap(4)]
  have hg: "header_grows lh lh'" using ap(5-8) plain by (simp add: header_grows_def)
  have ix: "os_indexes os2 hf lf (os_store os2 ! i)"
    using fr s1 o ap(9) by (simp add: os_indexes_def os_open_read_def os_content_def)
  have "length (os_store os) \<noteq> i" using o(3) by simp
  then have "os_content os2 hf = os_content os1 hf" using fr(1,3) s1(10) by (simp add: os_content_def)
  then have same: "os_open_read os2 hf = os_open_read os1 hf"
    unfolding os_open_read_def fr(5) by (simp cong: option.case_cong)
  have "os_reads os2 = os_reads os" using ap(4) s1(9) by (auto simp: os_frame_def)
  then show thesis by (rule that [OF ap(1-3) hg ix same])
      (use ap(10-12) s1(2) in \<open>simp_all add: header_versions_def\<close>)
qed

text \<open>
  A log is indexed, a session reopens it, appends any entries and closes it, and the index is written again. The
  session succeeds, the new groups of entries follow the old ones in the file, and, provided the longer file still
  fits an index, the second run succeeds as well and its index answers every lookup by the last operation on the
  key in the old entries followed by the new ones.
\<close>

lemma append_update_session:
  assumes "indexable_file lib lh gs c" "os_indexes os hf lf c" "old_index os hf (lh\<lparr>lh_header_size := LOG_HEADER_SIZE\<rparr>) = None"
    and "os_names os lf = Some i" "os_ready os lf" "os_reads os = []"
    and "\<not> sparkey_uses_compressor (lh_compression_type lh) \<longrightarrow> lh_compression_block_size lh = 0"
    and hs: "hash_size = 0 \<or> hash_size = 4 \<or> hash_size = 8"
    and w: "sparkey_hash_write lib junk junkr junki junki2 mem os hf lf hash_size = Some (rc, os1)"
    and es: "es \<noteq> []" "\<forall>e \<in> set es. entry_fits lh e" and keys: "\<forall>key \<in> set keys. length key < 2 ^ 31"
  shows "rc = SPARKEY_SUCCESS \<and> (\<exists>os2 lh' gn c'.
      write_session lib (sparkey_logwriter_append lib junkw os1 lf) es = Some (SPARKEY_SUCCESS, os2, None)
    \<and> concat gn = es \<and> log_file lib lh' (gs @ gn) c' \<and> header_grows lh lh' \<and> header_versions lh'
    \<and> (\<not> sparkey_uses_compressor (lh_compression_type lh) \<longrightarrow> lh_max_entries_per_block lh' = lh_max_entries_per_block lh)
    \<and> c' = logheader_bytes lh' @ log_data lib lh' (gs @ gn) @ drop (84 + length (log_data lib lh' (gs @ gn))) c
    \<and> (indexable_file lib lh' (gs @ gn) c' \<and> sure_hash_size hash_size (unat (lh_num_puts lh')) \<longrightarrow>
        (\<exists>os3 reader iter iter'.
            sparkey_hash_write lib junk' junkr' junki' junki2' mem' os2 hf lf hash_size = Some (SPARKEY_SUCCESS, os3)
          \<and> sparkey_hash_open junkh os3 hf lf = (Inr reader, os3)
          \<and> sparkey_logiter_create junki3 os3 (sparkey_hash_getreader reader) = (Inr iter, os3)
          \<and> hash_lookups lib reader keys iter = Some (SPARKEY_SUCCESS, map (log_map (concat gs @ es)) keys, iter')
          \<and> sparkey_hash_numentries reader = of_nat (card (dom (log_map (concat gs @ es)))))))"
proof -
  have o: "os_open_read os lf = Inr c" "os_mmap_ok os" "os_mallocs os = []"
    using assms(2) by (simp_all add: os_indexes_def)
  obtain log where log: "\<And>junk. sparkey_logreader_open_noalloc os junk lf = Inr log"
    by (rule indexable_reader [OF assms(1) o]) blast
  obtain ws hh t M where w1: "sparkey_hash_write lib junk junkr junki junki2 mem os hf lf hash_size
       = Some (SPARKEY_SUCCESS, with_index os hf (hashheader_bytes hh @ t) ws)" "list_all write_retryable ws"
    by (rule hash_write_new [OF assms(1,2) hs assms(3) log])
  have rc: "rc = SPARKEY_SUCCESS" "os1 = with_index os hf (hashheader_bytes hh @ t) ws" using w w1(1) by simp_all
  obtain os2 lh' gn c' where ap: "write_session lib (sparkey_logwriter_append lib junkw os1 lf) es = Some (SPARKEY_SUCCESS, os2, None)"
    "concat gn = es" "log_file lib lh' (gs @ gn) c'" "header_grows lh lh'" "os_indexes os2 hf lf c'"
    "os_open_read os2 hf = os_open_read os1 hf" "os_reads os2 = os_reads os" "header_versions lh' = header_versions lh"
    "\<not> sparkey_uses_compressor (lh_compression_type lh) \<longrightarrow> lh_max_entries_per_block lh' = lh_max_entries_per_block lh"
    "c' = logheader_bytes lh' @ log_data lib lh' (gs @ gn) @ drop (84 + length (log_data lib lh' (gs @ gn))) c"
    by (rule append_beside_index [OF assms(1,2,4,5,7) rc(2) w1(2) es(2), where junk = junkw])
  have "header_versions lh'" using ap(8) assms(1) by (simp add: indexable_file_def log_loadable_def)
  moreover have "concat gn \<noteq> []" "os_reads os2 = []" using ap(2,7) es(1) assms(6) by simp_all
  note upd = update_session [OF assms(1-3) w _ ap(4) this(1) _ ap(5,6) this(2) keys, where junk' = junk' and junkr' = junkr'
      and junki' = junki' and junki2' = junki2' and mem' = mem' and junkh = junkh and ?junki3.0 = junki3, THEN conjunct2, THEN conjunct2]
  moreover have cat: "concat (gs @ gn) = concat gs @ es" using ap(2) by simp
  ultimately show ?thesis
    using rc(1) ap(1-4,9,10) upd [unfolded cat]
    by (intro conjI exI [of _ os2] exI [of _ lh'] exI [of _ gn] exI [of _ c']) (simp_all only: simp_thms, blast)
qed

text \<open>An uncompressed log that grew still fits an index when the entries are small enough.\<close>

lemma grown_plain_indexable:
  assumes "log_file lib h gs c" "header_versions h" and plain: "\<not> sparkey_uses_compressor (lh_compression_type h)"
    and max: "lh_max_entries_per_block h = 0" and len: "length c < 2 ^ 63" "length (encode_entries (concat gs)) < 2 ^ 52"
    and es: "\<forall>e \<in> set (concat gs). entry_ok e \<and> length (entry_key e) < 2 ^ 31"
  shows "indexable_file lib h gs c"
proof -
  have "sparkey_compressors lib (lh_compression_type h) = None" using plain uses_compressor_iff [of _ lib] by simp
  then have d: "log_data lib h gs = encode_entries (concat gs)" by (simp add: log_data_def)
  have "length (filter is_put (concat gs)) < 2 ^ 52" using count_entries_le [of is_put "concat gs"] len(2) by simp
  then have "log_indexable h"
    using log_file_end(1) [OF assms(1) len(1)] len(2) assms(1)
    by (simp add: log_indexable_def d max log_file_def header_counts_def unat_of_nat_u64)
  moreover have "log_loadable lib h gs c" by (rule log_loadable_entries [OF assms(1,2) len(1)]) (use plain in simp)
  ultimately show ?thesis using assms(1) es by (simp add: indexable_file_def)
qed

lemma appended_plain_indexable:
  assumes "log_file lib lh' (gs @ gn) c'" "concat gn = es" "header_grows lh lh'" "header_versions lh'"
    and "\<not> sparkey_uses_compressor (lh_compression_type lh)" "lh_max_entries_per_block lh' = 0"
    and c': "c' = logheader_bytes lh' @ log_data lib lh' (gs @ gn) @ drop (84 + length (log_data lib lh' (gs @ gn))) c"
    and old: "indexable_file lib lh gs c"
    and es: "\<forall>e \<in> set es. entry_ok e \<and> length (entry_key e) < 2 ^ 31"
    and len: "length (encode_entries (concat gs @ es)) < 2 ^ 52"
  shows "indexable_file lib lh' (gs @ gn) c'" "unat (lh_num_puts lh') = length (filter is_put (concat gs @ es))"
proof -
  have cat: "concat (gs @ gn) = concat gs @ es" using assms(2) by simp
  have plain': "\<not> sparkey_uses_compressor (lh_compression_type lh')" using assms(3,5) by (simp add: header_grows_def)
  then have "sparkey_compressors lib (lh_compression_type lh') = None" using uses_compressor_iff [of _ lib] by simp
  then have "log_data lib lh' (gs @ gn) = encode_entries (concat gs @ es)" using cat by (simp add: log_data_def)
  then have "length c' = 84 + length (encode_entries (concat gs @ es))
      + (length c - (84 + length (encode_entries (concat gs @ es))))" unfolding c' by simp
  moreover have "length c < 2 ^ 63" using old by (simp add: indexable_file_def log_loadable_def)
  ultimately have len': "length c' < 2 ^ 63"
    using len by (cases "84 + length (encode_entries (concat gs @ es)) \<le> length c") simp_all
  have "\<forall>e \<in> set (concat gs @ es). entry_ok e \<and> length (entry_key e) < 2 ^ 31"
    using es old by (auto simp: indexable_file_def)
  then show ix: "indexable_file lib lh' (gs @ gn) c'"
    by (rule grown_plain_indexable [OF assms(1,4) plain' assms(6) len', unfolded cat, OF len])
  show "unat (lh_num_puts lh') = length (filter is_put (concat gs @ es))"
    using log_file_puts [OF ix] by (simp only: cat)
qed

section \<open>Properties\<close>

text \<open>
  C4: the life of a store. An uncompressed log is indexed, a session reopens it, appends any entries and closes
  it, and the index is written again. Every call succeeds, whatever the hash size and the kernel's short writes, and
  the new index answers every lookup by the last operation on the key in the old entries followed by the new ones.
\<close>

theorem append_then_update:
  assumes "indexable_file lib lh gs c" "os_indexes os hf lf c" "old_index os hf (lh\<lparr>lh_header_size := LOG_HEADER_SIZE\<rparr>) = None"
    and "os_names os lf = Some i" "os_ready os lf" "os_reads os = []"
    and plain: "\<not> sparkey_uses_compressor (lh_compression_type lh)" "lh_compression_block_size lh = 0"
      "lh_max_entries_per_block lh = 0"
    and es: "es \<noteq> []" "\<forall>e \<in> set es. entry_ok e \<and> length (entry_key e) < 2 ^ 31"
    and len: "length (encode_entries (concat gs @ es)) < 2 ^ 52"
    and hs: "sure_hash_size hash_size (length (filter is_put (concat gs @ es)))"
    and keys: "\<forall>key \<in> set keys. length key < 2 ^ 31"
  shows "\<exists>os1 os2 os3 reader iter iter'.
      sparkey_hash_write lib junk junkr junki junki2 mem os hf lf hash_size = Some (SPARKEY_SUCCESS, os1)
    \<and> write_session lib (sparkey_logwriter_append lib junkw os1 lf) es = Some (SPARKEY_SUCCESS, os2, None)
    \<and> sparkey_hash_write lib junk' junkr' junki' junki2' mem' os2 hf lf hash_size = Some (SPARKEY_SUCCESS, os3)
    \<and> sparkey_hash_open junkh os3 hf lf = (Inr reader, os3)
    \<and> sparkey_logiter_create junki3 os3 (sparkey_hash_getreader reader) = (Inr iter, os3)
    \<and> hash_lookups lib reader keys iter = Some (SPARKEY_SUCCESS, map (log_map (concat gs @ es)) keys, iter')
    \<and> sparkey_hash_numentries reader = of_nat (card (dom (log_map (concat gs @ es))))"
proof -
  note hv = sure_hash_size_valid [OF hs]
  have o: "os_open_read os lf = Inr c" "os_mmap_ok os" "os_mallocs os = []"
    using assms(2) by (simp_all add: os_indexes_def)
  obtain log where log: "\<And>junk. sparkey_logreader_open_noalloc os junk lf = Inr log"
    by (rule indexable_reader [OF assms(1) o]) blast
  obtain ws hh t M where w: "sparkey_hash_write lib junk junkr junki junki2 mem os hf lf hash_size
       = Some (SPARKEY_SUCCESS, with_index os hf (hashheader_bytes hh @ t) ws)"
    by (rule hash_write_new [OF assms(1,2) hv assms(3) log])
  let ?os1 = "with_index os hf (hashheader_bytes hh @ t) ws"
  have fits: "\<forall>e \<in> set es. entry_fits lh e" using es(2) plain(1) by (simp add: entry_fits_def)
  have bs: "\<not> sparkey_uses_compressor (lh_compression_type lh) \<longrightarrow> lh_compression_block_size lh = 0" using plain(2) by simp
  obtain os2 lh' gn c' where a:
    "write_session lib (sparkey_logwriter_append lib junkw ?os1 lf) es = Some (SPARKEY_SUCCESS, os2, None)"
    "concat gn = es" "log_file lib lh' (gs @ gn) c'" "header_grows lh lh'" "header_versions lh'"
    "\<not> sparkey_uses_compressor (lh_compression_type lh) \<longrightarrow> lh_max_entries_per_block lh' = lh_max_entries_per_block lh"
    "c' = logheader_bytes lh' @ log_data lib lh' (gs @ gn) @ drop (84 + length (log_data lib lh' (gs @ gn))) c"
    and again: "indexable_file lib lh' (gs @ gn) c' \<and> sure_hash_size hash_size (unat (lh_num_puts lh')) \<longrightarrow>
        (\<exists>os3 reader iter iter'.
            sparkey_hash_write lib junk' junkr' junki' junki2' mem' os2 hf lf hash_size = Some (SPARKEY_SUCCESS, os3)
          \<and> sparkey_hash_open junkh os3 hf lf = (Inr reader, os3)
          \<and> sparkey_logiter_create junki3 os3 (sparkey_hash_getreader reader) = (Inr iter, os3)
          \<and> hash_lookups lib reader keys iter = Some (SPARKEY_SUCCESS, map (log_map (concat gs @ es)) keys, iter')
          \<and> sparkey_hash_numentries reader = of_nat (card (dom (log_map (concat gs @ es)))))"
    using append_update_session [OF assms(1-6) bs hv w es(1) fits keys, where junkw = junkw
      and junk' = junk' and junkr' = junkr' and junki' = junki' and junki2' = junki2' and mem' = mem'
      and junkh = junkh and ?junki3.0 = junki3, THEN conjunct2]
    by (elim exE conjE) (rule that)
  have "lh_max_entries_per_block lh' = 0" using a(6) plain(1,3) by simp
  note ix = appended_plain_indexable [OF a(3,2,4,5) plain(1) this a(7) assms(1) es(2) len]
  with again ix hs obtain os3 reader iter iter' where
    "sparkey_hash_write lib junk' junkr' junki' junki2' mem' os2 hf lf hash_size = Some (SPARKEY_SUCCESS, os3)"
    "sparkey_hash_open junkh os3 hf lf = (Inr reader, os3)"
    "sparkey_logiter_create junki3 os3 (sparkey_hash_getreader reader) = (Inr iter, os3)"
    "hash_lookups lib reader keys iter = Some (SPARKEY_SUCCESS, map (log_map (concat gs @ es)) keys, iter')"
    "sparkey_hash_numentries reader = of_nat (card (dom (log_map (concat gs @ es))))" by auto
  with w a(1) show ?thesis by blast
qed

theorem append_then_update_witness:
  "\<exists>os1 os2 os3 reader iter iter'.
      sparkey_hash_write store_lib undefined undefined undefined undefined [] demo_os ''a.spi'' ''a.spl'' 4
        = Some (SPARKEY_SUCCESS, os1)
    \<and> write_session store_lib (sparkey_logwriter_append store_lib blank_writer os1 ''a.spl'') demo_log2
        = Some (SPARKEY_SUCCESS, os2, None)
    \<and> sparkey_hash_write store_lib undefined undefined undefined undefined [] os2 ''a.spi'' ''a.spl'' 4
        = Some (SPARKEY_SUCCESS, os3)
    \<and> sparkey_hash_open undefined os3 ''a.spi'' ''a.spl'' = (Inr reader, os3)
    \<and> sparkey_logiter_create undefined os3 (sparkey_hash_getreader reader) = (Inr iter, os3)
    \<and> hash_lookups store_lib reader [[1], [3], [], [5]] iter
        = Some (SPARKEY_SUCCESS, [None, None, Some [4], Some [6]], iter')
    \<and> sparkey_hash_numentries reader = 2"
proof -
  have "log_map (demo_log @ demo_log2) = [[] \<mapsto> [4], [5] \<mapsto> [6]]"
    by (auto simp: log_map_def apply_entry_def demo_log_def demo_log2_def)
  then have m: "map (log_map (concat [demo_log] @ demo_log2)) [[1], [3], [], [5]] = [None, None, Some [4], Some [6]]"
    "card (dom (log_map (concat [demo_log] @ demo_log2))) = 2" by simp_all
  have env: "os_names demo_os ''a.spl'' = Some 0" "os_ready demo_os ''a.spl''" "os_reads demo_os = []"
    by (simp_all add: plain_os_def fresh_os_def os_ready_def os_calm_def)
  have plain: "\<not> sparkey_uses_compressor (lh_compression_type demo_header)" "lh_compression_block_size demo_header = 0"
    "lh_max_entries_per_block demo_header = 0"
    by (simp_all add: plain_header_def empty_log_header_def new_header_def blank_header_def sparkey_uses_compressor_def)
  have es: "demo_log2 \<noteq> []" "\<forall>e \<in> set demo_log2. entry_ok e \<and> length (entry_key e) < 2 ^ 31"
    by (simp_all add: demo_log2_def entry_ok_small entry_body_def)
  have "length (encode_entries (demo_log @ demo_log2)) = 17" by code_simp
  then have len: "length (encode_entries (concat [demo_log] @ demo_log2)) < 2 ^ 52" by simp
  have hs: "sure_hash_size 4 (length (filter is_put (concat [demo_log] @ demo_log2)))" by (simp add: sure_hash_size_def)
  have keys: "\<forall>key \<in> set [[1], [3], [], [5]]. length (key :: bytes) < 2 ^ 31" by simp
  show ?thesis
    by (rule append_then_update [OF demo_indexable demo_os_indexes demo_old env plain es len hs keys,
        unfolded m of_nat_numeral])
qed

end
