(* ===== verification/CliText.thy ===== *)
theory CliText
  imports LogWriter
begin

text \<open>
  The text input of the command line tool, \<open>read_line\<close> and \<open>append\<close> of \<open>src/src/main.c\<close>, with the C string
  functions they use. A buffer is a list of bytes; what \<open>realloc\<close> adds to it is unknown and comes from \<open>mem\<close>.
  Reading behind the end of a buffer has no result (\<open>None\<close>).
\<close>

section \<open>C strings\<close>

text \<open>
  \<open>c_scan stops m\<close> is \<open>strcspn\<close>: the number of bytes before the first one in \<open>stops\<close>, or the end of the string;
  \<open>c_span\<close> is \<open>strspn\<close>.
\<close>

primrec c_scan :: "bytes \<Rightarrow> bytes \<Rightarrow> nat option" where
  "c_scan stops [] = None"
| "c_scan stops (b # bs) = (if b = 0 \<or> b \<in> set stops then Some 0 else map_option Suc (c_scan stops bs))"

primrec c_span :: "bytes \<Rightarrow> bytes \<Rightarrow> nat option" where
  "c_span chars [] = None"
| "c_span chars (b # bs) = (if b \<noteq> 0 \<and> b \<in> set chars then map_option Suc (c_span chars bs) else Some 0)"

definition c_string :: "bytes \<Rightarrow> nat \<Rightarrow> bytes" where
  "c_string buf i = takeWhile (\<lambda>b. b \<noteq> 0) (drop i buf)"

text \<open>
  \<open>strtok\<close> from the position \<open>start\<close>, which is the start of the string or the position saved by the last call.
  The result is the token, the position to save, and the buffer, in which the end of the token is marked.
\<close>

definition strtok :: "bytes \<Rightarrow> bytes \<Rightarrow> nat \<Rightarrow> (nat option \<times> nat \<times> bytes) option" where
  "strtok delims buf start =
     Option.bind (c_span delims (drop start buf)) (\<lambda>i.
     let s = start + i in
     if buf ! s = 0 then Some (None, s, buf)
     else
       Option.bind (c_scan delims (drop s buf)) (\<lambda>k.
       let e = s + k in
       if buf ! e = 0 then Some (Some s, e, buf) else Some (Some s, Suc e, buf[e := 0])))"

text \<open>
  \<open>fgets\<close> into a buffer of size \<open>n\<close>: the bytes read, up to a newline and at most \<open>n - 1\<close>, without the end
  mark; \<open>None\<close> is \<open>NULL\<close>, at the end of the input.
\<close>

fun take_line :: "nat \<Rightarrow> bytes \<Rightarrow> bytes" where
  "take_line 0 bs = []"
| "take_line n [] = []"
| "take_line (Suc n) (b # bs) = (if b = 10 then [b] else b # take_line n bs)"

definition c_fgets :: "nat \<Rightarrow> bytes \<Rightarrow> bytes option \<times> bytes" where
  "c_fgets n input =
     (if n = 0 then (None, input)
      else if n = 1 then (Some [], input)
      else
        let l = take_line (n - 1) input in
        if l = [] then (None, input) else (Some l, drop (length l) input))"

definition grow :: "(nat \<Rightarrow> byte) \<Rightarrow> bytes \<Rightarrow> nat \<Rightarrow> bytes" where
  "grow mem buf n = take n buf @ map mem [length buf..<n]"

section \<open>\<open>read_line\<close>\<close>

definition MINIMUM_CAPACITY :: u64 where
  "MINIMUM_CAPACITY = push_bit 8 1"

definition MAXIMUM_CAPACITY :: u64 where
  "MAXIMUM_CAPACITY = push_bit 28 1"

text \<open>
  The state is the buffer (\<open>None\<close> is \<open>NULL\<close>) with its size and the input; the result is the position of the
  end of the line. The size passed to \<open>fgets\<close> is an int.
\<close>

type_synonym line_state = "os \<times> bytes option \<times> u64 \<times> bytes"

partial_function (option) read_line_loop ::
  "(nat \<Rightarrow> byte) \<Rightarrow> line_state \<Rightarrow> u64 \<Rightarrow> u64 \<Rightarrow> (u64 \<times> line_state) option" where
  "read_line_loop mem s cap pos =
     (case s of (os, buffer, capacity, input) \<Rightarrow>
        case os_malloc os of (ok, os) \<Rightarrow>
          if \<not> ok then Some (pos, os, buffer, capacity, input)
          else
            let buf = grow mem (case buffer of None \<Rightarrow> [] | Some b \<Rightarrow> b) (unat cap) in
            case c_fgets (nat (sint (ucast (cap - pos) :: u32))) input of (l, input) \<Rightarrow>
              if l = None then Some (pos, os, Some buf, cap, input)
              else
                let buf = splice_at buf (unat pos) (the l @ [0]) in
                Option.bind (c_scan [10] (drop (unat pos) buf)) (\<lambda>k.
                let pos = pos + of_nat k in
                if buf ! unat pos = 10 then Some (pos, os, Some buf, cap, input)
                else read_line_loop mem (os, Some buf, cap, input) (cap * 2) pos))"

definition read_line :: "(nat \<Rightarrow> byte) \<Rightarrow> line_state \<Rightarrow> (u64 \<times> line_state) option" where
  "read_line mem s =
     (case s of (os, buffer, capacity, input) \<Rightarrow>
        if capacity < MINIMUM_CAPACITY then read_line_loop mem s MINIMUM_CAPACITY 0
        else if capacity > MAXIMUM_CAPACITY then Some (0, s)
        else read_line_loop mem s capacity 0)"

section \<open>\<open>append\<close>\<close>

text \<open>One line, which ends at \<open>line[end]\<close>: the first component is the exit code of a failure.\<close>

definition append_line ::
  "codec_lib \<Rightarrow> byte \<Rightarrow> os \<times> sparkey_logwriter \<Rightarrow> bytes \<Rightarrow> (int option \<times> bytes \<times> os \<times> sparkey_logwriter) option" where
  "append_line lib delimiter s line =
     Option.bind (strtok [delimiter] line 0) (\<lambda>(key, save, line).
     Option.bind (strtok [10] line save) (\<lambda>(value, save, line).
     case value of
       None \<Rightarrow> Some (Some 1, line, s)
     | Some v \<Rightarrow>
         (case key of
            None \<Rightarrow> None
          | Some k \<Rightarrow>
              map_option (\<lambda>(returncode, s). (if returncode \<noteq> SPARKEY_SUCCESS then Some 1 else None, line, s))
                (sparkey_logwriter_put lib s (c_string line k) (c_string line v)))))"

definition append_step ::
  "codec_lib \<Rightarrow> (nat \<Rightarrow> byte) \<Rightarrow> byte \<Rightarrow> os \<times> sparkey_logwriter \<Rightarrow> bytes option \<Rightarrow> u64 \<Rightarrow> bytes
     \<Rightarrow> (int option \<times> (os \<times> sparkey_logwriter) \<times> bytes \<times> u64 \<times> bytes) option" where
  "append_step lib mem delimiter s line capacity input =
     Option.bind (read_line mem (fst s, line, capacity, input)) (\<lambda>(end, os, line, capacity, input).
     case line of
       None \<Rightarrow> None
     | Some buf \<Rightarrow>
         if unat end \<ge> length buf then None
         else if buf ! unat end \<noteq> 10 then Some (Some 0, (os, snd s), buf, capacity, input)
         else
           map_option (\<lambda>(failed, buf, s). (failed, s, buf, capacity, input))
             (append_line lib delimiter (os, snd s) buf))"

partial_function (option) append_loop ::
  "codec_lib \<Rightarrow> (nat \<Rightarrow> byte) \<Rightarrow> byte \<Rightarrow> os \<times> sparkey_logwriter \<Rightarrow> bytes option \<Rightarrow> u64 \<Rightarrow> bytes
     \<Rightarrow> (int \<times> os \<times> sparkey_logwriter) option" where
  "append_loop lib mem delimiter s line capacity input =
     Option.bind (append_step lib mem delimiter s line capacity input) (\<lambda>(finished, s, buf, capacity, input).
     case finished of
       Some code \<Rightarrow> Some (code, s)
     | None \<Rightarrow> append_loop lib mem delimiter s (Some buf) capacity input)"

definition append_input ::
  "codec_lib \<Rightarrow> (nat \<Rightarrow> byte) \<Rightarrow> os \<times> sparkey_logwriter \<Rightarrow> byte \<Rightarrow> bytes \<Rightarrow> (int \<times> os \<times> sparkey_logwriter) option" where
  "append_input lib mem s delimiter input = append_loop lib mem delimiter s None 0 input"

end
