(* ===== verification/Text.thy ===== *)
theory Text
  imports Prelude
begin

text \<open>
  Formatted text: what \<open>sprintf\<close> and \<open>printf\<close> make of the conversions the program uses (\<open>%d\<close>, the 64 bit
  \<open>PRIu64\<close>, \<open>%08x\<close>). Digits can be read back, so the text of a number determines it.
\<close>

text \<open>The bytes of a C string.\<close>

definition c_bytes :: "string \<Rightarrow> bytes" where
  "c_bytes s = map of_char s"

section \<open>Numbers\<close>

definition digit :: "nat \<Rightarrow> char" where
  "digit d = (if d < 10 then char_of (48 + d) else char_of (87 + d))"

fun digits :: "nat \<Rightarrow> nat \<Rightarrow> string" where
  "digits base n = (if n < base \<or> base < 2 then [digit n] else digits base (n div base) @ [digit (n mod base)])"

declare digits.simps [simp del]

definition format_d :: "int \<Rightarrow> string" where
  "format_d i = (if i < 0 then CHR ''-'' # digits 10 (nat (- i)) else digits 10 (nat i))"

definition format_u64 :: "u64 \<Rightarrow> string" where
  "format_u64 w = digits 10 (unat w)"

definition format_08x :: "u32 \<Rightarrow> string" where
  "format_08x w = (let s = digits 16 (unat w) in replicate (8 - length s) (CHR ''0'') @ s)"

text \<open>Reading a number back.\<close>

definition digit_value :: "char \<Rightarrow> nat" where
  "digit_value c = (if of_char c < (58 :: nat) then of_char c - 48 else of_char c - 87)"

definition number_value :: "nat \<Rightarrow> string \<Rightarrow> nat" where
  "number_value base s = foldl (\<lambda>n c. base * n + digit_value c) 0 s"

lemma digit_value_digit [simp]: "d < 36 \<Longrightarrow> digit_value (digit d) = d"
  by (simp add: digit_def digit_value_def)

lemma number_value_digits:
  assumes "2 \<le> base" "base \<le> 36"
  shows "number_value base (digits base n) = n"
  using assms
proof (induction base n rule: digits.induct)
  case (1 base n)
  show ?case
  proof (cases "n < base")
    case True
    then show ?thesis using 1 by (subst digits.simps) (simp add: number_value_def)
  next
    case False
    have "digits base n = digits base (n div base) @ [digit (n mod base)]"
      using False 1 by (subst digits.simps) simp
    moreover have "number_value base (digits base (n div base)) = n div base" using 1 False by simp
    moreover have "n mod base < 36" using 1 mod_less_divisor [of base n] by linarith
    ultimately show ?thesis by (simp add: number_value_def)
  qed
qed

lemma digits_inject [simp]: "digits 10 m = digits 10 n \<longleftrightarrow> m = n"
proof
  assume "digits 10 m = digits 10 n"
  then have "number_value 10 (digits 10 m) = number_value 10 (digits 10 n)" by (rule arg_cong)
  then show "m = n" by (simp only: number_value_digits [of 10])
qed simp

lemma length_digits: "n < 10 ^ Suc k \<Longrightarrow> length (digits 10 n) \<le> Suc k"
proof (induction k arbitrary: n)
  case (Suc k)
  have "n div 10 < 10 ^ Suc k" using Suc.prems by simp
  then show ?case using Suc.IH [of "n div 10"] by (subst digits.simps) simp
qed (simp add: digits.simps)

lemma format_d_inject: "0 \<le> i \<Longrightarrow> 0 \<le> j \<Longrightarrow> format_d i = format_d j \<longleftrightarrow> i = j"
  by (auto simp: format_d_def nat_eq_iff)

text \<open>A printable text has no end mark inside.\<close>

lemma digits_chars: "2 \<le> base \<Longrightarrow> base \<le> 36 \<Longrightarrow> c \<in> set (digits base n) \<Longrightarrow> \<exists>d < 36. c = digit d"
proof (induction base n rule: digits.induct)
  case (1 base n)
  have m: "n mod base < 36" using 1(2,3) mod_less_divisor [of base n] by linarith
  show ?case
  proof (cases "n < base")
    case True
    then have "c = digit n" "n < 36" using 1(3,4) by (simp_all add: digits.simps [of base n])
    then show ?thesis by blast
  next
    case False
    then have "c \<in> set (digits base (n div base)) \<or> c = digit (n mod base)"
      using 1(2,4) by (subst (asm) digits.simps) auto
    then show ?thesis using 1 False m by auto
  qed
qed

definition printable :: "string \<Rightarrow> bool" where
  "printable s \<longleftrightarrow> CHR 0x00 \<notin> set s"

lemma printable_append [simp]: "printable (s @ t) \<longleftrightarrow> printable s \<and> printable t"
  by (simp add: printable_def)

lemma printable_Cons [simp]: "printable (c # s) \<longleftrightarrow> c \<noteq> CHR 0x00 \<and> printable s"
  by (auto simp: printable_def)

lemma printable_Nil [simp]: "printable []"
  by (simp add: printable_def)

lemma digit_not_end: "d < 36 \<Longrightarrow> digit d \<noteq> CHR 0x00"
proof
  assume "d < 36" "digit d = CHR 0x00"
  then have "(of_char (digit d) :: nat) = 0" by simp
  then show False using \<open>d < 36\<close> by (simp add: digit_def split: if_splits)
qed

lemma printable_digits [simp]: "printable (digits 10 n)"
  using digits_chars [of 10 "CHR 0x00" n] digit_not_end by (fastforce simp: printable_def)

lemma printable_format_d [simp]: "printable (format_d i)"
  by (simp add: format_d_def)

lemma of_char_byte: "of_char c = (of_char d :: byte) \<longleftrightarrow> c = d"
proof
  have u: "unat (of_char c :: byte) = of_char c" for c
    unfolding of_nat_of_char [where ?'a = byte, symmetric] unat_of_nat by simp
  assume "of_char c = (of_char d :: byte)"
  then have "unat (of_char c :: byte) = unat (of_char d :: byte)" by (rule arg_cong)
  then show "c = d" unfolding u by simp
qed simp

lemma c_bytes_no_end: "0 \<in> set (c_bytes s) \<longleftrightarrow> \<not> printable s"
proof -
  have "0 \<in> set (c_bytes s) \<longleftrightarrow> (of_char (CHR 0x00) :: byte) \<in> of_char ` set s"
    by (simp add: c_bytes_def)
  also have "\<dots> \<longleftrightarrow> CHR 0x00 \<in> set s" unfolding image_iff of_char_byte by blast
  finally show ?thesis by (simp add: printable_def)
qed

lemma c_bytes_append [simp]: "c_bytes (s @ t) = c_bytes s @ c_bytes t"
  by (simp add: c_bytes_def)

lemma length_c_bytes [simp]: "length (c_bytes s) = length s"
  by (simp add: c_bytes_def)

lemma c_bytes_inject [simp]: "c_bytes s = c_bytes t \<longleftrightarrow> s = t"
  by (simp add: c_bytes_def inj_map_eq_map inj_def of_char_byte)

end
