(* ===== verification/HeaderText.thy ===== *)
theory HeaderText
  imports Text LogHeader HashHeader
begin

text \<open>
  What \<open>print_logheader\<close> (\<open>src/src/logheader.c\<close>) and \<open>print_hashheader\<close> (\<open>src/src/hashheader.c\<close>) print.
\<close>

definition text_line :: "string \<Rightarrow> string" where
  "text_line s = s @ [CHR 0x0A]"

text \<open>The names of the compression types; \<open>NULL\<close> and what is behind the end of the array cannot be printed.\<close>

definition compression_types :: "string list" where
  "compression_types = [''Uncompressed'', ''Snappy'', ''Zstd'']"

definition print_logheader :: "sparkey_logheader \<Rightarrow> string option" where
  "print_logheader header =
     (if length compression_types \<le> unat (lh_compression_type header) then None
      else Some (concat (map text_line
       [''Log file version '' @ format_d (sint (lh_major_version header)) @ ''.'' @ format_d (sint (lh_minor_version header)),
        ''Identifier: '' @ format_08x (lh_file_identifier header),
        ''Puts: '' @ format_u64 (lh_num_puts header) @ '', Deletes: '' @ format_u64 (lh_num_deletes header),
        ''Max key size: '' @ format_u64 (lh_max_key_len header) @ '', Max value size: '' @ format_u64 (lh_max_value_len header),
        ''Compression: '' @ compression_types ! unat (lh_compression_type header)
          @ '', block size: '' @ format_d (sint (lh_compression_block_size header))])))"

text \<open>
  The average displacement is printed with \<open>%.2f\<close>; \<open>average\<close> is the text of the quotient of two numbers as
  \<open>double\<close>, which is not a number when there are no entries.
\<close>

definition print_hashheader :: "(u64 \<Rightarrow> u64 \<Rightarrow> string) \<Rightarrow> sparkey_hashheader \<Rightarrow> string" where
  "print_hashheader average header =
     concat (map text_line
       [''Hash file version '' @ format_d (sint (hh_major_version header)) @ ''.'' @ format_d (sint (hh_minor_version header)),
        ''Identifier: '' @ format_08x (hh_file_identifier header),
        ''Max key size: '' @ format_u64 (hh_max_key_len header) @ '', Max value size: '' @ format_u64 (hh_max_value_len header),
        ''Hash size: '' @ format_d (sint (8 * hh_hash_size header)) @ '' bit Murmurhash3'',
        ''Num entries: '' @ format_u64 (hh_num_entries header) @ '', Capacity: '' @ format_u64 (hh_hash_capacity header),
        ''Num collisions: '' @ format_u64 (hh_hash_collisions header) @ '', Max displacement: ''
          @ format_u64 (hh_max_displacement header) @ '', Average displacement: ''
          @ average (hh_total_displacement header) (hh_num_entries header),
        ''Data size: '' @ format_u64 (hh_data_end header) @ '', Garbage size: '' @ format_u64 (hh_garbage_size header)])"

lemma print_logheader_loaded:
  assumes "sparkey_load_logheader os name = Inr h"
  shows "print_logheader h \<noteq> None"
proof -
  have "lh_compression_type h \<le> SPARKEY_COMPRESSION_ZSTD"
    using load_logheader_inv [OF assms] by (auto simp: logheader_consistent_def)
  then have "unat (lh_compression_type h) \<le> 2" by (simp add: word_le_nat_alt SPARKEY_COMPRESSION_ZSTD_def)
  then show ?thesis by (simp add: print_logheader_def compression_types_def)
qed

end
