(* ===== verification/Cli.thy ===== *)
theory Cli
  imports CliText HeaderText HashBuild HashReader
begin

text \<open>
  The commands of \<open>src/src/main.c\<close>: \<open>info\<close>, \<open>get\<close>, \<open>writehash\<close>, \<open>createlog\<close>, \<open>appendlog\<close>, \<open>rewrite\<close> and the
  dispatch. The result of a command is the exit code of the process and the files it leaves behind, with the
  standard output among them: \<open>get\<close> writes a value to it, \<open>info\<close> the contents of headers. The usage texts and error
  messages on the standard error output are not modelled.
\<close>

section \<open>The process\<close>

text \<open>
  \<open>getopt\<close> and \<open>sscanf\<close> are parameters. \<open>lc_getopt\<close> gives the options found in the arguments and the remaining
  arguments, \<open>argv[optind]\<close> and what follows; \<open>BadOption\<close> is \<open>'?'\<close>. \<open>lc_sscanf_int\<close> is the int
  \<open>sscanf(s, "%d", ...)\<close> stores, if it stores one. \<open>lc_average\<close> is the text \<open>%.2f\<close> makes of a quotient of two numbers
  converted to \<open>double\<close>.
\<close>

datatype getopt_event = Option char string | BadOption

record libc =
  lc_getopt :: "string \<Rightarrow> string list \<Rightarrow> getopt_event list \<times> string list"
  lc_sscanf_int :: "string \<Rightarrow> u32 option"
  lc_average :: "u64 \<Rightarrow> u64 \<Rightarrow> string"

text \<open>What \<open>malloc\<close> and \<open>realloc\<close> return: memory with arbitrary contents.\<close>

record junk_memory =
  junk_writer :: sparkey_logwriter
  junk_hashheader :: sparkey_hashheader
  junk_hashreader :: sparkey_hashreader
  junk_logreader :: sparkey_logreader
  junk_iter :: sparkey_logiter
  junk_iter2 :: sparkey_logiter
  junk_table :: bytes
  junk_bytes :: "nat \<Rightarrow> byte"

text \<open>\<open>assert\<close> ends the process with exit code 1 unless the return code is \<open>SPARKEY_SUCCESS\<close>.\<close>

definition assert_rc :: "'a result \<Rightarrow> ('a \<Rightarrow> 'b) \<Rightarrow> ('a \<Rightarrow> (int \<times> 'b) option) \<Rightarrow> (int \<times> 'b) option" where
  "assert_rc m f k = Option.bind m (\<lambda>(rc, a). if rc \<noteq> SPARKEY_SUCCESS then Some (1, f a) else k a)"

definition assert_open :: "(sparkey_returncode + 'a) \<times> os \<Rightarrow> (os \<Rightarrow> 'b) \<Rightarrow> ('a \<Rightarrow> os \<Rightarrow> (int \<times> 'b) option) \<Rightarrow> (int \<times> 'b) option" where
  "assert_open m f k = (case m of (Inl rc, os) \<Rightarrow> Some (1, f os) | (Inr a, os) \<Rightarrow> k a os)"

lemma assert_simps [simp]:
  "assert_rc None f k = None" "assert_rc (Some (SPARKEY_SUCCESS, a)) f k = k a"
  "rc \<noteq> SPARKEY_SUCCESS \<Longrightarrow> assert_rc (Some (rc, a)) f k = Some (1, f a)"
  "assert_open (Inl rc, os) g l = Some (1, g os)" "assert_open (Inr b, os) g l = l b os"
  by (simp_all add: assert_rc_def assert_open_def)

section \<open>\<open>info\<close>, \<open>get\<close> and \<open>writehash\<close>\<close>

text \<open>The exit code and the text \<open>info\<close> prints.\<close>

definition info_file :: "libc \<Rightarrow> os \<Rightarrow> string \<Rightarrow> (int \<times> string) option" where
  "info_file c os filename =
     (case sparkey_load_logheader os filename of
        Inr logheader \<Rightarrow>
          map_option (\<lambda>t. (0, text_line (''Filename: '' @ filename) @ t @ text_line [])) (print_logheader logheader)
      | Inl res \<Rightarrow>
          if res \<noteq> SPARKEY_WRONG_LOG_MAGIC_NUMBER then Some (1, [])
          else
            (case sparkey_load_hashheader os filename of
               Inr hashheader \<Rightarrow>
                 Some (0, text_line (''Filename: '' @ filename) @ print_hashheader (lc_average c) hashheader @ text_line [])
             | Inl res \<Rightarrow> if res \<noteq> SPARKEY_WRONG_HASH_MAGIC_NUMBER then Some (1, []) else Some (1, [])))"

fun info_loop :: "libc \<Rightarrow> os \<Rightarrow> int \<times> string \<Rightarrow> string list \<Rightarrow> (int \<times> string) option" where
  "info_loop c os (retval, out) [] = Some (retval, out)"
| "info_loop c os (retval, out) (file # files) =
     Option.bind (info_file c os file) (\<lambda>(rc, t). info_loop c os (retval OR rc, out @ t) files)"

definition info :: "libc \<Rightarrow> os \<Rightarrow> string list \<Rightarrow> (int \<times> string) option" where
  "info c os files = info_loop c os (0, []) files"

text \<open>The text collected by \<open>printf\<close> is written when the process exits; an error of that write goes unnoticed.\<close>

definition exit_with_output :: "os \<Rightarrow> fd \<Rightarrow> int \<times> string \<Rightarrow> int \<times> os \<times> fd" where
  "exit_with_output os stdout r = (fst r, snd (write_full os stdout (c_bytes (snd r))))"

text \<open>
  The loop that writes a value to the standard output. The constant \<open>1 << 31\<close> is an int; as the compilers
  evaluate it, it is negative, and huge as an unsigned number of 64 bits.
\<close>

definition get_chunk_max :: u64 where
  "get_chunk_max = scast (push_bit 31 1 :: u32)"

partial_function (option) get_loop ::
  "codec_lib \<Rightarrow> sparkey_logreader \<Rightarrow> os \<Rightarrow> fd \<Rightarrow> sparkey_logiter \<Rightarrow> (int \<times> os \<times> fd) option" where
  "get_loop lib logreader os stdout iter =
     Option.bind (sparkey_logiter_valuechunk lib iter logreader get_chunk_max) (\<lambda>(rc, len, res, iter).
     if rc \<noteq> SPARKEY_SUCCESS then Some (1, os, stdout)
     else if length res < unat len then None
     else
       case write_full os stdout (take (unat len) res) of (rc, os, stdout) \<Rightarrow>
         if rc \<noteq> SPARKEY_SUCCESS then Some (1, os, stdout)
         else if len > 0 then get_loop lib logreader os stdout iter
         else Some (0, os, stdout))"

definition get_value ::
  "codec_lib \<Rightarrow> junk_memory \<Rightarrow> os \<Rightarrow> fd \<Rightarrow> string \<Rightarrow> string \<Rightarrow> bytes \<Rightarrow> (int \<times> os \<times> fd) option" where
  "get_value lib junk os stdout hashfile logfile key =
     assert_open (sparkey_hash_open (junk_hashreader junk) os hashfile logfile) (\<lambda>os. (os, stdout)) (\<lambda>reader os.
     let logreader = sparkey_hash_getreader reader in
     assert_open (sparkey_logiter_create (junk_iter junk) os logreader) (\<lambda>os. (os, stdout)) (\<lambda>iter os.
     assert_rc (sparkey_hash_get lib reader key iter) (\<lambda>iter. (os, stdout)) (\<lambda>iter.
     if sparkey_logiter_state iter = SPARKEY_ITER_ACTIVE then get_loop lib logreader os stdout iter
     else Some (2, os, stdout))))"

definition writehash :: "codec_lib \<Rightarrow> junk_memory \<Rightarrow> os \<Rightarrow> string \<Rightarrow> string \<Rightarrow> (int \<times> os) option" where
  "writehash lib junk os indexfile logfile =
     assert_rc
       (sparkey_hash_write lib (junk_hashheader junk) (junk_logreader junk) (junk_iter junk) (junk_iter2 junk)
          (junk_table junk) os indexfile logfile 0) id (\<lambda>os.
     Some (0, os))"

section \<open>\<open>createlog\<close> and \<open>appendlog\<close>\<close>

definition COMP_DEFAULT_BLOCKSIZE :: u32 where
  "COMP_DEFAULT_BLOCKSIZE = push_bit 12 1"

definition COMP_MAX_BLOCKSIZE :: u32 where
  "COMP_MAX_BLOCKSIZE = push_bit 30 1"

definition COMP_MIN_BLOCKSIZE :: u32 where
  "COMP_MIN_BLOCKSIZE = push_bit 4 1"

definition parse_compression :: "string \<Rightarrow> sparkey_compression_type option" where
  "parse_compression optarg =
     (if optarg = ''none'' then Some SPARKEY_COMPRESSION_NONE
      else if optarg = ''snappy'' then Some SPARKEY_COMPRESSION_SNAPPY
      else if optarg = ''zstd'' then Some SPARKEY_COMPRESSION_ZSTD
      else None)"

definition parse_block_size :: "libc \<Rightarrow> string \<Rightarrow> u32 option" where
  "parse_block_size c optarg =
     (case lc_sscanf_int c optarg of
        None \<Rightarrow> None
      | Some block_size \<Rightarrow>
          if sint block_size > sint COMP_MAX_BLOCKSIZE \<or> sint block_size < sint COMP_MIN_BLOCKSIZE then None
          else Some block_size)"

text \<open>
  The option loop of \<open>createlog\<close> and \<open>rewrite\<close>: the block size and, once the option is seen, the compression type.
  No result means exit code 1.
\<close>

fun block_options :: "libc \<Rightarrow> getopt_event list \<Rightarrow> u32 \<times> sparkey_compression_type option
     \<Rightarrow> (u32 \<times> sparkey_compression_type option) option" where
  "block_options c [] s = Some s"
| "block_options c (BadOption # es) s = None"
| "block_options c (Option opt_char optarg # es) (block_size, compression) =
     (if opt_char = CHR ''b'' then
        Option.bind (parse_block_size c optarg) (\<lambda>n. block_options c es (n, compression))
      else if opt_char = CHR ''c'' then
        Option.bind (parse_compression optarg) (\<lambda>t. block_options c es (block_size, Some t))
      else None)"

definition createlog :: "codec_lib \<Rightarrow> libc \<Rightarrow> junk_memory \<Rightarrow> os \<Rightarrow> string list \<Rightarrow> (int \<times> os) option" where
  "createlog lib c junk os args =
     (case lc_getopt c ''b:c:'' args of (options, operands) \<Rightarrow>
        case block_options c options (COMP_DEFAULT_BLOCKSIZE, None) of
          None \<Rightarrow> Some (1, os)
        | Some (block_size, compression) \<Rightarrow>
            (case operands of
               [] \<Rightarrow> Some (1, os)
             | log_filename # _ \<Rightarrow>
                 let compression_type = (case compression of None \<Rightarrow> SPARKEY_COMPRESSION_NONE | Some t \<Rightarrow> t) in
                 assert_open (sparkey_logwriter_create lib (junk_writer junk) os log_filename compression_type block_size)
                   id (\<lambda>writer os.
                 assert_rc (sparkey_logwriter_close lib (os, writer)) fst (\<lambda>s.
                 Some (0, fst s)))))"

fun delimiter_option :: "getopt_event list \<Rightarrow> char \<Rightarrow> char option" where
  "delimiter_option [] d = Some d"
| "delimiter_option (BadOption # es) d = None"
| "delimiter_option (Option opt_char optarg # es) d =
     (if opt_char = CHR ''d'' then if length optarg \<noteq> 1 then None else delimiter_option es (hd optarg)
      else None)"

definition appendlog :: "codec_lib \<Rightarrow> libc \<Rightarrow> junk_memory \<Rightarrow> os \<Rightarrow> bytes \<Rightarrow> string list \<Rightarrow> (int \<times> os) option" where
  "appendlog lib c junk os stdin args =
     (case lc_getopt c ''d:'' args of (options, operands) \<Rightarrow>
        case delimiter_option options (CHR 0x09) of
          None \<Rightarrow> Some (1, os)
        | Some delimiter \<Rightarrow>
            (case operands of
               [] \<Rightarrow> Some (1, os)
             | log_filename # _ \<Rightarrow>
                 assert_open (sparkey_logwriter_append lib (junk_writer junk) os log_filename) id (\<lambda>writer os.
                 Option.bind (append_input lib (junk_bytes junk) (os, writer) (of_char delimiter) stdin) (\<lambda>(rc, s).
                 assert_rc (sparkey_logwriter_close lib s) fst (\<lambda>s.
                 Some (rc, fst s))))))"

section \<open>\<open>rewrite\<close>\<close>

lemma assert_rc_mono [partial_function_mono]:
  assumes B: "mono_option B" and C: "\<And>y. mono_option (\<lambda>f. C y f)"
  shows "mono_option (\<lambda>f. assert_rc (B f) err (\<lambda>y. C y f))"
  unfolding assert_rc_def
proof (rule bind_mono [OF B])
  fix y
  show "mono_option (\<lambda>f. (\<lambda>(rc, a). if rc \<noteq> SPARKEY_SUCCESS then Some (1, err a) else C a f) y)"
  proof (cases y)
    case (Pair rc a)
    then show ?thesis by (cases "rc = SPARKEY_SUCCESS") (simp_all add: C option.const_mono)
  qed
qed

text \<open>A buffer from \<open>malloc\<close>; nothing can be copied to \<open>NULL\<close>. Copying behind the end of a buffer has no outcome.\<close>

definition malloc_bytes :: "junk_memory \<Rightarrow> os \<Rightarrow> u64 \<Rightarrow> bytes \<times> os" where
  "malloc_bytes junk os n =
     (case os_malloc os of (ok, os) \<Rightarrow> (if ok then map (junk_bytes junk) [0..<unat n] else [], os))"

definition copy_to_buffer :: "bytes \<Rightarrow> bytes \<Rightarrow> bytes option" where
  "copy_to_buffer buf data = (if length data \<le> length buf then Some (splice_at buf 0 data) else None)"

text \<open>The loop over the entries; exit code 0 means that the loop was left with \<open>break\<close>.\<close>

partial_function (option) rewrite_loop ::
  "codec_lib \<Rightarrow> sparkey_logreader \<Rightarrow> os \<times> sparkey_logwriter \<Rightarrow> sparkey_logiter \<Rightarrow> bytes \<Rightarrow> bytes
     \<Rightarrow> (int \<times> os \<times> sparkey_logwriter) option" where
  "rewrite_loop lib logreader s iter keybuf valuebuf =
     assert_rc (sparkey_logiter_next lib iter logreader) (\<lambda>iter. s) (\<lambda>iter.
     if sparkey_logiter_state iter \<noteq> SPARKEY_ITER_ACTIVE then Some (0, s)
     else
       let wanted_keylen = sparkey_logiter_keylen iter in
       assert_rc (sparkey_logiter_fill_key lib iter logreader wanted_keylen) (\<lambda>r. s) (\<lambda>(key, iter).
       Option.bind (copy_to_buffer keybuf key) (\<lambda>keybuf.
       let wanted_valuelen = sparkey_logiter_valuelen iter in
       assert_rc (sparkey_logiter_fill_value lib iter logreader wanted_valuelen) (\<lambda>r. s) (\<lambda>(value, iter).
       Option.bind (copy_to_buffer valuebuf value) (\<lambda>valuebuf.
       if length keybuf < unat wanted_keylen \<or> length valuebuf < unat wanted_valuelen then None
       else
         assert_rc (sparkey_logwriter_put lib s (take (unat wanted_keylen) keybuf) (take (unat wanted_valuelen) valuebuf)) id (\<lambda>s.
         rewrite_loop lib logreader s iter keybuf valuebuf))))))"

definition rewrite_files ::
  "codec_lib \<Rightarrow> junk_memory \<Rightarrow> os \<Rightarrow> u32 \<times> sparkey_compression_type option \<Rightarrow> string \<Rightarrow> string \<Rightarrow> string \<Rightarrow> string
     \<Rightarrow> (int \<times> os) option" where
  "rewrite_files lib junk os opts input_index_filename input_log_filename output_index_filename output_log_filename =
     assert_open (sparkey_hash_open (junk_hashreader junk) os input_index_filename input_log_filename) id (\<lambda>reader os.
     let logreader = sparkey_hash_getreader reader;
         compression_type =
           (case snd opts of None \<Rightarrow> sparkey_logreader_get_compression_type logreader | Some t \<Rightarrow> t);
         block_size =
           (if sint (fst opts) = -1 then sparkey_logreader_get_compression_blocksize logreader else fst opts)
     in
     assert_open (sparkey_logwriter_create lib (junk_writer junk) os output_log_filename compression_type block_size) id (\<lambda>writer os.
     assert_open (sparkey_logiter_create (junk_iter junk) os logreader) id (\<lambda>iter os.
     case malloc_bytes junk os (sparkey_logreader_maxkeylen logreader) of (keybuf, os) \<Rightarrow>
     case malloc_bytes junk os (sparkey_logreader_maxvaluelen logreader) of (valuebuf, os) \<Rightarrow>
     Option.bind (rewrite_loop lib logreader (os, writer) iter keybuf valuebuf) (\<lambda>(rc, s).
     if rc \<noteq> 0 then Some (rc, fst s)
     else
       assert_rc (sparkey_logwriter_close lib s) fst (\<lambda>s.
       writehash lib junk (fst s) output_index_filename output_log_filename)))))"

definition rewrite :: "codec_lib \<Rightarrow> libc \<Rightarrow> junk_memory \<Rightarrow> os \<Rightarrow> string list \<Rightarrow> (int \<times> os) option" where
  "rewrite lib c junk os args =
     (case lc_getopt c ''b:c:'' args of (options, operands) \<Rightarrow>
        case block_options c options (-1, None) of
          None \<Rightarrow> Some (1, os)
        | Some opts \<Rightarrow>
            (case operands of
               input_index_filename # output_index_filename # _ \<Rightarrow>
                 if input_index_filename = output_index_filename then Some (1, os)
                 else
                   (case sparkey_create_log_filename (fst (os_malloc os)) (Some input_index_filename) of
                      None \<Rightarrow> Some (1, os)
                    | Some input_log_filename \<Rightarrow>
                        let os = snd (os_malloc os) in
                        (case sparkey_create_log_filename (fst (os_malloc os)) (Some output_index_filename) of
                           None \<Rightarrow> Some (1, os)
                         | Some output_log_filename \<Rightarrow>
                             rewrite_files lib junk (snd (os_malloc os)) opts input_index_filename input_log_filename
                               output_index_filename output_log_filename))
             | _ \<Rightarrow> Some (1, os)))"

section \<open>\<open>main\<close>\<close>

text \<open>\<open>argv\<close> is the list of all arguments, the name of the program first.\<close>

definition sparkey_main ::
  "codec_lib \<Rightarrow> libc \<Rightarrow> junk_memory \<Rightarrow> os \<Rightarrow> bytes \<Rightarrow> fd \<Rightarrow> string list \<Rightarrow> (int \<times> os \<times> fd) option" where
  "sparkey_main lib c junk os stdin stdout argv =
     (let keep = map_option (\<lambda>(rc, os). (rc, os, stdout)) in
      case argv of
        _ # command # args \<Rightarrow>
          if command = ''info'' then
            if args = [] then Some (1, os, stdout) else map_option (exit_with_output os stdout) (info c os args)
          else if command = ''get'' then
            (case args of
               index_filename # key # _ \<Rightarrow>
                 (case sparkey_create_log_filename (fst (os_malloc os)) (Some index_filename) of
                    None \<Rightarrow> Some (1, os, stdout)
                  | Some log_filename \<Rightarrow>
                      get_value lib junk (snd (os_malloc os)) stdout index_filename log_filename (c_bytes key))
             | _ \<Rightarrow> Some (1, os, stdout))
          else if command = ''writehash'' then
            (case args of
               log_filename # _ \<Rightarrow>
                 (case sparkey_create_index_filename (fst (os_malloc os)) (Some log_filename) of
                    None \<Rightarrow> Some (1, os, stdout)
                  | Some index_filename \<Rightarrow> keep (writehash lib junk (snd (os_malloc os)) index_filename log_filename))
             | [] \<Rightarrow> Some (1, os, stdout))
          else if command = ''createlog'' then keep (createlog lib c junk os args)
          else if command = ''appendlog'' then keep (appendlog lib c junk os stdin args)
          else if command = ''rewrite'' then keep (rewrite lib c junk os args)
          else if command = ''help'' \<or> command = ''--help'' \<or> command = ''-h'' then Some (0, os, stdout)
          else Some (1, os, stdout)
      | _ \<Rightarrow> Some (0, os, stdout))"

end
