(* ===== verification/CliGet.thy ===== *)
theory CliGet
  imports Cli IndexProperties
begin

text \<open>
  \<open>get\<close> and \<open>writehash\<close>: the value of a key that is in the log goes to the standard output, in as many chunks as
  the blocks of the log demand.
\<close>

section \<open>Writing a value\<close>

lemma get_chunk_max_pos: "get_chunk_max > 0"
  by (simp add: get_chunk_max_def word_less_nat_alt)

lemma get_loop_value:
  assumes ok: "reader_ok lib log" and "active lib log iter e es rk rv" "fd_ok os stdout" "os_calm os"
  shows "\<exists>ws. get_loop lib log os stdout iter
    = Some (0, (io_put os stdout rv)\<lparr>os_writes := ws\<rparr>, fd_advance stdout (length rv))"
  using assms(2-)
proof (induction "length rv" arbitrary: rv rk iter os stdout rule: less_induct)
  case less
  obtain m mem iter1 where c: "sparkey_logiter_valuechunk lib iter log get_chunk_max = Some (SPARKEY_SUCCESS, m, mem, iter1)"
    "chunk_of get_chunk_max rv m mem" "active lib log iter1 e es [] (drop (unat m) rv)"
    by (rule valuechunk_active [OF ok less.prems(1)])
  have m: "unat m \<le> length mem" "take (unat m) mem = take (unat m) rv" "unat m \<le> length rv" "rv \<noteq> [] \<Longrightarrow> m > 0"
    using c(2) get_chunk_max_pos by (auto simp: chunk_of_def)
  obtain ws where w: "write_full os stdout (take (unat m) rv)
      = (SPARKEY_SUCCESS, (io_put os stdout (take (unat m) rv))\<lparr>os_writes := ws\<rparr>, fd_advance stdout (length (take (unat m) rv)))"
    "list_all write_retryable ws"
    by (rule write_full_calm [OF less.prems(2,3)])
  let ?os = "(io_put os stdout (take (unat m) rv))\<lparr>os_writes := ws\<rparr>" let ?fd = "fd_advance stdout (length (take (unat m) rv))"
  show ?case
  proof (cases "m > 0")
    case False
    then have "m = 0" using word_gt_0 [of m] by blast
    moreover from this have "rv = []" using m(4) by fastforce
    ultimately show ?thesis using c(1) w(1) m(1) by (subst get_loop.simps) auto
  next
    case True
    have "unat m > 0" using True by (simp add: word_less_nat_alt)
    then have short: "length (drop (unat m) rv) < length rv" using m(3) by simp
    have "fd_ok ?os ?fd" "os_calm ?os" using fd_ok_io_put [OF less.prems(2), of "take (unat m) rv"] w(2)
      by (simp_all add: os_calm_def del: length_take)
    from less.hyps [OF short c(3) this] obtain ws' where
      "get_loop lib log ?os ?fd iter1 = Some (0, (io_put ?os ?fd (drop (unat m) rv))\<lparr>os_writes := ws'\<rparr>,
        fd_advance ?fd (length (drop (unat m) rv)))" by blast
    moreover have "io_put (io_put os stdout (take (unat m) rv)) ?fd (drop (unat m) rv) = io_put os stdout rv"
      using io_put_io_put [OF less.prems(2), of "take (unat m) rv" "drop (unat m) rv"] by (simp del: length_take)
    ultimately show ?thesis
      using c(1) w(1) m True by (intro exI [of _ ws'], subst get_loop.simps) (simp add: io_put_writes_update)
  qed
qed

section \<open>\<open>get\<close>\<close>

text \<open>What \<open>get\<close> does with the answer of a lookup.\<close>

definition get_answer :: "os \<Rightarrow> fd \<Rightarrow> bytes option \<Rightarrow> int \<times> os \<times> fd \<Rightarrow> bool" where
  "get_answer os stdout answer result \<longleftrightarrow>
     (case answer of
        None \<Rightarrow> result = (2, os, stdout)
      | Some v \<Rightarrow> \<exists>ws. result = (0, (io_put os stdout v)\<lparr>os_writes := ws\<rparr>, fd_advance stdout (length v)))"

lemma get_value_answer:
  assumes "sparkey_hash_open (junk_hashreader junk) os hf lf = (Inr reader, os)"
    and "sparkey_logiter_create (junk_iter junk) os (sparkey_hash_getreader reader) = (Inr iter, os)"
    and rd: "reads_index lib reader M" and ix: "indexes lib (hr_log reader) (hr_header reader) es [] M"
    and bf: "before lib (hr_log reader) iter es" and key: "length key < 2 ^ 31"
    and os: "fd_ok os stdout" "os_calm os"
  shows "\<exists>result. get_value lib junk os stdout hf lf key = Some result \<and> get_answer os stdout (log_map es key) result"
proof -
  have ok: "reader_ok lib (hr_log reader)" using rd by (simp add: reads_index_def)
  obtain cur rest where it: "iter_at lib (hr_log reader) iter cur rest" using before_iter_at [OF bf] by blast
  obtain iter1 where g: "sparkey_hash_get lib reader key iter = Some (SPARKEY_SUCCESS, iter1)"
    and res: "case log_map es key of
       None \<Rightarrow> it_state iter1 = SPARKEY_ITER_INVALID \<and> (\<exists>cur rest. iter_at lib (hr_log reader) iter1 cur rest)
     | Some v \<Rightarrow> \<exists>es'. active lib (hr_log reader) iter1 (PutEntry key v) es' [] v"
    by (rule hash_get_log_map [OF rd ix it key])
  have run: "get_value lib junk os stdout hf lf key
      = (if it_state iter1 = SPARKEY_ITER_ACTIVE then get_loop lib (hr_log reader) os stdout iter1 else Some (2, os, stdout))"
    using assms(1,2) g by (simp add: get_value_def sparkey_logiter_state_def sparkey_hash_getreader_def)
  show ?thesis
  proof (cases "log_map es key")
    case None
    then show ?thesis using run res by (simp add: get_answer_def)
  next
    case (Some v)
    then obtain es' where a: "active lib (hr_log reader) iter1 (PutEntry key v) es' [] v" using res by auto
    then show ?thesis
      using run Some active_state [OF a] get_loop_value [OF ok a os] by (auto simp: get_answer_def)
  qed
qed

section \<open>\<open>writehash\<close>\<close>

lemma writehash_new:
  assumes f: "indexable_file lib lh gs c" and os: "os_indexes os hf lf c"
    and old: "old_index os hf (lh\<lparr>lh_header_size := LOG_HEADER_SIZE\<rparr>) = None"
  obtains log ws hh t M where "\<forall>junk. sparkey_logreader_open_noalloc os junk lf = Inr log"
    "writehash lib junk os hf lf = Some (0, with_index os hf (hashheader_bytes hh @ t) ws)" "list_all write_retryable ws"
    "index_for lib lh (concat gs) log hh t M"
proof -
  have o: "os_open_read os lf = Inr c" "os_mallocs os = []" "os_mmap_ok os"
    using os by (simp_all add: os_indexes_def)
  obtain log where log: "\<And>junk. sparkey_logreader_open_noalloc os junk lf = Inr log"
    by (rule indexable_reader [OF f o(1,3,2)]) blast
  obtain ws hh t M where w: "sparkey_hash_write lib (junk_hashheader junk) (junk_logreader junk) (junk_iter junk)
        (junk_iter2 junk) (junk_table junk) os hf lf 0
      = Some (SPARKEY_SUCCESS, with_index os hf (hashheader_bytes hh @ t) ws)" "list_all write_retryable ws"
    "index_for lib lh (concat gs) log hh t M"
    by (rule hash_write_new [OF f os _ old log, where hash_size = 0 and junk = "junk_hashheader junk" and junkr = "junk_logreader junk"
          and junki = "junk_iter junk" and ?junki2.0 = "junk_iter2 junk" and mem = "junk_table junk"]) auto
  then show thesis by (intro that [OF _ _ w(2,3)]) (use log in \<open>simp_all add: writehash_def\<close>)
qed

text \<open>\<open>main\<close> with this command.\<close>

lemma writehash_run:
  assumes "length base + 4 \<le> 10000" "os_mallocs os = []"
  shows "sparkey_main lib cl junk os stdin stdout [prog, ''writehash'', base @ ''.spl'']
    = map_option (\<lambda>(rc, os). (rc, os, stdout)) (writehash lib junk os (base @ ''.spi'') (base @ ''.spl''))"
  using assms by (simp add: sparkey_main_def os_malloc_def sparkey_create_index_filename_def create_filename_suffix)

section \<open>Properties\<close>

text \<open>
  C8: \<open>sparkey writehash\<close> followed by \<open>sparkey get\<close>. For a log file in a calm environment and no older index,
  \<open>writehash\<close> exits with 0; then \<open>get\<close> with any key writes exactly the value of the last put of that key to the
  standard output and exits with 0, and exits with 2 without writing anything when the key is not live. The
  standard output is a file, and not the log itself.
\<close>

theorem get_prints_value:
  assumes f: "indexable_file lib lh gs c" and os: "os_indexes os (base @ ''.spi'') (base @ ''.spl'') c"
    and old: "old_index os (base @ ''.spi'') (lh\<lparr>lh_header_size := LOG_HEADER_SIZE\<rparr>) = None"
    and names: "length base + 4 \<le> 10000" and key: "length key < 2 ^ 31"
    and stdout: "fd_ino stdout = Some j" "j < length (os_store os)" "fd_off stdout \<le> length (os_store os ! j)"
    and other: "os_names os (base @ ''.spl'') \<noteq> Some j"
  shows "\<exists>os' result.
      sparkey_main lib cl junk os stdin stdout [prog, ''writehash'', base @ ''.spl''] = Some (0, os', stdout)
    \<and> sparkey_main lib cl junk os' stdin stdout [prog, ''get'', base @ ''.spi'', key] = Some result
    \<and> get_answer os' stdout (log_map (concat gs) (c_bytes key)) result"
proof -
  have o: "os_mallocs os = []" using os by (simp add: os_indexes_def)
  obtain log ws hh t M where log: "\<forall>junk. sparkey_logreader_open_noalloc os junk (base @ ''.spl'') = Inr log"
    and w: "writehash lib junk os (base @ ''.spi'') (base @ ''.spl'')
      = Some (0, with_index os (base @ ''.spi'') (hashheader_bytes hh @ t) ws)" "list_all write_retryable ws"
    "index_for lib lh (concat gs) log hh t M"
    by (rule writehash_new [OF f os old, of junk])
  let ?os = "with_index os (base @ ''.spi'') (hashheader_bytes hh @ t) ws"
  obtain reader iter where r: "sparkey_hash_open (junk_hashreader junk) ?os (base @ ''.spi'') (base @ ''.spl'') = (Inr reader, ?os)"
    "sparkey_logiter_create (junk_iter junk) ?os (sparkey_hash_getreader reader) = (Inr iter, ?os)"
    "reads_index lib reader M" "indexes lib (hr_log reader) (hr_header reader) (concat gs) [] M"
    "before lib (hr_log reader) iter (concat gs)"
    by (rule written_index_session [OF f os log [rule_format] w(3)])
  have st: "fd_ok ?os stdout" "os_calm ?os"
    using stdout w(2) by (simp_all add: fd_ok_def fd_content_def with_index_def os_calm_def nth_append)
  have len: "length (c_bytes key) < 2 ^ 31" using key by (simp add: c_bytes_def)
  obtain result where "get_value lib junk ?os stdout (base @ ''.spi'') (base @ ''.spl'') (c_bytes key) = Some result"
    "get_answer ?os stdout (log_map (concat gs) (c_bytes key)) result"
    using get_value_answer [OF r len st] by blast
  moreover have "sparkey_create_log_filename True (Some (base @ ''.spi'')) = Some (base @ ''.spl'')"
    using names by (simp add: sparkey_create_log_filename_def create_filename_suffix)
  ultimately show ?thesis
    using w(1) o writehash_run [OF names o]
    by (intro exI [of _ ?os] exI [of _ result]) (simp add: sparkey_main_def os_malloc_def)
qed

definition plain_out_os :: "log_entry list \<Rightarrow> os" where
  "plain_out_os es = fresh_os\<lparr>os_names := [''a.spl'' \<mapsto> 0], os_store := [plain_file es, []]\<rparr>"

abbreviation "demo_stdout \<equiv> \<lparr>fd_ino = Some 1, fd_off = 0\<rparr>"

theorem get_prints_value_witness:
  "\<exists>os' result.
      sparkey_main store_lib undefined undefined (plain_out_os demo_log) [] demo_stdout [[], ''writehash'', ''a'' @ ''.spl'']
        = Some (0, os', demo_stdout)
    \<and> sparkey_main store_lib undefined undefined os' [] demo_stdout [[], ''get'', ''a'' @ ''.spi'', [CHR 0x01]] = Some result
    \<and> get_answer os' demo_stdout (Some [2]) result"
proof -
  have "log_map (concat [demo_log]) (c_bytes [CHR 0x01]) = Some [2]"
    by (simp add: log_map_def apply_entry_def demo_log_def c_bytes_def)
  moreover have "os_indexes (plain_out_os demo_log) (''a'' @ ''.spi'') (''a'' @ ''.spl'') (plain_file demo_log)"
    "old_index (plain_out_os demo_log) (''a'' @ ''.spi'') h = None" for h
    by (simp_all add: os_indexes_def plain_out_os_def fresh_os_def os_open_read_def os_content_def os_calm_def
        old_index_def sparkey_load_hashheader_def)
  ultimately show ?thesis
    using get_prints_value [OF demo_indexable, of "plain_out_os demo_log" "''a''" "[CHR 0x01]" demo_stdout 1 undefined undefined "[]" "[]"]
    by (simp add: plain_out_os_def)
qed

end
