(* ===== verification/CliLines.thy ===== *)
theory CliLines
  imports CliText LogWriterFile
begin

text \<open>
  The text input of the command line tool is correct: \<open>read_line\<close> finds the ends of the lines, whatever the
  capacity of the buffer, and \<open>append\<close> puts the key and the value of every line.
\<close>

section \<open>C strings\<close>

text \<open>Text that is part of one line of a C string.\<close>

definition plain_text :: "bytes \<Rightarrow> bool" where
  "plain_text t \<longleftrightarrow> 0 \<notin> set t \<and> 10 \<notin> set t"

lemma plain_text_simps [simp]:
  "plain_text []" "plain_text (b # t) \<longleftrightarrow> b \<noteq> 0 \<and> b \<noteq> 10 \<and> plain_text t"
  "plain_text (t @ u) \<longleftrightarrow> plain_text t \<and> plain_text u"
  by (auto simp: plain_text_def)

lemma plain_text_take: "plain_text t \<Longrightarrow> plain_text (take n t)" and plain_text_drop: "plain_text t \<Longrightarrow> plain_text (drop n t)"
  by (auto simp: plain_text_def dest: in_set_takeD in_set_dropD)

lemma c_scan_stop: "set t \<inter> insert 0 (set stops) = {} \<Longrightarrow> x = 0 \<or> x \<in> set stops \<Longrightarrow> c_scan stops (t @ x # u) = Some (length t)"
  by (induction t) auto

lemma c_scan_line: "plain_text t \<Longrightarrow> x = 0 \<or> x = 10 \<Longrightarrow> c_scan [10] (t @ x # u) = Some (length t)"
  by (rule c_scan_stop) (auto simp: plain_text_def)

lemma c_span_none: "b = 0 \<or> b \<notin> set chars \<Longrightarrow> c_span chars (b # u) = Some 0"
  by simp

lemma take_line_plain: "plain_text t \<Longrightarrow> take_line n t = take n t"
proof (induction t arbitrary: n)
  case (Cons b t)
  then show ?case by (cases n) auto
next
  case Nil
  then show ?case by (cases n) auto
qed

lemma take_line_newline:
  "plain_text t \<Longrightarrow> take_line n (t @ 10 # u) = (if length t < n then t @ [10] else take n t)"
proof (induction t arbitrary: n)
  case (Cons b t)
  then show ?case by (cases n) auto
next
  case Nil
  then show ?case by (cases n) auto
qed

lemma c_fgets_read: "1 < k \<Longrightarrow> take_line (k - 1) input = l \<Longrightarrow> l \<noteq> [] \<Longrightarrow> c_fgets k input = (Some l, drop (length l) input)"
  by (simp add: c_fgets_def Let_def)

lemma c_fgets_end: "1 < k \<Longrightarrow> c_fgets k [] = (None, [])"
  by (cases "k - 1") (simp_all add: c_fgets_def Let_def)

lemma length_grow [simp]: "length b \<le> n \<Longrightarrow> length (grow mem b n) = n"
  by (simp add: grow_def)

lemma take_grow: "k \<le> length b \<Longrightarrow> length b \<le> n \<Longrightarrow> take k (grow mem b n) = take k b"
  by (simp add: grow_def min_def)

section \<open>\<open>read_line\<close>\<close>

text \<open>The number of bytes \<open>fgets\<close> is asked for fits into an int.\<close>

lemma fgets_size:
  assumes "p \<le> 2 ^ j" "j \<le> 30"
  shows "nat (sint (ucast ((2 :: u64) ^ j - of_nat p) :: u32)) = 2 ^ j - p"
proof -
  have j: "(2 :: nat) ^ j \<le> 2 ^ 30" by (rule power_increasing [OF assms(2)]) simp
  have "(2 :: u64) ^ j - of_nat p = of_nat (2 ^ j - p)" using assms(1) by (simp add: of_nat_diff)
  then have u: "(ucast ((2 :: u64) ^ j - of_nat p) :: u32) = of_nat (2 ^ j - p)"
    using j by (simp add: unsigned_of_nat take_bit_nat_eq_self del: of_nat_diff)
  have v: "unat (of_nat (2 ^ j - p) :: u32) = 2 ^ j - p" using j by (simp add: unat_of_nat take_bit_nat_eq_self)
  show ?thesis unfolding u using j by (subst sint_unat_u32) (simp_all only: v, simp_all)
qed

lemma unat_power_u64: "j \<le> 30 \<Longrightarrow> unat ((2 :: u64) ^ j) = 2 ^ j"
  using power_strict_increasing [of j 64 "2 :: nat"] unat_of_nat_u64 [of "2 ^ j"] by simp

text \<open>
  One round of the loop at position \<open>p\<close> of the line \<open>t\<close>: \<open>fgets\<close> delivers the rest of the line, or fills the buffer.
\<close>

definition partial_line :: "bytes option \<Rightarrow> bytes \<Rightarrow> nat \<Rightarrow> nat \<Rightarrow> bool" where
  "partial_line buffer t p cap \<longleftrightarrow>
     (case buffer of None \<Rightarrow> p = 0
      | Some b \<Rightarrow> length b \<le> cap \<and> p \<le> length b \<and> take p b = take p t \<and> (p = 0 \<or> p < length b \<and> b ! p = 0))
     \<and> p \<le> length t \<and> p + 1 < cap"

lemma read_line_round:
  assumes part: "partial_line buffer t p (2 ^ j)" and j: "j \<le> 29" and os: "os_mallocs os = []"
    and fg: "c_fgets (2 ^ j - p) input = (Some l, input')" and l: "l = l' \<or> l = l' @ [10]"
    and pl: "plain_text l'" and l': "length l < 2 ^ j - p" "take (length l') (drop p t) = l'" "p + length l' \<le> length t"
  obtains b where "length b = 2 ^ j" "take (p + length l') b = take (p + length l') t"
    "l = l' @ [10] \<Longrightarrow> take (p + length l' + 2) b = take (p + length l') t @ [10, 0]"
    "l = l' \<Longrightarrow> b ! (p + length l') = 0"
    "read_line_loop mem (os, buffer, cap, input) (2 ^ j) (of_nat p) =
       (if l = l' @ [10] then Some (of_nat (p + length l'), os, Some b, 2 ^ j, input')
        else read_line_loop mem (os, Some b, 2 ^ j, input') (2 ^ Suc j) (of_nat (p + length l')))"
proof -
  have cap: "unat ((2 :: u64) ^ j) = 2 ^ j" using j by (intro unat_power_u64) simp
  have small: "(2 :: nat) ^ j \<le> 2 ^ 29" by (rule power_increasing [OF j]) simp
  have p: "p + 1 < 2 ^ j" "p \<le> length t" using part by (simp_all add: partial_line_def)
  define b0 where "b0 = grow mem (case buffer of None \<Rightarrow> [] | Some b \<Rightarrow> b) (2 ^ j)"
  have b0: "length b0 = 2 ^ j" "take p b0 = take p t"
    using part unfolding b0_def by (auto simp: partial_line_def take_grow split: option.splits)
  define b where "b = splice_at b0 p (l @ [0])"
  have b: "b = take p t @ l @ 0 # drop (p + length l + 1) b0"
    by (simp add: b_def splice_at_def b0)
  have up: "unat (of_nat p :: u64) = p" using p(1) small by (intro unat_of_nat_u64) simp
  have dropb: "drop p b = l @ 0 # drop (p + length l + 1) b0" using p(2) by (simp add: b)
  have scan: "c_scan [10] (drop p b) = Some (length l')"
    using l pl unfolding dropb by (auto simp: c_scan_line)
  have len: "p + length l' < 2 ^ j" using l l'(1) by auto
  have pos: "(of_nat p :: u64) + of_nat (length l') = of_nat (p + length l')" by simp
  have up': "unat (of_nat (p + length l') :: u64) = p + length l'" using len small by (intro unat_of_nat_u64) simp
  have at: "b ! (p + length l') = (if l = l' then 0 else 10)"
    using l p(2) by (auto simp: b nth_append)
  have tk: "take (p + length l') t = take p t @ l'" using l'(2) by (simp add: take_add)
  have fg': "c_fgets (nat (sint (ucast ((2 :: u64) ^ j - of_nat p) :: u32))) input = (Some l, input')"
    using fg fgets_size [of p j] p(1) j by simp
  show thesis
  proof
    show "length b = 2 ^ j" using l'(1) p(1) b0(1) unfolding b_def by (subst length_splice_at) auto
    show "take (p + length l') b = take (p + length l') t" using l p(2) by (auto simp: b tk)
    show "take (p + length l' + 2) b = take (p + length l') t @ [10, 0]" if "l = l' @ [10]"
      using p(2) that by (simp add: b tk)
    show "b ! (p + length l') = 0" if "l = l'" using at that by simp
    show "read_line_loop mem (os, buffer, cap, input) (2 ^ j) (of_nat p) =
       (if l = l' @ [10] then Some (of_nat (p + length l'), os, Some b, 2 ^ j, input')
        else read_line_loop mem (os, Some b, 2 ^ j, input') (2 ^ Suc j) (of_nat (p + length l')))"
      using os fg' l at unfolding read_line_loop.simps [of _ _ "2 ^ j"] os_malloc_def
      by (auto simp: Let_def up up' pos scan cap b0_def [symmetric] b_def [symmetric] mult.commute
          simp del: of_nat_add)
  qed
qed

lemma read_line_loop_line:
  assumes t: "plain_text t" "length t + 2 \<le> 2 ^ m" "m \<le> 29" and os: "os_mallocs os = []"
  shows "partial_line buffer t p (2 ^ j) \<Longrightarrow> j \<le> m \<Longrightarrow>
    \<exists>b j'. read_line_loop mem (os, buffer, cap, drop p t @ 10 # rest) (2 ^ j) (of_nat p)
        = Some (of_nat (length t), os, Some b, 2 ^ j', rest)
      \<and> j \<le> j' \<and> j' \<le> m \<and> length b = 2 ^ j' \<and> take (length t + 2) b = t @ [10, 0]"
proof (induction "m - j" arbitrary: j p buffer cap rule: less_induct)
  case less
  let ?n = "2 ^ j - p - 1"
  have p: "p + 1 < 2 ^ j" "p \<le> length t" using less.prems(1) by (simp_all add: partial_line_def)
  have pl: "plain_text (drop p t)" by (rule plain_text_drop [OF t(1)])
  note line = take_line_newline [OF pl, of ?n rest]
  show ?case
  proof (cases "length (drop p t) < ?n")
    case True
    have fg: "c_fgets (2 ^ j - p) (drop p t @ 10 # rest) = (Some (drop p t @ [10]), rest)"
      by (subst c_fgets_read [where l = "drop p t @ [10]"]) (use line True p(1) in simp_all)
    obtain b where "length b = 2 ^ j" "take (p + length (drop p t) + 2) b = take (p + length (drop p t)) t @ [10, 0]"
      "read_line_loop mem (os, buffer, cap, drop p t @ 10 # rest) (2 ^ j) (of_nat p)
         = Some (of_nat (p + length (drop p t)), os, Some b, 2 ^ j, rest)"
      by (rule read_line_round [OF less.prems(1) _ os fg, where l' = "drop p t" and mem = mem and cap = cap])
        (use less.prems(2) t(3) pl True p in auto)
    then show ?thesis using p(2) less.prems(2) by (intro exI [of _ b] exI [of _ j]) auto
  next
    case False
    let ?l = "take ?n (drop p t)"
    have n: "length ?l = ?n" "?n > 0" using False p by auto
    have ne: "drop p t \<noteq> []" using False n(2) by auto
    have fg: "c_fgets (2 ^ j - p) (drop p t @ 10 # rest) = (Some ?l, drop ?n (drop p t) @ 10 # rest)"
      by (subst c_fgets_read [where l = ?l]) (use line False p(1) ne n in auto)
    have pn: "p + length ?l = 2 ^ j - 1" using n p by simp
    have tj: "2 ^ j \<le> length t + 1" using False p by simp
    obtain b where b: "length b = 2 ^ j" "take (p + length ?l) b = take (p + length ?l) t" "b ! (p + length ?l) = 0"
      "read_line_loop mem (os, buffer, cap, drop p t @ 10 # rest) (2 ^ j) (of_nat p)
         = read_line_loop mem (os, Some b, 2 ^ j, drop ?n (drop p t) @ 10 # rest) (2 ^ Suc j) (of_nat (p + length ?l))"
    proof (rule read_line_round [OF less.prems(1) _ os fg, where l' = ?l and mem = mem and cap = cap])
      show "j \<le> 29" using less.prems(2) t(3) by simp
      show "plain_text ?l" by (rule plain_text_take [OF pl])
      show "length ?l < 2 ^ j - p" "p + length ?l \<le> length t" using n p tj by auto
      show "take (length ?l) (drop p t) = ?l" using n by simp
      show "?l = ?l \<or> ?l = ?l @ [10]" by simp
    qed (use that in auto)
    have "(2 :: nat) ^ j < 2 ^ m" using tj t(2) by linarith
    then have j: "Suc j \<le> m" using power_strict_increasing_iff [of "2 :: nat" j m] by simp
    have part: "partial_line (Some b) t (2 ^ j - 1) (2 ^ Suc j)"
      using b(1-3) pn tj p by (simp add: partial_line_def)
    have dr: "drop ?n (drop p t) = drop (2 ^ j - 1) t" using pn n by (simp add: add.commute)
    have IH: "\<exists>b' j'. read_line_loop mem (os, Some b, 2 ^ j, drop (2 ^ j - 1) t @ 10 # rest) (2 ^ Suc j) (of_nat (2 ^ j - 1))
        = Some (of_nat (length t), os, Some b', 2 ^ j', rest)
      \<and> Suc j \<le> j' \<and> j' \<le> m \<and> length b' = 2 ^ j' \<and> take (length t + 2) b' = t @ [10, 0]"
      by (rule less.hyps [OF _ part j]) (use j in simp)
    show ?thesis using IH unfolding b(4) dr pn by (meson Suc_leD)
  qed
qed

text \<open>An input that ends without a newline: the position returned is the end mark.\<close>

lemma read_line_loop_end:
  assumes t: "plain_text t" "length t + 2 \<le> 2 ^ 28" "t \<noteq> []" and os: "os_mallocs os = []"
  shows "partial_line buffer t p (2 ^ j) \<Longrightarrow> j \<le> 29 \<Longrightarrow> j \<le> 28 \<or> p = length t \<Longrightarrow>
    \<exists>b cap'. read_line_loop mem (os, buffer, cap, drop p t) (2 ^ j) (of_nat p)
        = Some (of_nat (length t), os, Some b, cap', []) \<and> length t < length b \<and> b ! length t = 0"
proof (induction "30 - j" arbitrary: j p buffer cap rule: less_induct)
  case less
  let ?n = "2 ^ j - p - 1"
  have p: "p + 1 < 2 ^ j" "p \<le> length t" using less.prems(1) by (simp_all add: partial_line_def)
  have pl: "plain_text (drop p t)" by (rule plain_text_drop [OF t(1)])
  show ?case
  proof (cases "p = length t")
    case True
    then obtain b where b: "buffer = Some b" "p < length b" "length b \<le> 2 ^ j" "b ! p = 0"
      using less.prems(1) t(3) by (auto simp: partial_line_def split: option.splits)
    have cap: "unat ((2 :: u64) ^ j) = 2 ^ j" using less.prems(2) by (intro unat_power_u64) simp
    have fg: "c_fgets (nat (sint (ucast ((2 :: u64) ^ j - of_nat p) :: u32))) [] = (None, [])"
      by (rule c_fgets_end) (use fgets_size [of p j] p(1) less.prems(2) in simp)
    have "read_line_loop mem (os, buffer, cap, drop p t) (2 ^ j) (of_nat p)
        = Some (of_nat (length t), os, Some (grow mem b (2 ^ j)), 2 ^ j, [])"
      using os fg b(1) True unfolding read_line_loop.simps [of _ _ "2 ^ j"] os_malloc_def
      by (simp add: Let_def cap)
    moreover have "grow mem b (2 ^ j) ! p = 0" using b by (simp add: grow_def nth_append)
    ultimately show ?thesis using b True by (intro exI [of _ "grow mem b (2 ^ j)"]) simp
  next
    case False
    let ?l = "take ?n (drop p t)"
    have j28: "j \<le> 28" using less.prems(3) False by simp
    have ne: "drop p t \<noteq> []" using False p by simp
    have fg: "c_fgets (2 ^ j - p) (drop p t) = (Some ?l, drop ?n (drop p t))"
      by (subst c_fgets_read [where l = ?l]) (use take_line_plain [OF pl, of ?n] p(1) ne in \<open>auto simp: min_def\<close>)
    have len: "length ?l = min ?n (length t - p)" "?n > 0" using p by auto
    let ?q = "p + length ?l"
    obtain b where b: "length b = 2 ^ j" "take ?q b = take ?q t" "b ! ?q = 0"
      "read_line_loop mem (os, buffer, cap, drop p t) (2 ^ j) (of_nat p)
         = read_line_loop mem (os, Some b, 2 ^ j, drop ?n (drop p t)) (2 ^ Suc j) (of_nat ?q)"
    proof (rule read_line_round [OF less.prems(1) _ os fg, where l' = ?l and mem = mem and cap = cap])
      show "plain_text ?l" by (rule plain_text_take [OF pl])
      show "length ?l < 2 ^ j - p" "p + length ?l \<le> length t" using p unfolding len(1) by linarith+
      show "take (length ?l) (drop p t) = ?l" by (cases "length t - p \<le> ?n") (simp_all add: min_def)
      show "?l = ?l \<or> ?l = ?l @ [10]" by simp
    qed (use that j28 in auto)
    have q: "?q \<le> length t" "?q < 2 ^ j" "?q = length t \<or> ?q = 2 ^ j - 1" using len p by auto
    have part: "partial_line (Some b) t ?q (2 ^ Suc j)"
      using b(1-3) q by (simp add: partial_line_def)
    have dr: "drop ?n (drop p t) = drop ?q t" using len(1) p by (cases "?n \<le> length t - p") auto
    have fits: "Suc j \<le> 28 \<or> ?q = length t"
    proof (rule disjCI)
      assume "?q \<noteq> length t"
      then have "(2 :: nat) ^ j < 2 ^ 28" using q(1,3) t(2) by auto
      then show "Suc j \<le> 28" using power_strict_increasing_iff [of "2 :: nat" j 28] by simp
    qed
    show ?thesis unfolding b(4) dr by (rule less.hyps [OF _ part _ fits]) (use j28 in simp_all)
  qed
qed

text \<open>The line buffer between two calls: nothing yet, or a block of a power of two from 256 bytes.\<close>

definition line_buffer :: "bytes option \<Rightarrow> u64 \<Rightarrow> bool" where
  "line_buffer buffer cap \<longleftrightarrow>
     (buffer = None \<and> cap = 0) \<or> (\<exists>b j. buffer = Some b \<and> 8 \<le> j \<and> j \<le> 28 \<and> cap = 2 ^ j \<and> length b = 2 ^ j)"

lemma read_line_start:
  assumes "line_buffer buffer cap"
  obtains j where "8 \<le> j" "j \<le> 28" "partial_line buffer t 0 (2 ^ j)"
    "\<And>os input. read_line mem (os, buffer, cap, input) = read_line_loop mem (os, buffer, cap, input) (2 ^ j) (of_nat 0)"
    "\<And>b. buffer = Some b \<Longrightarrow> length b = 2 ^ j"
proof -
  obtain j where j: "8 \<le> j" "j \<le> 28" "buffer = None \<and> cap = 0 \<and> j = 8 \<or> (\<exists>b. buffer = Some b \<and> cap = 2 ^ j \<and> length b = 2 ^ j)"
    using assms by (auto simp: line_buffer_def)
  have mono: "(2 :: nat) ^ 8 \<le> 2 ^ j" "(2 :: nat) ^ j \<le> 2 ^ 28" using j(1,2) by (intro power_increasing; simp)+
  have "\<not> (2 :: u64) ^ j < 256" "\<not> (2 :: u64) ^ j > 268435456"
    using mono unat_power_u64 [of j] j(2) by (simp_all add: word_less_nat_alt)
  then have "read_line mem (os, buffer, cap, input) = read_line_loop mem (os, buffer, cap, input) (2 ^ j) (of_nat 0)" for os input
    using j(3) by (auto simp: read_line_def MINIMUM_CAPACITY_def MAXIMUM_CAPACITY_def)
  moreover have "partial_line buffer t 0 (2 ^ j)" using j(3) mono(1) by (auto simp: partial_line_def)
  ultimately show thesis using that j by blast
qed

lemma read_line_line:
  assumes "line_buffer buffer cap" "plain_text t" "length t + 2 \<le> 2 ^ m" "28 \<le> m" "m \<le> 29" "os_mallocs os = []"
  obtains b j where "read_line mem (os, buffer, cap, t @ 10 # rest) = Some (of_nat (length t), os, Some b, 2 ^ j, rest)"
    "8 \<le> j" "j \<le> m" "length b = 2 ^ j" "take (length t + 2) b = t @ [10, 0]"
proof -
  obtain j where j: "8 \<le> j" "j \<le> 28" "partial_line buffer t 0 (2 ^ j)"
    "\<And>os input. read_line mem (os, buffer, cap, input) = read_line_loop mem (os, buffer, cap, input) (2 ^ j) (of_nat 0)"
    by (rule read_line_start [OF assms(1), of t mem]) blast
  show thesis using read_line_loop_line [OF assms(2,3,5,6) j(3), of mem cap rest] j assms(4) that by auto
qed

lemma read_line_end:
  assumes "line_buffer buffer cap" "plain_text t" "length t + 2 \<le> 2 ^ 28" "os_mallocs os = []"
  obtains b cap' where "read_line mem (os, buffer, cap, t) = Some (of_nat (length t), os, Some b, cap', [])"
    "length t < length b" "t \<noteq> [] \<longrightarrow> b ! length t = 0"
    "t = [] \<longrightarrow> b ! 0 = (case buffer of None \<Rightarrow> mem 0 | Some b' \<Rightarrow> b' ! 0)"
proof -
  obtain j where j: "8 \<le> j" "j \<le> 28" "partial_line buffer t 0 (2 ^ j)"
    "\<And>os input. read_line mem (os, buffer, cap, input) = read_line_loop mem (os, buffer, cap, input) (2 ^ j) (of_nat 0)"
    "\<And>b. buffer = Some b \<Longrightarrow> length b = 2 ^ j"
    by (rule read_line_start [OF assms(1), of t mem]) blast
  show thesis
  proof (cases "t = []")
    case False
    then show thesis using read_line_loop_end [OF assms(2,3) False assms(4) j(3), of mem cap] j that by auto
  next
    case True
    let ?b = "grow mem (case buffer of None \<Rightarrow> [] | Some b \<Rightarrow> b) (2 ^ j)"
    have cap: "unat ((2 :: u64) ^ j) = 2 ^ j" using j(2) by (intro unat_power_u64) simp
    have fg: "c_fgets (nat (sint (ucast ((2 :: u64) ^ j - of_nat 0) :: u32))) [] = (None, [])"
      by (rule c_fgets_end) (use fgets_size [of 0 j] j(1,2) one_less_power [of "2 :: nat" j] in simp)
    have "read_line mem (os, buffer, cap, t) = Some (of_nat (length t), os, Some ?b, 2 ^ j, [])"
      unfolding j(4) read_line_loop.simps [of _ _ "2 ^ j"] os_malloc_def using assms(4) fg True
      by (simp add: Let_def cap)
    moreover have "?b ! 0 = (case buffer of None \<Rightarrow> mem 0 | Some b' \<Rightarrow> b' ! 0)" "length t < length ?b"
      using j(5) True by (auto simp: grow_def nth_append split: option.splits)
    ultimately show thesis using that True by blast
  qed
qed

section \<open>\<open>append\<close>\<close>

text \<open>A record of the input, the line that stands for it, and what makes it a record: no delimiter in the key.\<close>

fun record_line :: "byte \<Rightarrow> bytes \<times> bytes \<Rightarrow> bytes" where
  "record_line d (k, v) = k @ d # v"

fun record_shape :: "byte \<Rightarrow> bytes \<times> bytes \<Rightarrow> bool" where
  "record_shape d (k, v) \<longleftrightarrow> k \<noteq> [] \<and> v \<noteq> [] \<and> d \<notin> set k \<and> plain_text k \<and> plain_text v"

fun record_ok :: "byte \<Rightarrow> bytes \<times> bytes \<Rightarrow> bool" where
  "record_ok d (k, v) \<longleftrightarrow> record_shape d (k, v) \<and> length k + length v + 3 \<le> 2 ^ 28"

abbreviation "lines_of d rs \<equiv> concat (map (\<lambda>r. record_line d r @ [10]) rs)"

abbreviation "record_put r \<equiv> PutEntry (fst r) (snd r)"

text \<open>What the line buffer holds after \<open>read_line\<close> has found a line.\<close>

definition holds_line :: "bytes \<Rightarrow> bytes \<Rightarrow> bool" where
  "holds_line buf t \<longleftrightarrow> (\<exists>u. buf = t @ 10 # 0 # u)"

lemma holds_line_take: "take (length t + 2) b = t @ [10, 0] \<Longrightarrow> holds_line b t"
  unfolding holds_line_def by (intro exI [of _ "drop (length t + 2) b"])
    (metis append_Cons append_Nil append_assoc append_take_drop_id)

lemma append_line_record:
  assumes "record_shape d r" "plain_text [d]" "holds_line buf (record_line d r)"
  obtains buf' where "length buf' = length buf" "buf' ! 0 \<noteq> 10"
    "append_line lib d s buf = map_option (\<lambda>(returncode, s). (if returncode \<noteq> SPARKEY_SUCCESS then Some 1 else None, buf', s))
       (sparkey_logwriter_put lib s (fst r) (snd r))"
proof -
  obtain k v where r: "r = (k, v)" by (cases r)
  obtain u where b: "buf = k @ d # v @ 10 # 0 # u" using assms(3) by (auto simp: holds_line_def r)
  have d: "d \<noteq> 0" "d \<noteq> 10" using assms(2) by simp_all
  obtain k0 k1 where k: "k = k0 # k1" "k0 \<noteq> 0" "k0 \<noteq> d" "k0 \<noteq> 10" using assms(1) by (cases k) (auto simp: r)
  obtain v0 v1 where v: "v = v0 # v1" "v0 \<noteq> 0" "v0 \<noteq> 10" using assms(1) by (cases v) (auto simp: r)
  have pk: "0 \<notin> set k" "d \<notin> set k" and pv: "plain_text v" "0 \<notin> set v"
    using assms(1) by (auto simp: r plain_text_def)
  let ?b1 = "k @ 0 # v @ 10 # 0 # u" let ?b2 = "k @ 0 # v @ 0 # 0 # u"
  have "c_span [d] buf = Some 0" using k by (simp add: b)
  moreover have "buf ! 0 \<noteq> 0" using k by (simp add: b)
  moreover have "c_scan [d] buf = Some (length k)" unfolding b by (rule c_scan_stop) (use pk in auto)
  moreover have "buf ! length k = d" "buf[length k := 0] = ?b1" by (simp_all add: b list_update_append)
  ultimately have s1: "strtok [d] buf 0 = Some (Some 0, Suc (length k), ?b1)"
    using d by (simp add: strtok_def Let_def)
  have dr: "drop (Suc (length k)) ?b1 = v @ 10 # 0 # u" by simp
  have "?b1 ! Suc (length k) \<noteq> 0" using v by (simp add: nth_append)
  moreover have "c_span [10] (v @ 10 # 0 # u) = Some 0" using v by simp
  moreover have "c_scan [10] (v @ 10 # 0 # u) = Some (length v)" by (rule c_scan_line [OF pv(1)]) simp
  moreover have "?b1 ! (Suc (length k) + length v) = 10" "?b1[Suc (length k) + length v := 0] = ?b2"
    by (simp_all add: nth_append list_update_append)
  ultimately have s2: "strtok [10] ?b1 (Suc (length k)) = Some (Some (Suc (length k)), Suc (Suc (length k) + length v), ?b2)"
    by (simp add: strtok_def Let_def dr)
  have tw: "takeWhile (\<lambda>b. b \<noteq> 0) (t @ 0 # u') = t" if "0 \<notin> set t" for t u' :: bytes
    using that by (simp add: takeWhile_append)
  have key: "c_string ?b2 0 = k" using pk(1) by (simp add: c_string_def tw)
  have val: "c_string ?b2 (Suc (length k)) = v" using pv(2) by (simp add: c_string_def tw)
  show thesis
  proof
    show "length ?b2 = length buf" by (simp add: b)
    show "?b2 ! 0 \<noteq> 10" using k by simp
    show "append_line lib d s buf = map_option (\<lambda>(returncode, s). (if returncode \<noteq> SPARKEY_SUCCESS then Some 1 else None, ?b2, s))
       (sparkey_logwriter_put lib s (fst r) (snd r))"
      by (simp add: append_line_def s1 s2 key val r)
  qed
qed

text \<open>The log writer never uses up the script of allocations.\<close>

lemma writer_log_mallocs: "writer_log lib g0 os0 es (os, log) \<Longrightarrow> os_mallocs os = os_mallocs os0"
  by (auto simp: writer_log_def writer_inv_def sink_rep_def Let_def dest: os_frame_other(4))

lemma append_loop_records:
  assumes "writer_log lib g0 os0 es (os, log)" "\<forall>r \<in> set rs. record_ok d r \<and> entry_fits (lw_header log) (record_put r)"
    and "line_buffer buffer cap" "plain_text [d]" "os_mallocs os0 = []"
  shows "\<exists>os' log' buffer' cap'. append_loop lib mem d (os, log) buffer cap (lines_of d rs @ rest)
        = append_loop lib mem d (os', log') buffer' cap' rest
      \<and> write_entries lib (os, log) (map record_put rs) = Some (SPARKEY_SUCCESS, os', log')
      \<and> writer_log lib g0 os0 (es @ map record_put rs) (os', log') \<and> same_log log log' \<and> line_buffer buffer' cap'
      \<and> (if rs = [] then buffer' = buffer else buffer' \<noteq> None \<and> the buffer' ! 0 \<noteq> 10)"
  using assms
proof (induction rs arbitrary: es os log buffer cap)
  case (Cons r rs)
  have ok: "record_ok d r" and fits: "entry_fits (lw_header log) (record_put r)" using Cons.prems(2) by simp_all
  have pl: "plain_text (record_line d r)" "length (record_line d r) + 2 \<le> 2 ^ 28"
    using ok Cons.prems(4) by (cases r; simp)+
  have m: "os_mallocs os = []" using writer_log_mallocs [OF Cons.prems(1)] Cons.prems(5) by simp
  obtain b j where rd: "read_line mem (os, buffer, cap, record_line d r @ 10 # lines_of d rs @ rest)
      = Some (of_nat (length (record_line d r)), os, Some b, 2 ^ j, lines_of d rs @ rest)"
    "8 \<le> j" "j \<le> 28" "length b = 2 ^ j" "take (length (record_line d r) + 2) b = record_line d r @ [10, 0]"
    by (rule read_line_line [OF Cons.prems(3) pl _ _ m]) simp_all
  note hl = holds_line_take [OF rd(5)]
  have n: "unat (of_nat (length (record_line d r)) :: u64) = length (record_line d r)"
    using pl(2) by (intro unat_of_nat_u64) simp
  have at: "length (record_line d r) < length b" "b ! length (record_line d r) = 10"
    using hl by (auto simp: holds_line_def)
  obtain b' where b': "length b' = length b" "b' ! 0 \<noteq> 10"
    "append_line lib d (os, log) b = map_option (\<lambda>(returncode, s). (if returncode \<noteq> SPARKEY_SUCCESS then Some 1 else None, b', s))
       (sparkey_logwriter_put lib (os, log) (fst r) (snd r))"
    by (rule append_line_record [OF _ Cons.prems(4) hl]) (use ok in \<open>cases r; simp\<close>)
  obtain os1 log1 where put: "sparkey_logwriter_put lib (os, log) (fst r) (snd r) = Some (SPARKEY_SUCCESS, os1, log1)"
    "writer_log lib g0 os0 (es @ [record_put r]) (os1, log1)" "same_log log log1"
    by (rule logwriter_put_log [OF Cons.prems(1) fits])
  have step: "append_loop lib mem d (os, log) buffer cap (lines_of d (r # rs) @ rest)
      = append_loop lib mem d (os1, log1) (Some b') (2 ^ j) (lines_of d rs @ rest)"
    using rd(1) b'(3) put(1) at by (subst append_loop.simps) (simp add: append_step_def n)
  have lb: "line_buffer (Some b') (2 ^ j)" using rd(2-4) b'(1) by (auto simp: line_buffer_def)
  have "\<forall>r \<in> set rs. record_ok d r \<and> entry_fits (lw_header log1) (record_put r)"
    using Cons.prems(2) entry_fits_same [OF put(3)] by simp
  from Cons.IH [OF put(2) this lb Cons.prems(4,5)] obtain os2 log2 buffer2 cap2 where IH:
    "append_loop lib mem d (os1, log1) (Some b') (2 ^ j) (lines_of d rs @ rest) = append_loop lib mem d (os2, log2) buffer2 cap2 rest"
    "write_entries lib (os1, log1) (map record_put rs) = Some (SPARKEY_SUCCESS, os2, log2)"
    "writer_log lib g0 os0 ((es @ [record_put r]) @ map record_put rs) (os2, log2)" "same_log log1 log2" "line_buffer buffer2 cap2"
    "if rs = [] then buffer2 = Some b' else buffer2 \<noteq> None \<and> the buffer2 ! 0 \<noteq> 10"
    by blast
  show ?case
    using step IH put same_log_trans [OF put(3) IH(4)] b'(2) by (intro exI [of _ os2] exI [of _ log2] exI) (auto split: if_splits)
qed auto

text \<open>Everything behind the last newline is dropped, and the tool still reports success.\<close>

lemma append_loop_end:
  assumes b: "line_buffer buffer cap" and t: "plain_text t" "length t + 2 \<le> 2 ^ 28" and os: "os_mallocs os = []"
    and stale: "t = [] \<Longrightarrow> (case buffer of None \<Rightarrow> mem 0 | Some b \<Rightarrow> b ! 0) \<noteq> 10"
  shows "append_loop lib mem d (os, log) buffer cap t = Some (0, os, log)"
proof -
  obtain b cap' where rd: "read_line mem (os, buffer, cap, t) = Some (of_nat (length t), os, Some b, cap', [])"
    "length t < length b" "t \<noteq> [] \<longrightarrow> b ! length t = 0"
    "t = [] \<longrightarrow> b ! 0 = (case buffer of None \<Rightarrow> mem 0 | Some b' \<Rightarrow> b' ! 0)"
    by (rule read_line_end [OF b t os])
  have n: "unat (of_nat (length t) :: u64) = length t" using t(2) by (intro unat_of_nat_u64) simp
  have "b ! length t \<noteq> 10" using rd(3,4) stale by (cases "t = []") auto
  then show ?thesis using rd(1,2) by (subst append_loop.simps) (simp add: append_step_def n)
qed

text \<open>
  A record on a line of more than \<open>2^28\<close> bytes, the newline and the end mark included, is still put. But for it the
  buffer grows beyond \<open>MAXIMUM_CAPACITY\<close>, and from then on \<open>read_line\<close> reads nothing: the loop ends at once, and the
  rest of the input is not looked at.
\<close>

definition long_record :: "byte \<Rightarrow> bytes \<times> bytes \<Rightarrow> bool" where
  "long_record d r \<longleftrightarrow>
     record_shape d r \<and> 2 ^ 28 < length (fst r) + length (snd r) + 3 \<and> length (fst r) + length (snd r) + 3 \<le> 2 ^ 29"

lemma append_loop_long:
  assumes w: "writer_log lib g0 os0 es (os, log)" and r: "long_record d r" "entry_fits (lw_header log) (record_put r)"
    and b: "line_buffer buffer cap" and d: "plain_text [d]" and os: "os_mallocs os0 = []"
  obtains os1 log1 where "sparkey_logwriter_put lib (os, log) (fst r) (snd r) = Some (SPARKEY_SUCCESS, os1, log1)"
    "writer_log lib g0 os0 (es @ [record_put r]) (os1, log1)" "same_log log log1"
    "append_loop lib mem d (os, log) buffer cap (record_line d r @ 10 # rest) = Some (0, os1, log1)"
proof -
  let ?t = "record_line d r"
  have sh: "record_shape d r" using r(1) by (simp add: long_record_def)
  have pl: "plain_text ?t" "length ?t + 2 \<le> 2 ^ 29" "2 ^ 28 < length ?t + 2"
    using r(1) d by (cases r; simp add: long_record_def)+
  have m: "os_mallocs os = []" using writer_log_mallocs [OF w] os by simp
  obtain b j where rd: "read_line mem (os, buffer, cap, ?t @ 10 # rest) = Some (of_nat (length ?t), os, Some b, 2 ^ j, rest)"
    "j \<le> 29" "length b = 2 ^ j" "take (length ?t + 2) b = ?t @ [10, 0]"
    by (rule read_line_line [OF b pl(1,2) _ _ m]) simp_all
  note hl = holds_line_take [OF rd(4)]
  have "length ?t + 2 \<le> length b" using hl by (auto simp: holds_line_def)
  then have "(2 :: nat) ^ 28 < 2 ^ j" using rd(3) pl(3) by linarith
  then have "28 < j" using power_strict_increasing_iff [of "2 :: nat" 28 j] by simp
  then have j: "j = 29" using rd(2) by simp
  have n: "unat (of_nat (length ?t) :: u64) = length ?t" using pl(2) by (intro unat_of_nat_u64) simp
  have at: "length ?t < length b" "b ! length ?t = 10" using hl by (auto simp: holds_line_def)
  obtain b' where b': "length b' = length b" "b' ! 0 \<noteq> 10"
    "append_line lib d (os, log) b = map_option (\<lambda>(returncode, s). (if returncode \<noteq> SPARKEY_SUCCESS then Some 1 else None, b', s))
       (sparkey_logwriter_put lib (os, log) (fst r) (snd r))"
    by (rule append_line_record [OF sh d hl])
  obtain os1 log1 where put: "sparkey_logwriter_put lib (os, log) (fst r) (snd r) = Some (SPARKEY_SUCCESS, os1, log1)"
    "writer_log lib g0 os0 (es @ [record_put r]) (os1, log1)" "same_log log log1"
    by (rule logwriter_put_log [OF w r(2)])
  have "append_loop lib mem d (os, log) buffer cap (?t @ 10 # rest) = append_loop lib mem d (os1, log1) (Some b') (2 ^ 29) rest"
    using rd(1) b'(3) put(1) at j by (subst append_loop.simps) (simp add: append_step_def n)
  also have "\<dots> = Some (0, os1, log1)"
  proof -
    have "read_line mem (os1, Some b', 2 ^ 29, rest) = Some (0, os1, Some b', 2 ^ 29, rest)"
      by (simp add: read_line_def MINIMUM_CAPACITY_def MAXIMUM_CAPACITY_def)
    moreover have "b' \<noteq> []" using b'(1) at(1) by auto
    ultimately show ?thesis using b'(2) by (subst append_loop.simps) (simp add: append_step_def)
  qed
  finally show thesis by (rule that [OF put])
qed

text \<open>A line that is no record: without a delimiter, or with nothing behind it.\<close>

definition bad_line :: "byte \<Rightarrow> bytes \<Rightarrow> bool" where
  "bad_line d t \<longleftrightarrow> plain_text t \<and> length t + 2 \<le> 2 ^ 28 \<and> (d \<notin> set t \<or> (\<exists>k. t = k @ [d] \<and> d \<notin> set k))"

lemma append_line_bad:
  assumes "bad_line d t" "plain_text [d]" "holds_line buf t"
  obtains buf' where "append_line lib d s buf = Some (Some 1, buf', s)"
proof -
  obtain u where b: "buf = t @ 10 # 0 # u" using assms(3) by (auto simp: holds_line_def)
  have d: "d \<noteq> 0" "d \<noteq> 10" using assms(2) by simp_all
  have pt: "0 \<notin> set t" "10 \<notin> set t" using assms(1) by (simp_all add: bad_line_def plain_text_def)
  consider (none) "d \<notin> set t" | (empty) "t = [d]" | (no_value) k where "t = k @ [d]" "d \<notin> set k" "k \<noteq> []"
    using assms(1) by (auto simp: bad_line_def)
  then show thesis
  proof cases
    case none
    have "c_span [d] buf = Some 0" using none d by (cases t) (auto simp: b)
    moreover have "buf ! 0 \<noteq> 0" using pt by (cases t) (auto simp: b)
    moreover have "c_scan [d] ((t @ [10]) @ 0 # u) = Some (length (t @ [10]))"
      by (rule c_scan_stop) (use none d pt in auto)
    ultimately have "strtok [d] buf 0 = Some (Some 0, Suc (length t), buf)"
      by (simp add: strtok_def Let_def b nth_append)
    moreover have "strtok [10] buf (Suc (length t)) = Some (None, Suc (length t), buf)"
      by (simp add: strtok_def Let_def b nth_append)
    ultimately show thesis by (intro that [of buf]) (simp add: append_line_def)
  next
    case empty
    have "strtok [d] buf 0 = Some (Some 1, 2, buf)" "strtok [10] buf 2 = Some (None, 2, buf)"
      using d by (simp_all add: strtok_def Let_def b empty)
    then show thesis by (intro that [of buf]) (simp add: append_line_def)
  next
    case no_value
    let ?b1 = "k @ 0 # 10 # 0 # u"
    obtain k0 k1 where k: "k = k0 # k1" "k0 \<noteq> 0" "k0 \<noteq> d" using no_value pt by (cases k) auto
    have "c_scan [d] (k @ d # 10 # 0 # u) = Some (length k)"
      by (rule c_scan_stop) (use no_value pt in auto)
    moreover have "c_span [d] buf = Some 0" "buf ! 0 \<noteq> 0" using k by (simp_all add: b no_value)
    moreover have "buf ! length k = d" "buf[length k := 0] = ?b1" by (simp_all add: b no_value list_update_append nth_append)
    ultimately have "strtok [d] buf 0 = Some (Some 0, Suc (length k), ?b1)"
      using d by (simp add: strtok_def Let_def b no_value)
    moreover have "strtok [10] ?b1 (Suc (length k)) = Some (None, length k + 2, ?b1)"
      by (simp add: strtok_def Let_def nth_append)
    ultimately show thesis by (intro that [of ?b1]) (simp add: append_line_def)
  qed
qed

lemma append_loop_bad:
  assumes b: "line_buffer buffer cap" and t: "bad_line d t" and d: "plain_text [d]" and os: "os_mallocs os = []"
  shows "append_loop lib mem d (os, log) buffer cap (t @ 10 # rest) = Some (1, os, log)"
proof -
  have pl: "plain_text t" "length t + 2 \<le> 2 ^ 28" using t by (simp_all add: bad_line_def)
  obtain b j where rd: "read_line mem (os, buffer, cap, t @ 10 # rest) = Some (of_nat (length t), os, Some b, 2 ^ j, rest)"
    "take (length t + 2) b = t @ [10, 0]"
    by (rule read_line_line [OF b pl _ _ os]) simp_all
  note hl = holds_line_take [OF rd(2)]
  obtain b' where bad: "append_line lib d (os, log) b = Some (Some 1, b', os, log)"
    by (rule append_line_bad [OF t d hl])
  have n: "unat (of_nat (length t) :: u64) = length t" using pl(2) by (intro unat_of_nat_u64) simp
  have "length t < length b" "b ! length t = 10" using hl by (auto simp: holds_line_def)
  then show ?thesis using rd(1) bad by (subst append_loop.simps) (simp add: append_step_def n)
qed

lemma append_input_records:
  assumes w: "writer_log lib g0 os0 es (os, log)" and rs: "\<forall>r \<in> set rs. record_ok d r \<and> entry_fits (lw_header log) (record_put r)"
    and d: "plain_text [d]" and os: "os_mallocs os0 = []"
  obtains os' log' where "write_entries lib (os, log) (map record_put rs) = Some (SPARKEY_SUCCESS, os', log')"
    "writer_log lib g0 os0 (es @ map record_put rs) (os', log')" "same_log log log'"
    "plain_text t \<and> length t + 2 \<le> 2 ^ 28 \<and> (rs = [] \<and> t = [] \<longrightarrow> mem 0 \<noteq> 10)
       \<longrightarrow> append_input lib mem (os, log) d (lines_of d rs @ t) = Some (0, os', log')"
    "bad_line d t \<longrightarrow> append_input lib mem (os, log) d (lines_of d rs @ t @ 10 # rest) = Some (1, os', log')"
proof -
  have lb: "line_buffer None 0" by (simp add: line_buffer_def)
  note run = append_loop_records [OF w rs lb d os, of mem]
  have det: "os1 = os2 \<and> log1 = log2"
    if "write_entries lib (os, log) (map record_put rs) = Some (SPARKEY_SUCCESS, os1, log1)"
      "write_entries lib (os, log) (map record_put rs) = Some (SPARKEY_SUCCESS, os2, log2)" for os1 os2 log1 log2
    using that by simp
  obtain os' log' where W: "write_entries lib (os, log) (map record_put rs) = Some (SPARKEY_SUCCESS, os', log')"
    "writer_log lib g0 os0 (es @ map record_put rs) (os', log')" "same_log log log'"
    using run [of "[]"] by blast
  have m: "os_mallocs os' = []" using writer_log_mallocs [OF W(2)] os by simp
  have cont: "\<exists>buffer' cap'. append_input lib mem (os, log) d (lines_of d rs @ rest) = append_loop lib mem d (os', log') buffer' cap' rest
      \<and> line_buffer buffer' cap' \<and> (if rs = [] then buffer' = None else buffer' \<noteq> None \<and> the buffer' ! 0 \<noteq> 10)" for rest
    using run [of rest] det [OF W(1)] unfolding append_input_def by blast
  have good: "append_input lib mem (os, log) d (lines_of d rs @ t) = Some (0, os', log')"
    if t: "plain_text t" "length t + 2 \<le> 2 ^ 28" and "rs = [] \<and> t = [] \<longrightarrow> mem 0 \<noteq> 10"
  proof -
    obtain buffer' cap' where c: "append_input lib mem (os, log) d (lines_of d rs @ t) = append_loop lib mem d (os', log') buffer' cap' t"
      "line_buffer buffer' cap'" "if rs = [] then buffer' = None else buffer' \<noteq> None \<and> the buffer' ! 0 \<noteq> 10"
      using cont by blast
    have "(case buffer' of None \<Rightarrow> mem 0 | Some b \<Rightarrow> b ! 0) \<noteq> 10" if "t = []"
      using c(3) that \<open>rs = [] \<and> t = [] \<longrightarrow> mem 0 \<noteq> 10\<close> by (auto split: if_splits)
    then show ?thesis unfolding c(1) by (rule append_loop_end [OF c(2) t m])
  qed
  have bad: "append_input lib mem (os, log) d (lines_of d rs @ t @ 10 # rest) = Some (1, os', log')" if "bad_line d t"
    using cont [of "t @ 10 # rest"] append_loop_bad [OF _ that d m] by metis
  show thesis using that [OF W] good bad by blast
qed

lemma append_input_long:
  assumes w: "writer_log lib g0 os0 es (os, log)" and rs: "\<forall>r \<in> set rs. record_ok d r \<and> entry_fits (lw_header log) (record_put r)"
    and r: "long_record d r" "entry_fits (lw_header log) (record_put r)" and d: "plain_text [d]" and os: "os_mallocs os0 = []"
  obtains os' log' where "write_entries lib (os, log) (map record_put (rs @ [r])) = Some (SPARKEY_SUCCESS, os', log')"
    "append_input lib mem (os, log) d (lines_of d rs @ record_line d r @ 10 # rest) = Some (0, os', log')"
proof -
  have lb: "line_buffer None 0" by (simp add: line_buffer_def)
  obtain os1 log1 buffer1 cap1 where run: "append_loop lib mem d (os, log) None 0 (lines_of d rs @ record_line d r @ 10 # rest)
      = append_loop lib mem d (os1, log1) buffer1 cap1 (record_line d r @ 10 # rest)"
    "write_entries lib (os, log) (map record_put rs) = Some (SPARKEY_SUCCESS, os1, log1)"
    "writer_log lib g0 os0 (es @ map record_put rs) (os1, log1)" "same_log log log1" "line_buffer buffer1 cap1"
    using append_loop_records [OF w rs lb d os, of mem "record_line d r @ 10 # rest"] by blast
  have "entry_fits (lw_header log1) (record_put r)" using r(2) entry_fits_same [OF run(4)] by simp
  then obtain os2 log2 where put: "sparkey_logwriter_put lib (os1, log1) (fst r) (snd r) = Some (SPARKEY_SUCCESS, os2, log2)"
    "append_loop lib mem d (os1, log1) buffer1 cap1 (record_line d r @ 10 # rest) = Some (0, os2, log2)"
    by (rule append_loop_long [OF run(3) r(1) _ run(5) d os, where mem = mem and rest = rest]) blast
  have "write_entry lib (os1, log1) (record_put r) = Some (SPARKEY_SUCCESS, os2, log2)" using put(1) by simp
  then have "write_entries lib (os, log) (map record_put rs @ [record_put r]) = Some (SPARKEY_SUCCESS, os2, log2)"
    unfolding write_entries_append run(2) by (simp add: rethrow_def)
  moreover have "append_input lib mem (os, log) d (lines_of d rs @ record_line d r @ 10 # rest) = Some (0, os2, log2)"
    unfolding append_input_def run(1) by (rule put(2))
  ultimately show thesis by (intro that [of os2 log2]) (simp_all only: map_append list.map)
qed

text \<open>
  On an empty input the first byte of the buffer was never set. When the memory happens to hold newlines the
  code takes it for a line and looks for its end behind the buffer.
\<close>

lemma append_input_unset:
  assumes os: "os_mallocs os = []" and d: "d \<noteq> 10" "d \<noteq> 0"
  shows "append_input lib (\<lambda>_. 10) (os, log) d [] = None"
proof -
  let ?b = "replicate 256 10 :: bytes"
  have "read_line_loop (\<lambda>_. 10) (os, None, 0, []) 256 0 = Some (0, os, Some ?b, 256, [])"
    unfolding read_line_loop.simps [of _ _ 256] using os
    by (simp add: os_malloc_def Let_def grow_def c_fgets_end map_replicate_const)
  then have read: "read_line (\<lambda>_. 10) (os, None, 0, []) = Some (0, os, Some ?b, 256, [])"
    by (simp add: read_line_def MINIMUM_CAPACITY_def)
  have "c_scan [d] (replicate n 10) = None" for n by (induction n) (use d in auto)
  moreover have "c_span [d] ?b = Some 0" using d by (simp add: numeral_eq_Suc)
  ultimately have "strtok [d] ?b 0 = None" by (simp add: strtok_def)
  with read show ?thesis
    unfolding append_input_def by (subst append_loop.simps) (simp add: append_step_def append_line_def)
qed

end
