(* ===== verification/CliAppend.thy ===== *)
theory CliAppend
  imports Cli CliLines
begin

text \<open>
  \<open>appendlog\<close> from the command line to the file: every complete line of the standard input becomes a put entry at the
  end of the log.
\<close>

section \<open>Running \<open>appendlog\<close>\<close>

text \<open>The options select the delimiter \<open>d\<close> and the file.\<close>

definition appendlog_args :: "libc \<Rightarrow> string list \<Rightarrow> byte \<Rightarrow> string \<Rightarrow> bool" where
  "appendlog_args cl args d filename \<longleftrightarrow>
     (\<exists>options rest delimiter. lc_getopt cl ''d:'' args = (options, filename # rest)
        \<and> delimiter_option options (CHR 0x09) = Some delimiter \<and> d = of_char delimiter)"

lemma appendlog_run:
  assumes args: "appendlog_args cl args d filename"
    and ap: "sparkey_logwriter_append lib (junk_writer junk) os filename = (Inr log, os)"
    and run: "append_input lib (junk_bytes junk) (os, log) d stdin = Some (code, s)"
    and close: "sparkey_logwriter_close lib s = Some (SPARKEY_SUCCESS, os', writer)"
  shows "sparkey_main lib cl junk os stdin stdout (prog # ''appendlog'' # args) = Some (code, os', stdout)"
  using assms by (auto simp: sparkey_main_def appendlog_def appendlog_args_def)

text \<open>Appending to the file and closing it, with what \<open>append\<close> does in between.\<close>

lemma appendlog_session:
  assumes f: "log_file lib h gs (os_store os ! i)" "sparkey_load_logheader os filename = Inr h"
    and os: "os_names os filename = Some i" "i < length (os_store os)" "os_ready os filename"
    and len: "84 + length (log_data lib h gs) < 2 ^ 64"
    and es: "\<forall>e \<in> set es. entry_fits h e" and args: "appendlog_args cl args d filename"
    and run: "\<And>log. writer_log lib gs os (concat gs) (os, log) \<Longrightarrow> entry_fits (lw_header log) = entry_fits h \<Longrightarrow>
      \<exists>s. write_entries lib (os, log) es = Some (SPARKEY_SUCCESS, s) \<and> append_input lib (junk_bytes junk) (os, log) d stdin = Some (code, s)"
  shows "\<exists>os' h' gs'. sparkey_main lib cl junk os stdin stdout (prog # ''appendlog'' # args) = Some (code, os', stdout)
    \<and> concat gs' = concat gs @ es \<and> log_file lib h' gs' (os_store os' ! i)
    \<and> lh_file_identifier h' = lh_file_identifier h \<and> os_frame i os os'"
proof -
  obtain log where ap: "sparkey_logwriter_append lib (junk_writer junk) os filename = (Inr log, os)"
    and w: "writer_log lib gs os (concat gs) (os, log)" "fd_ino (lw_fd log) = Some i"
    and h: "lw_header log = (if sparkey_uses_compressor (lh_compression_type h) then h
       else h\<lparr>lh_compression_block_size := 0\<rparr>)"
    by (rule logwriter_append_log [OF f os len, where junk = "junk_writer junk"])
  have fits: "entry_fits (lw_header log) = entry_fits h" by (intro ext) (simp add: entry_fits_def h)
  obtain os1 log1 where ran: "write_entries lib (os, log) es = Some (SPARKEY_SUCCESS, os1, log1)"
    "append_input lib (junk_bytes junk) (os, log) d stdin = Some (code, os1, log1)"
    using run [OF w(1) fits] by force
  have "\<forall>e \<in> set es. entry_fits (lw_header log) e" using es fits by simp
  then obtain os' h' gs' where s: "write_session lib (Inr log, os) es = Some (SPARKEY_SUCCESS, os', None)"
    "concat gs' = concat gs @ es" "log_file lib h' gs' (os_store os' ! i)" "os_frame i os os'"
    "lh_file_identifier h' = lh_file_identifier (lw_header log)" "os_calm os'"
    by (rule write_session_log [OF w(1) _ w(2)])
  have close: "sparkey_logwriter_close lib (os1, log1) = Some (SPARKEY_SUCCESS, os', None)"
    using s(1) ran(1) by (simp add: write_session_def)
  show ?thesis using s appendlog_run [OF args ap ran(2) close] h by (auto split: if_splits)
qed

section \<open>A C library for the witnesses\<close>

text \<open>Options are pairs of a dash with a letter and an argument, in front of the other arguments.\<close>

fun simple_getopt :: "string list \<Rightarrow> getopt_event list \<times> string list" where
  "simple_getopt ([dash, c] # optarg # args) =
     (if dash = CHR ''-'' then case simple_getopt args of (es, rest) \<Rightarrow> (Option c optarg # es, rest)
      else ([], [dash, c] # optarg # args))"
| "simple_getopt args = ([], args)"

definition simple_libc :: libc where
  "simple_libc = \<lparr>lc_getopt = (\<lambda>_. simple_getopt), lc_sscanf_int = (\<lambda>_. None), lc_average = (\<lambda>_ _. ''0.00'')\<rparr>"

text \<open>A standard output that is closed.\<close>

abbreviation "null_stdout \<equiv> \<lparr>fd_ino = None, fd_off = 0\<rparr>"

lemma simple_appendlog_args: "appendlog_args simple_libc [''-d'', '','', ''a.spl''] 44 ''a.spl''"
  by (simp add: appendlog_args_def simple_libc_def)

lemma empty_log_ready:
  "os_ready (empty_log_os name) name" "os_names (empty_log_os name) name = Some 0" "0 < length (os_store (empty_log_os name))"
  by (simp_all add: empty_log_os_def fresh_os_def os_ready_def os_calm_def)

lemma empty_log_fits: "entry_ok e \<Longrightarrow> entry_fits empty_log_header e"
  by (simp add: entry_fits_def empty_log_header_def new_header_def sparkey_uses_compressor_def)

lemma long_line:
  assumes "n = (2 :: nat) ^ 28"
  shows "long_record 44 ([99], replicate n 120)" "entry_fits empty_log_header (record_put ([99], replicate n 120))"
proof -
  have n: "2 ^ 28 \<le> n" "n + 4 \<le> 2 ^ 29" using assms by simp_all
  then show "long_record 44 ([99], replicate n 120)" by (simp add: long_record_def plain_text_def)
  show "entry_fits empty_log_header (record_put ([99], replicate n 120))"
    using n by (intro empty_log_fits entry_ok_small) (simp add: entry_body_def)
qed

section \<open>Properties\<close>

text \<open>
  C14: \<open>sparkey appendlog\<close> with well-formed input. When no line, with its newline and the end mark, is longer than \<open>2^28\<close>
  bytes, every complete line "key, delimiter, value, newline" is put at the end of the log, in order, however often
  the line buffer has to grow; the process exits with 0 and no other file changes. What follows the last newline is
  dropped, also then with exit code 0. (When the input is empty the code looks at memory it has not set, so a
  premise about that byte is needed. What follows a longer line is lost, see below.)
\<close>

theorem appendlog_puts_records:
  assumes "log_file lib h gs (os_store os ! i)" "sparkey_load_logheader os filename = Inr h"
    and "os_names os filename = Some i" "i < length (os_store os)" "os_ready os filename"
    and "84 + length (log_data lib h gs) < 2 ^ 64"
    and "appendlog_args cl args d filename" "plain_text [d]"
    and "\<forall>r \<in> set rs. record_ok d r \<and> entry_fits h (record_put r)"
    and t: "plain_text t" "length t + 2 \<le> 2 ^ 28" "rs = [] \<and> t = [] \<longrightarrow> junk_bytes junk 0 \<noteq> 10"
  shows "\<exists>os' h' gs'.
      sparkey_main lib cl junk os (lines_of d rs @ t) stdout (prog # ''appendlog'' # args) = Some (0, os', stdout)
    \<and> concat gs' = concat gs @ map record_put rs \<and> log_file lib h' gs' (os_store os' ! i)
    \<and> lh_file_identifier h' = lh_file_identifier h \<and> os_frame i os os'"
proof (rule appendlog_session [OF assms(1-6) _ assms(7)])
  show "\<forall>e \<in> set (map record_put rs). entry_fits h e" using assms(9) by auto
  have m: "os_mallocs os = []" using assms(5) by (simp add: os_ready_def)
  fix log assume w: "writer_log lib gs os (concat gs) (os, log)" and fits: "entry_fits (lw_header log) = entry_fits h"
  have rs: "\<forall>r \<in> set rs. record_ok d r \<and> entry_fits (lw_header log) (record_put r)" using assms(9) fits by simp
  show "\<exists>s. write_entries lib (os, log) (map record_put rs) = Some (SPARKEY_SUCCESS, s)
      \<and> append_input lib (junk_bytes junk) (os, log) d (lines_of d rs @ t) = Some (0, s)"
    by (rule append_input_records [OF w rs assms(8) m, of t "junk_bytes junk"]) (use t in blast)
qed

theorem appendlog_puts_records_witness:
  "\<exists>os' h' gs'.
      sparkey_main store_lib simple_libc undefined (empty_log_os ''a.spl'') (lines_of 44 [([97], [98, 44])] @ [120]) null_stdout
        ([] # ''appendlog'' # [''-d'', '','', ''a.spl'']) = Some (0, os', null_stdout)
    \<and> concat gs' = concat [] @ map record_put [([97], [98, 44])] \<and> log_file store_lib h' gs' (os_store os' ! 0)
    \<and> lh_file_identifier h' = lh_file_identifier empty_log_header \<and> os_frame 0 (empty_log_os ''a.spl'') os'"
  by (rule appendlog_puts_records [OF empty_log_file empty_log_load empty_log_ready(2,3,1) _ simple_appendlog_args])
    (simp_all add: empty_log_fits entry_ok_small entry_body_def)

text \<open>
  C15: \<open>sparkey appendlog\<close> stops at the first line that is not a record, one without the delimiter or with an
  empty value, with exit code 1; the lines before it are in the log, the rest of the input is not looked at.
\<close>

theorem appendlog_bad_line:
  assumes "log_file lib h gs (os_store os ! i)" "sparkey_load_logheader os filename = Inr h"
    and "os_names os filename = Some i" "i < length (os_store os)" "os_ready os filename"
    and "84 + length (log_data lib h gs) < 2 ^ 64"
    and "appendlog_args cl args d filename" "plain_text [d]"
    and "\<forall>r \<in> set rs. record_ok d r \<and> entry_fits h (record_put r)" "bad_line d t"
  shows "\<exists>os' h' gs'.
      sparkey_main lib cl junk os (lines_of d rs @ t @ 10 # rest) stdout (prog # ''appendlog'' # args) = Some (1, os', stdout)
    \<and> concat gs' = concat gs @ map record_put rs \<and> log_file lib h' gs' (os_store os' ! i)
    \<and> lh_file_identifier h' = lh_file_identifier h \<and> os_frame i os os'"
proof (rule appendlog_session [OF assms(1-6) _ assms(7)])
  show "\<forall>e \<in> set (map record_put rs). entry_fits h e" using assms(9) by auto
  have m: "os_mallocs os = []" using assms(5) by (simp add: os_ready_def)
  fix log assume w: "writer_log lib gs os (concat gs) (os, log)" and fits: "entry_fits (lw_header log) = entry_fits h"
  have rs: "\<forall>r \<in> set rs. record_ok d r \<and> entry_fits (lw_header log) (record_put r)" using assms(9) fits by simp
  show "\<exists>s. write_entries lib (os, log) (map record_put rs) = Some (SPARKEY_SUCCESS, s)
      \<and> append_input lib (junk_bytes junk) (os, log) d (lines_of d rs @ t @ 10 # rest) = Some (1, s)"
    by (rule append_input_records [OF w rs assms(8) m, of t "junk_bytes junk"]) (use assms(10) in blast)
qed

theorem appendlog_bad_line_witness:
  "\<exists>os' h' gs'.
      sparkey_main store_lib simple_libc undefined (empty_log_os ''a.spl'') (lines_of 44 [([97], [98])] @ [99, 44] @ 10 # [7])
        null_stdout ([] # ''appendlog'' # [''-d'', '','', ''a.spl'']) = Some (1, os', null_stdout)
    \<and> concat gs' = concat [] @ map record_put [([97], [98])] \<and> log_file store_lib h' gs' (os_store os' ! 0)
    \<and> lh_file_identifier h' = lh_file_identifier empty_log_header \<and> os_frame 0 (empty_log_os ''a.spl'') os'"
  by (rule appendlog_bad_line [OF empty_log_file empty_log_load empty_log_ready(2,3,1) _ simple_appendlog_args])
    (simp_all add: empty_log_fits entry_ok_small entry_body_def bad_line_def)

text \<open>
  C38: \<open>sparkey appendlog\<close> drops what follows a long line. A record whose line, with its newline and the end mark, has
  more than \<open>2^28\<close> bytes (and at most \<open>2^29\<close>) is put, but it leaves a line buffer beyond the largest capacity
  \<open>read_line\<close> accepts: whatever the rest of the input is, further records included, it is not read, and the process
  exits with 0 as if all was well.
\<close>

theorem appendlog_drops_rest:
  assumes "log_file lib h gs (os_store os ! i)" "sparkey_load_logheader os filename = Inr h"
    and "os_names os filename = Some i" "i < length (os_store os)" "os_ready os filename"
    and "84 + length (log_data lib h gs) < 2 ^ 64"
    and "appendlog_args cl args d filename" "plain_text [d]"
    and "\<forall>r \<in> set rs. record_ok d r \<and> entry_fits h (record_put r)" "long_record d r" "entry_fits h (record_put r)"
  shows "\<exists>os' h' gs'.
      sparkey_main lib cl junk os (lines_of d rs @ record_line d r @ 10 # rest) stdout (prog # ''appendlog'' # args)
        = Some (0, os', stdout)
    \<and> concat gs' = concat gs @ map record_put (rs @ [r]) \<and> log_file lib h' gs' (os_store os' ! i)
    \<and> lh_file_identifier h' = lh_file_identifier h \<and> os_frame i os os'"
proof (rule appendlog_session [OF assms(1-6) _ assms(7)])
  show "\<forall>e \<in> set (map record_put (rs @ [r])). entry_fits h e" using assms(9,11) by auto
  have m: "os_mallocs os = []" using assms(5) by (simp add: os_ready_def)
  fix log assume w: "writer_log lib gs os (concat gs) (os, log)" and fits: "entry_fits (lw_header log) = entry_fits h"
  have rs: "\<forall>r \<in> set rs. record_ok d r \<and> entry_fits (lw_header log) (record_put r)" using assms(9) fits by simp
  have r: "entry_fits (lw_header log) (record_put r)" using assms(11) fits by simp
  show "\<exists>s. write_entries lib (os, log) (map record_put (rs @ [r])) = Some (SPARKEY_SUCCESS, s)
      \<and> append_input lib (junk_bytes junk) (os, log) d (lines_of d rs @ record_line d r @ 10 # rest) = Some (0, s)"
    by (rule append_input_long [OF w rs assms(10) r assms(8) m]) blast
qed

theorem appendlog_drops_rest_witness:
  "\<exists>os' h' gs'.
      sparkey_main store_lib simple_libc undefined (empty_log_os ''a.spl'')
        (lines_of 44 [([97], [98])] @ record_line 44 ([99], replicate (2 ^ 28) 120) @ 10 # lines_of 44 [([100], [101])]) null_stdout
        ([] # ''appendlog'' # [''-d'', '','', ''a.spl'']) = Some (0, os', null_stdout)
    \<and> concat gs' = concat [] @ map record_put ([([97], [98])] @ [([99], replicate (2 ^ 28) 120)])
    \<and> log_file store_lib h' gs' (os_store os' ! 0)
    \<and> lh_file_identifier h' = lh_file_identifier empty_log_header \<and> os_frame 0 (empty_log_os ''a.spl'') os'"
proof (rule appendlog_drops_rest [OF empty_log_file empty_log_load empty_log_ready(2,3,1) _ simple_appendlog_args])
  show "long_record 44 ([99], replicate (2 ^ 28) 120)" "entry_fits empty_log_header (record_put ([99], replicate (2 ^ 28) 120))"
    by (rule long_line [OF refl])+
qed (simp_all add: empty_log_fits entry_ok_small entry_body_def)

end
