(* ===== verification/CliRewrite.thy ===== *)
theory CliRewrite
  imports CliGet CliAppend
begin

text \<open>
  \<open>rewrite\<close>: the loop over all entries of a log, what it leaves in the new log, and the heap overflow it runs into.
\<close>

section \<open>One entry\<close>

text \<open>The loop puts every entry, also the deletes, which have an empty value.\<close>

definition as_put :: "log_entry \<Rightarrow> log_entry" where
  "as_put e = PutEntry (entry_key e) (entry_value e)"

lemma copy_to_buffer_fits:
  assumes "length data \<le> length buf"
  obtains buf' where "copy_to_buffer buf data = Some buf'" "length buf' = length buf" "take (length data) buf' = data"
  using assms that by (simp add: copy_to_buffer_def length_splice_at splice_at_def)

lemma rewrite_loop_step:
  assumes ok: "reader_ok lib log" and bf: "before lib log iter (e # es)" and w: "writer_log lib g0 os0 ds (os, writer)"
    and fits: "entry_fits (lw_header writer) (as_put e)"
    and bufs: "length (entry_key e) \<le> length keybuf" "length (entry_value e) \<le> length valuebuf"
  obtains os' writer' iter' keybuf' valuebuf' where
    "rewrite_loop lib log (os, writer) iter keybuf valuebuf = rewrite_loop lib log (os', writer') iter' keybuf' valuebuf'"
    "write_entry lib (os, writer) (as_put e) = Some (SPARKEY_SUCCESS, os', writer')"
    "writer_log lib g0 os0 (ds @ [as_put e]) (os', writer')" "same_log writer writer'" "before lib log iter' es"
    "length keybuf' = length keybuf" "length valuebuf' = length valuebuf"
proof -
  obtain iter1 where 1: "sparkey_logiter_next lib iter log = Some (SPARKEY_SUCCESS, iter1)"
    "active lib log iter1 e es (entry_key e) (entry_value e)"
    by (rule logiter_next_entry [OF ok bf])
  have len: "unat (it_keylen iter1) = length (entry_key e)"
    using active_lengths(1) [OF 1(2)] 1(2) by (simp add: active_def)
  obtain iter2 where 2: "sparkey_logiter_fill_key lib iter1 log (it_keylen iter1)
      = Some (SPARKEY_SUCCESS, take (unat (it_keylen iter1)) (entry_key e), iter2)"
    "active lib log iter2 e es (drop (unat (it_keylen iter1)) (entry_key e)) (entry_value e)"
    by (rule fill_key_active [OF ok 1(2)])
  have len2: "unat (it_valuelen iter2) = length (entry_value e)"
    using active_lengths(2) [OF 2(2)] 2(2) by (simp add: active_def)
  obtain iter3 rk where 3: "sparkey_logiter_fill_value lib iter2 log (it_valuelen iter2)
      = Some (SPARKEY_SUCCESS, take (unat (it_valuelen iter2)) (entry_value e), iter3)"
    "active lib log iter3 e es rk (drop (unat (it_valuelen iter2)) (entry_value e))"
    by (rule fill_value_active [OF ok 2(2)])
  obtain keybuf' where k: "copy_to_buffer keybuf (entry_key e) = Some keybuf'" "length keybuf' = length keybuf"
    "take (length (entry_key e)) keybuf' = entry_key e"
    by (rule copy_to_buffer_fits [OF bufs(1)])
  obtain valuebuf' where v: "copy_to_buffer valuebuf (entry_value e) = Some valuebuf'" "length valuebuf' = length valuebuf"
    "take (length (entry_value e)) valuebuf' = entry_value e"
    by (rule copy_to_buffer_fits [OF bufs(2)])
  obtain os' writer' where put: "write_entry lib (os, writer) (as_put e) = Some (SPARKEY_SUCCESS, os', writer')"
    "writer_log lib g0 os0 (ds @ [as_put e]) (os', writer')" "same_log writer writer'"
    by (rule write_entry_log [OF w fits])
  have "rewrite_loop lib log (os, writer) iter keybuf valuebuf = rewrite_loop lib log (os', writer') iter3 keybuf' valuebuf'"
    using 1(1) 2(1) 3(1) len len2 k v bufs put(1) active_state [OF 1(2)]
    by (subst rewrite_loop.simps)
      (simp add: sparkey_logiter_state_def sparkey_logiter_keylen_def sparkey_logiter_valuelen_def as_put_def)
  then show thesis using that put active_before [OF 3(2)] k(2) v(2) by blast
qed

lemma rewrite_loop_entries:
  assumes ok: "reader_ok lib log"
    and "before lib log iter es" "writer_log lib g0 os0 ds (os, writer)"
    and "\<forall>e \<in> set es. entry_fits (lw_header writer) (as_put e)
       \<and> length (entry_key e) \<le> length keybuf \<and> length (entry_value e) \<le> length valuebuf"
  shows "\<exists>os' writer'. rewrite_loop lib log (os, writer) iter keybuf valuebuf = Some (0, os', writer')
    \<and> write_entries lib (os, writer) (map as_put es) = Some (SPARKEY_SUCCESS, os', writer')"
  using assms(2-)
proof (induction es arbitrary: iter ds os writer keybuf valuebuf)
  case Nil
  obtain iter' where "sparkey_logiter_next lib iter log = Some (SPARKEY_SUCCESS, iter')" "it_state iter' = SPARKEY_ITER_CLOSED"
    by (rule logiter_next_end [OF ok Nil.prems(1)])
  then show ?case by (subst rewrite_loop.simps) (simp add: sparkey_logiter_state_def)
next
  case (Cons e es)
  obtain os1 writer1 iter1 keybuf1 valuebuf1 where st:
    "rewrite_loop lib log (os, writer) iter keybuf valuebuf = rewrite_loop lib log (os1, writer1) iter1 keybuf1 valuebuf1"
    "write_entry lib (os, writer) (as_put e) = Some (SPARKEY_SUCCESS, os1, writer1)"
    "writer_log lib g0 os0 (ds @ [as_put e]) (os1, writer1)" "same_log writer writer1" "before lib log iter1 es"
    "length keybuf1 = length keybuf" "length valuebuf1 = length valuebuf"
    by (rule rewrite_loop_step [OF ok Cons.prems(1,2), where keybuf = keybuf and valuebuf = valuebuf])
      (use Cons.prems(3) in auto)
  have "\<forall>e \<in> set es. entry_fits (lw_header writer1) (as_put e)
       \<and> length (entry_key e) \<le> length keybuf1 \<and> length (entry_value e) \<le> length valuebuf1"
    using Cons.prems(3) entry_fits_same [OF st(4)] st(6,7) by simp
  from Cons.IH [OF st(5,3) this] show ?case using st(1,2) by simp
qed

text \<open>A key that is longer than the buffer is copied behind its end.\<close>

lemma rewrite_loop_overflow:
  assumes ok: "reader_ok lib log"
    and "before lib log iter es" "writer_log lib g0 os0 ds (os, writer)"
    and "\<forall>e \<in> set es. entry_fits (lw_header writer) (as_put e) \<and> length (entry_value e) \<le> length valuebuf"
    and "\<exists>e \<in> set es. length keybuf < length (entry_key e)"
  shows "rewrite_loop lib log (os, writer) iter keybuf valuebuf = None"
  using assms(2-)
proof (induction es arbitrary: iter ds os writer keybuf valuebuf)
  case (Cons e es)
  show ?case
  proof (cases "length keybuf < length (entry_key e)")
    case True
    obtain iter1 where 1: "sparkey_logiter_next lib iter log = Some (SPARKEY_SUCCESS, iter1)"
      "active lib log iter1 e es (entry_key e) (entry_value e)"
      by (rule logiter_next_entry [OF ok Cons.prems(1)])
    have len: "unat (it_keylen iter1) = length (entry_key e)"
      using active_lengths(1) [OF 1(2)] 1(2) by (simp add: active_def)
    obtain iter2 where 2: "sparkey_logiter_fill_key lib iter1 log (it_keylen iter1)
        = Some (SPARKEY_SUCCESS, take (unat (it_keylen iter1)) (entry_key e), iter2)"
      by (rule fill_key_active [OF ok 1(2)])
    have "copy_to_buffer keybuf (entry_key e) = None" using True by (simp add: copy_to_buffer_def)
    then show ?thesis
      using 1(1) 2 len active_state [OF 1(2)]
      by (subst rewrite_loop.simps) (simp add: sparkey_logiter_state_def sparkey_logiter_keylen_def)
  next
    case False
    obtain os1 writer1 iter1 keybuf1 valuebuf1 where st:
      "rewrite_loop lib log (os, writer) iter keybuf valuebuf = rewrite_loop lib log (os1, writer1) iter1 keybuf1 valuebuf1"
      "writer_log lib g0 os0 (ds @ [as_put e]) (os1, writer1)" "same_log writer writer1" "before lib log iter1 es"
      "length keybuf1 = length keybuf" "length valuebuf1 = length valuebuf"
      by (rule rewrite_loop_step [OF ok Cons.prems(1,2), where keybuf = keybuf and valuebuf = valuebuf])
        (use Cons.prems(3) False in auto)
    have "\<forall>e \<in> set es. entry_fits (lw_header writer1) (as_put e) \<and> length (entry_value e) \<le> length valuebuf1"
      using Cons.prems(3) entry_fits_same [OF st(3)] st(6) by simp
    from Cons.IH [OF st(4,2) this] show ?thesis using st(1,5) Cons.prems(4) False by auto
  qed
qed simp

section \<open>The input\<close>

lemma logiter_create_mallocs:
  assumes "os_mallocs os1 = []" "os_mallocs os2 = []" "sparkey_logiter_create junk os1 log = (Inr iter, os1)"
  shows "sparkey_logiter_create junk os2 log = (Inr iter, os2)"
  using assms by (auto simp: sparkey_logiter_create_def Let_def split: if_splits)

text \<open>A log that was indexed by \<open>writehash\<close>, opened again.\<close>

lemma indexed_input:
  assumes f: "indexable_file lib lh gs c" and os: "os_indexes os (inb @ ''.spi'') (inb @ ''.spl'') c"
    and old: "old_index os (inb @ ''.spi'') (lh\<lparr>lh_header_size := LOG_HEADER_SIZE\<rparr>) = None"
    and w: "writehash lib junk os (inb @ ''.spi'') (inb @ ''.spl'') = Some (0, os1)"
  obtains d ws reader iter where "os1 = with_index os (inb @ ''.spi'') d ws" "list_all write_retryable ws"
    "sparkey_hash_open (junk_hashreader junk) os1 (inb @ ''.spi'') (inb @ ''.spl'') = (Inr reader, os1)"
    "reader_ok lib (hr_log reader)" "lr_header (hr_log reader) = lh\<lparr>lh_header_size := LOG_HEADER_SIZE\<rparr>"
    "\<forall>os2. os_mallocs os2 = [] \<longrightarrow> sparkey_logiter_create (junk_iter junk) os2 (hr_log reader) = (Inr iter, os2)"
    "before lib (hr_log reader) iter (concat gs)"
proof -
  have o: "os_open_read os (inb @ ''.spl'') = Inr c" "os_mallocs os = []" "os_mmap_ok os"
    using os by (simp_all add: os_indexes_def)
  obtain log where log: "\<And>junk. sparkey_logreader_open_noalloc os junk (inb @ ''.spl'') = Inr log" "reader_ok lib log"
    "lr_header log = lh\<lparr>lh_header_size := LOG_HEADER_SIZE\<rparr>"
    "\<And>junk. \<exists>iter. sparkey_logiter_create junk os log = (Inr iter, os) \<and> before lib log iter (concat gs)"
    by (rule indexable_reader [OF f o(1,3,2)]) blast
  obtain log' ws hh t M where "\<forall>junk. sparkey_logreader_open_noalloc os junk (inb @ ''.spl'') = Inr log'"
    and wr: "writehash lib junk os (inb @ ''.spi'') (inb @ ''.spl'')
      = Some (0, with_index os (inb @ ''.spi'') (hashheader_bytes hh @ t) ws)" "list_all write_retryable ws"
    "index_for lib lh (concat gs) log' hh t M"
    by (rule writehash_new [OF f os old, of junk])
  then have "log' = log" using log(1) by (metis sum.inject(2))
  note wr = wr [unfolded this]
  have os1: "os1 = with_index os (inb @ ''.spi'') (hashheader_bytes hh @ t) ws" using w wr(1) by simp
  obtain reader where rd: "sparkey_hash_open (junk_hashreader junk) os1 (inb @ ''.spi'') (inb @ ''.spl'') = (Inr reader, os1)"
    "reads_index lib reader M" "hr_header reader = hh\<lparr>hh_header_size := HASH_HEADER_SIZE\<rparr>" "hr_log reader = log"
    unfolding os1 by (rule index_opens [OF f os log(1) wr(3)])
  obtain iter where it: "sparkey_logiter_create (junk_iter junk) os log = (Inr iter, os)" "before lib log iter (concat gs)"
    using log(4) by blast
  then show thesis
    using that [OF os1 wr(2) rd(1), of iter] rd(4) log(2,3) logiter_create_mallocs [OF o(2) _ it(1)] by simp
qed

lemma max_length_ge: "x \<in> set xs \<Longrightarrow> length x \<le> max_length xs"
  by (induction xs) auto

lemma log_value_length:
  assumes "log_file lib h gs c" "e \<in> set (concat gs)"
  shows "length (entry_value e) \<le> unat (lh_max_value_len h)"
proof (cases "is_put e")
  case True
  then have "entry_value e \<in> set (map entry_value (filter is_put (concat gs)))" using assms(2) by auto
  then show ?thesis using assms(1) max_length_ge unfolding log_file_def header_counts_def by metis
next
  case False
  then show ?thesis by (cases e) simp_all
qed

section \<open>The output\<close>

lemma writer_close_file:
  assumes w: "writer_log lib g0 os0 es (os, log)" and i: "fd_ino (lw_fd log) = Some i"
  obtains os' h gs where "sparkey_logwriter_close lib (os, log) = Some (SPARKEY_SUCCESS, os', None)" "concat gs = es"
    "log_file lib h gs (os_store os' ! i)" "os_frame i os0 os'" "os_calm os'"
    "lh_compression_type h = lh_compression_type (lw_header log)"
proof -
  obtain os2 log2 gs where 2: "sparkey_logwriter_flush lib (os, log) = Some (SPARKEY_SUCCESS, os2, log2)"
    "writer_log lib g0 os0 es (os2, log2)" "same_log log log2"
    "concat gs = es" "log_file lib (lw_header log2) gs (fd_content os2 (lw_fd log2))" "take (length g0) gs = g0"
    by (rule logwriter_flush_file [OF w])
  have ino: "fd_ino (lw_fd log2) = Some i" using 2(3) i by (simp add: same_log_def)
  have "lw_open_status log = MAGIC_VALUE_LOGWRITER"
    using w by (auto simp: writer_log_def writer_inv_def Let_def)
  then have run: "sparkey_logwriter_close lib (os, log) = Some (SPARKEY_SUCCESS, os2, None)"
    using 2(1) by (simp add: sparkey_logwriter_close_def)
  have "os_frame i os0 os2" "os_calm os2"
    using 2(2) ino by (auto simp: writer_log_def writer_inv_def sink_rep_def sink_inv_def Let_def)
  moreover have "log_file lib (lw_header log2) gs (os_store os2 ! i)" using 2(5) ino by (simp add: fd_content_def)
  ultimately show thesis
    by (intro that [OF run 2(4), of "lw_header log2"]) (use 2(3) in \<open>simp_all add: same_log_def\<close>)
qed

text \<open>Creating a log changes only the names, the new file and the script of the writes.\<close>

lemma logwriter_create_env:
  assumes "os_ready os filename" "sparkey_uses_compressor t \<Longrightarrow> \<not> sint n < 10"
    and "sparkey_logwriter_create lib junk os filename t n = (Inr log, os')"
  shows "os_remove_err os' = os_remove_err os" "os_urandom os' = os_urandom os"
    "os_urandom os = Some (lh_file_identifier (lw_header log))" "lh_max_entries_per_block (lw_header log) = 0"
proof -
  obtain os2 log2 ident ws where "sparkey_logwriter_create lib junk os filename t n = (Inr log2, os2)"
    "os_urandom os = Some ident"
    "lw_header log2 = new_header (lw_header junk) t (if sparkey_uses_compressor t then n else 0) ident"
    "os2 = (fresh_file os filename)\<lparr>os_store := os_store os @ [logheader_bytes (lw_header log2)], os_writes := ws\<rparr>"
    "list_all write_retryable ws"
    "lw_fd log2 = \<lparr>fd_ino = Some (length (os_store os)), fd_off = 84\<rparr>"
    "lw_file_buf log2 = \<lparr>buf_data = [], buf_cap = 1024 * 1024\<rparr>"
    "lw_block_buf log2 = \<lparr>buf_data = [], buf_cap = unat (if sparkey_uses_compressor t then n else 0)\<rparr>"
    "lw_entry_count log2 = 0" "lw_open_status log2 = MAGIC_VALUE_LOGWRITER"
    "sparkey_uses_compressor t \<longrightarrow> lw_compressed log2
       \<and> lw_max_compressed_size log2 = max_compressed_size (the (sparkey_compressors lib t)) n"
    by (rule logwriter_create_run [OF assms(1,2), where junk = junk and lib = lib])
  then show "os_remove_err os' = os_remove_err os" "os_urandom os' = os_urandom os"
    "os_urandom os = Some (lh_file_identifier (lw_header log))" "lh_max_entries_per_block (lw_header log) = 0"
    using assms(3) by (simp_all add: fresh_file_def new_header_def)
qed

section \<open>The command\<close>

text \<open>The options and the names of the two indexes.\<close>

definition rewrite_args :: "libc \<Rightarrow> string list \<Rightarrow> u32 \<times> sparkey_compression_type option \<Rightarrow> string \<Rightarrow> string \<Rightarrow> bool" where
  "rewrite_args cl args opts inb outb \<longleftrightarrow>
     (\<exists>options rest. lc_getopt cl ''b:c:'' args = (options, (inb @ ''.spi'') # (outb @ ''.spi'') # rest)
        \<and> block_options cl options (-1, None) = Some opts)
     \<and> inb \<noteq> outb \<and> length inb + 4 \<le> 10000 \<and> length outb + 4 \<le> 10000"

text \<open>The parameters of the new log.\<close>

definition rewrite_type :: "sparkey_logheader \<Rightarrow> u32 \<times> sparkey_compression_type option \<Rightarrow> sparkey_compression_type" where
  "rewrite_type lh opts = (case snd opts of None \<Rightarrow> lh_compression_type lh | Some t \<Rightarrow> t)"

definition rewrite_block_size :: "sparkey_logheader \<Rightarrow> u32 \<times> sparkey_compression_type option \<Rightarrow> u32" where
  "rewrite_block_size lh opts = (if sint (fst opts) = -1 then lh_compression_block_size lh else fst opts)"

lemma rewrite_run:
  assumes "rewrite_args cl args opts inb outb" "os_mallocs os = []"
  shows "sparkey_main lib cl junk os stdin stdout (prog # ''rewrite'' # args)
    = map_option (\<lambda>(rc, os). (rc, os, stdout))
        (rewrite_files lib junk os opts (inb @ ''.spi'') (inb @ ''.spl'') (outb @ ''.spi'') (outb @ ''.spl''))"
  using assms
  by (auto simp: sparkey_main_def rewrite_def rewrite_args_def os_malloc_def sparkey_create_log_filename_def create_filename_suffix)

text \<open>Everything up to the loop.\<close>

lemma rewrite_start:
  assumes lib: "codec_ok lib" and m: "os_mallocs os = []"
    and rd: "sparkey_hash_open (junk_hashreader junk) os hf lf = (Inr reader, os)" "lr_header (hr_log reader) = lh\<lparr>lh_header_size := n\<rparr>"
    and it: "\<forall>os2. os_mallocs os2 = [] \<longrightarrow> sparkey_logiter_create (junk_iter junk) os2 (hr_log reader) = (Inr iter, os2)"
    and out: "os_ready os olf" "sparkey_uses_compressor (rewrite_type lh opts) \<Longrightarrow> \<not> sint (rewrite_block_size lh opts) < 10"
  obtains os2 writer keybuf valuebuf where
    "rewrite_files lib junk os opts hf lf ohf olf
       = Option.bind (rewrite_loop lib (hr_log reader) (os2, writer) iter keybuf valuebuf) (\<lambda>(rc, s).
         if rc \<noteq> 0 then Some (rc, fst s)
         else assert_rc (sparkey_logwriter_close lib s) fst (\<lambda>s. writehash lib junk (fst s) ohf olf))"
    "length keybuf = unat (lh_max_key_len lh)" "length valuebuf = unat (lh_max_value_len lh)"
    "writer_log lib [] os2 [] (os2, writer)" "fd_ino (lw_fd writer) = Some (length (os_store os))"
    "lh_compression_type (lw_header writer) = rewrite_type lh opts"
    "lh_compression_block_size (lw_header writer)
       = (if sparkey_uses_compressor (rewrite_type lh opts) then rewrite_block_size lh opts else 0)"
    "os_names os2 = (os_names os)(olf \<mapsto> length (os_store os))" "length (os_store os2) = Suc (length (os_store os))"
    "os_open_err os2 = os_open_err os" "os_mallocs os2 = []" "os_mmap_ok os2 = os_mmap_ok os"
    "os_remove_err os2 = os_remove_err os" "os_urandom os2 = os_urandom os"
proof -
  let ?t = "rewrite_type lh opts" let ?n = "rewrite_block_size lh opts"
  obtain os2 writer where cr: "sparkey_logwriter_create lib (junk_writer junk) os olf ?t ?n = (Inr writer, os2)"
    and w: "writer_log lib [] os2 [] (os2, writer)" and "header_versions (lw_header writer) \<longleftrightarrow> ?t \<le> SPARKEY_COMPRESSION_ZSTD"
    and ty: "lh_compression_type (lw_header writer) = ?t"
      "lh_compression_block_size (lw_header writer) = (if sparkey_uses_compressor ?t then ?n else 0)"
    and ino: "fd_ino (lw_fd writer) = Some (length (os_store os))"
    and fs: "os_names os2 = (os_names os)(olf \<mapsto> length (os_store os))"
      "os_store os2 = os_store os @ [logheader_bytes (lw_header writer)]"
    and same: "os_open_err os2 = os_open_err os" "os_mallocs os2 = os_mallocs os" "os_mmap_ok os2 = os_mmap_ok os"
    by (rule logwriter_create_log [OF lib out, where junk = "junk_writer junk"])
  note env = logwriter_create_env [OF out cr]
  let ?kb = "map (junk_bytes junk) [0..<unat (lh_max_key_len lh)]"
  let ?vb = "map (junk_bytes junk) [0..<unat (lh_max_value_len lh)]"
  have bufs: "malloc_bytes junk os2 (sparkey_logreader_maxkeylen (hr_log reader)) = (?kb, os2)"
    "malloc_bytes junk os2 (sparkey_logreader_maxvaluelen (hr_log reader)) = (?vb, os2)"
    using same(2) m rd(2)
    by (simp_all add: malloc_bytes_def os_malloc_def sparkey_logreader_maxkeylen_def sparkey_logreader_maxvaluelen_def)
  have p: "(case snd opts of None \<Rightarrow> sparkey_logreader_get_compression_type (hr_log reader) | Some t \<Rightarrow> t) = ?t"
    "(if sint (fst opts) = -1 then sparkey_logreader_get_compression_blocksize (hr_log reader) else fst opts) = ?n"
    using rd(2) by (simp_all add: rewrite_type_def rewrite_block_size_def sparkey_logreader_get_compression_type_def
        sparkey_logreader_get_compression_blocksize_def split: option.splits)
  have "rewrite_files lib junk os opts hf lf ohf olf
      = Option.bind (rewrite_loop lib (hr_log reader) (os2, writer) iter ?kb ?vb) (\<lambda>(rc, s).
        if rc \<noteq> 0 then Some (rc, fst s)
        else assert_rc (sparkey_logwriter_close lib s) fst (\<lambda>s. writehash lib junk (fst s) ohf olf))"
    using rd(1) cr it same(2) m bufs p by (simp add: rewrite_files_def sparkey_hash_getreader_def Let_def)
  then show thesis using that [where keybuf = ?kb and valuebuf = ?vb] w ty ino fs same env m by simp
qed

text \<open>What a rewrite needs of the environment, and of the entries in view of the new block size.\<close>

definition rewrite_env :: "os \<Rightarrow> string \<Rightarrow> bool" where
  "rewrite_env os outb \<longleftrightarrow>
     os_ready os (outb @ ''.spl'') \<and> os_open_err os (outb @ ''.spi'') = None \<and> os_remove_err os (outb @ ''.spi'') = None
     \<and> os_names os (outb @ ''.spi'') = None"

definition rewritable :: "sparkey_logheader \<Rightarrow> u32 \<times> sparkey_compression_type option \<Rightarrow> log_entry list \<Rightarrow> bool" where
  "rewritable lh opts es \<longleftrightarrow>
     (sparkey_uses_compressor (rewrite_type lh opts) \<longrightarrow> \<not> sint (rewrite_block_size lh opts) < 10)
     \<and> (\<forall>e \<in> set es. entry_ok (as_put e)
          \<and> (sparkey_uses_compressor (rewrite_type lh opts)
               \<longrightarrow> length (entry_head (as_put e)) \<le> unat (rewrite_block_size lh opts)))"

lemma new_name_no_index: "os_names os hf = None \<Longrightarrow> old_index os hf h = None"
  by (simp add: old_index_def sparkey_load_hashheader_def os_open_read_def os_content_def split: option.splits)

text \<open>The run of \<open>main\<close> up to the loop, and what is known about any state that differs in the new file only.\<close>

lemma rewrite_prefix:
  assumes f: "indexable_file lib lh gs c" and os: "os_indexes os (inb @ ''.spi'') (inb @ ''.spl'') c"
    and old: "old_index os (inb @ ''.spi'') (lh\<lparr>lh_header_size := LOG_HEADER_SIZE\<rparr>) = None"
    and lib: "codec_ok lib" and env: "rewrite_env os outb" and args: "rewrite_args cl args opts inb outb"
    and wh: "sparkey_main lib cl junk os stdin stdout [prog, ''writehash'', inb @ ''.spl''] = Some (0, os1, stdout)"
    and ents: "rewritable lh opts (concat gs)"
  obtains os2 writer iter keybuf valuebuf i and reader :: sparkey_hashreader where
    "sparkey_main lib cl junk os1 stdin stdout (prog # ''rewrite'' # args) = map_option (\<lambda>(rc, os). (rc, os, stdout))
       (Option.bind (rewrite_loop lib (hr_log reader) (os2, writer) iter keybuf valuebuf) (\<lambda>(rc, s).
         if rc \<noteq> 0 then Some (rc, fst s)
         else assert_rc (sparkey_logwriter_close lib s) fst (\<lambda>s. writehash lib junk (fst s) (outb @ ''.spi'') (outb @ ''.spl''))))"
    "reader_ok lib (hr_log reader)" "before lib (hr_log reader) iter (concat gs)" "length keybuf = unat (lh_max_key_len lh)"
    "writer_log lib [] os2 [] (os2, writer)" "fd_ino (lw_fd writer) = Some i"
    "lh_compression_type (lw_header writer) = rewrite_type lh opts"
    "\<forall>e \<in> set (concat gs). entry_fits (lw_header writer) (as_put e) \<and> length (entry_value e) \<le> length valuebuf"
    "\<forall>os'. os_frame i os2 os' \<and> os_calm os' \<longrightarrow> os_content os' (outb @ ''.spl'') = Some (os_store os' ! i)
       \<and> os_indexes os' (outb @ ''.spi'') (outb @ ''.spl'') (os_store os' ! i) \<and> (\<forall>h'. old_index os' (outb @ ''.spi'') h' = None)"
proof -
  let ?i = "length (os_store os1)"
  have m: "os_mallocs os = []" "os_mmap_ok os" using os by (simp_all add: os_indexes_def)
  have a: "inb \<noteq> outb" "length inb + 4 \<le> 10000" using args by (simp_all add: rewrite_args_def)
  have wh': "writehash lib junk os (inb @ ''.spi'') (inb @ ''.spl'') = Some (0, os1)"
    using wh writehash_run [OF a(2) m(1)] by auto
  obtain d ws reader iter where in1: "os1 = with_index os (inb @ ''.spi'') d ws" "list_all write_retryable ws"
    "sparkey_hash_open (junk_hashreader junk) os1 (inb @ ''.spi'') (inb @ ''.spl'') = (Inr reader, os1)"
    "reader_ok lib (hr_log reader)" "lr_header (hr_log reader) = lh\<lparr>lh_header_size := LOG_HEADER_SIZE\<rparr>"
    "\<forall>os2. os_mallocs os2 = [] \<longrightarrow> sparkey_logiter_create (junk_iter junk) os2 (hr_log reader) = (Inr iter, os2)"
    "before lib (hr_log reader) iter (concat gs)"
    by (rule indexed_input [OF f os old wh'])
  have m1: "os_mallocs os1 = []" "os_mmap_ok os1" using in1(1) m by simp_all
  have out: "os_ready os1 (outb @ ''.spl'')"
    using env in1(1,2) by (simp add: rewrite_env_def os_ready_with_index)
  obtain os2 writer keybuf valuebuf where st:
    "rewrite_files lib junk os1 opts (inb @ ''.spi'') (inb @ ''.spl'') (outb @ ''.spi'') (outb @ ''.spl'')
       = Option.bind (rewrite_loop lib (hr_log reader) (os2, writer) iter keybuf valuebuf) (\<lambda>(rc, s).
         if rc \<noteq> 0 then Some (rc, fst s)
         else assert_rc (sparkey_logwriter_close lib s) fst (\<lambda>s. writehash lib junk (fst s) (outb @ ''.spi'') (outb @ ''.spl'')))"
    "length keybuf = unat (lh_max_key_len lh)" "length valuebuf = unat (lh_max_value_len lh)"
    "writer_log lib [] os2 [] (os2, writer)" "fd_ino (lw_fd writer) = Some ?i"
    "lh_compression_type (lw_header writer) = rewrite_type lh opts"
    "lh_compression_block_size (lw_header writer)
       = (if sparkey_uses_compressor (rewrite_type lh opts) then rewrite_block_size lh opts else 0)"
    "os_names os2 = (os_names os1)(outb @ ''.spl'' \<mapsto> ?i)" "length (os_store os2) = Suc ?i"
    "os_open_err os2 = os_open_err os1" "os_mallocs os2 = []" "os_mmap_ok os2 = os_mmap_ok os1"
    "os_remove_err os2 = os_remove_err os1" "os_urandom os2 = os_urandom os1"
    by (rule rewrite_start [OF lib m1(1) in1(3,5,6) out, where opts = opts]) (use ents in \<open>simp add: rewritable_def\<close>)
  have fits: "\<forall>e \<in> set (concat gs). entry_fits (lw_header writer) (as_put e) \<and> length (entry_value e) \<le> length valuebuf"
    using ents log_value_length [of lib lh gs c] f st(3,6,7)
    by (auto simp: entry_fits_def rewritable_def indexable_file_def)
  have e1: "os_open_err os1 = os_open_err os" "os_remove_err os1 = os_remove_err os" "os_urandom os1 = os_urandom os"
    "os_names os1 (outb @ ''.spi'') = None"
    using in1(1) env a(1) by (simp_all add: with_index_def rewrite_env_def)
  have fr: "os_content os' (outb @ ''.spl'') = Some (os_store os' ! ?i)
      \<and> os_indexes os' (outb @ ''.spi'') (outb @ ''.spl'') (os_store os' ! ?i) \<and> (\<forall>h'. old_index os' (outb @ ''.spi'') h' = None)"
    if "os_frame ?i os2 os'" "os_calm os'" for os'
  proof -
    note o = os_frame_other [OF that(1)]
    have "os_content os' (outb @ ''.spl'') = Some (os_store os' ! ?i)" using o(1) st(8) by (simp add: os_content_def)
    then show ?thesis
      using env o st(8-14) that(2) e1 m1 new_name_no_index [of os' "outb @ ''.spi''"]
      by (simp add: os_indexes_def rewrite_env_def os_ready_def os_open_read_def)
  qed
  show thesis
    by (rule that [where reader = reader and iter = iter and keybuf = keybuf and valuebuf = valuebuf and ?os2.0 = os2
          and writer = writer and i = ?i])
      (use rewrite_run [OF args m1(1)] in1(4,7) st(1,2,4-6) fits fr in auto)
qed

section \<open>Properties\<close>


lemma plain_rewrite_env: "rewrite_env (plain_os es) ''b''"
  by (simp add: rewrite_env_def plain_os_def fresh_os_def os_ready_def os_calm_def)

lemma simple_rewrite_args: "rewrite_args simple_libc [''a'' @ ''.spi'', ''b'' @ ''.spi''] (-1, None) ''a'' ''b''"
  by (simp add: rewrite_args_def simple_libc_def)

lemma plain_writehash:
  assumes "indexable_file store_lib (plain_header es) gs (plain_file es)"
  obtains os1 where "sparkey_main store_lib cl junk (plain_os es) stdin stdout [prog, ''writehash'', ''a'' @ ''.spl''] = Some (0, os1, stdout)"
proof -
  have m: "os_mallocs (plain_os es) = []" by (simp add: plain_os_def fresh_os_def)
  obtain log ws hh t M where "\<forall>junk. sparkey_logreader_open_noalloc (plain_os es) junk ''a.spl'' = Inr log"
    "writehash store_lib junk (plain_os es) ''a.spi'' ''a.spl''
      = Some (0, with_index (plain_os es) ''a.spi'' (hashheader_bytes hh @ t) ws)" "list_all write_retryable ws"
    "index_for store_lib (plain_header es) (concat gs) log hh t M"
    by (rule writehash_new [OF assms plain_os_indexes plain_old, of junk])
  then show thesis using that writehash_run [of "''a''" "plain_os es"] m by simp
qed

lemma plain_rewritable: "\<forall>e \<in> set es. length (entry_body e) < 2 ^ 62 \<Longrightarrow> rewritable (plain_header es) (-1, None) es"
  by (simp add: rewritable_def rewrite_type_def plain_header_def empty_log_header_def new_header_def sparkey_uses_compressor_def
      entry_ok_small as_put_def entry_body_def)


text \<open>
  An uncompressed log has block size 0, and that is the default of \<open>rewrite\<close>: choosing a compression without
  choosing a block size fails before anything is written.
\<close>

lemma rewrite_needs_block_size:
  assumes f: "indexable_file lib lh gs c" and os: "os_indexes os (inb @ ''.spi'') (inb @ ''.spl'') c"
    and old: "old_index os (inb @ ''.spi'') (lh\<lparr>lh_header_size := LOG_HEADER_SIZE\<rparr>) = None"
    and args: "rewrite_args cl args (-1, Some t) inb outb" and t: "sparkey_uses_compressor t"
    and wh: "sparkey_main lib cl junk os stdin stdout [prog, ''writehash'', inb @ ''.spl''] = Some (0, os1, stdout)"
    and size: "lh_compression_block_size lh = 0"
  shows "sparkey_main lib cl junk os1 stdin stdout (prog # ''rewrite'' # args) = Some (1, os1, stdout)"
proof -
  have m: "os_mallocs os = []" using os by (simp add: os_indexes_def)
  have a: "length inb + 4 \<le> 10000" using args by (simp add: rewrite_args_def)
  have wh': "writehash lib junk os (inb @ ''.spi'') (inb @ ''.spl'') = Some (0, os1)"
    using wh writehash_run [OF a m] by auto
  obtain d ws reader iter where in1: "os1 = with_index os (inb @ ''.spi'') d ws" "list_all write_retryable ws"
    "sparkey_hash_open (junk_hashreader junk) os1 (inb @ ''.spi'') (inb @ ''.spl'') = (Inr reader, os1)"
    "reader_ok lib (hr_log reader)" "lr_header (hr_log reader) = lh\<lparr>lh_header_size := LOG_HEADER_SIZE\<rparr>"
    "\<forall>os2. os_mallocs os2 = [] \<longrightarrow> sparkey_logiter_create (junk_iter junk) os2 (hr_log reader) = (Inr iter, os2)"
    "before lib (hr_log reader) iter (concat gs)"
    by (rule indexed_input [OF f os old wh'])
  have m1: "os_mallocs os1 = []" using in1(1) m by simp
  have "sparkey_logwriter_create lib (junk_writer junk) os1 (outb @ ''.spl'') t 0 = (Inl SPARKEY_INVALID_COMPRESSION_BLOCK_SIZE, os1)"
    using m1 t by (simp add: sparkey_logwriter_create_def)
  then show ?thesis
    using rewrite_run [OF args m1] in1(3,5) size
    by (simp add: rewrite_files_def sparkey_hash_getreader_def sparkey_logreader_get_compression_blocksize_def Let_def)
qed

text \<open>
  C24: \<open>sparkey rewrite\<close> writes behind the end of its key buffer, which has the size of the longest key of a put,
  as soon as the log has a delete of a longer key: the run has no defined outcome.
\<close>

theorem rewrite_overflows:
  assumes f: "indexable_file lib lh gs c" and os: "os_indexes os (inb @ ''.spi'') (inb @ ''.spl'') c"
    and old: "old_index os (inb @ ''.spi'') (lh\<lparr>lh_header_size := LOG_HEADER_SIZE\<rparr>) = None"
    and lib: "codec_ok lib" and env: "rewrite_env os outb" and args: "rewrite_args cl args opts inb outb"
    and wh: "sparkey_main lib cl junk os stdin stdout [prog, ''writehash'', inb @ ''.spl''] = Some (0, os1, stdout)"
    and ents: "rewritable lh opts (concat gs)"
    and del: "DeleteEntry k \<in> set (concat gs)" "unat (lh_max_key_len lh) < length k"
  shows "sparkey_main lib cl junk os1 stdin stdout (prog # ''rewrite'' # args) = None"
proof -
  obtain os2 writer iter keybuf valuebuf i and reader :: sparkey_hashreader where st:
    "sparkey_main lib cl junk os1 stdin stdout (prog # ''rewrite'' # args) = map_option (\<lambda>(rc, os). (rc, os, stdout))
       (Option.bind (rewrite_loop lib (hr_log reader) (os2, writer) iter keybuf valuebuf) (\<lambda>(rc, s).
         if rc \<noteq> 0 then Some (rc, fst s)
         else assert_rc (sparkey_logwriter_close lib s) fst (\<lambda>s. writehash lib junk (fst s) (outb @ ''.spi'') (outb @ ''.spl''))))"
    "reader_ok lib (hr_log reader)" "before lib (hr_log reader) iter (concat gs)" "length keybuf = unat (lh_max_key_len lh)"
    "writer_log lib [] os2 [] (os2, writer)"
    "\<forall>e \<in> set (concat gs). entry_fits (lw_header writer) (as_put e) \<and> length (entry_value e) \<le> length valuebuf"
    by (rule rewrite_prefix [OF assms(1-8)])
  have "\<exists>e \<in> set (concat gs). length keybuf < length (entry_key e)"
    using del st(4) by (metis entry_key.simps(2))
  from rewrite_loop_overflow [OF st(2,3,5,6) this] show ?thesis using st(1) by simp
qed

definition demo_log3 :: "log_entry list" where
  "demo_log3 = [PutEntry [1] [2], DeleteEntry [3, 4]]"

theorem rewrite_overflows_witness:
  "\<exists>os1. sparkey_main store_lib simple_libc undefined (plain_os demo_log3) [] null_stdout [[], ''writehash'', ''a'' @ ''.spl'']
        = Some (0, os1, null_stdout)
    \<and> sparkey_main store_lib simple_libc undefined os1 [] null_stdout ([] # ''rewrite'' # [''a'' @ ''.spi'', ''b'' @ ''.spi'']) = None"
proof -
  have "length (encode_entries demo_log3) = 8" by code_simp
  then have f: "indexable_file store_lib (plain_header demo_log3) [demo_log3] (plain_file demo_log3)"
    by (intro plain_indexable) (simp_all, simp_all add: demo_log3_def entry_ok_small entry_body_def)
  obtain os1 where w: "sparkey_main store_lib simple_libc undefined (plain_os demo_log3) [] null_stdout
      [[], ''writehash'', ''a'' @ ''.spl''] = Some (0, os1, null_stdout)"
    by (rule plain_writehash [OF f])
  have os: "os_indexes (plain_os demo_log3) (''a'' @ ''.spi'') (''a'' @ ''.spl'') (plain_file demo_log3)"
    using plain_os_indexes by simp
  have old: "old_index (plain_os demo_log3) (''a'' @ ''.spi'') h = None" for h using plain_old by simp
  have rw: "rewritable (plain_header demo_log3) (-1, None) (concat [demo_log3])"
    using plain_rewritable [of demo_log3] by (simp add: demo_log3_def entry_body_def)
  have k: "DeleteEntry [3, 4] \<in> set (concat [demo_log3])" "unat (lh_max_key_len (plain_header demo_log3)) < length [3 :: byte, 4]"
    by (simp_all add: plain_header_def demo_log3_def)
  show ?thesis
    using rewrite_overflows [OF f os old store_lib_codec_ok plain_rewrite_env simple_rewrite_args w rw k] w by blast
qed

end
