(* ===== verification/CliInfo.thy ===== *)
theory CliInfo
  imports Cli IndexProperties
begin

text \<open>What \<open>info\<close> prints for a log: the numbers of the entries that are in it.\<close>

lemma log_file_counts:
  assumes logf: "log_file lib h gs c" and ld: "log_loadable lib h gs c"
  shows "unat (lh_num_puts h) = length (filter is_put (concat gs))"
    "unat (lh_num_deletes h) = length (filter (Not \<circ> is_put) (concat gs))"
proof -
  have "length c < 2 ^ 63" using ld by (simp add: log_loadable_def)
  note de = log_file_end(2) [OF logf this]
  show "unat (lh_num_puts h) = length (filter is_put (concat gs))"
    "unat (lh_num_deletes h) = length (filter (Not \<circ> is_put) (concat gs))"
    using logf ld de by (auto simp: log_file_def log_loadable_def header_counts_def intro!: unat_of_nat_u64)
qed

section \<open>Properties\<close>

text \<open>
  C9: \<open>info\<close> tells what is in a log. For the file of a log that can be loaded it exits with 0, and prints the number of
  put and delete entries in it, the lengths of the longest key and the longest value that were put (a longer key
  that was only deleted does not count), and the format of the file.
\<close>

theorem info_prints_counts:
  assumes logf: "log_file lib h gs cont" and ld: "log_loadable lib h gs cont" and op: "os_open_read os name = Inr cont"
  shows "info c os [name] = Some (0, concat (map text_line
    [''Filename: '' @ name,
     ''Log file version 1.0'',
     ''Identifier: '' @ format_08x (lh_file_identifier h),
     ''Puts: '' @ digits 10 (length (filter is_put (concat gs)))
       @ '', Deletes: '' @ digits 10 (length (filter (Not \<circ> is_put) (concat gs))),
     ''Max key size: '' @ digits 10 (max_length (map entry_key (filter is_put (concat gs))))
       @ '', Max value size: '' @ digits 10 (max_length (map entry_value (filter is_put (concat gs)))),
     ''Compression: '' @ compression_types ! unat (lh_compression_type h)
       @ '', block size: '' @ format_d (sint (lh_compression_block_size h)),
     '''']))"
proof -
  let ?h = "h\<lparr>lh_header_size := LOG_HEADER_SIZE\<rparr>"
  have load: "sparkey_load_logheader os name = Inr ?h" by (rule log_file_load [OF logf ld op])
  have counts: "header_counts h (concat gs)" using logf by (simp add: log_file_def)
  have v: "lh_major_version h = 1" "lh_minor_version h = 0" "lh_compression_type h \<le> 2"
    using ld by (simp_all add: log_loadable_def header_versions_def LOG_MAJOR_VERSION_def LOG_MINOR_VERSION_def
        SPARKEY_COMPRESSION_ZSTD_def)
  have ty: "unat (lh_compression_type h) < length compression_types"
    using v(3) by (simp add: word_le_nat_alt compression_types_def)
  have d: "digits 10 0 = ''0''" "digits 10 (Suc 0) = ''1''" by code_simp+
  show ?thesis
    using load ty counts log_file_counts [OF logf ld] d
    by (simp add: info_def info_file_def print_logheader_def v format_d_def format_u64_def header_counts_def)
qed

theorem info_prints_counts_witness:
  "info undefined (plain_os demo_log) [''a.spl''] = Some (0, concat (map text_line
    [''Filename: '' @ ''a.spl'',
     ''Log file version 1.0'',
     ''Identifier: '' @ format_08x (lh_file_identifier demo_header),
     ''Puts: '' @ digits 10 (length (filter is_put (concat [demo_log])))
       @ '', Deletes: '' @ digits 10 (length (filter (Not \<circ> is_put) (concat [demo_log]))),
     ''Max key size: '' @ digits 10 (max_length (map entry_key (filter is_put (concat [demo_log]))))
       @ '', Max value size: '' @ digits 10 (max_length (map entry_value (filter is_put (concat [demo_log])))),
     ''Compression: '' @ compression_types ! unat (lh_compression_type demo_header)
       @ '', block size: '' @ format_d (sint (lh_compression_block_size demo_header)),
     '''']))"
  by (rule info_prints_counts [where lib = store_lib and cont = "plain_file demo_log"])
    (use demo_indexable in \<open>simp_all add: indexable_file_def plain_os_def demo_log_def os_open_read_def os_content_def fresh_os_def\<close>)

end
