(* ===== verification/TestText.thy ===== *)
theory TestText
  imports Text
begin

text \<open>The keys and values of the test and benchmark programs, and the buffers they are printed to.\<close>

section \<open>The texts of the test programs\<close>

text \<open>\<open>sprintf(key, "key_%d", i)\<close> and \<open>sprintf(value, "%s_%d", prefix, i)\<close>.\<close>

definition key_text :: "int \<Rightarrow> string" where
  "key_text i = ''key_'' @ format_d i"

definition value_text :: "string \<Rightarrow> int \<Rightarrow> string" where
  "value_text prefix i = prefix @ ''_'' @ format_d i"

text \<open>A buffer of 100 bytes: the text has to leave room for its end.\<close>

definition sprintf_100 :: "string \<Rightarrow> bytes option" where
  "sprintf_100 s = (if length s < 100 then Some (c_bytes s) else None)"

end
