(* ===== verification/SystemTest.thy ===== *)
theory SystemTest
  imports Cli TestText
begin

text \<open>
  The system test \<open>src/src/testsystem.c\<close>: write a log, read it back, index it, iterate over the index and look keys
  up, with an assertion after every call. The result of a run is the exit code, 1 for a failed assertion, with the
  files left; \<open>None\<close> is an access outside a buffer or a loop that never ends. The \<open>int\<close> values of the test
  are integers here; its sums stay in the range of an \<open>int\<close> for the numbers the properties are about.
\<close>

section \<open>Assertions\<close>

text \<open>
  A step returns 0 to go on, or the exit code. \<open>assert_str_equals\<close> compares a text with the C string in a buffer,
  which must have an end; the empty buffer is \<open>NULL\<close>.
\<close>

definition go_on :: "(int \<times> 'a) option \<Rightarrow> ('a \<Rightarrow> 'b) \<Rightarrow> ('a \<Rightarrow> (int \<times> 'b) option) \<Rightarrow> (int \<times> 'b) option" where
  "go_on m f k = Option.bind m (\<lambda>(rc, a). if rc \<noteq> 0 then Some (rc, f a) else k a)"

definition assert_equals :: "'a \<Rightarrow> 'a \<Rightarrow> 'b \<Rightarrow> (int \<times> 'b) option" where
  "assert_equals expected actual s = Some (if expected \<noteq> actual then 1 else 0, s)"

definition assert_str_equals :: "bytes \<Rightarrow> bytes \<Rightarrow> 'b \<Rightarrow> (int \<times> 'b) option" where
  "assert_str_equals expected actual s =
     (if actual = [] then Some (1, s)
      else if 0 \<notin> set actual then None
      else Some (if expected \<noteq> c_string actual 0 then 1 else 0, s))"

lemma go_on_simps [simp]:
  "go_on None f k = None" "go_on (Some (0, a)) f k = k a" "rc \<noteq> 0 \<Longrightarrow> go_on (Some (rc, a)) f k = Some (rc, f a)"
  by (simp_all add: go_on_def)

lemma go_on_mono [partial_function_mono]:
  assumes B: "mono_option B" and C: "\<And>y. mono_option (\<lambda>f. C y f)"
  shows "mono_option (\<lambda>f. go_on (B f) err (\<lambda>y. C y f))"
  unfolding go_on_def
proof (rule bind_mono [OF B])
  fix y
  show "mono_option (\<lambda>f. (\<lambda>(rc, a). if rc \<noteq> 0 then Some (rc, err a) else C a f) y)"
  proof (cases y)
    case (Pair rc a)
    then show ?thesis by (cases "rc = 0") (simp_all add: C option.const_mono)
  qed
qed

section \<open>Writing\<close>

fun put_loop :: "codec_lib \<Rightarrow> string \<Rightarrow> int list \<Rightarrow> os \<times> sparkey_logwriter \<Rightarrow> (int \<times> os \<times> sparkey_logwriter) option" where
  "put_loop lib prefix [] s = Some (0, s)"
| "put_loop lib prefix (i # is) s =
     Option.bind (sprintf_100 (key_text i)) (\<lambda>key.
     Option.bind (sprintf_100 (value_text prefix i)) (\<lambda>value.
     assert_rc (sparkey_logwriter_put lib s key value) id (\<lambda>s.
     put_loop lib prefix is s)))"

fun delete_loop :: "codec_lib \<Rightarrow> int list \<Rightarrow> os \<times> sparkey_logwriter \<Rightarrow> (int \<times> os \<times> sparkey_logwriter) option" where
  "delete_loop lib [] s = Some (0, s)"
| "delete_loop lib (i # is) s =
     Option.bind (sprintf_100 (key_text i)) (\<lambda>key.
     assert_rc (sparkey_logwriter_delete lib s key) id (\<lambda>s.
     delete_loop lib is s))"

section \<open>Reading\<close>

text \<open>\<open>calloc(n, 1)\<close>; nothing can be copied to \<open>NULL\<close>.\<close>

definition calloc_bytes :: "os \<Rightarrow> u64 \<Rightarrow> bytes \<times> os" where
  "calloc_bytes os n = (case os_malloc os of (ok, os) \<Rightarrow> (if ok then replicate (unat n) 0 else [], os))"

text \<open>The key or the value of the current entry as a C string. The lengths are compared as \<open>int\<close>.\<close>

definition test_key :: "codec_lib \<Rightarrow> os \<Rightarrow> sparkey_logiter \<Rightarrow> sparkey_logreader \<Rightarrow> (int \<times> bytes \<times> os \<times> sparkey_logiter) option" where
  "test_key lib os iter reader =
     (let wanted_keylen = sparkey_logiter_keylen iter in
      case calloc_bytes os (1 + wanted_keylen) of (keybuf, os) \<Rightarrow>
      assert_rc (sparkey_logiter_fill_key lib iter reader wanted_keylen) (\<lambda>(key, iter). (keybuf, os, iter)) (\<lambda>(key, iter).
      Option.bind (copy_to_buffer keybuf key) (\<lambda>keybuf.
      assert_equals (ucast wanted_keylen) (of_nat (length key) :: u32) (keybuf, os, iter))))"

definition test_value :: "codec_lib \<Rightarrow> os \<Rightarrow> sparkey_logiter \<Rightarrow> sparkey_logreader \<Rightarrow> (int \<times> bytes \<times> os \<times> sparkey_logiter) option" where
  "test_value lib os iter reader =
     (let wanted_valuelen = sparkey_logiter_valuelen iter in
      case calloc_bytes os (1 + wanted_valuelen) of (valuebuf, os) \<Rightarrow>
      assert_rc (sparkey_logiter_fill_value lib iter reader wanted_valuelen) (\<lambda>(value, iter). (valuebuf, os, iter)) (\<lambda>(value, iter).
      Option.bind (copy_to_buffer valuebuf value) (\<lambda>valuebuf.
      assert_equals (ucast wanted_valuelen) (of_nat (length value) :: u32) (valuebuf, os, iter))))"

text \<open>The entry the log iteration expects at its \<open>visited\<close>th step: type, number and prefix of the value.\<close>

definition expected_entry :: "int \<Rightarrow> int \<Rightarrow> int \<Rightarrow> sparkey_entry_type \<times> int \<times> string" where
  "expected_entry num_puts num_deletes visited =
     (if visited \<le> num_puts then (SPARKEY_ENTRY_PUT, visited - 1, ''value'')
      else if visited \<le> num_puts + num_deletes then (SPARKEY_ENTRY_DELETE, visited - num_puts - 1, ''UNUSED'')
      else (SPARKEY_ENTRY_PUT, visited - num_puts - num_deletes - 1, ''newvalue''))"

partial_function (option) log_loop ::
  "codec_lib \<Rightarrow> int \<Rightarrow> int \<Rightarrow> sparkey_logreader \<Rightarrow> os \<Rightarrow> sparkey_logiter \<Rightarrow> int \<Rightarrow> (int \<times> os \<times> int) option" where
  "log_loop lib num_puts num_deletes myreader os myiter visited =
     assert_rc (sparkey_logiter_next lib myiter myreader) (\<lambda>myiter. (os, visited)) (\<lambda>myiter.
     if sparkey_logiter_state myiter \<noteq> SPARKEY_ITER_ACTIVE then Some (0, os, visited)
     else
       let visited = visited + 1 in
       go_on (test_key lib os myiter myreader) (\<lambda>(keybuf, os, myiter). (os, visited)) (\<lambda>(keybuf, os, myiter).
       go_on (test_value lib os myiter myreader) (\<lambda>(valuebuf, os, myiter). (os, visited)) (\<lambda>(valuebuf, os, myiter).
       case expected_entry num_puts num_deletes visited of (expected_type, expected_id, expected_value_prefix) \<Rightarrow>
       go_on (assert_equals expected_type (sparkey_logiter_type myiter) (os, visited)) id (\<lambda>s.
       Option.bind (sprintf_100 (key_text expected_id)) (\<lambda>expected_key.
       Option.bind (sprintf_100 (value_text expected_value_prefix expected_id)) (\<lambda>expected_value.
       go_on (assert_str_equals expected_key keybuf s) id (\<lambda>s.
       go_on (if expected_type = SPARKEY_ENTRY_PUT then assert_str_equals expected_value valuebuf s else Some (0, s)) id (\<lambda>s.
       log_loop lib num_puts num_deletes myreader os myiter visited))))))))"

text \<open>What the iteration over the index expects: number and prefix of the value.\<close>

definition expected_live_entry :: "int \<Rightarrow> int \<Rightarrow> int \<Rightarrow> int \<times> string" where
  "expected_live_entry expected_puts first_id visited =
     (if visited \<le> expected_puts then (first_id + visited - 1, ''value'')
      else (visited - expected_puts - 1, ''newvalue''))"

partial_function (option) hash_loop ::
  "codec_lib \<Rightarrow> int \<Rightarrow> int \<Rightarrow> sparkey_hashreader \<Rightarrow> os \<Rightarrow> sparkey_logiter \<Rightarrow> int \<Rightarrow> (int \<times> os \<times> sparkey_logiter \<times> int) option" where
  "hash_loop lib expected_puts first_id myhashreader os myiter visited =
     assert_rc (sparkey_logiter_hashnext lib os myiter myhashreader) (\<lambda>(os, myiter). (os, myiter, visited)) (\<lambda>(os, myiter).
     if sparkey_logiter_state myiter \<noteq> SPARKEY_ITER_ACTIVE then Some (0, os, myiter, visited)
     else
       let visited = visited + 1; myreader = sparkey_hash_getreader myhashreader in
       go_on (test_key lib os myiter myreader) (\<lambda>(keybuf, os, myiter). (os, myiter, visited)) (\<lambda>(keybuf, os, myiter).
       go_on (test_value lib os myiter myreader) (\<lambda>(valuebuf, os, myiter). (os, myiter, visited)) (\<lambda>(valuebuf, os, myiter).
       go_on (assert_equals SPARKEY_ENTRY_PUT (sparkey_logiter_type myiter) (os, myiter, visited)) id (\<lambda>s.
       case expected_live_entry expected_puts first_id visited of (expected_id, expected_value_prefix) \<Rightarrow>
       Option.bind (sprintf_100 (key_text expected_id)) (\<lambda>expected_key.
       Option.bind (sprintf_100 (value_text expected_value_prefix expected_id)) (\<lambda>expected_value.
       go_on (assert_str_equals expected_key keybuf s) id (\<lambda>s.
       go_on (assert_str_equals expected_value valuebuf s) id (\<lambda>s.
       hash_loop lib expected_puts first_id myhashreader os myiter visited))))))))"

text \<open>
  The lookups. The text in \<open>expected_value\<close> is not set for a key that is expected to be missing, and not used then.
\<close>

fun lookup_loop ::
  "codec_lib \<Rightarrow> int \<Rightarrow> int \<Rightarrow> int \<Rightarrow> sparkey_hashreader \<Rightarrow> int list \<Rightarrow> os \<times> sparkey_logiter \<Rightarrow> (int \<times> os \<times> sparkey_logiter) option" where
  "lookup_loop lib num_puts num_deletes num_puts2 myhashreader [] s = Some (0, s)"
| "lookup_loop lib num_puts num_deletes num_puts2 myhashreader (i # is) (os, myiter) =
     Option.bind (sprintf_100 (key_text i)) (\<lambda>key.
     assert_rc (sparkey_hash_get lib myhashreader key myiter) (Pair os) (\<lambda>myiter.
     case (if i < num_puts2 then (SPARKEY_ITER_ACTIVE, value_text ''newvalue'' i)
           else if i \<ge> num_deletes \<and> i < num_puts then (SPARKEY_ITER_ACTIVE, value_text ''value'' i)
           else (SPARKEY_ITER_INVALID, [])) of (expected_state, expected_text) \<Rightarrow>
     go_on (assert_equals expected_state (sparkey_logiter_state myiter) (os, myiter)) id (\<lambda>s.
     Option.bind (sprintf_100 expected_text) (\<lambda>expected_value.
     go_on
       (if sparkey_logiter_state myiter = SPARKEY_ITER_ACTIVE then
          go_on (test_value lib os myiter (sparkey_hash_getreader myhashreader)) (\<lambda>(valuebuf, s). s) (\<lambda>(valuebuf, s).
          assert_str_equals expected_value valuebuf s)
        else Some (0, s)) id (\<lambda>s.
     lookup_loop lib num_puts num_deletes num_puts2 myhashreader is s)))))"

section \<open>\<open>verify\<close>\<close>

definition verify ::
  "codec_lib \<Rightarrow> junk_memory \<Rightarrow> os \<Rightarrow> sparkey_compression_type \<Rightarrow> u32 \<Rightarrow> u32 \<Rightarrow> int \<Rightarrow> int \<Rightarrow> int \<Rightarrow> (int \<times> os) option" where
  "verify lib junk os compression blocksize hashsize num_puts num_deletes num_puts2 =
     (let expected_puts = max 0 (num_puts - max num_deletes num_puts2);
          expected_total = expected_puts + num_puts2 in
      assert_open (sparkey_logwriter_create lib (junk_writer junk) os ''test.spl'' compression blocksize) id (\<lambda>mywriter os.
      go_on (put_loop lib ''value'' [0..num_puts - 1] (os, mywriter)) fst (\<lambda>s.
      go_on (delete_loop lib [0..num_deletes - 1] s) fst (\<lambda>s.
      go_on (put_loop lib ''newvalue'' [0..num_puts2 - 1] s) fst (\<lambda>s.
      assert_rc (sparkey_logwriter_close lib s) fst (\<lambda>(os, mywriter).
      assert_open (sparkey_logreader_open (junk_logreader junk) os ''test.spl'') id (\<lambda>myreader os.
      assert_open (sparkey_logiter_create (junk_iter junk) os myreader) id (\<lambda>myiter os.
      go_on (log_loop lib num_puts num_deletes myreader os myiter 0) fst (\<lambda>(os, visited).
      go_on (assert_equals (num_puts + num_deletes + num_puts2) visited os) id (\<lambda>os.
      assert_rc
        (sparkey_hash_write lib (junk_hashheader junk) (junk_logreader junk) (junk_iter junk) (junk_iter2 junk)
           (junk_table junk) os ''test.spi'' ''test.spl'' hashsize) id (\<lambda>os.
      assert_open (sparkey_hash_open (junk_hashreader junk) os ''test.spi'' ''test.spl'') id (\<lambda>myhashreader os.
      assert_open (sparkey_logiter_create (junk_iter junk) os (sparkey_hash_getreader myhashreader)) id (\<lambda>myiter os.
      go_on (hash_loop lib expected_puts (max num_deletes num_puts2) myhashreader os myiter 0) fst (\<lambda>(os, myiter, visited).
      go_on (assert_equals expected_total visited (os, myiter)) fst (\<lambda>s.
      go_on (lookup_loop lib num_puts num_deletes num_puts2 myhashreader [0..max num_puts num_puts2 + 99] s) fst (\<lambda>s.
      Some (0, fst s)))))))))))))))))"

text \<open>
  \<open>verify_files_closed\<close>: the index of one empty log does not open with another. \<open>ident\<close> is what \<open>/dev/urandom\<close>
  gives for the second log.
\<close>

definition create_empty_log :: "codec_lib \<Rightarrow> junk_memory \<Rightarrow> os \<Rightarrow> string \<Rightarrow> (int \<times> os) option" where
  "create_empty_log lib junk os name =
     assert_open (sparkey_logwriter_create lib (junk_writer junk) os name SPARKEY_COMPRESSION_NONE 4096) id (\<lambda>writer os.
     assert_rc (sparkey_logwriter_close lib (os, writer)) fst (\<lambda>(os, writer).
     assert_equals 1 (if writer = None then 1 else 0 :: int) os))"

definition verify_files_closed :: "codec_lib \<Rightarrow> junk_memory \<Rightarrow> u32 \<Rightarrow> os \<Rightarrow> (int \<times> os) option" where
  "verify_files_closed lib junk ident os =
     go_on (create_empty_log lib junk os ''test1.spl'') id (\<lambda>os.
     go_on (create_empty_log lib junk (os\<lparr>os_urandom := Some ident\<rparr>) ''test2.spl'') id (\<lambda>os.
     assert_rc
       (sparkey_hash_write lib (junk_hashheader junk) (junk_logreader junk) (junk_iter junk) (junk_iter2 junk)
          (junk_table junk) os ''test1.spi'' ''test1.spl'' 0) id (\<lambda>os.
     case sparkey_hash_open (junk_hashreader junk) os ''test1.spi'' ''test2.spl'' of (res, os) \<Rightarrow>
       assert_equals SPARKEY_FILE_IDENTIFIER_MISMATCH (case res of Inl rc \<Rightarrow> rc | Inr reader \<Rightarrow> SPARKEY_SUCCESS) os)))"

section \<open>\<open>main\<close>\<close>

text \<open>
  The runs of \<open>verify\<close>: compression type, block size, hash size and the three numbers. \<open>idents k\<close> is what
  \<open>/dev/urandom\<close> gives for the \<open>k\<close>th new log.
\<close>

definition test_runs :: "(sparkey_compression_type \<times> u32 \<times> u32 \<times> int \<times> int \<times> int) list" where
  "test_runs =
     [(SPARKEY_COMPRESSION_NONE, 0, 0, 0, 0, 0),
      (SPARKEY_COMPRESSION_NONE, 0, 0, 1, 0, 0),
      (SPARKEY_COMPRESSION_NONE, 0, 0, 100, 0, 0),
      (SPARKEY_COMPRESSION_NONE, 0, 0, 0, 100, 0),
      (SPARKEY_COMPRESSION_NONE, 0, 0, 0, 0, 100),
      (SPARKEY_COMPRESSION_NONE, 0, 0, 100, 10, 5)]
     @ concat (map (\<lambda>t.
     [(t, 10, 0, 100, 0, 0),
      (t, 20, 0, 100, 0, 0),
      (t, 100, 0, 100, 0, 0),
      (t, 100, 0, 1000, 0, 0),
      (t, 1000, 0, 1000, 0, 0),
      (t, 100, 0, 1000, 100, 0),
      (t, 100, 0, 1000, 100, 50),
      (t, 100, 4, 1000, 0, 0),
      (t, 100, 8, 1000, 0, 0)]) [SPARKEY_COMPRESSION_SNAPPY, SPARKEY_COMPRESSION_ZSTD])"

fun verify_runs ::
  "codec_lib \<Rightarrow> junk_memory \<Rightarrow> (nat \<Rightarrow> u32) \<Rightarrow> nat
     \<Rightarrow> (sparkey_compression_type \<times> u32 \<times> u32 \<times> int \<times> int \<times> int) list \<Rightarrow> os \<Rightarrow> (int \<times> os) option" where
  "verify_runs lib junk idents k [] os = Some (0, os)"
| "verify_runs lib junk idents k ((t, blocksize, hashsize, p, d, q) # runs) os =
     go_on (verify lib junk (os\<lparr>os_urandom := Some (idents k)\<rparr>) t blocksize hashsize p d q) id
       (verify_runs lib junk idents (Suc k) runs)"

definition testsystem_main :: "codec_lib \<Rightarrow> junk_memory \<Rightarrow> (nat \<Rightarrow> u32) \<Rightarrow> os \<Rightarrow> (int \<times> os) option" where
  "testsystem_main lib junk idents os =
     go_on (verify_runs lib junk idents 0 test_runs os) id (\<lambda>os.
     go_on (verify_files_closed lib junk (idents 25) (os\<lparr>os_urandom := Some (idents 24)\<rparr>)) id (\<lambda>os.
     Some (0, os)))"

end
