(* ===== verification/TestEntries.thy ===== *)
theory TestEntries
  imports TestText IndexIterate
begin

text \<open>
  The entries the test programs write, keys \<open>key_<i>\<close> with values \<open>value_<i>\<close> and \<open>newvalue_<i>\<close>: which of them are
  live, and what the map of their log is.
\<close>

section \<open>Keys and values\<close>

definition numbered_key :: "int \<Rightarrow> bytes" where
  "numbered_key i = c_bytes (key_text i)"

definition numbered_value :: "string \<Rightarrow> int \<Rightarrow> bytes" where
  "numbered_value prefix i = c_bytes (value_text prefix i)"

definition numbered_puts :: "string \<Rightarrow> int list \<Rightarrow> log_entry list" where
  "numbered_puts prefix is = map (\<lambda>i. PutEntry (numbered_key i) (numbered_value prefix i)) is"

definition numbered_deletes :: "int list \<Rightarrow> log_entry list" where
  "numbered_deletes is = map (\<lambda>i. DeleteEntry (numbered_key i)) is"

lemma numbered_key_inject: "0 \<le> i \<Longrightarrow> 0 \<le> j \<Longrightarrow> numbered_key i = numbered_key j \<longleftrightarrow> i = j"
  by (simp add: numbered_key_def key_text_def format_d_inject del: c_bytes_append)

lemma numbered_key_image:
  assumes "\<forall>i \<in> set is. 0 \<le> i" "0 \<le> j"
  shows "numbered_key j \<in> numbered_key ` set is \<longleftrightarrow> j \<in> set is"
  using assms numbered_key_inject by (auto simp: image_iff)

text \<open>An \<open>int\<close> of 32 bits has at most ten digits.\<close>

lemma length_format_d: "0 \<le> i \<Longrightarrow> i < 2 ^ 31 \<Longrightarrow> length (format_d i) \<le> 10"
  using length_digits [of "nat i" 9] by (simp add: format_d_def)

lemma length_numbered_key: "0 \<le> i \<Longrightarrow> i < 2 ^ 31 \<Longrightarrow> length (numbered_key i) \<le> 14"
  using length_format_d [of i] by (simp add: numbered_key_def key_text_def)

lemma length_numbered_value: "0 \<le> i \<Longrightarrow> i < 2 ^ 31 \<Longrightarrow> length (numbered_value p i) \<le> length p + 11"
  using length_format_d [of i] by (simp add: numbered_value_def value_text_def)

lemma numbered_no_end: "0 \<notin> set (numbered_key i)" "printable p \<Longrightarrow> 0 \<notin> set (numbered_value p i)"
  unfolding numbered_key_def numbered_value_def c_bytes_no_end by (simp_all add: key_text_def value_text_def)

lemma numbered_simps [simp]:
  "map entry_key (numbered_puts p is) = map numbered_key is" "map entry_key (numbered_deletes is) = map numbered_key is"
  "entry_key ` set (numbered_puts p is) = numbered_key ` set is" "entry_key ` set (numbered_deletes is) = numbered_key ` set is"
  "length (numbered_puts p is) = length is" "length (numbered_deletes is) = length is"
  by (auto simp: numbered_puts_def numbered_deletes_def image_image)

section \<open>Live entries\<close>

lemma live_entries_append:
  "live_entries (xs @ ys) = filter (\<lambda>e. entry_key e \<notin> entry_key ` set ys) (live_entries xs) @ live_entries ys"
  by (induction xs) (auto simp: image_iff)

lemma live_deletes [simp]: "live_entries (numbered_deletes is) = []"
  by (induction "is") (simp_all add: numbered_deletes_def)

lemma live_puts:
  assumes "distinct is" "\<forall>i \<in> set is. 0 \<le> i"
  shows "live_entries (numbered_puts p is) = numbered_puts p is"
  using assms
proof (induction "is")
  case (Cons i "is")
  then have "\<forall>j \<in> set is. numbered_key j \<noteq> numbered_key i" using numbered_key_inject by auto
  then show ?case using Cons by (simp add: numbered_puts_def)
qed (simp add: numbered_puts_def)

lemma filter_numbered_puts:
  "filter (\<lambda>e. entry_key e \<notin> K) (numbered_puts p is) = numbered_puts p (filter (\<lambda>i. numbered_key i \<notin> K) is)"
  by (simp add: numbered_puts_def filter_map comp_def)

lemma filter_upto: "filter (\<lambda>i. m \<le> i) [k..n] = [max k m..n]"
  by (induction k n rule: upto.induct) (subst upto.simps, auto simp: upto_rec1 max_def)

text \<open>A log of puts, then deletes of the first keys, then puts of the first keys.\<close>

definition test_log :: "int \<Rightarrow> int \<Rightarrow> int \<Rightarrow> log_entry list" where
  "test_log p d q =
     numbered_puts ''value'' [0..p - 1] @ numbered_deletes [0..d - 1] @ numbered_puts ''newvalue'' [0..q - 1]"

lemma live_test_log:
  assumes "0 \<le> p" "0 \<le> d" "0 \<le> q"
  shows "live_entries (test_log p d q)
    = numbered_puts ''value'' [max d q..p - 1] @ numbered_puts ''newvalue'' [0..q - 1]"
proof -
  have img: "numbered_key i \<in> numbered_key ` set [0..d - 1] \<union> numbered_key ` set [0..q - 1] \<longleftrightarrow> \<not> max d q \<le> i" if "0 \<le> i" for i
    unfolding image_Un [symmetric] set_append [symmetric]
    by (subst numbered_key_image) (use that in auto)
  have "filter (\<lambda>i. numbered_key i \<notin> numbered_key ` set [0..d - 1] \<union> numbered_key ` set [0..q - 1]) [0..p - 1]
      = filter (\<lambda>i. max d q \<le> i) [0..p - 1]"
    by (rule filter_cong [OF refl]) (use img in auto)
  also have "\<dots> = [max d q..p - 1]" using assms unfolding filter_upto by (simp add: max_def)
  finally show ?thesis
    by (simp add: test_log_def live_entries_append live_puts image_Un filter_numbered_puts del: Un_iff)
qed

lemma map_of_numbered:
  assumes "\<forall>i \<in> set is. 0 \<le> i" "0 \<le> j"
  shows "map_of (map (\<lambda>e. (entry_key e, entry_value e)) (numbered_puts p is)) (numbered_key j)
    = (if j \<in> set is then Some (numbered_value p j) else None)"
  using assms by (induction "is") (auto simp: numbered_puts_def numbered_key_inject)

lemma test_log_map:
  assumes "0 \<le> p" "0 \<le> d" "0 \<le> q" "0 \<le> i"
  shows "log_map (test_log p d q) (numbered_key i) =
    (if i < q then Some (numbered_value ''newvalue'' i)
     else if d \<le> i \<and> i < p then Some (numbered_value ''value'' i) else None)"
  unfolding live_entries_map [symmetric] live_test_log [OF assms(1-3)] map_append map_of_append map_add_def
  by (subst map_of_numbered; use assms in \<open>auto simp: map_of_numbered\<close>)

section \<open>Sizes\<close>

text \<open>Every entry has two numbers below 128, and less than 64 bytes.\<close>

lemma length_write_vlq_small: "unat v < 128 \<Longrightarrow> length (write_vlq v) = 1"
  by (simp add: length_write_vlq unat_unsigned_vlq_size)

lemma small_entry:
  assumes "length (entry_key e) \<le> 14" "length (entry_value e) \<le> 20"
  shows "length (entry_head e) = 2" "length (encode_entry e) \<le> 36" "entry_ok e"
proof -
  have u: "unat (of_nat n :: u64) = n" "unat (of_nat n + 1 :: u64) = Suc n" if "n \<le> 20" for n
    using that by (simp_all add: unat_of_nat_u64 unat_plus_simple u64_arith)
  have "unat (fst (entry_nums e)) < 128 \<and> unat (snd (entry_nums e)) < 128"
    using assms u by (cases e) auto
  then show h: "length (entry_head e) = 2" by (simp add: entry_head_def length_write_vlq_small)
  then show "length (encode_entry e) \<le> 36" using assms by (simp add: encode_entry_def entry_body_def)
  then show "entry_ok e" by (simp add: entry_ok_def)
qed

lemma length_encode_entries_le: "\<forall>e \<in> set es. length (encode_entry e) \<le> n \<Longrightarrow> length (encode_entries es) \<le> n * length es"
  by (induction es) auto

lemma length_test_log: "length (test_log p d q) = nat p + nat d + nat q"
  by (simp add: test_log_def)

lemma small_test_log:
  assumes "p + d + q < 2 ^ 31" "0 \<le> p" "0 \<le> d" "0 \<le> q"
  shows "\<forall>e \<in> set (test_log p d q). length (entry_key e) \<le> 14 \<and> length (entry_value e) \<le> 20"
proof -
  have "length (numbered_key i) \<le> 14" "length (numbered_value ''value'' i) \<le> 20" "length (numbered_value ''newvalue'' i) \<le> 20"
    if "0 \<le> i" "i < 2 ^ 31" for i
    using length_numbered_key [OF that] length_numbered_value [OF that, of "''value''"]
      length_numbered_value [OF that, of "''newvalue''"] by simp_all
  then show ?thesis using assms by (auto simp: test_log_def numbered_puts_def numbered_deletes_def)
qed

lemma test_log_ok:
  assumes "p + d + q < 2 ^ 31" "0 \<le> p" "0 \<le> d" "0 \<le> q"
  shows "\<forall>e \<in> set (test_log p d q). entry_ok e \<and> length (entry_head e) = 2 \<and> length (encode_entry e) \<le> 36
      \<and> length (entry_key e) < 2 ^ 31"
    and "length (encode_entries (test_log p d q)) < 2 ^ 52"
proof -
  show ok: "\<forall>e \<in> set (test_log p d q). entry_ok e \<and> length (entry_head e) = 2 \<and> length (encode_entry e) \<le> 36
      \<and> length (entry_key e) < 2 ^ 31"
    using small_test_log [OF assms] small_entry by fastforce
  have "length (encode_entries (test_log p d q)) \<le> 36 * length (test_log p d q)"
    by (rule length_encode_entries_le) (use ok in auto)
  also have "\<dots> < 2 ^ 52" using assms by (simp add: length_test_log)
  finally show "length (encode_entries (test_log p d q)) < 2 ^ 52" .
qed

end
