(* ===== verification/NewLog.thy ===== *)
theory NewLog
  imports CliRewrite IndexAppend
begin

text \<open>A session that writes a new log, and what it leaves for indexing that log.\<close>

lemma old_index_same: "os_open_read os' hf = os_open_read os hf \<Longrightarrow> old_index os' hf h = old_index os hf h"
  by (simp add: old_index_def sparkey_load_hashheader_def)

text \<open>The environment a new log and its index need.\<close>

definition index_env :: "os \<Rightarrow> string \<Rightarrow> string \<Rightarrow> bool" where
  "index_env os hf lf \<longleftrightarrow>
     hf \<noteq> lf \<and> os_ready os lf \<and> os_mmap_ok os \<and> os_open_err os hf = None \<and> os_remove_err os hf = None
     \<and> (\<forall>i. os_names os hf = Some i \<longrightarrow> i < length (os_store os))"

lemma new_log_session:
  assumes lib: "codec_ok lib" and env: "index_env os hf lf" and ident: "os_urandom os = Some ident"
    and t: "t \<le> SPARKEY_COMPRESSION_ZSTD" "sparkey_uses_compressor t \<Longrightarrow> \<not> sint n < 10"
    and es: "\<forall>e \<in> set es. entry_ok e \<and> (sparkey_uses_compressor t \<longrightarrow> length (entry_head e) \<le> unat n)"
  obtains os1 writer s os' h gs c where
    "sparkey_logwriter_create lib junk os lf t n = (Inr writer, os1)"
    "write_entries lib (os1, writer) es = Some (SPARKEY_SUCCESS, s)"
    "sparkey_logwriter_close lib s = Some (SPARKEY_SUCCESS, os', None)"
    "concat gs = es" "log_file lib h gs c" "os_indexes os' hf lf c" "header_versions h"
    "lh_compression_type h = t" "lh_compression_block_size h = (if sparkey_uses_compressor t then n else 0)" "lh_file_identifier h = ident"
    "\<not> sparkey_uses_compressor t \<longrightarrow> lh_max_entries_per_block h = 0"
    "c = logheader_bytes h @ log_data lib h gs" "os_open_read os' hf = os_open_read os hf"
    "os_names os' = (os_names os)(lf \<mapsto> length (os_store os))" "length (os_store os') = Suc (length (os_store os))"
    "take (length (os_store os)) (os_store os') = os_store os" "os_ready os' lf"
    "os_open_err os' = os_open_err os" "os_remove_err os' = os_remove_err os" "os_urandom os' = os_urandom os"
proof -
  let ?i = "length (os_store os)"
  have e: "hf \<noteq> lf" "os_ready os lf" "os_mmap_ok os" "os_open_err os hf = None" "os_remove_err os hf = None"
    "\<forall>i. os_names os hf = Some i \<longrightarrow> i < ?i"
    using env by (simp_all add: index_env_def)
  obtain os1 log where cr: "sparkey_logwriter_create lib junk os lf t n = (Inr log, os1)"
    and w: "writer_log lib [] os1 [] (os1, log)" and hv: "header_versions (lw_header log) \<longleftrightarrow> t \<le> SPARKEY_COMPRESSION_ZSTD"
    and ty: "lh_compression_type (lw_header log) = t"
      "lh_compression_block_size (lw_header log) = (if sparkey_uses_compressor t then n else 0)"
    and ino: "fd_ino (lw_fd log) = Some ?i"
    and fs: "os_names os1 = (os_names os)(lf \<mapsto> ?i)" "os_store os1 = os_store os @ [logheader_bytes (lw_header log)]"
    and same: "os_open_err os1 = os_open_err os" "os_mallocs os1 = os_mallocs os" "os_mmap_ok os1 = os_mmap_ok os"
    by (rule logwriter_create_log [OF lib e(2) t(2), where junk = junk])
  note cenv = logwriter_create_env [OF e(2) t(2) cr]
  have fits: "\<forall>e \<in> set es. entry_fits (lw_header log) e" using es by (simp add: entry_fits_def ty)
  obtain os' h gs where run: "write_session lib (Inr log, os1) es = Some (SPARKEY_SUCCESS, os', None)"
    "concat gs = [] @ es" "log_file lib h gs (os_store os' ! ?i)" and fr: "os_frame ?i os1 os'"
    and h: "lh_compression_type h = lh_compression_type (lw_header log)"
      "lh_compression_block_size h = lh_compression_block_size (lw_header log)"
      "lh_file_identifier h = lh_file_identifier (lw_header log)"
      "header_versions h = header_versions (lw_header log)" "take (length ([] :: log_entry list list)) gs = []"
      "lh_max_entries_per_block (lw_header log) \<le> lh_max_entries_per_block h" "os_calm os'"
      "\<not> sparkey_uses_compressor (lh_compression_type (lw_header log)) \<longrightarrow>
        lh_max_entries_per_block h = lh_max_entries_per_block (lw_header log)"
      "os_store os' ! ?i = logheader_bytes h @ log_data lib h gs @ drop (84 + length (log_data lib h gs)) (os_store os1 ! ?i)"
    by (rule write_session_log [OF w fits ino])
  obtain s where s: "write_entries lib (os1, log) es = Some (SPARKEY_SUCCESS, s)"
    "sparkey_logwriter_close lib s = Some (SPARKEY_SUCCESS, os', None)"
    using run(1) by (cases "write_entries lib (os1, log) es") (auto simp: write_session_def rethrow_def split: if_splits)
  note o = os_frame_other [OF fr]
  have c: "os_store os' ! ?i = logheader_bytes h @ log_data lib h gs" using h(9) fs(2) by simp
  have names: "os_names os' = (os_names os)(lf \<mapsto> ?i)" using o(1) fs(1) by simp
  have len: "length (os_store os') = Suc ?i" using o(2) fs(2) by simp
  have old: "os_store os' ! j = os_store os ! j" if "j < ?i" for j
    using o(3) [of j] that fs(2) by (simp add: nth_append)
  have kept: "take ?i (os_store os') = os_store os" by (rule nth_equalityI) (simp_all add: len old)
  have ix: "os_indexes os' hf lf (os_store os' ! ?i)"
    using e o(4-8) same cenv(1,2) names len h(7) ident by (simp add: os_indexes_def os_ready_def os_open_read_def os_content_def)
  have "os_content os' hf = os_content os hf"
    using e(1,6) names old by (cases "os_names os hf") (auto simp: os_content_def)
  then have hf: "os_open_read os' hf = os_open_read os hf"
    unfolding os_open_read_def using o(5) same(1) by (simp cong: option.case_cong)
  have "os_ready os' lf" using e(2) o same cenv(1,2) h(7) by (simp add: os_ready_def)
  moreover have "lh_file_identifier h = ident" using cenv(3) ident h(3) by simp
  ultimately show thesis
    using run(2,3) by (intro that [OF cr s _ run(3) ix _ _ _ _ _ c hf names len kept]) (use h cenv ty hv t(1) o same in simp_all)
qed

text \<open>The condition under which a compressed log of the given entries can be indexed; an uncompressed log of small entries can.\<close>

definition log_can_be_indexed :: "codec_lib \<Rightarrow> sparkey_compression_type \<Rightarrow> u32 \<Rightarrow> u32 \<Rightarrow> log_entry list \<Rightarrow> bool" where
  "log_can_be_indexed lib t n ident es \<longleftrightarrow>
     (\<forall>h gs. concat gs = es \<and> lh_compression_type h = t \<and> lh_file_identifier h = ident \<and> header_versions h
        \<and> lh_compression_block_size h = (if sparkey_uses_compressor t then n else 0)
        \<and> (\<not> sparkey_uses_compressor t \<longrightarrow> lh_max_entries_per_block h = 0)
        \<and> log_file lib h gs (logheader_bytes h @ log_data lib h gs)
        \<longrightarrow> indexable_file lib h gs (logheader_bytes h @ log_data lib h gs))"

lemma plain_can_be_indexed:
  assumes "\<not> sparkey_uses_compressor t" "length (encode_entries es) < 2 ^ 52" "\<forall>e \<in> set es. entry_ok e \<and> length (entry_key e) < 2 ^ 31"
  shows "log_can_be_indexed lib t n ident es"
  unfolding log_can_be_indexed_def
proof (intro allI impI)
  fix h gs
  assume a: "concat gs = es \<and> lh_compression_type h = t \<and> lh_file_identifier h = ident \<and> header_versions h
        \<and> lh_compression_block_size h = (if sparkey_uses_compressor t then n else 0)
        \<and> (\<not> sparkey_uses_compressor t \<longrightarrow> lh_max_entries_per_block h = 0)
        \<and> log_file lib h gs (logheader_bytes h @ log_data lib h gs)"
  have "sparkey_compressors lib (lh_compression_type h) = None" using a assms(1) uses_compressor_iff [of _ lib] by simp
  then have "log_data lib h gs = encode_entries es" using a by (simp add: log_data_def)
  then have "length (logheader_bytes h @ log_data lib h gs) < 2 ^ 63" using assms(2) by simp
  then show "indexable_file lib h gs (logheader_bytes h @ log_data lib h gs)"
    by (rule grown_plain_indexable [rotated 4]) (use a assms in simp_all)
qed

text \<open>A session whose log can be indexed, with no index of the same log there before.\<close>

lemma indexable_session:
  assumes lib: "codec_ok lib" and env: "index_env os hf lf" and ident: "os_urandom os = Some ident"
    and t: "t \<le> SPARKEY_COMPRESSION_ZSTD" "sparkey_uses_compressor t \<Longrightarrow> \<not> sint n < 10"
    and es: "\<forall>e \<in> set es. entry_ok e \<and> (sparkey_uses_compressor t \<longrightarrow> length (entry_head e) \<le> unat n)"
    and fresh: "\<forall>h. lh_file_identifier h = ident \<longrightarrow> old_index os hf h = None"
    and fits: "log_can_be_indexed lib t n ident es"
  obtains os1 writer s os' h gs c where
    "sparkey_logwriter_create lib junk os lf t n = (Inr writer, os1)"
    "write_entries lib (os1, writer) es = Some (SPARKEY_SUCCESS, s)"
    "sparkey_logwriter_close lib s = Some (SPARKEY_SUCCESS, os', None)"
    "concat gs = es" "indexable_file lib h gs c" "os_indexes os' hf lf c" "lh_file_identifier h = ident"
    "old_index os' hf (h\<lparr>lh_header_size := LOG_HEADER_SIZE\<rparr>) = None"
    "os_names os' = (os_names os)(lf \<mapsto> length (os_store os))" "length (os_store os') = Suc (length (os_store os))"
    "take (length (os_store os)) (os_store os') = os_store os" "os_ready os' lf"
    "os_open_err os' = os_open_err os" "os_remove_err os' = os_remove_err os"
proof -
  obtain os1 writer s os' h gs c where w: "sparkey_logwriter_create lib junk os lf t n = (Inr writer, os1)"
    "write_entries lib (os1, writer) es = Some (SPARKEY_SUCCESS, s)"
    "sparkey_logwriter_close lib s = Some (SPARKEY_SUCCESS, os', None)"
    and log: "concat gs = es" "log_file lib h gs c" "os_indexes os' hf lf c" "header_versions h"
    "lh_compression_type h = t" "lh_compression_block_size h = (if sparkey_uses_compressor t then n else 0)"
    "lh_file_identifier h = ident" "\<not> sparkey_uses_compressor t \<longrightarrow> lh_max_entries_per_block h = 0"
    "c = logheader_bytes h @ log_data lib h gs" "os_open_read os' hf = os_open_read os hf"
    and rest: "os_names os' = (os_names os)(lf \<mapsto> length (os_store os))" "length (os_store os') = Suc (length (os_store os))"
    "take (length (os_store os)) (os_store os') = os_store os" "os_ready os' lf"
    "os_open_err os' = os_open_err os" "os_remove_err os' = os_remove_err os" "os_urandom os' = os_urandom os"
    by (rule new_log_session [OF lib env ident t es, where junk = junk])
  have f: "indexable_file lib h gs c"
    using fits log(1,2,4-9) unfolding log_can_be_indexed_def log(9) by blast
  have "old_index os' hf (h\<lparr>lh_header_size := LOG_HEADER_SIZE\<rparr>) = None"
    unfolding old_index_same [OF log(10)] using fresh log(7) by simp
  then show thesis by (intro that [OF w log(1) f log(3,7) _ rest(1-6)])
qed

text \<open>Indexing the log and opening the index, with the header of the log the reader has.\<close>

lemma index_log_session:
  assumes f: "indexable_file lib lh gs c" and os: "os_indexes os hf lf c"
    and old: "old_index os hf (lh\<lparr>lh_header_size := LOG_HEADER_SIZE\<rparr>) = None"
    and hs: "hash_size = 0 \<or> hash_size = 4 \<or> hash_size = 8"
  obtains os' reader M iter d ws where
    "sparkey_hash_write lib junk junkr junki junki2 mem os hf lf hash_size = Some (SPARKEY_SUCCESS, os')"
    "os' = with_index os hf d ws" "sparkey_hash_open junkh os' hf lf = (Inr reader, os')"
    "sparkey_logiter_create junki3 os' (sparkey_hash_getreader reader) = (Inr iter, os')"
    "reads_index lib reader M" "indexes lib (hr_log reader) (hr_header reader) (concat gs) [] M"
    "before lib (hr_log reader) iter (concat gs)" "lr_header (hr_log reader) = lh\<lparr>lh_header_size := LOG_HEADER_SIZE\<rparr>"
    "list_all write_retryable ws"
proof -
  have o: "os_open_read os lf = Inr c" "os_mallocs os = []" "os_mmap_ok os" using os by (simp_all add: os_indexes_def)
  obtain log where log: "\<And>junk. sparkey_logreader_open_noalloc os junk lf = Inr log"
    "lr_header log = lh\<lparr>lh_header_size := LOG_HEADER_SIZE\<rparr>"
    by (rule indexable_reader [OF f o(1,3,2)]) blast
  obtain ws hh t M where w: "sparkey_hash_write lib junk junkr junki junki2 mem os hf lf hash_size
       = Some (SPARKEY_SUCCESS, with_index os hf (hashheader_bytes hh @ t) ws)" "list_all write_retryable ws"
    "index_for lib lh (concat gs) log hh t M"
    by (rule hash_write_new [OF f os hs old log(1)])
  let ?os = "with_index os hf (hashheader_bytes hh @ t) ws"
  obtain reader iter where rd: "sparkey_hash_open junkh ?os hf lf = (Inr reader, ?os)"
    "sparkey_logiter_create junki3 ?os (sparkey_hash_getreader reader) = (Inr iter, ?os)"
    "reads_index lib reader M" "indexes lib (hr_log reader) (hr_header reader) (concat gs) [] M"
    "before lib (hr_log reader) iter (concat gs)"
    "sparkey_hash_numentries reader = of_nat (card (dom (log_map (concat gs))))"
    by (rule written_index_session [OF f os log(1) w(3)])
  obtain reader' where "sparkey_hash_open junkh ?os hf lf = (Inr reader', ?os)" "hr_log reader' = log"
    by (rule index_opens [OF f os log(1) w(3)])
  then have "hr_log reader = log" using rd(1) by simp
  then show thesis using that [OF w(1) refl rd(1-5)] log(2) w(2) by simp
qed

text \<open>An index that has been opened is not an index of a log with another identifier.\<close>

lemma opened_index_other:
  assumes "sparkey_hash_open junk os hf lf = (Inr reader, os')" "os_mallocs os = []"
    and other: "lh_file_identifier h \<noteq> lh_file_identifier (lr_header (hr_log reader))"
  shows "old_index os hf h = None"
proof -
  note o = assms(1) [unfolded sparkey_hash_open_def malloc_or_fail_ready [OF assms(2)], simplified correct_endian_platform_def, simplified]
  obtain header where h: "sparkey_load_hashheader os hf = Inr header"
    using o by (cases "sparkey_load_hashheader os hf") auto
  obtain log where l: "sparkey_logreader_open_noalloc os (hr_log junk) lf = Inr log"
    using o h by (cases "sparkey_logreader_open_noalloc os (hr_log junk) lf") auto
  obtain c where c: "os_open_read os hf = Inr c"
    using load_hashheader_inv [OF h] by (auto simp: os_open_read_def split: option.splits)
  have "hh_file_identifier header = lh_file_identifier (lr_header (hr_log reader))"
    using o by (auto simp: h l c Let_def split: if_splits)
  then show ?thesis using other h by (simp add: old_index_def)
qed

end
