(* ===== verification/SystemTestCorrect.thy ===== *)
theory SystemTestCorrect
  imports SystemTest TestEntries NewLog
begin

text \<open>
  The system test passes: every assertion of \<open>verify\<close> holds, for all numbers of entries and all compression types
  and sizes, on a log that can be loaded and indexed.
\<close>

section \<open>Writing\<close>

lemma sprintf_key: "0 \<le> i \<Longrightarrow> i < 2 ^ 31 \<Longrightarrow> sprintf_100 (key_text i) = Some (numbered_key i)"
  using length_format_d [of i] by (simp add: sprintf_100_def numbered_key_def key_text_def)

lemma sprintf_value:
  "0 \<le> i \<Longrightarrow> i < 2 ^ 31 \<Longrightarrow> length p \<le> 80 \<Longrightarrow> sprintf_100 (value_text p i) = Some (numbered_value p i)"
  using length_format_d [of i] by (simp add: sprintf_100_def numbered_value_def value_text_def)

lemma put_loop_entries:
  assumes "write_entries lib s (numbered_puts p is) = Some (SPARKEY_SUCCESS, s')"
    and "\<forall>i \<in> set is. 0 \<le> i \<and> i < 2 ^ 31" "length p \<le> 80"
  shows "put_loop lib p is s = Some (0, s')"
  using assms
proof (induction "is" arbitrary: s)
  case (Cons i "is")
  then show ?case
    by (cases "sparkey_logwriter_put lib s (numbered_key i) (numbered_value p i)")
      (auto simp: numbered_puts_def sprintf_key sprintf_value rethrow_def split: if_splits)
qed (simp add: numbered_puts_def)

lemma delete_loop_entries:
  assumes "write_entries lib s (numbered_deletes is) = Some (SPARKEY_SUCCESS, s')"
    and "\<forall>i \<in> set is. 0 \<le> i \<and> i < 2 ^ 31"
  shows "delete_loop lib is s = Some (0, s')"
  using assms
proof (induction "is" arbitrary: s)
  case (Cons i "is")
  then show ?case
    by (cases "sparkey_logwriter_delete lib s (numbered_key i)")
      (auto simp: numbered_deletes_def sprintf_key rethrow_def split: if_splits)
qed (simp add: numbered_deletes_def)

section \<open>Reading one entry\<close>

lemma c_string_end:
  assumes "0 \<notin> set s"
  shows "c_string (s @ [0]) 0 = s" "0 \<in> set (s @ [0])"
proof -
  have "takeWhile (\<lambda>b. b \<noteq> 0) (s @ [0]) = s @ takeWhile (\<lambda>b. b \<noteq> 0) [0]"
    by (rule takeWhile_append2) (use assms in auto)
  then show "c_string (s @ [0]) 0 = s" by (simp add: c_string_def)
qed simp

lemma calloc_string:
  assumes "os_mallocs os = []" "unat n = length s" "length s < 2 ^ 63"
  shows "calloc_bytes os (1 + n) = (replicate (Suc (length s)) 0, os)"
    and "copy_to_buffer (replicate (Suc (length s)) 0) s = Some (s @ [0])"
proof -
  have "unat (1 + n) = Suc (length s)" using assms by (simp add: unat_plus_simple u64_arith)
  then show "calloc_bytes os (1 + n) = (replicate (Suc (length s)) 0, os)"
    using assms by (simp add: calloc_bytes_def os_malloc_def)
  have "drop (length s) (replicate (Suc (length s)) (0 :: byte)) = [0]" by (simp only: drop_replicate) simp
  then show "copy_to_buffer (replicate (Suc (length s)) 0) s = Some (s @ [0])"
    by (simp add: copy_to_buffer_def splice_at_def del: replicate.simps)
qed

lemma test_key_active:
  assumes ok: "reader_ok lib log" and a: "active lib log iter e es (entry_key e) rv" and os: "os_mallocs os = []"
  obtains iter' where "test_key lib os iter log = Some (0, entry_key e @ [0], os, iter')" "active lib log iter' e es [] rv"
proof -
  have len: "unat (it_keylen iter) = length (entry_key e)" "length (entry_key e) < 2 ^ 63"
    using active_lengths(1,3) [OF a] a by (simp_all add: active_def)
  obtain iter1 where f: "sparkey_logiter_fill_key lib iter log (it_keylen iter)
      = Some (SPARKEY_SUCCESS, take (unat (it_keylen iter)) (entry_key e), iter1)"
    "active lib log iter1 e es (drop (unat (it_keylen iter)) (entry_key e)) rv"
    by (rule fill_key_active [OF ok a])
  have eq: "(ucast (it_keylen iter) :: u32) = of_nat (length (entry_key e))"
    using len(1) by (metis of_nat_unat)
  have "test_key lib os iter log = Some (0, entry_key e @ [0], os, iter1)"
    using f(1) len calloc_string [OF os len(1,2)] eq
    by (simp add: test_key_def sparkey_logiter_keylen_def Let_def assert_equals_def)
  then show thesis using that f(2) len by simp
qed

lemma test_value_active:
  assumes ok: "reader_ok lib log" and a: "active lib log iter e es rk (entry_value e)" and os: "os_mallocs os = []"
  obtains iter' rk' where "test_value lib os iter log = Some (0, entry_value e @ [0], os, iter')" "active lib log iter' e es rk' []"
proof -
  have len: "unat (it_valuelen iter) = length (entry_value e)" "length (entry_value e) < 2 ^ 63"
    using active_lengths(2,4) [OF a] a by (simp_all add: active_def)
  obtain iter1 rk' where f: "sparkey_logiter_fill_value lib iter log (it_valuelen iter)
      = Some (SPARKEY_SUCCESS, take (unat (it_valuelen iter)) (entry_value e), iter1)"
    "active lib log iter1 e es rk' (drop (unat (it_valuelen iter)) (entry_value e))"
    by (rule fill_value_active [OF ok a])
  have eq: "(ucast (it_valuelen iter) :: u32) = of_nat (length (entry_value e))"
    using len(1) by (metis of_nat_unat)
  have "test_value lib os iter log = Some (0, entry_value e @ [0], os, iter1)"
    using f(1) len calloc_string [OF os len(1,2)] eq
    by (simp add: test_value_def sparkey_logiter_valuelen_def Let_def assert_equals_def)
  then show thesis using that f(2) len by simp
qed

lemma assert_str_passes: "0 \<notin> set s \<Longrightarrow> assert_str_equals s (s @ [0]) x = Some (0, x)"
  using c_string_end [of s] by (simp add: assert_str_equals_def)

lemma assert_equals_passes [simp]: "assert_equals a a s = Some (0, s)"
  by (simp add: assert_equals_def)

section \<open>The loops\<close>

text \<open>An entry with a number of the test and a printable prefix passes the comparisons.\<close>

definition test_number :: "int \<Rightarrow> bool" where
  "test_number i \<longleftrightarrow> 0 \<le> i \<and> i < 2 ^ 31"

definition expected_log_entry :: "int \<Rightarrow> int \<Rightarrow> int \<Rightarrow> log_entry" where
  "expected_log_entry p d v =
     (case expected_entry p d v of (t, i, prefix) \<Rightarrow>
        if t = SPARKEY_ENTRY_PUT then PutEntry (numbered_key i) (numbered_value prefix i) else DeleteEntry (numbered_key i))"

lemma log_loop_entries:
  assumes ok: "reader_ok lib log" and os: "os_mallocs os = []" and "before lib log iter es"
    and "\<forall>j < length es. es ! j = expected_log_entry p d (v + 1 + int j)
       \<and> test_number (fst (snd (expected_entry p d (v + 1 + int j))))"
  shows "log_loop lib p d log os iter v = Some (0, os, v + int (length es))"
  using assms(3,4)
proof (induction es arbitrary: iter v)
  case Nil
  obtain iter' where "sparkey_logiter_next lib iter log = Some (SPARKEY_SUCCESS, iter')" "it_state iter' = SPARKEY_ITER_CLOSED"
    by (rule logiter_next_end [OF ok Nil(1)])
  then show ?case by (subst log_loop.simps) (simp add: sparkey_logiter_state_def)
next
  case (Cons e es)
  obtain t i prefix where exp: "expected_entry p d (v + 1) = (t, i, prefix)" by (cases "expected_entry p d (v + 1)")
  have e: "e = (if t = SPARKEY_ENTRY_PUT then PutEntry (numbered_key i) (numbered_value prefix i) else DeleteEntry (numbered_key i))"
    and i: "test_number i" using Cons.prems(2) exp by (force simp: expected_log_entry_def)+
  have pre: "printable prefix" "length prefix \<le> 80" "t = SPARKEY_ENTRY_PUT \<or> t = SPARKEY_ENTRY_DELETE"
    using exp by (auto simp: expected_entry_def split: if_splits)
  note sp = sprintf_key [of i] sprintf_value [of i prefix, OF _ _ pre(2)]
  obtain iter1 where 1: "sparkey_logiter_next lib iter log = Some (SPARKEY_SUCCESS, iter1)"
    "active lib log iter1 e es (entry_key e) (entry_value e)"
    by (rule logiter_next_entry [OF ok Cons.prems(1)])
  obtain iter2 where 2: "test_key lib os iter1 log = Some (0, entry_key e @ [0], os, iter2)" "active lib log iter2 e es [] (entry_value e)"
    by (rule test_key_active [OF ok 1(2) os])
  obtain iter3 rk where 3: "test_value lib os iter2 log = Some (0, entry_value e @ [0], os, iter3)" "active lib log iter3 e es rk []"
    by (rule test_value_active [OF ok 2(2) os])
  have ty: "sparkey_logiter_type iter3 = t"
    using 3(2) e pre(3) by (auto simp: active_def sparkey_logiter_type_def split: if_splits)
  have "\<forall>j < length es. es ! j = expected_log_entry p d (v + 1 + 1 + int j)
       \<and> test_number (fst (snd (expected_entry p d (v + 1 + 1 + int j))))"
  proof (intro allI impI)
    fix j assume "j < length es"
    then show "es ! j = expected_log_entry p d (v + 1 + 1 + int j)
       \<and> test_number (fst (snd (expected_entry p d (v + 1 + 1 + int j))))"
      using Cons.prems(2) [rule_format, of "Suc j"] by (simp add: ac_simps)
  qed
  note IH = Cons.IH [OF active_before [OF 3(2)] this]
  have "log_loop lib p d log os iter v = log_loop lib p d log os iter3 (v + 1)"
    using 1(1) 2(1) 3(1) active_state [OF 1(2)] ty exp sp i e numbered_no_end(1) [of i] numbered_no_end(2) [OF pre(1), of i]
    by (subst log_loop.simps)
      (auto simp: sparkey_logiter_state_def Let_def test_number_def assert_str_passes split: if_splits)
  then show ?case using IH by simp
qed

definition expected_live :: "int \<Rightarrow> int \<Rightarrow> int \<Rightarrow> log_entry" where
  "expected_live p f v = (case expected_live_entry p f v of (i, prefix) \<Rightarrow> PutEntry (numbered_key i) (numbered_value prefix i))"

lemma hash_loop_entries:
  assumes rd: "reads_index lib reader M" and os: "os_mallocs os = []"
    and "indexes lib (hr_log reader) (hr_header reader) (ds @ es) [] M" "before lib (hr_log reader) iter es"
    and "\<forall>e \<in> set (ds @ es). length (entry_key e) < 2 ^ 31"
    and "\<forall>j < length (live_entries es). live_entries es ! j = expected_live p f (v + 1 + int j)
       \<and> test_number (fst (expected_live_entry p f (v + 1 + int j)))"
  shows "\<exists>iter' cur rest. hash_loop lib p f reader os iter v = Some (0, os, iter', v + int (length (live_entries es)))
    \<and> iter_at lib (hr_log reader) iter' cur rest"
  using assms(3-)
proof (induction "length es" arbitrary: ds es iter v rule: less_induct)
  case less
  let ?log = "hr_log reader"
  have ok: "reader_ok lib ?log" and op: "assert_reader_open reader = SPARKEY_SUCCESS"
    using rd by (simp_all add: reads_index_def assert_reader_open_def)
  have keys: "\<forall>e \<in> set es. length (entry_key e) < 2 ^ 31" using less.prems(3) by simp
  obtain iter1 where n: "sparkey_logiter_hashnext lib os iter reader = Some (SPARKEY_SUCCESS, os, iter1)"
    and res: "next_live lib ?log es iter1"
    using hashnext_loop_live [OF rd os less.prems(1,2) keys] op by (auto simp: sparkey_logiter_hashnext_def)
  show ?case
  proof (cases "live_entries es")
    case Nil
    then show ?thesis using n res by (subst hash_loop.simps) (simp add: sparkey_logiter_state_def next_live_def)
  next
    case (Cons e rest)
    then obtain ds' es' where d: "es = ds' @ e # es'" "rest = live_entries es'"
      and a: "active lib ?log iter1 e es' (entry_key e) (entry_value e)"
      using res by (auto simp: next_live_def)
    obtain i prefix where exp: "expected_live_entry p f (v + 1) = (i, prefix)" by (cases "expected_live_entry p f (v + 1)")
    have e: "e = PutEntry (numbered_key i) (numbered_value prefix i)" and i: "test_number i"
      using less.prems(4) exp Cons by (force simp: expected_live_def)+
    have pre: "printable prefix" "length prefix \<le> 80"
      using exp by (auto simp: expected_live_entry_def split: if_splits)
    note sp = sprintf_key [of i] sprintf_value [of i prefix, OF _ _ pre(2)]
    obtain iter2 where 2: "test_key lib os iter1 ?log = Some (0, entry_key e @ [0], os, iter2)" "active lib ?log iter2 e es' [] (entry_value e)"
      by (rule test_key_active [OF ok a os])
    obtain iter3 rk where 3: "test_value lib os iter2 ?log = Some (0, entry_value e @ [0], os, iter3)" "active lib ?log iter3 e es' rk []"
      by (rule test_value_active [OF ok 2(2) os])
    have ty: "sparkey_logiter_type iter3 = SPARKEY_ENTRY_PUT"
      using 3(2) e by (auto simp: active_def sparkey_logiter_type_def)
    have step: "hash_loop lib p f reader os iter v = hash_loop lib p f reader os iter3 (v + 1)"
      using n 2(1) 3(1) active_state [OF a] ty exp sp i e numbered_no_end(1) [of i] numbered_no_end(2) [OF pre(1), of i]
      by (subst hash_loop.simps)
        (simp add: sparkey_logiter_state_def Let_def test_number_def assert_str_passes sparkey_hash_getreader_def)
    have "length es' < length es" using d(1) by simp
    moreover have split: "(ds @ ds' @ [e]) @ es' = ds @ es" using d(1) by simp
    moreover have "\<forall>j < length (live_entries es'). live_entries es' ! j = expected_live p f (v + 1 + 1 + int j)
       \<and> test_number (fst (expected_live_entry p f (v + 1 + 1 + int j)))"
    proof (intro allI impI)
      fix j assume "j < length (live_entries es')"
      then show "live_entries es' ! j = expected_live p f (v + 1 + 1 + int j)
         \<and> test_number (fst (expected_live_entry p f (v + 1 + 1 + int j)))"
        using less.prems(4) [rule_format, of "Suc j"] Cons d(2) by (simp add: ac_simps)
    qed
    ultimately have "\<exists>iter' cur rest. hash_loop lib p f reader os iter3 (v + 1)
          = Some (0, os, iter', v + 1 + int (length (live_entries es'))) \<and> iter_at lib ?log iter' cur rest"
      using less.hyps [OF _ _ active_before [OF 3(2)], of "ds @ ds' @ [e]"] less.prems(1,3) unfolding split by blast
    then show ?thesis using step Cons d(2) by (simp add: ac_simps)
  qed
qed

lemma lookup_loop_passes:
  assumes rd: "reads_index lib reader M" and ix: "indexes lib (hr_log reader) (hr_header reader) (test_log p d q) [] M"
    and num: "0 \<le> p" "0 \<le> d" "0 \<le> q" and os: "os_mallocs os = []"
    and "iter_at lib (hr_log reader) iter cur rest" "\<forall>i \<in> set is. test_number i"
  shows "\<exists>iter'. lookup_loop lib p d q reader is (os, iter) = Some (0, os, iter')"
  using assms(7,8)
proof (induction "is" arbitrary: iter cur rest)
  case (Cons i "is")
  let ?log = "hr_log reader"
  have ok: "reader_ok lib ?log" using rd by (simp add: reads_index_def)
  have i: "0 \<le> i" "i < 2 ^ 31" using Cons.prems(2) by (simp_all add: test_number_def)
  have len: "length (numbered_key i) < 2 ^ 31" using length_numbered_key [OF i] by simp
  obtain iter1 where g: "sparkey_hash_get lib reader (numbered_key i) iter = Some (SPARKEY_SUCCESS, iter1)"
    and res: "case log_map (test_log p d q) (numbered_key i) of
       None \<Rightarrow> it_state iter1 = SPARKEY_ITER_INVALID \<and> (\<exists>cur rest. iter_at lib ?log iter1 cur rest)
     | Some v \<Rightarrow> \<exists>es'. active lib ?log iter1 (PutEntry (numbered_key i) v) es' [] v"
    by (rule hash_get_log_map [OF rd ix Cons.prems(1) len])
  note m = test_log_map [OF num i(1)]
  let ?prefix = "if i < q then ''newvalue'' else ''value''"
  have pre: "printable ?prefix" "length ?prefix \<le> 80" by simp_all
  show ?case
  proof (cases "i < q \<or> d \<le> i \<and> i < p")
    case False
    then have st: "it_state iter1 = SPARKEY_ITER_INVALID" and it: "\<exists>cur rest. iter_at lib ?log iter1 cur rest"
      using res m by auto
    then have "lookup_loop lib p d q reader (i # is) (os, iter) = lookup_loop lib p d q reader is (os, iter1)"
      using g False sprintf_key [OF i] by (auto simp: sparkey_logiter_state_def sprintf_100_def)
    then show ?thesis using Cons.IH it Cons.prems(2) by auto
  next
    case True
    let ?v = "numbered_value ?prefix i"
    obtain es' where a: "active lib ?log iter1 (PutEntry (numbered_key i) ?v) es' [] ?v" using True res m by (auto split: if_splits)
    obtain iter2 rk where v: "test_value lib os iter1 ?log = Some (0, ?v @ [0], os, iter2)"
      "active lib ?log iter2 (PutEntry (numbered_key i) ?v) es' rk []"
      by (rule test_value_active [OF ok _ os, of iter1 "PutEntry (numbered_key i) ?v" es' "[]"]) (use a in simp_all)
    obtain cur' rest' where it: "iter_at lib ?log iter2 cur' rest'" using active_iter_at [OF v(2)] by blast
    have "lookup_loop lib p d q reader (i # is) (os, iter) = lookup_loop lib p d q reader is (os, iter2)"
      using g True sprintf_key [OF i] sprintf_value [OF i pre(2)] v(1) active_state [OF a] numbered_no_end(2) [OF pre(1), of i]
      by (auto simp: assert_str_passes sparkey_logiter_state_def sparkey_hash_getreader_def split: if_splits)
    then show ?thesis using Cons.IH [OF it] Cons.prems(2) by simp
  qed
qed simp

section \<open>What the loops expect\<close>

lemma test_log_expected:
  assumes "0 \<le> p" "0 \<le> d" "0 \<le> q" "p + d + q < 2 ^ 31"
  shows "\<forall>j < length (test_log p d q). test_log p d q ! j = expected_log_entry p d (0 + 1 + int j)
    \<and> test_number (fst (snd (expected_entry p d (0 + 1 + int j))))"
proof (intro allI impI)
  fix j assume j: "j < length (test_log p d q)"
  consider "int j < p" | "p \<le> int j" "int j < p + d" | "p + d \<le> int j" "int j < p + d + q"
    using j assms(1-3) by (fastforce simp: length_test_log)
  then show "test_log p d q ! j = expected_log_entry p d (0 + 1 + int j)
    \<and> test_number (fst (snd (expected_entry p d (0 + 1 + int j))))"
    by cases (use assms in \<open>auto simp: test_log_def expected_log_entry_def expected_entry_def numbered_puts_def
      numbered_deletes_def nth_append test_number_def nat_less_iff nat_le_iff of_nat_diff algebra_simps\<close>)
qed

lemma live_test_log_expected:
  assumes "0 \<le> p" "0 \<le> d" "0 \<le> q" "p + d + q < 2 ^ 31"
  shows "\<forall>j < length (live_entries (test_log p d q)).
      live_entries (test_log p d q) ! j = expected_live (max 0 (p - max d q)) (max d q) (0 + 1 + int j)
    \<and> test_number (fst (expected_live_entry (max 0 (p - max d q)) (max d q) (0 + 1 + int j)))"
proof (intro allI impI)
  fix j assume j: "j < length (live_entries (test_log p d q))"
  define m where "m = max d q"
  define n where "n = max 0 (p - m)"
  have len: "length (numbered_puts ''value'' [m..p - 1]) = nat n" by (simp add: n_def)
  have live: "live_entries (test_log p d q) = numbered_puts ''value'' [m..p - 1] @ numbered_puts ''newvalue'' [0..q - 1]"
    unfolding m_def by (rule live_test_log [OF assms(1-3)])
  have "0 \<le> m" "0 \<le> n" using assms by (simp_all add: m_def n_def)
  show "live_entries (test_log p d q) ! j = expected_live (max 0 (p - max d q)) (max d q) (0 + 1 + int j)
    \<and> test_number (fst (expected_live_entry (max 0 (p - max d q)) (max d q) (0 + 1 + int j)))"
    unfolding m_def [symmetric] n_def [symmetric]
  proof (cases "int j < n")
    case True
    then have lt: "j < nat n" "int j < p - m" by (simp_all add: n_def)
    then have "[m..p - 1] ! j = m + int j" by simp
    then show "live_entries (test_log p d q) ! j = expected_live n m (0 + 1 + int j)
      \<and> test_number (fst (expected_live_entry n m (0 + 1 + int j)))"
      using lt True assms \<open>0 \<le> m\<close> unfolding live nth_append len
      by (simp add: expected_live_def expected_live_entry_def numbered_puts_def test_number_def)
  next
    case False
    then have "j < nat n + nat q" using j len unfolding live by simp
    then have lt: "\<not> j < nat n" "int (j - nat n) = int j - n" "int j - n < q" using False \<open>0 \<le> n\<close> assms(3) by linarith+
    then have "[0..q - 1] ! (j - nat n) = int j - n" by simp
    then show "live_entries (test_log p d q) ! j = expected_live n m (0 + 1 + int j)
      \<and> test_number (fst (expected_live_entry n m (0 + 1 + int j)))"
      using lt False assms unfolding live nth_append len
      by (simp add: expected_live_def expected_live_entry_def numbered_puts_def test_number_def)
  qed
qed

section \<open>A run of the test\<close>

lemma test_log_loops:
  assumes w: "write_entries lib s (test_log p d q) = Some (SPARKEY_SUCCESS, s')" and num: "p < 2 ^ 31" "d < 2 ^ 31" "q < 2 ^ 31"
  obtains sa sb where "put_loop lib ''value'' [0..p - 1] s = Some (0, sa)" "delete_loop lib [0..d - 1] sa = Some (0, sb)"
    "put_loop lib ''newvalue'' [0..q - 1] sb = Some (0, s')"
proof -
  obtain sa sb where parts: "write_entries lib s (numbered_puts ''value'' [0..p - 1]) = Some (SPARKEY_SUCCESS, sa)"
    "write_entries lib sa (numbered_deletes [0..d - 1]) = Some (SPARKEY_SUCCESS, sb)"
    "write_entries lib sb (numbered_puts ''newvalue'' [0..q - 1]) = Some (SPARKEY_SUCCESS, s')"
    using w unfolding test_log_def write_entries_append
    by (auto simp: rethrow_def bind_eq_Some_conv split: if_splits)
  show thesis
    by (rule that) (rule put_loop_entries [OF parts(1)] delete_loop_entries [OF parts(2)] put_loop_entries [OF parts(3)]; use num in auto)+
qed

lemma test_log_reads_back:
  assumes f: "indexable_file lib h gs c" and os: "os_indexes os hf lf c" and gs: "concat gs = test_log p d q"
    and num: "0 \<le> p" "0 \<le> d" "0 \<le> q" "p + d + q < 2 ^ 31"
  obtains lr iter where "sparkey_logreader_open junk os lf = (Inr lr, os)" "sparkey_logiter_create junki os lr = (Inr iter, os)"
    "log_loop lib p d lr os iter 0 = Some (0, os, p + d + q)"
proof -
  have o: "os_open_read os lf = Inr c" "os_mallocs os = []" "os_mmap_ok os" using os by (simp_all add: os_indexes_def)
  obtain lr where lr: "\<And>junk. sparkey_logreader_open_noalloc os junk lf = Inr lr" "reader_ok lib lr"
    "\<And>junk. \<exists>iter. sparkey_logiter_create junk os lr = (Inr iter, os) \<and> before lib lr iter (concat gs)"
    by (rule indexable_reader [OF f o(1,3,2)]) blast
  obtain iter where it: "sparkey_logiter_create junki os lr = (Inr iter, os)" "before lib lr iter (test_log p d q)"
    using lr(3) gs by metis
  have "sparkey_logreader_open junk os lf = (Inr lr, os)"
    using lr(1) o(2) by (simp add: sparkey_logreader_open_def correct_endian_platform_def malloc_or_fail_def os_malloc_def)
  moreover have "log_loop lib p d lr os iter 0 = Some (0, os, p + d + q)"
    using log_loop_entries [OF lr(2) o(2) it(2) test_log_expected [OF num]] num by (simp add: length_test_log)
  ultimately show thesis using that it(1) by blast
qed

lemma index_tests_pass:
  assumes rd: "reads_index lib reader M" and ix: "indexes lib (hr_log reader) (hr_header reader) (test_log p d q) [] M"
    and bf: "before lib (hr_log reader) iter (test_log p d q)" and os: "os_mallocs os = []"
    and num: "0 \<le> p" "0 \<le> d" "0 \<le> q" "p + d + q + 100 < 2 ^ 31"
  obtains iter3 iter4 where
    "hash_loop lib (max 0 (p - max d q)) (max d q) reader os iter 0 = Some (0, os, iter3, max 0 (p - max d q) + q)"
    "lookup_loop lib p d q reader [0..max p q + 99] (os, iter3) = Some (0, os, iter4)"
proof -
  have sum: "p + d + q < 2 ^ 31" using num(4) by simp
  have "length (live_entries (test_log p d q)) = nat (max 0 (p - max d q)) + nat q" unfolding live_test_log [OF num(1-3)] by simp
  then obtain iter3 cur rest where hl: "hash_loop lib (max 0 (p - max d q)) (max d q) reader os iter 0
      = Some (0, os, iter3, max 0 (p - max d q) + q)" "iter_at lib (hr_log reader) iter3 cur rest"
    using hash_loop_entries [OF rd os _ bf _ live_test_log_expected [OF num(1-3) sum], of "[]"] ix
      test_log_ok(1) [OF sum num(1-3)] num(3) by auto
  have "\<forall>i \<in> set [0..max p q + 99]. test_number i" using num by (auto simp: test_number_def)
  then show thesis using that [OF hl(1)] lookup_loop_passes [OF rd ix num(1-3) os hl(2)] by blast
qed

text \<open>The run, and the state it leaves.\<close>

lemma verify_session:
  assumes lib: "codec_ok lib" and env: "index_env os ''test.spi'' ''test.spl''" and ident: "os_urandom os = Some ident"
    and fresh: "\<forall>h. lh_file_identifier h = ident \<longrightarrow> old_index os ''test.spi'' h = None"
    and t: "compression \<le> SPARKEY_COMPRESSION_ZSTD" "sparkey_uses_compressor compression \<Longrightarrow> \<not> sint blocksize < 10"
    and num: "0 \<le> p" "0 \<le> d" "0 \<le> q" "p + d + q + 100 < 2 ^ 31"
    and hs: "hashsize = 0 \<or> hashsize = 4 \<or> hashsize = 8"
    and fits: "sparkey_uses_compressor compression \<Longrightarrow> log_can_be_indexed lib compression blocksize ident (test_log p d q)"
  obtains os' where "verify lib junk os compression blocksize hashsize p d q = Some (0, os')"
    "os_calm os'" "os_mallocs os' = []" "os_mmap_ok os'" "os_open_err os' = os_open_err os" "os_remove_err os' = os_remove_err os"
    "os_names os' = (os_names os)(''test.spl'' \<mapsto> length (os_store os), ''test.spi'' \<mapsto> Suc (length (os_store os)))"
    "length (os_store os') = length (os_store os) + 2"
    "\<forall>h. lh_file_identifier h \<noteq> ident \<longrightarrow> old_index os' ''test.spi'' h = None"
proof -
  let ?es = "test_log p d q" let ?hf = "''test.spi''" let ?lf = "''test.spl''"
  have sum: "p + d + q < 2 ^ 31" using num(4) by simp
  note ok = test_log_ok(1) [OF sum num(1-3)] and len = test_log_ok(2) [OF sum num(1-3)]
  have ten: "10 \<le> unat blocksize" if "sparkey_uses_compressor compression" using sint_ge_10(1) t(2) that by blast
  have es: "\<forall>e \<in> set ?es. entry_ok e \<and> (sparkey_uses_compressor compression \<longrightarrow> length (entry_head e) \<le> unat blocksize)"
    using ok ten by auto
  have can: "log_can_be_indexed lib compression blocksize ident ?es"
    using fits plain_can_be_indexed [OF _ len, of compression] ok by blast
  obtain os1 writer s os2 h gs c where w: "sparkey_logwriter_create lib (junk_writer junk) os ?lf compression blocksize = (Inr writer, os1)"
    "write_entries lib (os1, writer) ?es = Some (SPARKEY_SUCCESS, s)"
    "sparkey_logwriter_close lib s = Some (SPARKEY_SUCCESS, os2, None)"
    and log: "concat gs = ?es" "indexable_file lib h gs c" "os_indexes os2 ?hf ?lf c" "lh_file_identifier h = ident"
    and old: "old_index os2 ?hf (h\<lparr>lh_header_size := LOG_HEADER_SIZE\<rparr>) = None"
    and os2: "os_names os2 = (os_names os)(?lf \<mapsto> length (os_store os))" "length (os_store os2) = Suc (length (os_store os))"
      "os_open_err os2 = os_open_err os" "os_remove_err os2 = os_remove_err os"
    by (rule indexable_session [OF lib env ident t es fresh can, of "junk_writer junk"]) blast
  obtain sa sb where loops: "put_loop lib ''value'' [0..p - 1] (os1, writer) = Some (0, sa)" "delete_loop lib [0..d - 1] sa = Some (0, sb)"
    "put_loop lib ''newvalue'' [0..q - 1] sb = Some (0, s)"
    by (rule test_log_loops [OF w(2)]) (use num in auto)
  obtain lr iter where ll: "sparkey_logreader_open (junk_logreader junk) os2 ?lf = (Inr lr, os2)"
    "sparkey_logiter_create (junk_iter junk) os2 lr = (Inr iter, os2)" "log_loop lib p d lr os2 iter 0 = Some (0, os2, p + d + q)"
    by (rule test_log_reads_back [OF log(2,3,1) num(1-3) sum])
  obtain os3 reader M iter2 t ws where ix:
    "sparkey_hash_write lib (junk_hashheader junk) (junk_logreader junk) (junk_iter junk) (junk_iter2 junk) (junk_table junk)
       os2 ?hf ?lf hashsize = Some (SPARKEY_SUCCESS, os3)"
    "os3 = with_index os2 ?hf t ws" "sparkey_hash_open (junk_hashreader junk) os3 ?hf ?lf = (Inr reader, os3)"
    "sparkey_logiter_create (junk_iter junk) os3 (sparkey_hash_getreader reader) = (Inr iter2, os3)"
    "reads_index lib reader M" "indexes lib (hr_log reader) (hr_header reader) (concat gs) [] M"
    "before lib (hr_log reader) iter2 (concat gs)" "lr_header (hr_log reader) = h\<lparr>lh_header_size := LOG_HEADER_SIZE\<rparr>"
    "list_all write_retryable ws"
    by (rule index_log_session [OF log(2,3) old hs])
  have os3: "os_calm os3" "os_mallocs os3 = []" "os_mmap_ok os3" "os_open_err os3 = os_open_err os" "os_remove_err os3 = os_remove_err os"
    "os_names os3 = (os_names os)(?lf \<mapsto> length (os_store os), ?hf \<mapsto> Suc (length (os_store os)))"
    "length (os_store os3) = length (os_store os) + 2"
    using ix(2,9) log(3) os2 by (simp_all add: with_index_def os_indexes_def os_calm_def)
  obtain iter3 iter4 where hl: "hash_loop lib (max 0 (p - max d q)) (max d q) reader os3 iter2 0
      = Some (0, os3, iter3, max 0 (p - max d q) + q)" "lookup_loop lib p d q reader [0..max p q + 99] (os3, iter3) = Some (0, os3, iter4)"
    by (rule index_tests_pass [OF ix(5) ix(6,7) [unfolded log(1)] os3(2) num])
  have "verify lib junk os compression blocksize hashsize p d q = Some (0, os3)"
    using w(1,3) loops ll ix(1,3,4) hl by (simp add: verify_def Let_def)
  moreover have "\<forall>h'. lh_file_identifier h' \<noteq> ident \<longrightarrow> old_index os3 ?hf h' = None"
    using opened_index_other [OF ix(3) os3(2)] ix(8) log(4) by simp
  ultimately show thesis by (intro that [OF _ os3])
qed

section \<open>Properties\<close>

text \<open>
  C5: the system test passes. For a codec library that keeps its contract, any compression and block size, any hash
  size, and any numbers of puts, deletes and overwriting puts below the range of an \<open>int\<close>, every assertion of
  \<open>verify\<close> holds: the log is written, read back in order, indexed, iterated over (live entries only, in order) and
  searched (every key, and 100 keys behind the last one), and the exit code is 0. An index left by an earlier run
  must belong to another log; a compressed log must be one the loader and the index have room for.
\<close>

theorem verify_passes:
  assumes lib: "codec_ok lib" and env: "index_env os ''test.spi'' ''test.spl''" and ident: "os_urandom os = Some ident"
    and fresh: "\<forall>h. lh_file_identifier h = ident \<longrightarrow> old_index os ''test.spi'' h = None"
    and t: "compression \<le> SPARKEY_COMPRESSION_ZSTD" "sparkey_uses_compressor compression \<Longrightarrow> \<not> sint blocksize < 10"
    and num: "0 \<le> p" "0 \<le> d" "0 \<le> q" "p + d + q + 100 < 2 ^ 31"
    and hs: "hashsize = 0 \<or> hashsize = 4 \<or> hashsize = 8"
    and fits: "sparkey_uses_compressor compression \<Longrightarrow> log_can_be_indexed lib compression blocksize ident (test_log p d q)"
  shows "\<exists>os'. verify lib junk os compression blocksize hashsize p d q = Some (0, os')"
  by (rule verify_session [OF assms, where junk = junk]) (assumption | rule exI)+

theorem verify_passes_witness:
  "\<exists>os'. verify store_lib undefined fresh_os SPARKEY_COMPRESSION_NONE 0 0 100 10 5 = Some (0, os')"
  by (rule verify_passes [OF store_lib_codec_ok, where ident = "0x12345678"])
    (simp_all add: index_env_def fresh_os_def os_ready_def os_calm_def new_name_no_index sparkey_uses_compressor_def)

end
