(* ===== verification/FilesClosed.thy ===== *)
theory FilesClosed
  imports SystemTest NewLog
begin

text \<open>
  An index belongs to one log: \<open>sparkey_hash_open\<close> tells another log by its file identifier, which is random. The
  test \<open>verify_files_closed\<close> of \<open>src/src/testsystem.c\<close> relies on it.
\<close>

section \<open>Opening an index with another log\<close>

definition open_rc :: "(sparkey_returncode + 'a) \<times> os \<Rightarrow> sparkey_returncode" where
  "open_rc m = (case fst m of Inl rc \<Rightarrow> rc | Inr a \<Rightarrow> SPARKEY_SUCCESS)"

lemma hash_open_other_log:
  assumes "sparkey_hash_open junk os hf lf1 = (Inr reader, os)" "os_mallocs os = []"
    and log: "\<And>junk. sparkey_logreader_open_noalloc os junk lf1 = Inr log1"
      "\<And>junk. sparkey_logreader_open_noalloc os junk lf2 = Inr log2"
    and same: "lh_data_end (lr_header log2) = lh_data_end (lr_header log1)"
      "lh_max_key_len (lr_header log2) = lh_max_key_len (lr_header log1)"
      "lh_max_value_len (lr_header log2) = lh_max_value_len (lr_header log1)"
  shows "snd (sparkey_hash_open junk os hf lf2) = os"
    "open_rc (sparkey_hash_open junk os hf lf2) =
      (if lh_file_identifier (lr_header log2) = lh_file_identifier (lr_header log1) then SPARKEY_SUCCESS
       else SPARKEY_FILE_IDENTIFIER_MISMATCH)"
proof -
  note l = log(1) [of "hr_log junk"] log(2) [of "hr_log junk"]
  note o = assms(1) [unfolded sparkey_hash_open_def malloc_or_fail_ready [OF assms(2)] l, simplified correct_endian_platform_def, simplified]
  obtain header where h: "sparkey_load_hashheader os hf = Inr header"
    using o by (cases "sparkey_load_hashheader os hf") auto
  obtain c where c: "os_open_read os hf = Inr c"
    using load_hashheader_inv [OF h] by (auto simp: os_open_read_def split: option.splits)
  have "snd (sparkey_hash_open junk os hf lf2) = os \<and> open_rc (sparkey_hash_open junk os hf lf2) =
      (if lh_file_identifier (lr_header log2) = lh_file_identifier (lr_header log1) then SPARKEY_SUCCESS
       else SPARKEY_FILE_IDENTIFIER_MISMATCH)"
    unfolding sparkey_hash_open_def malloc_or_fail_ready [OF assms(2)] l
    using o by (auto simp: h c l same correct_endian_platform_def open_rc_def Let_def split: if_splits)
  then show "snd (sparkey_hash_open junk os hf lf2) = os"
    "open_rc (sparkey_hash_open junk os hf lf2) =
      (if lh_file_identifier (lr_header log2) = lh_file_identifier (lr_header log1) then SPARKEY_SUCCESS
       else SPARKEY_FILE_IDENTIFIER_MISMATCH)" by simp_all
qed

section \<open>An empty log\<close>

text \<open>The conditions for creating a log and an index of it, and the state an empty log is left in.\<close>

lemma empty_log_created:
  assumes lib: "codec_ok lib" and env: "index_env os hf lf" and ident: "os_urandom os = Some ident"
  obtains os' h gs c where
    "create_empty_log lib junk os lf = Some (0, os')"
    "concat gs = []" "indexable_file lib h gs c" "os_indexes os' hf lf c" "lh_file_identifier h = ident"
    "lh_data_end h = 84" "lh_max_key_len h = 0" "lh_max_value_len h = 0"
    "os_open_read os' hf = os_open_read os hf"
    "os_names os' = (os_names os)(lf \<mapsto> length (os_store os))" "length (os_store os') = Suc (length (os_store os))"
    "take (length (os_store os)) (os_store os') = os_store os" "os_ready os' lf"
    "os_open_err os' = os_open_err os" "os_remove_err os' = os_remove_err os"
proof -
  let ?t = SPARKEY_COMPRESSION_NONE
  have plain: "\<not> sparkey_uses_compressor ?t" by (simp add: sparkey_uses_compressor_def)
  obtain os1 writer s os' h gs c where w: "sparkey_logwriter_create lib (junk_writer junk) os lf ?t 4096 = (Inr writer, os1)"
    "write_entries lib (os1, writer) [] = Some (SPARKEY_SUCCESS, s)"
    "sparkey_logwriter_close lib s = Some (SPARKEY_SUCCESS, os', None)"
    and log: "concat gs = []" "log_file lib h gs c" "os_indexes os' hf lf c" "header_versions h"
    "lh_compression_type h = ?t" "lh_compression_block_size h = (if sparkey_uses_compressor ?t then 4096 else 0)"
    "lh_file_identifier h = ident" "\<not> sparkey_uses_compressor ?t \<longrightarrow> lh_max_entries_per_block h = 0"
    "c = logheader_bytes h @ log_data lib h gs"
    and rest: "os_open_read os' hf = os_open_read os hf"
    "os_names os' = (os_names os)(lf \<mapsto> length (os_store os))" "length (os_store os') = Suc (length (os_store os))"
    "take (length (os_store os)) (os_store os') = os_store os" "os_ready os' lf"
    "os_open_err os' = os_open_err os" "os_remove_err os' = os_remove_err os" "os_urandom os' = os_urandom os"
    by (rule new_log_session [OF lib env ident, where es = "[]" and junk = "junk_writer junk" and t = ?t and n = 4096])
      (use plain in auto)
  have "log_can_be_indexed lib ?t 4096 ident []" by (rule plain_can_be_indexed [OF plain]) simp_all
  then have f: "indexable_file lib h gs c"
    using log(1,2,4-9) unfolding log_can_be_indexed_def log(9) by blast
  have "sparkey_compressors lib (lh_compression_type h) = None" using log(5) plain uses_compressor_iff [of _ lib] by simp
  then have "log_data lib h gs = []" using log(1) by (simp add: log_data_def)
  moreover have counts: "header_counts h []" using log(2) unfolding log_file_def log(1) by blast
  moreover have "lh_data_end h = of_nat (84 + length (log_data lib h gs))" using log(2) by (simp add: log_file_def)
  ultimately have d: "lh_data_end h = 84" "lh_max_key_len h = 0" "lh_max_value_len h = 0"
    by (simp_all add: header_counts_def unat_eq_0)
  have "create_empty_log lib junk os lf = Some (0, os')"
    using w by (simp add: create_empty_log_def assert_equals_def)
  then show thesis by (intro that [OF _ log(1) f log(3,7) d rest(1-7)])
qed

section \<open>The test\<close>

lemma closed_session:
  assumes lib: "codec_ok lib" and env: "index_env os ''test1.spi'' ''test1.spl''" "os_ready os ''test2.spl''"
    and ident: "os_urandom os = Some ident1"
    and names: "os_names os ''test1.spi'' = None"
  shows "\<exists>os'. verify_files_closed lib junk ident2 os = Some (if ident1 = ident2 then 1 else 0, os')"
proof -
  let ?hf = "''test1.spi''" let ?lf = "''test1.spl''" let ?lf2 = "''test2.spl''" let ?n = "length (os_store os)"
  obtain os1 h gs c where l1: "create_empty_log lib junk os ?lf = Some (0, os1)"
    "concat gs = []" "indexable_file lib h gs c" "os_indexes os1 ?hf ?lf c" "lh_file_identifier h = ident1"
    "lh_data_end h = 84" "lh_max_key_len h = 0" "lh_max_value_len h = 0" "os_open_read os1 ?hf = os_open_read os ?hf"
    "os_names os1 = (os_names os)(?lf \<mapsto> ?n)" "length (os_store os1) = Suc ?n" "take ?n (os_store os1) = os_store os"
    "os_ready os1 ?lf" "os_open_err os1 = os_open_err os" "os_remove_err os1 = os_remove_err os"
    by (rule empty_log_created [OF lib env(1) ident, of junk])
  let ?os1 = "os1\<lparr>os_urandom := Some ident2\<rparr>"
  have env2: "index_env ?os1 ?hf ?lf2"
    using env l1(4,10,13-15) names by (auto simp: index_env_def os_ready_def os_indexes_def os_calm_def)
  obtain os2 h2 gs2 c2 where l2: "create_empty_log lib junk ?os1 ?lf2 = Some (0, os2)"
    "concat gs2 = []" "indexable_file lib h2 gs2 c2" "os_indexes os2 ?hf ?lf2 c2" "lh_file_identifier h2 = ident2"
    "lh_data_end h2 = 84" "lh_max_key_len h2 = 0" "lh_max_value_len h2 = 0" "os_open_read os2 ?hf = os_open_read ?os1 ?hf"
    "os_names os2 = (os_names ?os1)(?lf2 \<mapsto> length (os_store ?os1))" "length (os_store os2) = Suc (length (os_store ?os1))"
    "take (length (os_store ?os1)) (os_store os2) = os_store ?os1" "os_ready os2 ?lf2"
    "os_open_err os2 = os_open_err ?os1" "os_remove_err os2 = os_remove_err ?os1"
    by (rule empty_log_created [OF lib env2, of ident2 junk]) simp_all
  have "os_store os2 ! ?n = os_store os1 ! ?n" using arg_cong [OF l2(12), of "\<lambda>s. s ! ?n"] l1(11) by simp
  then have "os_content os2 ?lf = os_content os1 ?lf" using l1(10) l2(10) by (simp add: os_content_def)
  then have "os_open_read os2 ?lf = os_open_read os1 ?lf" using l2(14) by (simp add: os_open_read_def cong: option.case_cong)
  then have ix1: "os_indexes os2 ?hf ?lf c"
    using l1(4,10,11) l2(4,10,11) by (simp add: os_indexes_def)
  have "os_open_read os2 ?hf = Inl ENOENT \<or> (\<exists>e. os_open_read os2 ?hf = Inl e)"
    using l2(9) l1(9) names by (simp add: os_open_read_def os_content_def split: option.splits)
  then have old: "old_index os2 ?hf (h\<lparr>lh_header_size := LOG_HEADER_SIZE\<rparr>) = None"
    by (auto simp: old_index_def sparkey_load_hashheader_def)
  have o: "os_open_read os2 ?lf = Inr c" "os_open_read os2 ?lf2 = Inr c2" "os_mallocs os2 = []" "os_mmap_ok os2"
    using ix1 l2(4) by (simp_all add: os_indexes_def)
  obtain log1 where r1: "\<And>junk. sparkey_logreader_open_noalloc os2 junk ?lf = Inr log1"
    "lr_header log1 = h\<lparr>lh_header_size := LOG_HEADER_SIZE\<rparr>"
    by (rule indexable_reader [OF l1(3) o(1,4,3)]) blast
  obtain ws hh t M where w: "sparkey_hash_write lib (junk_hashheader junk) (junk_logreader junk) (junk_iter junk) (junk_iter2 junk)
       (junk_table junk) os2 ?hf ?lf 0 = Some (SPARKEY_SUCCESS, with_index os2 ?hf (hashheader_bytes hh @ t) ws)"
    "index_for lib h (concat gs) log1 hh t M"
    by (rule hash_write_new [OF l1(3) ix1 _ old r1(1), where hash_size = 0 and junk = "junk_hashheader junk"
          and junkr = "junk_logreader junk" and junki = "junk_iter junk" and ?junki2.0 = "junk_iter2 junk" and mem = "junk_table junk"]) auto
  let ?os = "with_index os2 ?hf (hashheader_bytes hh @ t) ws"
  obtain reader where rd: "sparkey_hash_open (junk_hashreader junk) ?os ?hf ?lf = (Inr reader, ?os)"
    by (rule index_opens [OF l1(3) ix1 r1(1) w(2)])
  obtain log2 where r2: "\<And>junk. sparkey_logreader_open_noalloc os2 junk ?lf2 = Inr log2"
    "lr_header log2 = h2\<lparr>lh_header_size := LOG_HEADER_SIZE\<rparr>"
    by (rule indexable_reader [OF l2(3) o(2,4,3)]) blast
  have same: "sparkey_logreader_open_noalloc ?os jk name = sparkey_logreader_open_noalloc os2 jk name"
    if "name = ?lf \<or> name = ?lf2" for jk name
    using that with_index_other [of name ?hf os2] o(1,2) l1(10,11) l2(10,11) by (intro logreader_open_same) auto
  have logs: "sparkey_logreader_open_noalloc ?os jk ?lf = Inr log1" "sparkey_logreader_open_noalloc ?os jk ?lf2 = Inr log2" for jk
    using same r1(1) r2(1) by simp_all
  note op = hash_open_other_log [OF rd _ logs]
  have "open_rc (sparkey_hash_open (junk_hashreader junk) ?os ?hf ?lf2)
      = (if ident1 = ident2 then SPARKEY_SUCCESS else SPARKEY_FILE_IDENTIFIER_MISMATCH)"
    by (subst op(2)) (use o(3) r1(2) r2(2) l1 l2 in auto)
  then have rc: "(case res of Inl rc \<Rightarrow> rc | Inr reader \<Rightarrow> SPARKEY_SUCCESS)
      = (if ident1 = ident2 then SPARKEY_SUCCESS else SPARKEY_FILE_IDENTIFIER_MISMATCH)"
    if "sparkey_hash_open (junk_hashreader junk) ?os ?hf ?lf2 = (res, os')" for res os'
    using that by (simp add: open_rc_def)
  show ?thesis
    using l1(1) l2(1) w(1) rc
    by (cases "sparkey_hash_open (junk_hashreader junk) ?os ?hf ?lf2") (simp add: verify_files_closed_def assert_equals_def)
qed

section \<open>Properties\<close>

text \<open>
  \<open>verify_files_closed\<close> passes if and only if the two logs have got different file identifiers: the index of one
  empty log opens with another log exactly when \<open>/dev/urandom\<close> has given the same 4 bytes twice.
\<close>

theorem files_closed_passes:
  assumes lib: "codec_ok lib" and env: "index_env os ''test1.spi'' ''test1.spl''" "os_ready os ''test2.spl''"
    and ident: "os_urandom os = Some ident1"
    and names: "os_names os ''test1.spi'' = None"
  shows "\<exists>os'. verify_files_closed lib junk ident2 os = Some (if ident1 = ident2 then 1 else 0, os')"
  by (rule closed_session [OF assms])

theorem files_closed_passes_witness:
  "\<exists>os'. verify_files_closed store_lib undefined 7 fresh_os = Some (if (0x12345678 :: u32) = 7 then 1 else 0, os')"
  by (rule files_closed_passes [OF store_lib_codec_ok])
    (simp_all add: index_env_def fresh_os_def os_ready_def os_calm_def)

end
