(* ===== verification/StoredLog.thy ===== *)
theory StoredLog
  imports NewLog
begin

text \<open>
  A log compressed with a codec that does not compress: the data of the blocks keep at least one byte for each entry, and
  when there is less than two gigabytes of them the log can be indexed, whatever the groups are.
\<close>

lemma store_can_be_indexed:
  assumes len: "length (encode_entries es) < 2 ^ 27" and n: "10 \<le> unat n" "n < 2 ^ 31"
    and es: "\<forall>e \<in> set es. entry_ok e \<and> length (entry_key e) < 2 ^ 31"
    and t: "sparkey_uses_compressor t"
  shows "log_can_be_indexed store_lib t n ident es"
  unfolding log_can_be_indexed_def
proof (intro allI impI)
  fix h gs
  assume a: "concat gs = es \<and> lh_compression_type h = t \<and> lh_file_identifier h = ident \<and> header_versions h
        \<and> lh_compression_block_size h = (if sparkey_uses_compressor t then n else 0)
        \<and> (\<not> sparkey_uses_compressor t \<longrightarrow> lh_max_entries_per_block h = 0)
        \<and> log_file store_lib h gs (logheader_bytes h @ log_data store_lib h gs)"
  obtain c where c: "sparkey_compressors store_lib t = Some c" using t uses_compressor_iff by blast
  have size: "lh_compression_block_size h = n" using a t by simp
  let ?bs = "log_blocks (unat n) gs" let ?c = "logheader_bytes h @ log_data store_lib h gs"
  have "b \<noteq> [] \<and> length b \<le> length (block_out c n b) \<and> length (block_out c n b) \<le> length b" if "b \<in> set ?bs" for b
  proof -
    have b: "b \<noteq> []" "length b \<le> unat n" using log_blocks_size [of "unat n" gs] n(1) that by auto
    then show ?thesis using store_block_out [OF c b(2) n(2)] by simp
  qed
  then have "\<forall>b \<in> set ?bs. b \<noteq> [] \<and> length b \<le> length (block_out c n b) \<and> length (block_out c n b) \<le> length b" by blast
  note bounds = blocks_bytes_bounds [OF this, unfolded concat_log_blocks]
  have data: "log_data store_lib h gs = blocks_bytes c n ?bs" using a c size by (simp add: log_data_def)
  have lo: "2 * length es \<le> length (log_data store_lib h gs)" and hi: "length (log_data store_lib h gs) < 2 ^ 31 - 84"
    using bounds two_entries_le [of es] len a unfolding data by simp_all
  have logf: "log_file store_lib h gs ?c" using a by blast
  have small: "length ?c < 2 ^ 63" using hi by simp
  note de = log_file_end(1) [OF logf small]
  have ld: "log_loadable store_lib h gs ?c"
    by (rule log_loadable_entries [OF logf _ small]) (use a lo de in simp_all)
  have ty: "lh_compression_type h = t" using a by blast
  have max: "unat (lh_max_entries_per_block h) < 2 ^ 31" using logf c by (simp add: log_file_def ty)
  have puts: "length (filter is_put es) < 2 ^ 31" using length_filter_le [of is_put es] lo hi by linarith
  have end31: "unat (lh_data_end h) < 2 ^ 31" using de hi by simp
  have "unat (lh_data_end h) * (2 * unat (lh_max_entries_per_block h) + 1) \<le> 2 ^ 31 * 2 ^ 32"
    by (rule mult_le_mono) (use max end31 in simp_all)
  then have "unat (lh_data_end h) * (2 * unat (lh_max_entries_per_block h) + 1) < 2 ^ 64" by simp
  moreover have "unat (lh_num_puts h) < 2 ^ 53"
    using a puts by (simp add: log_file_def header_counts_def unat_of_nat_u64)
  ultimately have "log_indexable h" using max by (simp add: log_indexable_def)
  then show "indexable_file store_lib h gs ?c" using logf ld es a by (simp add: indexable_file_def)
qed

end
