(* ===== verification/SystemTestMain.thy ===== *)
theory SystemTestMain
  imports SystemTestCorrect FilesClosed StoredLog
begin

text \<open>
  All runs of the system test one after the other: what one leaves is what the next one needs, as long as the
  identifiers of successive logs differ.
\<close>

section \<open>The environment of the test\<close>

definition system_env :: "os \<Rightarrow> bool" where
  "system_env os \<longleftrightarrow>
     os_calm os \<and> os_mallocs os = [] \<and> os_mmap_ok os
     \<and> (\<forall>name \<in> {''test.spl'', ''test.spi'', ''test1.spl'', ''test1.spi'', ''test2.spl''}.
         os_open_err os name = None \<and> os_remove_err os name = None)
     \<and> (\<forall>i. os_names os ''test.spi'' = Some i \<longrightarrow> i < length (os_store os)) \<and> os_names os ''test1.spi'' = None"

lemma system_env_index:
  assumes "system_env os"
  shows "index_env (os\<lparr>os_urandom := Some ident\<rparr>) ''test.spi'' ''test.spl''"
    "index_env (os\<lparr>os_urandom := Some ident\<rparr>) ''test1.spi'' ''test1.spl''" "os_ready (os\<lparr>os_urandom := Some ident\<rparr>) ''test2.spl''"
  using assms by (simp_all add: system_env_def index_env_def os_ready_def os_calm_def)

lemma old_index_urandom [simp]: "old_index (os\<lparr>os_urandom := u\<rparr>) hf h = old_index os hf h"
  by (rule old_index_same) (simp add: os_open_read_def os_content_def cong: option.case_cong)

section \<open>The runs\<close>

definition run_ok :: "codec_lib \<Rightarrow> sparkey_compression_type \<times> u32 \<times> u32 \<times> int \<times> int \<times> int \<Rightarrow> bool" where
  "run_ok lib run \<longleftrightarrow>
     (case run of (t, blocksize, hashsize, p, d, q) \<Rightarrow>
        t \<le> SPARKEY_COMPRESSION_ZSTD \<and> (sparkey_uses_compressor t \<longrightarrow> \<not> sint blocksize < 10)
        \<and> 0 \<le> p \<and> 0 \<le> d \<and> 0 \<le> q \<and> p + d + q + 100 < 2 ^ 31 \<and> (hashsize = 0 \<or> hashsize = 4 \<or> hashsize = 8)
        \<and> (sparkey_uses_compressor t \<longrightarrow> (\<forall>ident. log_can_be_indexed lib t blocksize ident (test_log p d q))))"

lemma verify_runs_pass:
  assumes lib: "codec_ok lib"
    and "\<forall>run \<in> set runs. run_ok lib run" "system_env os"
    and "\<forall>h. lh_file_identifier h = idents k \<longrightarrow> old_index os ''test.spi'' h = None"
    and "\<forall>j < length runs. idents (k + j) \<noteq> idents (Suc (k + j))"
  shows "\<exists>os'. verify_runs lib junk idents k runs os = Some (0, os') \<and> system_env os'"
  using assms(2-)
proof (induction runs arbitrary: k os)
  case (Cons run runs)
  obtain t blocksize hashsize p d q where run: "run = (t, blocksize, hashsize, p, d, q)" by (cases run) auto
  let ?os = "os\<lparr>os_urandom := Some (idents k)\<rparr>"
  have ok: "t \<le> SPARKEY_COMPRESSION_ZSTD" "sparkey_uses_compressor t \<Longrightarrow> \<not> sint blocksize < 10" "0 \<le> p" "0 \<le> d" "0 \<le> q"
    "p + d + q + 100 < 2 ^ 31" "hashsize = 0 \<or> hashsize = 4 \<or> hashsize = 8"
    "sparkey_uses_compressor t \<Longrightarrow> log_can_be_indexed lib t blocksize (idents k) (test_log p d q)"
    using Cons.prems(1) by (simp_all add: run run_ok_def)
  have fresh: "\<forall>h. lh_file_identifier h = idents k \<longrightarrow> old_index ?os ''test.spi'' h = None" using Cons.prems(3) by simp
  have ident: "os_urandom ?os = Some (idents k)" by simp
  obtain os' where v: "verify lib junk ?os t blocksize hashsize p d q = Some (0, os')"
    and st: "os_calm os'" "os_mallocs os' = []" "os_mmap_ok os'" "os_open_err os' = os_open_err ?os" "os_remove_err os' = os_remove_err ?os"
      "os_names os' = (os_names ?os)(''test.spl'' \<mapsto> length (os_store ?os), ''test.spi'' \<mapsto> Suc (length (os_store ?os)))"
      "length (os_store os') = length (os_store ?os) + 2"
    and other: "\<forall>h. lh_file_identifier h \<noteq> idents k \<longrightarrow> old_index os' ''test.spi'' h = None"
    by (rule verify_session [OF lib system_env_index(1) [OF Cons.prems(2)] ident fresh ok, where junk = junk])
  have env': "system_env os'" using Cons.prems(2) st by (simp add: system_env_def)
  have differs: "idents k \<noteq> idents (Suc k)" using Cons.prems(4) by (auto dest: spec [of _ 0])
  have "\<exists>os''. verify_runs lib junk idents (Suc k) runs os' = Some (0, os'') \<and> system_env os''"
  proof (rule Cons.IH [OF _ env'])
    show "\<forall>h. lh_file_identifier h = idents (Suc k) \<longrightarrow> old_index os' ''test.spi'' h = None" using other differs by auto
    show "\<forall>j < length runs. idents (Suc k + j) \<noteq> idents (Suc (Suc k + j))"
    proof (intro allI impI)
      fix j assume "j < length runs"
      then show "idents (Suc k + j) \<noteq> idents (Suc (Suc k + j))" using Cons.prems(4) [rule_format, of "Suc j"] by simp
    qed
  qed (use Cons.prems(1) in simp)
  then show ?case using v by (simp add: run)
qed simp

lemma test_runs_ok:
  assumes "\<forall>(t, blocksize, hashsize, p, d, q) \<in> set test_runs. sparkey_uses_compressor t \<longrightarrow>
    (\<forall>ident. log_can_be_indexed lib t blocksize ident (test_log p d q))"
  shows "\<forall>run \<in> set test_runs. run_ok lib run"
proof -
  have "\<forall>(t, blocksize, hashsize, p, d, q) \<in> set test_runs.
      t \<le> SPARKEY_COMPRESSION_ZSTD \<and> (sparkey_uses_compressor t \<longrightarrow> \<not> sint blocksize < 10)
      \<and> 0 \<le> p \<and> 0 \<le> d \<and> 0 \<le> q \<and> p + d + q + 100 < 2 ^ 31 \<and> (hashsize = 0 \<or> hashsize = 4 \<or> hashsize = 8)"
    by (simp add: test_runs_def sparkey_uses_compressor_def)
  then show ?thesis using assms unfolding run_ok_def by fast
qed

lemma store_test_runs:
  "\<forall>(t, blocksize, hashsize, p, d, q) \<in> set test_runs. sparkey_uses_compressor t \<longrightarrow>
    (\<forall>ident. log_can_be_indexed store_lib t blocksize ident (test_log p d q))"
proof -
  have "log_can_be_indexed store_lib t blocksize ident (test_log p d q)"
    if run: "(t, blocksize, hashsize, p, d, q) \<in> set test_runs" and t: "sparkey_uses_compressor t"
    for t blocksize hashsize p d q ident
  proof (rule store_can_be_indexed [OF _ _ _ _ t])
    have num: "0 \<le> p" "0 \<le> d" "0 \<le> q" "p + d + q \<le> 2000" using run by (auto simp: test_runs_def)
    have sum: "p + d + q < 2 ^ 31" using num(4) by simp
    note ok = test_log_ok(1) [OF sum num(1-3)]
    then show "\<forall>e \<in> set (test_log p d q). entry_ok e \<and> length (entry_key e) < 2 ^ 31" by blast
    have "length (encode_entries (test_log p d q)) \<le> 36 * length (test_log p d q)"
      by (rule length_encode_entries_le) (use ok in auto)
    also have "\<dots> < 2 ^ 27" using num by (simp add: length_test_log)
    finally show "length (encode_entries (test_log p d q)) < 2 ^ 27" .
    show "10 \<le> unat blocksize" "blocksize < 2 ^ 31" using run t by (auto simp: test_runs_def sparkey_uses_compressor_def)
  qed
  then show ?thesis by blast
qed

section \<open>Properties\<close>

text \<open>
  C6: the whole system test. The 24 runs of \<open>verify\<close> pass one after the other on the files of the run before, for any
  codec library that keeps its contract and whose compressed logs can be indexed, if each log gets another
  identifier than the one before; \<open>verify_files_closed\<close> passes then if and only if its two logs have got
  different identifiers.
\<close>

theorem testsystem_outcome:
  assumes lib: "codec_ok lib" and env: "system_env os"
    and fresh: "\<forall>h. lh_file_identifier h = idents 0 \<longrightarrow> old_index os ''test.spi'' h = None"
    and idents: "\<forall>k < 24. idents k \<noteq> idents (Suc k)"
    and fits: "\<forall>(t, blocksize, hashsize, p, d, q) \<in> set test_runs. sparkey_uses_compressor t \<longrightarrow>
      (\<forall>ident. log_can_be_indexed lib t blocksize ident (test_log p d q))"
  shows "\<exists>os'. testsystem_main lib junk idents os = Some (if idents 24 = idents 25 then 1 else 0, os')"
proof -
  have "length test_runs = 24" by (simp add: test_runs_def)
  then obtain os1 where r: "verify_runs lib junk idents 0 test_runs os = Some (0, os1)" "system_env os1"
    using verify_runs_pass [where k = 0 and idents = idents and junk = junk, OF lib test_runs_ok [OF fits] env fresh] idents by auto
  let ?os1 = "os1\<lparr>os_urandom := Some (idents 24)\<rparr>"
  obtain os2 where "verify_files_closed lib junk (idents 25) ?os1 = Some (if idents 24 = idents 25 then 1 else 0, os2)"
    using closed_session [OF lib system_env_index(2,3) [OF r(2)], where ?ident1.0 = "idents 24" and junk = junk and ?ident2.0 = "idents 25"] r(2)
    by (auto simp: system_env_def)
  then show ?thesis using r(1) by (simp add: testsystem_main_def)
qed

theorem testsystem_outcome_witness:
  "\<exists>os'. testsystem_main store_lib undefined (\<lambda>k. of_nat k) fresh_os
    = Some (if (of_nat 24 :: u32) = of_nat 25 then 1 else 0, os')"
proof (rule testsystem_outcome [OF store_lib_codec_ok])
  show "\<forall>k < 24. (of_nat k :: u32) \<noteq> of_nat (Suc k)" by simp
qed (use store_test_runs in \<open>simp_all add: system_env_def fresh_os_def os_calm_def new_name_no_index\<close>)

end
