(* ===== verification/Bench.thy ===== *)
theory Bench
  imports Cli TestText
begin

text \<open>
  The benchmark \<open>src/src/bench.c\<close>: fill a log with numbered entries, index it, and look up random keys. The values
  of \<open>rand()\<close> are a list, one for each lookup; times, file sizes and the texts on \<open>stdout\<close> are not modelled. The result
  is the exit code, which for a failed call of the library is its return code; \<open>None\<close> is a step C does not define.
\<close>

section \<open>Calls of the library\<close>

definition sparkey_assert :: "'a result \<Rightarrow> ('a \<Rightarrow> 'b) \<Rightarrow> ('a \<Rightarrow> (int \<times> 'b) option) \<Rightarrow> (int \<times> 'b) option" where
  "sparkey_assert m f k =
     Option.bind m (\<lambda>(rc, a). if rc \<noteq> SPARKEY_SUCCESS then Some (returncode_value rc, f a) else k a)"

definition sparkey_assert_open ::
  "(sparkey_returncode + 'a) \<times> os \<Rightarrow> (os \<Rightarrow> 'b) \<Rightarrow> ('a \<Rightarrow> os \<Rightarrow> (int \<times> 'b) option) \<Rightarrow> (int \<times> 'b) option" where
  "sparkey_assert_open m f k =
     (case m of (Inl rc, os) \<Rightarrow> Some (returncode_value rc, f os) | (Inr a, os) \<Rightarrow> k a os)"

lemma sparkey_assert_simps [simp]:
  "sparkey_assert None f k = None" "sparkey_assert (Some (SPARKEY_SUCCESS, a)) f k = k a"
  "rc \<noteq> SPARKEY_SUCCESS \<Longrightarrow> sparkey_assert (Some (rc, a)) f k = Some (returncode_value rc, f a)"
  "sparkey_assert_open (Inl rc, os) g l = Some (returncode_value rc, g os)" "sparkey_assert_open (Inr b, os) g l = l b os"
  by (simp_all add: sparkey_assert_def sparkey_assert_open_def)

section \<open>\<open>sparkey_create\<close>\<close>

fun bench_puts :: "codec_lib \<Rightarrow> int list \<Rightarrow> os \<times> sparkey_logwriter \<Rightarrow> (int \<times> os \<times> sparkey_logwriter) option" where
  "bench_puts lib [] s = Some (0, s)"
| "bench_puts lib (i # is) s =
     Option.bind (sprintf_100 (key_text i)) (\<lambda>mykey.
     Option.bind (sprintf_100 (value_text ''value'' i)) (\<lambda>myvalue.
     sparkey_assert (sparkey_logwriter_put lib s mykey myvalue) id (\<lambda>s.
     bench_puts lib is s)))"

definition sparkey_create :: "codec_lib \<Rightarrow> junk_memory \<Rightarrow> os \<Rightarrow> int \<Rightarrow> sparkey_compression_type \<Rightarrow> u32 \<Rightarrow> (int \<times> os) option" where
  "sparkey_create lib junk os n compression_type block_size =
     sparkey_assert_open (sparkey_logwriter_create lib (junk_writer junk) os ''test.spl'' compression_type block_size) id (\<lambda>mywriter os.
     Option.bind (bench_puts lib [0..n - 1] (os, mywriter)) (\<lambda>(rc, s).
     if rc \<noteq> 0 then Some (rc, fst s)
     else
       sparkey_assert (sparkey_logwriter_close lib s) fst (\<lambda>(os, mywriter).
       sparkey_assert
         (sparkey_hash_write lib (junk_hashheader junk) (junk_logreader junk) (junk_iter junk) (junk_iter2 junk)
            (junk_table junk) os ''test.spi'' ''test.spl'' 0) id (\<lambda>os.
       Some (0, os)))))"

section \<open>\<open>sparkey_randomaccess\<close>\<close>

text \<open>
  \<open>rand() % n\<close> for the values of \<open>rand()\<close>, which are not negative: the remainder of a division by the absolute value of
  \<open>n\<close>, which must not be 0.
\<close>

fun random_lookups ::
  "codec_lib \<Rightarrow> int \<Rightarrow> sparkey_hashreader \<Rightarrow> bytes \<Rightarrow> int list \<Rightarrow> sparkey_logiter \<Rightarrow> (int \<times> sparkey_logiter) option" where
  "random_lookups lib n myreader valuebuf [] myiter = Some (0, myiter)"
| "random_lookups lib n myreader valuebuf (rand # rands) myiter =
     (if n = 0 then None
      else
        let r = rand mod \<bar>n\<bar>; logreader = sparkey_hash_getreader myreader in
        Option.bind (sprintf_100 (key_text r)) (\<lambda>mykey.
        Option.bind (sprintf_100 (value_text ''value'' r)) (\<lambda>myvalue.
        sparkey_assert (sparkey_hash_get lib myreader mykey myiter) id (\<lambda>myiter.
        if sparkey_logiter_state myiter \<noteq> SPARKEY_ITER_ACTIVE then Some (1, myiter)
        else
          let wanted_valuelen = sparkey_logiter_valuelen myiter in
          sparkey_assert (sparkey_logiter_fill_value lib myiter logreader wanted_valuelen) snd (\<lambda>(value, myiter).
          Option.bind (copy_to_buffer valuebuf value) (\<lambda>valuebuf.
          if length value \<noteq> length myvalue \<or> take (length value) valuebuf \<noteq> myvalue then Some (1, myiter)
          else random_lookups lib n myreader valuebuf rands myiter))))))"

definition sparkey_randomaccess :: "codec_lib \<Rightarrow> junk_memory \<Rightarrow> os \<Rightarrow> int \<Rightarrow> int list \<Rightarrow> (int \<times> os) option" where
  "sparkey_randomaccess lib junk os n rands =
     sparkey_assert_open (sparkey_hash_open (junk_hashreader junk) os ''test.spi'' ''test.spl'') id (\<lambda>myreader os.
     let logreader = sparkey_hash_getreader myreader in
     sparkey_assert_open (sparkey_logiter_create (junk_iter junk) os logreader) id (\<lambda>myiter os.
     case malloc_bytes junk os (sparkey_logreader_maxvaluelen logreader) of (valuebuf, os) \<Rightarrow>
     Option.bind (random_lookups lib n myreader valuebuf rands myiter) (\<lambda>(rc, myiter). Some (rc, os))))"

section \<open>Candidates\<close>

text \<open>The functions of the three candidates; \<open>sparkey_list\<close> are the files of each.\<close>

datatype candidate = candidate_uncompressed | candidate_snappy | candidate_zstd

fun candidate_create :: "candidate \<Rightarrow> codec_lib \<Rightarrow> junk_memory \<Rightarrow> os \<Rightarrow> int \<Rightarrow> (int \<times> os) option" where
  "candidate_create candidate_uncompressed lib junk os n = sparkey_create lib junk os n SPARKEY_COMPRESSION_NONE 0"
| "candidate_create candidate_snappy lib junk os n = sparkey_create lib junk os n SPARKEY_COMPRESSION_SNAPPY (4 * 1024)"
| "candidate_create candidate_zstd lib junk os n = sparkey_create lib junk os n SPARKEY_COMPRESSION_ZSTD (4 * 1024)"

definition sparkey_list :: "string list" where
  "sparkey_list = [''test.spi'', ''test.spl'']"

text \<open>
  \<open>rm_all_rec\<close> for regular files: a name that is not a directory is removed, and errors are ignored.
\<close>

fun rm_all_rec :: "os \<Rightarrow> string list \<Rightarrow> os" where
  "rm_all_rec os [] = os"
| "rm_all_rec os (filename # files) = rm_all_rec (snd (os_remove os filename)) files"

definition bench_test :: "codec_lib \<Rightarrow> junk_memory \<Rightarrow> os \<Rightarrow> candidate \<Rightarrow> int \<Rightarrow> int list \<Rightarrow> (int \<times> os) option" where
  "bench_test lib junk os c n rands =
     Option.bind (candidate_create c lib junk (rm_all_rec os sparkey_list) n) (\<lambda>(rc, os).
     if rc \<noteq> 0 then Some (rc, os)
     else
       Option.bind (sparkey_randomaccess lib junk os n rands) (\<lambda>(rc, os).
       if rc \<noteq> 0 then Some (rc, os) else Some (0, rm_all_rec os sparkey_list)))"

end
