(* ===== verification/BenchCorrect.thy ===== *)
theory BenchCorrect
  imports Bench SystemTestCorrect
begin

text \<open>The benchmark finds every key it looks up, and leaves no files.\<close>

lemma bench_puts_entries:
  assumes "write_entries lib s (numbered_puts ''value'' is) = Some (SPARKEY_SUCCESS, s')" "\<forall>i \<in> set is. 0 \<le> i \<and> i < 2 ^ 31"
  shows "bench_puts lib is s = Some (0, s')"
  using assms
proof (induction "is" arbitrary: s)
  case (Cons i "is")
  then show ?case
    by (cases "sparkey_logwriter_put lib s (numbered_key i) (numbered_value ''value'' i)")
      (auto simp: numbered_puts_def sprintf_key sprintf_value rethrow_def split: if_splits)
qed (simp add: numbered_puts_def)

lemma bench_log: "0 \<le> n \<Longrightarrow> test_log n 0 0 = numbered_puts ''value'' [0..n - 1]"
  by (simp add: test_log_def numbered_puts_def numbered_deletes_def)

lemma random_lookups_pass:
  assumes rd: "reads_index lib reader M" and ix: "indexes lib (hr_log reader) (hr_header reader) (test_log n 0 0) [] M"
    and num: "0 < n" "n < 2 ^ 31" and buf: "\<forall>i. 0 \<le> i \<and> i < n \<longrightarrow> length (numbered_value ''value'' i) \<le> length valuebuf"
    and "iter_at lib (hr_log reader) iter cur rest"
  shows "\<exists>iter'. random_lookups lib n reader valuebuf rands iter = Some (0, iter')"
  using buf assms(6)
proof (induction rands arbitrary: iter cur rest valuebuf)
  case (Cons rand rands)
  let ?log = "hr_log reader" let ?r = "rand mod n"
  let ?k = "numbered_key ?r" let ?v = "numbered_value ''value'' ?r"
  have ok: "reader_ok lib ?log" using rd by (simp add: reads_index_def)
  have r: "0 \<le> ?r" "?r < n" using num by simp_all
  then have i: "0 \<le> ?r" "?r < 2 ^ 31" using num(2) by linarith+
  have len: "length ?k < 2 ^ 31" using length_numbered_key [OF i] by simp
  have m: "log_map (test_log n 0 0) ?k = Some ?v" using test_log_map [of n 0 0 ?r] r num(1) not_less [of ?r 0] by simp
  obtain iter1 where g: "sparkey_hash_get lib reader ?k iter = Some (SPARKEY_SUCCESS, iter1)"
    and res: "case log_map (test_log n 0 0) ?k of
       None \<Rightarrow> it_state iter1 = SPARKEY_ITER_INVALID \<and> (\<exists>cur rest. iter_at lib ?log iter1 cur rest)
     | Some v \<Rightarrow> \<exists>es'. active lib ?log iter1 (PutEntry ?k v) es' [] v"
    by (rule hash_get_log_map [OF rd ix Cons.prems(2) len])
  obtain es' where a: "active lib ?log iter1 (PutEntry ?k ?v) es' [] ?v" using res m by auto
  have vl: "unat (it_valuelen iter1) = length ?v" using active_lengths(2) [OF a] a by (simp add: active_def)
  obtain iter2 rk where f: "sparkey_logiter_fill_value lib iter1 ?log (it_valuelen iter1)
      = Some (SPARKEY_SUCCESS, take (unat (it_valuelen iter1)) ?v, iter2)"
    "active lib ?log iter2 (PutEntry ?k ?v) es' rk (drop (unat (it_valuelen iter1)) ?v)"
    by (rule fill_value_active [OF ok a])
  obtain cur' rest' where it: "iter_at lib ?log iter2 cur' rest'" using active_iter_at [OF f(2)] by blast
  have "length ?v \<le> length valuebuf" using Cons.prems(1) r by blast
  from copy_to_buffer_fits [OF this] obtain buf' where b: "copy_to_buffer valuebuf ?v = Some buf'" "length buf' = length valuebuf"
    "take (length ?v) buf' = ?v" .
  have "random_lookups lib n reader valuebuf (rand # rands) iter = random_lookups lib n reader buf' rands iter2"
    using g f(1) vl b num(1) sprintf_key [OF i] sprintf_value [OF i, of "''value''"] active_state [OF a]
    by (simp add: Let_def sparkey_logiter_state_def sparkey_logiter_valuelen_def sparkey_hash_getreader_def)
  then show ?case using Cons.IH [OF _ it, of buf'] Cons.prems(1) b(2) by simp
qed simp

text \<open>The conditions for a run: no call fails, and the two files can be removed and created.\<close>

definition bench_env :: "os \<Rightarrow> bool" where
  "bench_env os \<longleftrightarrow>
     os_ready os ''test.spl'' \<and> os_mmap_ok os \<and> os_open_err os ''test.spi'' = None \<and> os_remove_err os ''test.spi'' = None"

lemma bench_removed:
  assumes "os_remove_err os ''test.spi'' = None" "os_remove_err os ''test.spl'' = None"
  shows "\<exists>names. rm_all_rec os sparkey_list = os\<lparr>os_names := names\<rparr> \<and> names ''test.spi'' = None \<and> names ''test.spl'' = None"
proof -
  have "os\<lparr>os_names := os_names os\<rparr> = os" by simp
  then show ?thesis
    using assms unfolding sparkey_list_def
    by (cases "os_names os ''test.spi''"; cases "os_names os ''test.spl''") (auto simp: os_remove_def intro: exI [of _ "os_names os"])
qed

fun candidate_type :: "candidate \<Rightarrow> sparkey_compression_type \<times> u32" where
  "candidate_type candidate_uncompressed = (SPARKEY_COMPRESSION_NONE, 0)"
| "candidate_type candidate_snappy = (SPARKEY_COMPRESSION_SNAPPY, 4096)"
| "candidate_type candidate_zstd = (SPARKEY_COMPRESSION_ZSTD, 4096)"

lemma candidate_create_type:
  "candidate_create c lib junk os n = sparkey_create lib junk os n (fst (candidate_type c)) (snd (candidate_type c))"
  by (cases c) simp_all

text \<open>Creation and index.\<close>

lemma bench_created:
  assumes lib: "codec_ok lib" and env: "index_env os ''test.spi'' ''test.spl''" and ident: "os_urandom os = Some ident"
    and new: "os_names os ''test.spi'' = None" and n: "0 < n" "n < 2 ^ 31"
    and fits: "c \<noteq> candidate_uncompressed \<Longrightarrow>
      log_can_be_indexed lib (fst (candidate_type c)) (snd (candidate_type c)) ident (test_log n 0 0)"
  obtains os' h gs cf reader M iter where "candidate_create c lib junk os n = Some (0, os')"
    "os_mallocs os' = []" "os_remove_err os' = os_remove_err os" "log_file lib h gs cf" "concat gs = test_log n 0 0"
    "sparkey_hash_open (junk_hashreader junk) os' ''test.spi'' ''test.spl'' = (Inr reader, os')"
    "sparkey_logiter_create (junk_iter junk) os' (sparkey_hash_getreader reader) = (Inr iter, os')"
    "reads_index lib reader M" "indexes lib (hr_log reader) (hr_header reader) (test_log n 0 0) [] M"
    "before lib (hr_log reader) iter (test_log n 0 0)" "lr_header (hr_log reader) = h\<lparr>lh_header_size := LOG_HEADER_SIZE\<rparr>"
proof -
  let ?hf = "''test.spi''" let ?lf = "''test.spl''" let ?es = "test_log n 0 0"
  let ?t = "fst (candidate_type c)" let ?n = "snd (candidate_type c)"
  have t: "?t \<le> SPARKEY_COMPRESSION_ZSTD" "sparkey_uses_compressor ?t \<Longrightarrow> \<not> sint ?n < 10"
    by (cases c; simp add: sparkey_uses_compressor_def)+
  have nums: "n + 0 + 0 < 2 ^ 31" "0 \<le> n" using n by simp_all
  note ok = test_log_ok [OF nums(1,2)]
  have es: "\<forall>e \<in> set ?es. entry_ok e \<and> (sparkey_uses_compressor ?t \<longrightarrow> length (entry_head e) \<le> unat ?n)"
    using ok(1) by (cases c) (auto simp: sparkey_uses_compressor_def)
  have can: "log_can_be_indexed lib ?t ?n ident ?es"
  proof (cases "c = candidate_uncompressed")
    case True
    then show ?thesis using ok by (intro plain_can_be_indexed) (auto simp: sparkey_uses_compressor_def)
  qed (rule fits)
  obtain os1 writer s os2 h gs cf where w: "sparkey_logwriter_create lib (junk_writer junk) os ?lf ?t ?n = (Inr writer, os1)"
    "write_entries lib (os1, writer) ?es = Some (SPARKEY_SUCCESS, s)"
    "sparkey_logwriter_close lib s = Some (SPARKEY_SUCCESS, os2, None)"
    and log: "concat gs = ?es" "indexable_file lib h gs cf" "os_indexes os2 ?hf ?lf cf"
    "old_index os2 ?hf (h\<lparr>lh_header_size := LOG_HEADER_SIZE\<rparr>) = None"
    and same: "os_remove_err os2 = os_remove_err os"
    by (rule indexable_session [OF lib env ident t es _ can, of "junk_writer junk"]) (use new_name_no_index [OF new] in auto)
  obtain os3 reader M iter d ws where ix:
    "sparkey_hash_write lib (junk_hashheader junk) (junk_logreader junk) (junk_iter junk) (junk_iter2 junk) (junk_table junk)
       os2 ?hf ?lf 0 = Some (SPARKEY_SUCCESS, os3)"
    "os3 = with_index os2 ?hf d ws" "sparkey_hash_open (junk_hashreader junk) os3 ?hf ?lf = (Inr reader, os3)"
    "sparkey_logiter_create (junk_iter junk) os3 (sparkey_hash_getreader reader) = (Inr iter, os3)"
    "reads_index lib reader M" "indexes lib (hr_log reader) (hr_header reader) (concat gs) [] M"
    "before lib (hr_log reader) iter (concat gs)" "lr_header (hr_log reader) = h\<lparr>lh_header_size := LOG_HEADER_SIZE\<rparr>"
    "list_all write_retryable ws"
    by (rule index_log_session [OF log(2,3,4), where hash_size = 0 and junk = "junk_hashheader junk" and junkr = "junk_logreader junk"
          and junki = "junk_iter junk" and ?junki2.0 = "junk_iter2 junk" and ?junki3.0 = "junk_iter junk" and mem = "junk_table junk"
          and junkh = "junk_hashreader junk"]) auto
  have m: "os_mallocs os3 = []" "os_remove_err os3 = os_remove_err os"
    using log(3) ix(2) same by (simp_all add: os_indexes_def with_index_def)
  have "bench_puts lib [0..n - 1] (os1, writer) = Some (0, s)"
    by (rule bench_puts_entries) (use w(2) bench_log n in auto)
  then have create: "candidate_create c lib junk os n = Some (0, os3)"
    using w(1,3) ix(1) by (simp add: candidate_create_type sparkey_create_def)
  have "log_file lib h gs cf" using log(2) by (simp add: indexable_file_def)
  then show thesis by (rule that [OF create m _ log(1) ix(3-5) ix(6,7) [unfolded log(1)] ix(8)])
qed

section \<open>Properties\<close>

text \<open>
  C25: the benchmark finds what it looks up. For each candidate, any number of elements from 1 on, and any values of
  \<open>rand()\<close>, creation and index succeed, every lookup gives the value that was put, the exit code is 0 and the files
  are gone; a compressed log must be one the loader and the index have room for. Files of earlier runs do no harm.
\<close>

theorem bench_finds_all:
  assumes lib: "codec_ok lib" and env: "bench_env os" and ident: "os_urandom os = Some ident"
    and n: "0 < n" "n < 2 ^ 31"
    and fits: "c \<noteq> candidate_uncompressed \<Longrightarrow>
      log_can_be_indexed lib (fst (candidate_type c)) (snd (candidate_type c)) ident (test_log n 0 0)"
  shows "\<exists>os'. bench_test lib junk os c n rands = Some (0, os')
    \<and> os_names os' ''test.spi'' = None \<and> os_names os' ''test.spl'' = None"
proof -
  let ?hf = "''test.spi''" let ?lf = "''test.spl''"
  have e: "os_ready os ?lf" "os_mmap_ok os" "os_open_err os ?hf = None" "os_remove_err os ?hf = None" "os_remove_err os ?lf = None"
    using env by (simp_all add: bench_env_def os_ready_def)
  obtain names where rm: "rm_all_rec os sparkey_list = os\<lparr>os_names := names\<rparr>" "names ?hf = None" "names ?lf = None"
    using bench_removed [OF e(4,5)] by blast
  let ?os0 = "os\<lparr>os_names := names\<rparr>"
  have env0: "index_env ?os0 ?hf ?lf" "os_urandom ?os0 = Some ident" "os_names ?os0 ?hf = None"
    using e rm(2) ident by (simp_all add: index_env_def os_ready_def os_calm_def)
  obtain os3 h gs cf reader M iter where cr: "candidate_create c lib junk ?os0 n = Some (0, os3)"
    "os_mallocs os3 = []" "os_remove_err os3 = os_remove_err ?os0" "log_file lib h gs cf" "concat gs = test_log n 0 0"
    "sparkey_hash_open (junk_hashreader junk) os3 ?hf ?lf = (Inr reader, os3)"
    "sparkey_logiter_create (junk_iter junk) os3 (sparkey_hash_getreader reader) = (Inr iter, os3)"
    "reads_index lib reader M" "indexes lib (hr_log reader) (hr_header reader) (test_log n 0 0) [] M"
    "before lib (hr_log reader) iter (test_log n 0 0)" "lr_header (hr_log reader) = h\<lparr>lh_header_size := LOG_HEADER_SIZE\<rparr>"
    by (rule bench_created [OF lib env0 n fits, where junk = junk])
  let ?vb = "map (junk_bytes junk) [0..<unat (lh_max_value_len h)]"
  have vb: "malloc_bytes junk os3 (sparkey_logreader_maxvaluelen (hr_log reader)) = (?vb, os3)"
    using cr(2,11) by (simp add: malloc_bytes_def os_malloc_def sparkey_logreader_maxvaluelen_def)
  have "length (numbered_value ''value'' i) \<le> length ?vb" if "0 \<le> i \<and> i < n" for i
  proof -
    have "PutEntry (numbered_key i) (numbered_value ''value'' i) \<in> set (concat gs)"
      using that unfolding cr(5) using bench_log [of n] by (auto simp: numbered_puts_def)
    then show ?thesis using log_value_length [OF cr(4)] by fastforce
  qed
  moreover obtain cur rest where "iter_at lib (hr_log reader) iter cur rest" using before_iter_at [OF cr(10)] by blast
  ultimately obtain iter' where "random_lookups lib n reader ?vb rands iter = Some (0, iter')"
    using random_lookups_pass [OF cr(8,9) n] by blast
  then have "sparkey_randomaccess lib junk os3 n rands = Some (0, os3)"
    using cr(6,7) vb by (simp add: sparkey_randomaccess_def sparkey_hash_getreader_def Let_def)
  then have "bench_test lib junk os c n rands = Some (0, rm_all_rec os3 sparkey_list)"
    using cr(1) by (simp add: bench_test_def rm(1))
  then show ?thesis using bench_removed [of os3] cr(3) e(4,5) by auto
qed

theorem bench_finds_all_witness:
  "\<exists>os'. bench_test store_lib undefined fresh_os candidate_uncompressed 1000 [5, 12345678, 999] = Some (0, os')
    \<and> os_names os' ''test.spi'' = None \<and> os_names os' ''test.spl'' = None"
  by (rule bench_finds_all [OF store_lib_codec_ok, where ident = "0x12345678"])
    (simp_all add: bench_env_def fresh_os_def os_ready_def os_calm_def)

end
