(* ===== verification/UnitTests.thy ===== *)
theory UnitTests
  imports SystemTest CliRewrite
begin

text \<open>
  The unit tests \<open>src/src/testutil.c\<close> and \<open>src/src/testvlq.c\<close>. As in the system test the result is the exit code;
  \<open>None\<close> is a step that C does not define.
\<close>

section \<open>\<open>testutil.c\<close>\<close>

definition testutil_assert_equals :: "string option \<Rightarrow> string option \<Rightarrow> (int \<times> unit) option" where
  "testutil_assert_equals expected actual =
     (case (expected, actual) of
        (None, Some a) \<Rightarrow> Some (1, ())
      | (Some e, None) \<Rightarrow> Some (1, ())
      | (Some e, Some a) \<Rightarrow> Some (if e \<noteq> a then 1 else 0, ())
      | (None, None) \<Rightarrow> Some (0, ()))"

definition testutil_main :: "(int \<times> unit) option" where
  "testutil_main =
     go_on (testutil_assert_equals None (sparkey_create_log_filename True None)) id (\<lambda>_.
     go_on (testutil_assert_equals None (sparkey_create_log_filename True (Some ''''))) id (\<lambda>_.
     go_on (testutil_assert_equals None (sparkey_create_log_filename True (Some ''spi''))) id (\<lambda>_.
     go_on (testutil_assert_equals (Some ''.spl'') (sparkey_create_log_filename True (Some ''.spi''))) id (\<lambda>_.
     go_on (testutil_assert_equals None (sparkey_create_log_filename True (Some ''.spx''))) id (\<lambda>_.
     go_on (testutil_assert_equals (Some ''foo.spl'') (sparkey_create_log_filename True (Some ''foo.spi''))) id (\<lambda>_.
     Some (0, ())))))))"

section \<open>\<open>testvlq.c\<close>\<close>

text \<open>\<open>1 << i\<close> is a shift of an \<open>int\<close>: it has a value as long as the result is one.\<close>

definition shift_one :: "int \<Rightarrow> int option" where
  "shift_one i = (if 0 \<le> i \<and> i < 31 then Some (2 ^ nat i) else None)"

text \<open>The two asserted \<open>int64_t\<close> values are equal when their 64 bits are.\<close>

definition vlq_case :: "bytes \<Rightarrow> int \<Rightarrow> (int \<times> bytes) option" where
  "vlq_case buf val =
     (if val \<ge> 0 then
        let vlq = write_vlq (word_of_int val); written = of_nat (length vlq) :: u64 in
        Option.bind (copy_to_buffer buf vlq) (\<lambda>buf.
        Option.bind (read_vlq buf 0) (\<lambda>(val2, pos).
        go_on (assert_equals written pos buf) id (\<lambda>buf.
        assert_equals (word_of_int val) val2 buf)))
      else Some (0, buf))"

fun vlq_loop :: "(int \<times> int) list \<Rightarrow> bytes \<Rightarrow> (int \<times> bytes) option" where
  "vlq_loop [] buf = Some (0, buf)"
| "vlq_loop ((i, j) # ijs) buf = Option.bind (shift_one i) (\<lambda>b. go_on (vlq_case buf (b + j)) id (vlq_loop ijs))"

fun vlq_sizes :: "(u64 \<times> u64) list \<Rightarrow> bytes \<Rightarrow> (int \<times> bytes) option" where
  "vlq_sizes [] buf = Some (0, buf)"
| "vlq_sizes ((expected, value) # vs) buf =
     (let vlq = write_vlq value in
      Option.bind (copy_to_buffer buf vlq) (\<lambda>buf.
      go_on (assert_equals expected (of_nat (length vlq)) buf) id (vlq_sizes vs)))"

definition expected_vlq_sizes :: "(u64 \<times> u64) list" where
  "expected_vlq_sizes = [(1, 0), (1, 127), (2, 128), (2, 16383), (3, 16384), (3, 2097151), (4, 2097152)]"

definition testvlq_main :: "bytes \<Rightarrow> (int \<times> bytes) option" where
  "testvlq_main buf = go_on (vlq_loop (List.product [0..59] [-10..9]) buf) id (vlq_sizes expected_vlq_sizes)"

lemma vlq_case_passes:
  assumes "length buf = 20"
  obtains buf' where "vlq_case buf val = Some (0, buf')" "length buf' = 20"
proof (cases "val \<ge> 0")
  case True
  let ?vlq = "write_vlq (word_of_int val)"
  have "length ?vlq \<le> length buf" using assms length_write_vlq_le [of "word_of_int val"] by simp
  from copy_to_buffer_fits [OF this] obtain buf'
    where buf': "copy_to_buffer buf ?vlq = Some buf'" "length buf' = length buf" "take (length ?vlq) buf' = ?vlq" .
  have "drop (unat (0 :: u64)) buf' = ?vlq @ drop (length ?vlq) buf'"
    using buf'(3) append_take_drop_id [of "length ?vlq" buf'] by simp
  then have "read_vlq buf' 0 = Some (word_of_int val, 0 + of_nat (length ?vlq))"
    by (rule read_vlq_at) (use buf'(2) assms in simp_all)
  then show thesis using that [of buf'] True buf' assms by (simp add: vlq_case_def assert_equals_def)
qed (use that [of buf] assms in \<open>simp add: vlq_case_def\<close>)

lemma vlq_loop_passes:
  assumes "length buf = 20" "\<forall>(i, j) \<in> set ijs. shift_one i \<noteq> None"
  obtains buf' where "vlq_loop ijs buf = Some (0, buf')" "length buf' = 20"
  using assms
proof (induction ijs arbitrary: buf thesis)
  case (Cons ij ijs)
  obtain i j where ij: "ij = (i, j)" by (cases ij)
  then obtain b where b: "shift_one i = Some b" using Cons.prems(3) by auto
  obtain buf1 where buf1: "vlq_case buf (b + j) = Some (0, buf1)" "length buf1 = 20"
    by (rule vlq_case_passes [OF Cons.prems(2)])
  have "\<forall>(i, j) \<in> set ijs. shift_one i \<noteq> None" using Cons.prems(3) by auto
  from Cons.IH [OF _ buf1(2) this] obtain buf' where "vlq_loop ijs buf1 = Some (0, buf')" "length buf' = 20" by blast
  then show ?case using Cons.prems(1) by (simp add: ij b buf1(1))
qed simp

lemma vlq_sizes_pass:
  assumes "length buf = 20" "\<forall>(n, v) \<in> set vs. n = unsigned_vlq_size v"
  shows "\<exists>buf'. vlq_sizes vs buf = Some (0, buf')"
  using assms
proof (induction vs arbitrary: buf)
  case (Cons nv vs)
  obtain n v where nv: "nv = (n, v)" by (cases nv)
  have "length (write_vlq v) \<le> length buf" using Cons.prems(1) length_write_vlq_le [of v] by simp
  from copy_to_buffer_fits [OF this] obtain buf' where "copy_to_buffer buf (write_vlq v) = Some buf'" "length buf' = length buf" .
  then show ?case using Cons by (simp add: nv assert_equals_def length_write_vlq)
qed simp

lemma vlq_loop_append:
  "vlq_loop (xs @ ys) buf = go_on (vlq_loop xs buf) id (vlq_loop ys)"
proof (induction xs arbitrary: buf)
  case (Cons x xs)
  obtain i j where x: "x = (i, j)" by (cases x)
  show ?case
  proof (cases "shift_one i")
    case (Some b)
    then show ?thesis using Cons by (cases "vlq_case buf (b + j)") (auto simp: x go_on_def)
  qed (simp add: x)
qed simp

section \<open>Properties\<close>

text \<open>
  What \<open>testvlq\<close> tests. Every number from 0 on is written and read back (here for all \<open>2^63\<close> of them), the sizes
  at the end are right, and the iterations with a shift of at most 30 pass; but \<open>1 << i\<close> is an \<open>int\<close>, so
  with \<open>i = 31\<close> the test has no defined outcome, and no number of more than 31 bits is tested.
\<close>

theorem testvlq_outcome:
  assumes "length buf = 20"
  shows "(\<forall>val. 0 \<le> val \<and> val < 2 ^ 63 \<longrightarrow> (\<exists>buf'. vlq_case buf val = Some (0, buf')))
    \<and> (\<exists>buf'. vlq_loop (List.product [0..30] [-10..9]) buf = Some (0, buf'))
    \<and> (\<exists>buf'. vlq_sizes expected_vlq_sizes buf = Some (0, buf'))
    \<and> testvlq_main buf = None"
proof -
  obtain buf' where loop: "vlq_loop (List.product [0..30] [-10..9]) buf = Some (0, buf')" "length buf' = 20"
    by (rule vlq_loop_passes [OF assms]) (auto simp: shift_one_def)
  have "[0..59] = [0..30] @ [31..(59::int)]" using upto_split2 [of 0 30 59] by simp
  moreover have "List.product (xs @ ys) zs = List.product xs zs @ List.product ys zs" for xs ys zs :: "int list"
    by (induction xs) simp_all
  moreover have "List.product [31..59] [-10..9] = (31, -10) # tl (List.product [31..59] [-10..(9::int)])"
    by (simp add: upto_rec1 [of 31] upto_rec1 [of "-10"])
  ultimately have pairs: "List.product [0..59] [-10..9]
      = List.product [0..30] [-10..9] @ (31, -10) # tl (List.product [31..59] [-10..(9::int)])" by simp
  have "testvlq_main buf = None"
    unfolding testvlq_main_def pairs vlq_loop_append loop(1) by (simp add: shift_one_def)
  moreover have "\<exists>buf'. vlq_sizes expected_vlq_sizes buf = Some (0, buf')"
    by (rule vlq_sizes_pass [OF assms]) (simp add: expected_vlq_sizes_def unsigned_vlq_size_def)
  moreover have "\<exists>buf'. vlq_case buf val = Some (0, buf')" for val by (rule vlq_case_passes [OF assms]) blast
  ultimately show ?thesis using loop(1) by blast
qed

theorem testvlq_outcome_witness:
  "(\<forall>val. 0 \<le> val \<and> val < 2 ^ 63 \<longrightarrow> (\<exists>buf'. vlq_case (replicate 20 0) val = Some (0, buf')))
    \<and> (\<exists>buf'. vlq_loop (List.product [0..30] [-10..9]) (replicate 20 0) = Some (0, buf'))
    \<and> (\<exists>buf'. vlq_sizes expected_vlq_sizes (replicate 20 0) = Some (0, buf'))
    \<and> testvlq_main (replicate 20 0) = None"
  by (rule testvlq_outcome) simp

text \<open>\<open>testutil\<close> passes: the names of the logs of six index names are as expected.\<close>

theorem testutil_passes: "testutil_main = Some (0, ())"
  by (simp add: testutil_main_def testutil_assert_equals_def sparkey_create_log_filename_def create_filename_def)

end
