(* ===== verification/Spec2Isabelle.thy ===== *)
theory Spec2Isabelle
  imports IndexSafety IndexAppend CliRewrite CliInfo SystemTestMain BenchCorrect UnitTests
begin

text \<open>
  Verification of sparkey, a constant key/value store: the C library, its command line tool, and its
  system test and benchmark, under \<open>src/src\<close>.

  \<^bold>\<open>The program.\<close> A \<^emph>\<open>log\<close> file (\<open>.spl\<close>) is a header and a sequence of put and delete entries, plain or in
  compressed blocks; it can only grow. An \<^emph>\<open>index\<close> file (\<open>.spi\<close>) is a header and an open addressing hash table with
  Robin Hood displacement, from the hash of a live key to the place of its last put in the log. The
  writer (\<open>logwriter.c\<close>) creates and extends logs, \<open>sparkey_hash_write\<close> (\<open>hashwriter.c\<close>) reads a log and
  makes or updates its index, readers map both files and look keys up or iterate (\<open>hashreader.c\<close>,
  \<open>logreader.c\<close>), and \<open>main.c\<close> offers all that as commands.

  \<^bold>\<open>The model.\<close> Each theory follows one source file; functions and types keep their names. Machine integers are
  words of their width (an \<open>int\<close> is a 32 bit word read with \<open>sint\<close>), byte arrays and mapped files are
  lists of bytes, structs are records. A function that returns a \<open>sparkey_returncode\<close> has a result with the code
  and the state it leaves, also on errors; \<open>None\<close> stands for no defined outcome, which is a loop that never ends or
  an access outside the memory the code owns. \<open>RETHROW\<close> and \<open>TRY\<close> are the combinators \<open>rethrow\<close>,
  \<open>rethrow_sum\<close> and \<open>try_os\<close>. The operating system (\<open>Os\<close>) is explicit state: names, inodes, and scripts that
  decide which calls fail, are interrupted or are cut short. Memory from \<open>malloc\<close> has arbitrary contents, the
  parameters called \<open>junk\<close> and \<open>mem\<close>. The snappy and zstd libraries are a parameter \<open>codec_lib\<close>, with the
  hypothesis \<open>codec_ok\<close> that a compressed block fits into the documented bound and decompresses to itself; \<open>store_lib\<close> is
  an instance. \<open>getopt\<close>, \<open>sscanf\<close> and the text of a quotient of doubles are the parameter \<open>libc\<close>.

  \<^bold>\<open>Theories of the code.\<close>
  \<^item> \<open>Prelude\<close>: words, lists, the collections of lemmas. \<open>Returncodes\<close>: \<open>returncodes.c\<close>, \<open>util.c\<close>, \<open>util.h\<close>. \<open>Os\<close>: the
    calls of the operating system.
  \<^item> \<open>Endian\<close>: \<open>endiantools.c\<close>. \<open>Vlq\<close>: variable length numbers. \<open>Buf\<close>: \<open>buf.c\<close>. \<open>Compress\<close>: \<open>compress.c\<close>. \<open>Murmur\<close>:
    \<open>MurmurHash3.c\<close>.
  \<^item> \<open>LogHeader\<close>, \<open>LogWriter\<close>, \<open>LogReader\<close>: \<open>logheader.c\<close>, \<open>logwriter.c\<close>, \<open>logreader.c\<close>.
  \<^item> \<open>HashHeader\<close>, \<open>HashIter\<close>, \<open>HashWriter\<close> with \<open>HashBuild\<close>, \<open>HashReader\<close>: \<open>hashheader.c\<close> and
    \<open>hashalgorithms.c\<close>, \<open>hashiter.c\<close>, \<open>hashwriter.c\<close>, \<open>hashreader.c\<close>.
  \<^item> \<open>CliText\<close>, \<open>Cli\<close>: the text input of \<open>main.c\<close> down to \<open>fgets\<close> and \<open>strtok\<close>, and its commands.
    \<open>Text\<close> is what \<open>printf\<close> makes of numbers, \<open>HeaderText\<close> what \<open>print_logheader\<close> and \<open>print_hashheader\<close> print.
  \<^item> The drivers: \<open>TestText\<close> and \<open>SystemTest\<close> are \<open>testsystem.c\<close>, \<open>Bench\<close> is \<open>bench.c\<close>, \<open>UnitTests\<close> is \<open>testutil.c\<close> and
    \<open>testvlq.c\<close> with their proofs. An assertion that fails is an exit code.

  \<^bold>\<open>Theories of the proofs.\<close>
  \<^item> Logs. \<open>LogFormat\<close> is the abstract specification: entries, their encoding, how they are grouped into blocks,
    and \<open>log_file\<close>, which says that some bytes are a log of given entries. \<open>LogWriterCorrect\<close> and \<open>LogWriterFile\<close> show
    that the writer refines it through the contract \<open>byte_sink\<close> of the write buffers; \<open>LogReaderCorrect\<close>,
    \<open>LogIterate\<close>, \<open>LogChunks\<close> and \<open>LogReadBack\<close> show that iterators deliver the entries, in whatever chunks,
    and how seek, skip, reset and comparison behave. \<open>LogLayout\<close> (a log determines its groups) and \<open>LogGrow\<close> (appending
    keeps every address) serve the index.
  \<^item> The table. \<open>RobinHood\<close> is the invariant of an abstract table and its search, insertion and deletion; \<open>HashTable\<close>
    shows that the bytes are an array of slots; the locale \<open>slot_store\<close> of \<open>HashSlots\<close> connects both.
  \<^item> The index. \<open>HashIndex\<close> says what a table with its log means, a map from keys to addresses; \<open>HashIndexOps\<close> and
    \<open>HashLookup\<close> show that put, delete and get act on this map; \<open>IndexBuild\<close>, \<open>IndexHeader\<close>, \<open>IndexStats\<close>,
    \<open>IndexFile\<close> follow \<open>sparkey_hash_write\<close> to the file on disk; \<open>HashCopy\<close> and \<open>IndexGrow\<close> do so for the
    update of an older index; \<open>IndexIterate\<close> is the iteration over live entries.
  \<^item> Properties of the index: \<open>IndexProperties\<close> (lookups and iteration), \<open>IndexUpdate\<close> (updates, and where they have
    no result), \<open>IndexAppend\<close> (index, append, index again), \<open>IndexLaws\<close> (single operations, bounds), \<open>IndexLoops\<close>
    (termination), \<open>IndexSafety\<close> (reads inside the mapping).
  \<^item> The tool: \<open>CliLines\<close> and \<open>CliAppend\<close> (lines become puts), \<open>CliGet\<close> (a value is printed), \<open>CliInfo\<close>
    (the numbers \<open>info\<close> prints are those of the log), \<open>CliRewrite\<close>.
  \<^item> The drivers: \<open>NewLog\<close> puts a writing session, indexing and opening together; \<open>StoredLog\<close> shows that logs of a codec
    that does not compress can be indexed, for the witnesses; \<open>TestEntries\<close> is the log the test programs write and its
    live entries; \<open>SystemTestCorrect\<close> (every assertion of \<open>verify\<close> holds), \<open>FilesClosed\<close> (an index does not open
    with another log), \<open>SystemTestMain\<close> (all runs, one on the files of the other) and \<open>BenchCorrect\<close> (every lookup
    succeeds) show that the programs exit with 0.

  \<^bold>\<open>Bounds and termination.\<close> No fuel is used: loops are structural or measured recursion where they always end, and
  \<open>partial_function (option)\<close> otherwise, with theorems that they return. Files are shorter than \<open>2 ^ 63\<close> bytes
  and keys of an index shorter than \<open>2 ^ 31\<close>, since their length becomes an \<open>int\<close>. \<open>log_loadable\<close> and
  \<open>log_indexable\<close> say when a log passes the checks of the loader and its addresses and its number of puts fit; the
  input of \<open>appendlog\<close> has lines of at most \<open>2 ^ 28\<close> bytes, the capacity beyond which the tool reads nothing more
  (\<open>CliAppend\<close> also shows what becomes of the input after a longer line).

  The scripts of the operating system are finite, and every later call succeeds. So a kernel that answers \<open>write\<close>
  with \<open>EINTR\<close>, \<open>EAGAIN\<close> or 0 for ever cannot be expressed: the loop of \<open>_write_full\<close> in \<open>endiantools.c\<close> does not end
  then, while \<open>write_full_step\<close> always does. Theorems about writes hold for any number of such answers, and those that
  promise success need \<open>os_calm\<close> or \<open>os_ready\<close>, a script without other errors. \<open>read_fully\<close>, whose loop can
  meet the end of a file for ever, is a \<open>partial_function\<close>, and \<open>IndexLoops\<close> says when it returns.

  The runs of \<open>testsystem.c\<close> need identifiers that differ from one log to the next; they are random, so the
  test can fail by chance. For a compressed log the drivers need that it can be indexed (\<open>log_can_be_indexed\<close>),
  which the loader does not grant to logs that are compressed below one byte for each entry.

  \<^bold>\<open>Not modelled.\<close> Messages on \<open>stderr\<close> and the usage texts of \<open>main.c\<close>; freeing memory beyond the pointer becoming
  \<open>NULL\<close>; failures of \<open>close\<close>; the big endian branch of \<open>endiantools.c\<close>; other processes that change a mapped file;
  in \<open>bench.c\<close> the times, file sizes and directories; and the list of 450 test vectors of \<open>testhash.c\<close>, whose evaluation in
  the kernel takes about an hour (\<open>Murmur\<close> has some of them, one for each way through the functions).
\<close>

end
